(* ===== verification/Prelude.thy ===== *)
theory Prelude
  imports "HOL-Library.Word"
begin

text \<open>
  Shared vocabulary of the development.

  \<^item> Names for the C types of \<^verbatim>\<open>types.h\<close> and \<^verbatim>\<open>common.h\<close> (unsigned machine integers are
    words of their width, so that \<open>+\<close>, \<open>-\<close> and \<open>*\<close> wrap as they do on the i386 target).
  \<^item> The error values: a read or a write outside of an array is undefined behaviour in C and the
    value \<open>Inl Out_of_bounds\<close> here, so that \<open>Inr\<close> says that every access of a routine was inside
    of its array.
  \<^item> Checked array access (\<open>rd\<close>, \<open>wr\<close>), sequencing of fallible steps (\<open>and_then\<close>), and the generic
    lemmas on words, bits and lists that the components share.
\<close>

unbundle bit_operations_syntax

section \<open>Machine integers\<close>

type_synonym u8 = "8 word"
type_synonym u16 = "16 word"
type_synonym u32 = "32 word"
type_synonym u64 = "64 word"

section \<open>Faults and checked array access\<close>

datatype fault = Out_of_bounds | Division_by_zero | Null_pointer | Page_fault | Not_representable | Unsequenced | Misaligned

type_synonym 'a result = "fault + 'a"

definition and_then :: "'a result \<Rightarrow> ('a \<Rightarrow> 'b result) \<Rightarrow> 'b result" where
  "and_then r k = (case r of Inl e \<Rightarrow> Inl e | Inr x \<Rightarrow> k x)"

definition rd :: "'a list \<Rightarrow> nat \<Rightarrow> 'a result" where
  "rd xs i = (if i < length xs then Inr (xs ! i) else Inl Out_of_bounds)"

definition wr :: "'a list \<Rightarrow> nat \<Rightarrow> 'a \<Rightarrow> 'a list result" where
  "wr xs i x = (if i < length xs then Inr (xs[i := x]) else Inl Out_of_bounds)"

named_theorems mem_simps \<open>evaluation of checked accesses and of their sequencing\<close>

lemma and_then_cong [fundef_cong]:
  "r = r' \<Longrightarrow> (\<And>x. r' = Inr x \<Longrightarrow> k x = k' x) \<Longrightarrow> and_then r k = and_then r' k'"
  by (cases r') (auto simp: and_then_def)

named_theorems word_nat \<open>words read as natural numbers\<close>

lemma and_then_Inl [simp, mem_simps]: "and_then (Inl e) k = Inl e"
  by (simp add: and_then_def)

lemma and_then_Inr [simp, mem_simps]: "and_then (Inr x) k = k x"
  by (simp add: and_then_def)

lemma and_then_eq_Inr [mem_simps]:
  "and_then r k = Inr y \<longleftrightarrow> (\<exists>x. r = Inr x \<and> k x = Inr y)"
  by (cases r) auto

lemma and_then_eq_Inl:
  "and_then r k = Inl e \<longleftrightarrow> r = Inl e \<or> (\<exists>x. r = Inr x \<and> k x = Inl e)"
  by (cases r) auto

lemma rd_in [simp, mem_simps]: "i < length xs \<Longrightarrow> rd xs i = Inr (xs ! i)"
  by (simp add: rd_def)

lemma rd_out [simp, mem_simps]: "\<not> i < length xs \<Longrightarrow> rd xs i = Inl Out_of_bounds"
  by (simp add: rd_def)

lemma wr_in [simp, mem_simps]: "i < length xs \<Longrightarrow> wr xs i x = Inr (xs[i := x])"
  by (simp add: wr_def)

lemma wr_out [simp, mem_simps]: "\<not> i < length xs \<Longrightarrow> wr xs i x = Inl Out_of_bounds"
  by (simp add: wr_def)

lemma rd_eq_Inr [mem_simps]: "rd xs i = Inr x \<longleftrightarrow> i < length xs \<and> x = xs ! i"
  by (auto simp: rd_def)

lemma wr_eq_Inr [mem_simps]: "wr xs i x = Inr ys \<longleftrightarrow> i < length xs \<and> ys = xs[i := x]"
  by (auto simp: wr_def)

section \<open>Calls that may not return\<close>

text \<open>
  A routine that calls one that may run forever, or loops until a condition that may never hold, has
  the type \<open>'a result option\<close>: \<open>None\<close> where it does not return.
\<close>

definition and_run :: "'a result option \<Rightarrow> ('a \<Rightarrow> 'b result option) \<Rightarrow> 'b result option" where
  "and_run r k = Option.bind r (\<lambda>x. case x of Inl e \<Rightarrow> Some (Inl e) | Inr y \<Rightarrow> k y)"

lemma and_run_simps [simp]:
  "and_run None k = None" "and_run (Some (Inl e)) k = Some (Inl e)" "and_run (Some (Inr x)) k = k x"
  by (simp_all add: and_run_def)

lemma and_run_cong [fundef_cong]:
  "r = r' \<Longrightarrow> (\<And>x. r' = Some (Inr x) \<Longrightarrow> k x = k' x) \<Longrightarrow> and_run r k = and_run r' k'"
  by (cases r'; cases "the r'") (auto simp: and_run_def)

lemma and_run_mono [partial_function_mono]:
  assumes "mono_option (\<lambda>f. r f)" "\<And>y. mono_option (\<lambda>f. k f y)"
  shows "mono_option (\<lambda>f. and_run (r f) (k f))"
  unfolding and_run_def
proof (rule bind_mono [OF assms(1)])
  show "mono_option (\<lambda>f. case y of Inl e \<Rightarrow> Some (Inl e) | Inr x \<Rightarrow> k f x)" for y
    using assms(2) by (cases y) (simp_all add: option.const_mono)
qed

text \<open>A message handed to \<^verbatim>\<open>k_printf\<close>: the format and the arguments.\<close>

type_synonym message = "string \<times> u32 list"

section \<open>Words as natural numbers\<close>

lemma unat_plus_no_wrap [word_nat]:
  fixes a b :: "'a::len word"
  assumes "unat a + unat b < 2 ^ LENGTH('a)"
  shows "unat (a + b) = unat a + unat b"
  using assms by (simp add: unat_word_ariths)

lemma unat_minus_no_wrap [word_nat]:
  fixes a b :: "'a::len word"
  assumes "unat b \<le> unat a"
  shows "unat (a - b) = unat a - unat b"
  using assms by (simp add: unat_sub word_le_nat_alt)

lemma unat_pos [word_nat]: "a \<noteq> 0 \<Longrightarrow> 0 < unat (a :: 'a::len word)"
  by (simp add: unat_gt_0)

lemma unat_pred [word_nat]:
  fixes a :: "'a::len word"
  assumes "a \<noteq> 0"
  shows "unat (a - 1) = unat a - 1"
  using unat_pos [OF assms] unat_minus_no_wrap [of 1 a] by simp

lemma unat_pred_less:
  fixes a b :: "'a::len word"
  assumes "unat b < unat a"
  shows "unat (a - 1) < unat a"
proof -
  have "a \<noteq> 0" using assms by auto
  then show ?thesis using unat_pred [of a] unat_pos [of a] by simp
qed

lemma unat_bound: "unat (a :: 'a::len word) < 2 ^ LENGTH('a)"
  by (rule unsigned_less)

lemma word_eq_unat: "a = b \<longleftrightarrow> unat a = unat b"
  by (simp add: word_unat_eq_iff)

lemma u32_in_u64: "unat (ucast (x :: u32) :: u64) = unat x"
  using unat_bound [of x] by (simp add: unsigned_ucast_eq take_bit_nat_eq_self)

lemmas word_ord_nat = word_less_nat_alt word_le_nat_alt

section \<open>Single bits of a word\<close>

text \<open>
  The shift \<^verbatim>\<open>1 << n\<close> of the code is \<open>push_bit n 1\<close>; the simplifier's normal form of that word is
  \<open>2 ^ n\<close>, so the lemmas are stated over it.
\<close>

lemma bit_single:
  "bit (2 ^ n :: 'a::len word) k \<longleftrightarrow> k = n \<and> n < LENGTH('a)"
  by (auto simp: bit_exp_iff dest: bit_imp_le_length)

lemma bit_or_single:
  "n < LENGTH('a) \<Longrightarrow> bit (x OR 2 ^ n :: 'a::len word) k \<longleftrightarrow> bit x k \<or> k = n"
  by (auto simp: bit_or_iff bit_single)

lemma bit_and_not_single:
  "bit (x AND NOT (2 ^ n) :: 'a::len word) k \<longleftrightarrow> bit x k \<and> k \<noteq> n"
  by (auto simp: bit_and_iff bit_not_iff bit_single dest: bit_imp_le_length)

lemma bit_xor_single:
  "n < LENGTH('a) \<Longrightarrow> bit (x XOR 2 ^ n :: 'a::len word) k \<longleftrightarrow> bit x k \<noteq> (k = n)"
  by (auto simp: bit_xor_iff bit_single)

lemma and_single_eq_0:
  "x AND 2 ^ n = (0 :: 'a::len word) \<longleftrightarrow> \<not> bit x n"
proof
  assume "x AND 2 ^ n = 0"
  then have "\<not> bit (x AND 2 ^ n) n" by simp
  then show "\<not> bit x n" by (auto simp: bit_and_iff bit_single dest: bit_imp_le_length)
next
  assume "\<not> bit x n"
  then show "x AND 2 ^ n = 0"
    by (auto intro!: bit_word_eqI simp: bit_and_iff bit_single)
qed

lemma and_single_pos:
  "0 < x AND (2 ^ n :: 'a::len word) \<longleftrightarrow> bit x n"
  using and_single_eq_0 [of x n] by (simp add: word_gt_0)

section \<open>Fields of a word\<close>

text \<open>The masks the code selects fields with, and the bits of a field.\<close>

named_theorems field_bits \<open>bits of masked, shifted and converted words\<close>

lemma mask_numerals [field_bits]:
  "(0x0F :: 'a::len word) = mask 4" "(0xFF :: 'a word) = mask 8" "(0xFFF :: 'a word) = mask 12"
  "(0xFFFF :: 'a word) = mask 16" "(0xFFFFF :: 'a word) = mask 20" "(0xF0 :: 'a word) = push_bit 4 (mask 4)"
  by (simp_all add: mask_eq_exp_minus_1 push_bit_eq_mult)

lemmas [field_bits] = bit_or_iff bit_and_iff bit_not_iff bit_mask_iff bit_push_bit_iff bit_drop_bit_eq
  bit_ucast_iff

end
