(* ===== verification/Bitmap.thy ===== *)
theory Bitmap
  imports Prelude
begin

text \<open>
  The bitmap of physical page frames (\<^verbatim>\<open>bitmap.c\<close>, \<^verbatim>\<open>bitmap.h\<close>): one bit per 4 KB frame, the most
  significant bit of element \<open>i\<close> being frame \<open>32 * i\<close>.

  Every routine takes the array and its declared element count, as in C; the array is a list of
  32-bit words and an access outside of it is \<open>Inl Out_of_bounds\<close>. \<open>frame_used\<close> and \<open>used_frames\<close>
  are the abstraction: the set of frames marked used. The lemmas give each routine's effect on that
  set, and the locale \<open>frame_pool\<close> is the interface that the paging code relies on.
\<close>

section \<open>The routines\<close>

definition BITMAP_SIZE_FOR_MB :: u32 where
  "BITMAP_SIZE_FOR_MB = 200"

definition FRAME_AMOUNT :: u32 where
  "FRAME_AMOUNT = BITMAP_SIZE_FOR_MB * 1024 div 4"

definition BITMAP_ELEMENT_COUNT :: u32 where
  "BITMAP_ELEMENT_COUNT = FRAME_AMOUNT div 32 + 1"

function reset_loop :: "u32 list \<Rightarrow> nat \<Rightarrow> nat \<Rightarrow> u32 list result" where
  "reset_loop bitmap i n =
     (if i < n then and_then (wr bitmap i 0) (\<lambda>bitmap'. reset_loop bitmap' (Suc i) n)
      else Inr bitmap)"
  by pat_completeness auto
termination by (relation "measure (\<lambda>(bitmap, i, n). n - i)") auto

definition reset_bitmap :: "u32 list \<Rightarrow> u32 \<Rightarrow> u32 list result" where
  "reset_bitmap bitmap elements_in_array = reset_loop bitmap 0 (unat elements_in_array)"

text \<open>\<^verbatim>\<open>set()\<close>: the guard compares with \<open><\<close>, so an element index equal to the count passes it.\<close>

definition bitmap_set :: "u32 list \<Rightarrow> u32 \<Rightarrow> u32 \<Rightarrow> u32 \<Rightarrow> (int \<times> u32 list) result" where
  "bitmap_set bitmap elements_in_array frame_index value =
     (let element = frame_index div 32 in
      if elements_in_array < element then Inr (- 1, bitmap)
      else
        let bit_index = 31 - frame_index mod 32 in
        and_then (rd bitmap (unat element)) (\<lambda>w.
        and_then (wr bitmap (unat element)
                    (if value \<noteq> 0 then w OR push_bit (unat bit_index) 1
                     else w AND NOT (push_bit (unat bit_index) 1))) (\<lambda>bitmap'.
        Inr (0, bitmap'))))"

definition bitmap_get :: "u32 list \<Rightarrow> u32 \<Rightarrow> u32 \<Rightarrow> int result" where
  "bitmap_get bitmap elements_in_array frame_index =
     (let element = frame_index div 32 in
      if elements_in_array < element then Inr (- 1)
      else
        let bit_index = 31 - frame_index mod 32 in
        and_then (rd bitmap (unat element)) (\<lambda>w.
        Inr (if 0 < w AND push_bit (unat bit_index) 1 then 1 else 0)))"

function use_frames_loop :: "u32 list \<Rightarrow> u32 \<Rightarrow> nat \<Rightarrow> nat \<Rightarrow> u32 list result" where
  "use_frames_loop bitmap elements_in_array i frame_count =
     (if i < frame_count then
        and_then (bitmap_set bitmap elements_in_array (of_nat i) 1) (\<lambda>(_, bitmap').
        use_frames_loop bitmap' elements_in_array (Suc i) frame_count)
      else Inr bitmap)"
  by pat_completeness auto
termination by (relation "measure (\<lambda>(bitmap, n, i, c). c - i)") auto

definition use_frames_in_bytes :: "u32 list \<Rightarrow> u32 \<Rightarrow> u32 \<Rightarrow> (int \<times> u32 list) result" where
  "use_frames_in_bytes bitmap elements_in_array size_in_bytes =
     (let frame_count = size_in_bytes div 0x1000 in
      if elements_in_array * 32 < frame_count then Inr (- 1, bitmap)
      else
        and_then (use_frames_loop bitmap elements_in_array 0 (unat frame_count)) (\<lambda>bitmap'.
        Inr (0, bitmap')))"

text \<open>The inner loop over the bits of one element, from the most significant bit down.\<close>

function free_bit :: "u32 \<Rightarrow> nat \<Rightarrow> nat option" where
  "free_bit w j =
     (if j < 32 then if w AND drop_bit j 0x80000000 = 0 then Some j else free_bit w (Suc j)
      else None)"
  by pat_completeness auto
termination by (relation "measure (\<lambda>(w, j). 32 - j)") auto

function next_free_loop :: "u32 list \<Rightarrow> nat \<Rightarrow> nat \<Rightarrow> int result" where
  "next_free_loop bitmap i n =
     (if i < n then
        and_then (rd bitmap i) (\<lambda>w.
        case free_bit w 0 of
          Some j \<Rightarrow> Inr (sint (of_nat i * 32 + of_nat j :: u32))
        | None \<Rightarrow> next_free_loop bitmap (Suc i) n)
      else Inr (- 1))"
  by pat_completeness auto
termination by (relation "measure (\<lambda>(bitmap, i, n). n - i)") auto

definition next_free_frame_index :: "u32 list \<Rightarrow> u32 \<Rightarrow> int result" where
  "next_free_frame_index bitmap elements_in_array =
     next_free_loop bitmap 0 (unat elements_in_array)"

declare reset_loop.simps [simp del] use_frames_loop.simps [simp del]
  free_bit.simps [simp del] next_free_loop.simps [simp del]

section \<open>Abstraction\<close>

definition frame_used :: "u32 list \<Rightarrow> nat \<Rightarrow> bool" where
  "frame_used bitmap k = bit (bitmap ! (k div 32)) (31 - k mod 32)"

definition used_frames :: "u32 list \<Rightarrow> nat set" where
  "used_frames bitmap = {k. k < 32 * length bitmap \<and> frame_used bitmap k}"

text \<open>
  The array really has the declared number of elements, and so few that a frame index fits into
  a non-negative C \<^verbatim>\<open>int\<close>.
\<close>

definition bitmap_wf :: "u32 \<Rightarrow> u32 list \<Rightarrow> bool" where
  "bitmap_wf n bitmap \<longleftrightarrow> length bitmap = unat n \<and> unat n < 2 ^ 26"

lemma BITMAP_ELEMENT_COUNT_eq: "BITMAP_ELEMENT_COUNT = 1601"
  by (simp add: BITMAP_ELEMENT_COUNT_def FRAME_AMOUNT_def BITMAP_SIZE_FOR_MB_def)

lemma unat_bit_index: "unat (31 - k mod 32 :: u32) = 31 - unat k mod 32"
proof -
  have "unat (k mod 32) = unat k mod 32" by (simp add: unat_mod)
  then show ?thesis by (simp add: unat_minus_no_wrap)
qed

lemma unat_element: "unat (k div 32 :: u32) = unat k div 32"
  by (simp add: unat_div)

lemma same_frame_iff:
  "k div 32 = i div 32 \<Longrightarrow> 31 - k mod 32 = 31 - i mod 32 \<longleftrightarrow> k = (i :: nat)"
proof -
  assume q: "k div 32 = i div 32"
  have "k = k div 32 * 32 + k mod 32" "i = i div 32 * 32 + i mod 32"
    "k mod 32 < 32" "i mod 32 < 32" by simp_all
  with q show ?thesis by linarith
qed

lemma frame_used_update:
  assumes "e < length bitmap"
    and "\<And>b. bit w' b \<longleftrightarrow> (if b = 31 - k mod 32 then v else bit (bitmap ! e) b)"
    and "e = k div 32"
  shows "frame_used (bitmap[e := w']) i = (if i = k then v else frame_used bitmap i)"
proof (cases "i div 32 = e")
  case True
  then have "31 - i mod 32 = 31 - k mod 32 \<longleftrightarrow> i = k"
    using assms(3) same_frame_iff by simp
  with True assms show ?thesis by (simp add: frame_used_def)
next
  case False
  with assms(3) have "i \<noteq> k" by auto
  with False assms(1) show ?thesis by (simp add: frame_used_def)
qed

section \<open>Effect of the routines\<close>

lemma bitmap_set_exists:
  assumes "length bitmap = unat n" "unat k < 32 * unat n"
  shows "\<exists>bitmap'. bitmap_set bitmap n k v = Inr (0, bitmap') \<and> length bitmap' = length bitmap \<and>
    (\<forall>i. frame_used bitmap' i = (if i = unat k then v \<noteq> 0 else frame_used bitmap i))"
proof -
  let ?e = "unat k div 32" and ?b = "31 - unat k mod 32"
  let ?w' = "if v \<noteq> 0 then bitmap ! ?e OR 2 ^ ?b else bitmap ! ?e AND NOT (2 ^ ?b)"
  have e: "?e < unat n" using assms(2) by (simp add: less_mult_imp_div_less mult.commute)
  then have guard: "\<not> n < k div 32" by (simp add: word_less_nat_alt unat_element)
  have set: "bitmap_set bitmap n k v = Inr (0, bitmap[?e := ?w'])"
    using e assms(1) guard
    by (simp add: bitmap_set_def Let_def unat_bit_index unat_element)
  have "\<And>b. bit ?w' b \<longleftrightarrow> (if b = ?b then v \<noteq> 0 else bit (bitmap ! ?e) b)"
    by (auto simp: bit_or_single bit_and_not_single)
  then have "\<forall>i. frame_used (bitmap[?e := ?w']) i = (if i = unat k then v \<noteq> 0 else frame_used bitmap i)"
    using e assms(1) by (intro allI frame_used_update) simp_all
  with set show ?thesis by auto
qed

lemma bitmap_set_cases:
  assumes "length bitmap = unat n" "unat k < 32 * unat n"
  obtains bitmap' where "bitmap_set bitmap n k v = Inr (0, bitmap')"
    "length bitmap' = length bitmap"
    "\<And>i. frame_used bitmap' i = (if i = unat k then v \<noteq> 0 else frame_used bitmap i)"
  using bitmap_set_exists [OF assms] by blast

lemma used_frames_set:
  assumes "length bitmap = unat n" "unat k < 32 * unat n" "bitmap_set bitmap n k v = Inr (r, bitmap')"
  shows "used_frames bitmap' =
    (if v \<noteq> 0 then insert (unat k) (used_frames bitmap) else used_frames bitmap - {unat k})"
proof -
  obtain b' where b': "bitmap_set bitmap n k v = Inr (0, b')" "length b' = length bitmap"
    "\<And>i. frame_used b' i = (if i = unat k then v \<noteq> 0 else frame_used bitmap i)"
    using bitmap_set_cases [OF assms(1,2)] by blast
  with assms show ?thesis by (auto simp: used_frames_def split: if_splits)
qed

lemma bitmap_get_eq:
  assumes "length bitmap = unat n" "unat k < 32 * unat n"
  shows "bitmap_get bitmap n k = Inr (if frame_used bitmap (unat k) then 1 else 0)"
proof -
  have e: "unat k div 32 < unat n" using assms(2) by (simp add: less_mult_imp_div_less mult.commute)
  then have guard: "\<not> n < k div 32" by (simp add: word_less_nat_alt unat_element)
  with e assms(1) show ?thesis
    by (simp add: bitmap_get_def Let_def unat_bit_index unat_element frame_used_def and_single_pos)
qed

lemma reset_loop_eq:
  "n \<le> length bitmap \<Longrightarrow> i \<le> n \<Longrightarrow>
    reset_loop bitmap i n = Inr (take i bitmap @ replicate (n - i) 0 @ drop n bitmap)"
proof (induction "n - i" arbitrary: i bitmap)
  case 0
  then show ?case by (subst reset_loop.simps) simp
next
  case (Suc d)
  then have i: "i < n" "i < length bitmap" by auto
  then have "replicate (n - i) 0 = (0 :: u32) # replicate (n - Suc i) 0"
    by (metis Suc_diff_Suc replicate_Suc)
  with Suc.hyps(1) [of "Suc i" "bitmap[i := 0]"] Suc.hyps(2) Suc.prems i show ?case
    by (simp add: reset_loop.simps [of bitmap i n] take_update_cancel take_Suc_conv_app_nth
        upd_conv_take_nth_drop drop_Cons')
qed

lemma frame_used_replicate_0: "k < 32 * n \<Longrightarrow> \<not> frame_used (replicate n 0) k"
  by (simp add: frame_used_def less_mult_imp_div_less mult.commute)

lemma use_frames_loop_exists:
  assumes "length bitmap = unat n" "c \<le> 32 * unat n" "c < 2 ^ 32" "i \<le> c"
  shows "\<exists>bitmap'. use_frames_loop bitmap n i c = Inr bitmap' \<and> length bitmap' = length bitmap \<and>
    (\<forall>k. frame_used bitmap' k \<longleftrightarrow> (i \<le> k \<and> k < c) \<or> frame_used bitmap k)"
  using assms
proof (induction "c - i" arbitrary: i bitmap)
  case 0
  then show ?case by (subst use_frames_loop.simps) auto
next
  case (Suc d)
  then have i: "i < c" and d: "d = c - Suc i" by simp_all
  have ui: "unat (of_nat i :: u32) = i"
    using i Suc.prems(3) by (simp add: unat_of_nat)
  obtain b where b: "bitmap_set bitmap n (of_nat i) 1 = Inr (0, b)" "length b = length bitmap"
    "\<And>k. frame_used b k = (if k = i then True else frame_used bitmap k)"
    using bitmap_set_exists [of bitmap n "of_nat i" 1] Suc.prems i ui by auto
  obtain b' where "use_frames_loop b n (Suc i) c = Inr b'" "length b' = length b"
    "\<forall>k. frame_used b' k \<longleftrightarrow> (Suc i \<le> k \<and> k < c) \<or> frame_used b k"
    using Suc.hyps(1) [of "Suc i" b] d Suc.prems b(2) i by auto
  with b i show ?case
    by (force simp: use_frames_loop.simps [of bitmap n i c])
qed

section \<open>The search for a free frame\<close>

lemma drop_msb: "j < 32 \<Longrightarrow> drop_bit j (0x80000000 :: u32) = 2 ^ (31 - j)"
proof -
  assume "j < 32"
  have "(0x80000000 :: u32) = 2 ^ 31" by simp
  then show ?thesis using \<open>j < 32\<close> by (simp only: drop_bit_exp_eq) simp
qed

lemma free_bit_Some:
  "free_bit w j = Some r \<Longrightarrow>
    j \<le> r \<and> r < 32 \<and> \<not> bit w (31 - r) \<and> (\<forall>k. j \<le> k \<and> k < r \<longrightarrow> bit w (31 - k))"
proof (induction w j rule: free_bit.induct)
  case (1 w j)
  then have j: "j < 32" by (auto simp: free_bit.simps [of w j] split: if_splits)
  show ?case
  proof (cases "bit w (31 - j)")
    case True
    with j "1.prems" have "free_bit w (Suc j) = Some r"
      by (simp add: free_bit.simps [of w j] drop_msb and_single_eq_0)
    with "1.IH" j True have IH: "Suc j \<le> r" "r < 32" "\<not> bit w (31 - r)"
      "\<forall>k. Suc j \<le> k \<and> k < r \<longrightarrow> bit w (31 - k)"
      by (auto simp: drop_msb and_single_eq_0)
    have "bit w (31 - k)" if "j \<le> k" "k < r" for k
      using that True IH(4) by (cases "k = j") auto
    with IH show ?thesis by auto
  next
    case False
    with j "1.prems" show ?thesis
      by (auto simp: free_bit.simps [of w j] drop_msb and_single_eq_0)
  qed
qed

lemma free_bit_None:
  "free_bit w j = None \<Longrightarrow> j \<le> k \<Longrightarrow> k < 32 \<Longrightarrow> bit w (31 - k)"
proof (induction w j rule: free_bit.induct)
  case (1 w j)
  then have j: "j < 32" by simp
  with "1.prems"(1) have "bit w (31 - j)" "free_bit w (Suc j) = None"
    by (auto simp: free_bit.simps [of w j] drop_msb and_single_eq_0 split: if_splits)
  with "1.IH" "1.prems"(2,3) j show ?case
    by (cases "k = j") (auto simp: drop_msb and_single_eq_0)
qed

lemma frame_used_in_element: "j < 32 \<Longrightarrow> frame_used bitmap (32 * i + j) = bit (bitmap ! i) (31 - j)"
  by (simp add: frame_used_def)

lemma sint_frame_index:
  assumes "32 * i + j < 2 ^ 31"
  shows "sint (of_nat i * 32 + of_nat j :: u32) = int (32 * i + j)"
proof -
  have "of_nat i * 32 + of_nat j = (of_nat (32 * i + j) :: u32)" by simp
  then have "sint (of_nat i * 32 + of_nat j :: u32) = signed_take_bit 31 (int (32 * i + j))"
    by (simp only: signed_of_nat) simp
  also have "\<dots> = int (32 * i + j)"
    using assms by (intro signed_take_bit_int_eq_self) auto
  finally show ?thesis .
qed

lemma next_free_loop_cases:
  assumes "i \<le> length bitmap" "length bitmap < 2 ^ 26"
  shows "(\<exists>k. next_free_loop bitmap i (length bitmap) = Inr (int k) \<and> 32 * i \<le> k \<and>
      k < 32 * length bitmap \<and> \<not> frame_used bitmap k \<and>
      (\<forall>l. 32 * i \<le> l \<and> l < k \<longrightarrow> frame_used bitmap l)) \<or>
    (next_free_loop bitmap i (length bitmap) = Inr (- 1) \<and>
      (\<forall>l. 32 * i \<le> l \<and> l < 32 * length bitmap \<longrightarrow> frame_used bitmap l))"
  using assms
proof (induction "length bitmap - i" arbitrary: i)
  case 0
  then show ?case by (subst (1 2) next_free_loop.simps) auto
next
  case (Suc d)
  then have i: "i < length bitmap" and d: "d = length bitmap - Suc i" by simp_all
  show ?case
  proof (cases "free_bit (bitmap ! i) 0")
    case None
    have here: "frame_used bitmap l" if "32 * i \<le> l" "l < 32 * Suc i" for l
    proof -
      from that obtain j where "l = 32 * i + j" "j < 32"
        by (metis add_less_cancel_left le_Suc_ex mult_Suc_right add.commute)
      then show ?thesis using free_bit_None [OF None, of j] by (simp add: frame_used_in_element)
    qed
    have step: "next_free_loop bitmap i (length bitmap) = next_free_loop bitmap (Suc i) (length bitmap)"
      using i None by (simp add: next_free_loop.simps [of bitmap i "length bitmap"])
    have split: "32 * i \<le> l \<longleftrightarrow> 32 * Suc i \<le> l \<or> 32 * i \<le> l \<and> l < 32 * Suc i" for l by auto
    show ?thesis
      using Suc.hyps(1) [OF d] i Suc.prems(2) here step by (metis Suc_leI split)
  next
    case (Some j)
    note j = free_bit_Some [OF Some]
    have "frame_used bitmap l" if "32 * i \<le> l" "l < 32 * i + j" for l
    proof -
      from that obtain m where "l = 32 * i + m" "m < j" by (metis add_less_cancel_left le_Suc_ex)
      then show ?thesis using j by (simp add: frame_used_in_element)
    qed
    moreover have "32 * i + j < 32 * length bitmap" using i j by linarith
    moreover have "next_free_loop bitmap i (length bitmap) = Inr (int (32 * i + j))"
      using i Some Suc.prems(2) j sint_frame_index [of i j]
      by (simp add: next_free_loop.simps [of bitmap i "length bitmap"])
    moreover have "\<not> frame_used bitmap (32 * i + j)" using j by (simp add: frame_used_in_element)
    ultimately show ?thesis by (intro disjI1 exI [of _ "32 * i + j"]) simp
  qed
qed

lemma next_free_cases:
  assumes "bitmap_wf n bitmap"
  obtains (free) k where "next_free_frame_index bitmap n = Inr (int k)"
      "k < 32 * unat n" "\<not> frame_used bitmap k" "\<And>l. l < k \<Longrightarrow> frame_used bitmap l"
    | (none) "next_free_frame_index bitmap n = Inr (- 1)" "\<And>l. l < 32 * unat n \<Longrightarrow> frame_used bitmap l"
proof -
  have n: "unat n = length bitmap" "length bitmap < 2 ^ 26"
    using assms by (simp_all add: bitmap_wf_def)
  from next_free_loop_cases [of 0 bitmap] n(2) consider
    k where "next_free_loop bitmap 0 (length bitmap) = Inr (int k)" "k < 32 * length bitmap"
      "\<not> frame_used bitmap k" "\<forall>l. l < k \<longrightarrow> frame_used bitmap l"
    | "next_free_loop bitmap 0 (length bitmap) = Inr (- 1)"
      "\<forall>l. l < 32 * length bitmap \<longrightarrow> frame_used bitmap l"
    by auto
  then show thesis using that n(1) by cases (auto simp: next_free_frame_index_def)
qed

lemma use_frames_in_bytes_result:
  assumes "bitmap_wf n bitmap"
  shows "if 32 * unat n < unat nbytes div 4096 then use_frames_in_bytes bitmap n nbytes = Inr (- 1, bitmap)
    else \<exists>bitmap'. use_frames_in_bytes bitmap n nbytes = Inr (0, bitmap') \<and> bitmap_wf n bitmap' \<and>
      used_frames bitmap' = used_frames bitmap \<union> {..<unat nbytes div 4096}"
proof -
  have len: "length bitmap = unat n" "unat n < 2 ^ 26" using assms by (simp_all add: bitmap_wf_def)
  have n32: "unat (n * 32) = 32 * unat n" using len(2) by (simp add: unat_word_ariths)
  have fc: "unat (nbytes div 0x1000) = unat nbytes div 4096" by (simp add: unat_div)
  show ?thesis
  proof (cases "32 * unat n < unat nbytes div 4096")
    case True
    then have "n * 32 < nbytes div 0x1000" by (simp add: word_less_nat_alt n32 fc)
    with True show ?thesis by (simp add: use_frames_in_bytes_def)
  next
    case False
    have "unat nbytes div 4096 < 2 ^ 32" using unat_bound [of nbytes] by simp
    with use_frames_loop_exists [of bitmap n "unat nbytes div 4096" 0] len(1) False
    obtain b where "use_frames_loop bitmap n 0 (unat nbytes div 4096) = Inr b" "length b = length bitmap"
      "\<forall>k. frame_used b k \<longleftrightarrow> k < unat nbytes div 4096 \<or> frame_used bitmap k" by auto
    with False len show ?thesis
      by (auto simp: use_frames_in_bytes_def word_less_nat_alt n32 fc used_frames_def bitmap_wf_def)
  qed
qed

section \<open>The interface of the paging code\<close>

text \<open>
  What \<^verbatim>\<open>setup_page\<close> relies on: \<open>next_free\<close> answers a frame number that is not in use or a negative
  number when there is none, and \<open>mark\<close> puts a frame into the set of used frames.
\<close>

locale frame_pool =
  fixes inv :: "'m \<Rightarrow> bool"
    and capacity :: "'m \<Rightarrow> nat"
    and used :: "'m \<Rightarrow> nat set"
    and next_free :: "'m \<Rightarrow> int result"
    and mark :: "'m \<Rightarrow> u32 \<Rightarrow> (int \<times> 'm) result"
  assumes next_free_total:
      "inv m \<Longrightarrow> (\<exists>k. next_free m = Inr (int k) \<and> k < capacity m \<and> k \<notin> used m) \<or>
        (next_free m = Inr (- 1) \<and> used m = {..<capacity m})"
    and mark_used:
      "inv m \<Longrightarrow> k < capacity m \<Longrightarrow>
        \<exists>m'. mark m (of_nat k) = Inr (0, m') \<and> inv m' \<and> capacity m' = capacity m \<and>
          used m' = insert k (used m)"
    and capacity_bound: "inv m \<Longrightarrow> capacity m < 2 ^ 31"
begin

lemma next_free_free:
  assumes "inv m" "next_free m = Inr r" "\<not> r < 0"
  obtains k where "r = int k" "k < capacity m" "k \<notin> used m"
  using next_free_total [OF assms(1)] assms(2,3) by auto

lemma next_free_exhausted:
  "inv m \<Longrightarrow> next_free m = Inr r \<Longrightarrow> r < 0 \<longleftrightarrow> {..<capacity m} \<subseteq> used m"
  using next_free_total [of m] by fastforce

lemma take_frame:
  assumes "inv m" "next_free m = Inr r" "\<not> r < 0"
  obtains k m' where "r = int k" "k < capacity m" "k \<notin> used m" "mark m (of_int r) = Inr (0, m')"
    "inv m'" "capacity m' = capacity m" "used m' = insert k (used m)"
proof -
  from next_free_free [OF assms] obtain k where k: "r = int k" "k < capacity m" "k \<notin> used m" .
  from mark_used [OF assms(1) k(2)] that k show thesis by auto
qed

lemma take_two_frames:
  assumes "inv m" "next_free m = Inr r1" "\<not> r1 < 0" "mark m (of_int r1) = Inr (c, m')"
    "next_free m' = Inr r2" "\<not> r2 < 0"
  shows "r1 \<noteq> r2"
proof -
  obtain k m'' where k: "r1 = int k" "mark m (of_int r1) = Inr (0, m'')" "inv m''"
    "used m'' = insert k (used m)"
    using take_frame [OF assms(1-3)] by metis
  with assms(4) have m': "m' = m''" by simp
  with k(3) have "inv m'" by simp
  from next_free_free [OF this assms(5,6)] obtain k2 where "r2 = int k2" "k2 \<notin> used m'" .
  with k(1,4) m' show ?thesis by auto
qed

end

lemma kernel_bitmap_capacity: "bitmap_wf BITMAP_ELEMENT_COUNT bitmap \<Longrightarrow> length bitmap = 1601"
  by (simp add: bitmap_wf_def BITMAP_ELEMENT_COUNT_eq)

interpretation frames: frame_pool
  "bitmap_wf BITMAP_ELEMENT_COUNT" "\<lambda>bitmap. 32 * length bitmap" used_frames
  "\<lambda>bitmap. next_free_frame_index bitmap BITMAP_ELEMENT_COUNT"
  "\<lambda>bitmap k. bitmap_set bitmap BITMAP_ELEMENT_COUNT k 1"
proof
  fix m :: "u32 list"
  assume wf: "bitmap_wf BITMAP_ELEMENT_COUNT m"
  then have len: "length m = unat BITMAP_ELEMENT_COUNT" by (simp add: bitmap_wf_def)
  show "(\<exists>k. next_free_frame_index m BITMAP_ELEMENT_COUNT = Inr (int k) \<and>
      k < 32 * length m \<and> k \<notin> used_frames m) \<or>
    (next_free_frame_index m BITMAP_ELEMENT_COUNT = Inr (- 1) \<and> used_frames m = {..<32 * length m})"
    using wf
  proof (cases rule: next_free_cases)
    case (free k)
    then show ?thesis using len by (intro disjI1 exI [of _ k]) (simp add: used_frames_def)
  next
    case none
    then have "used_frames m = {..<32 * length m}" using len by (auto simp: used_frames_def)
    with none show ?thesis by simp
  qed
  show "32 * length m < 2 ^ 31" using kernel_bitmap_capacity [OF wf] by simp
  fix k
  assume k: "k < 32 * length m"
  then have uk: "unat (of_nat k :: u32) = k"
    using kernel_bitmap_capacity [OF wf] by (simp add: unat_of_nat)
  obtain m' where m': "bitmap_set m BITMAP_ELEMENT_COUNT (of_nat k) 1 = Inr (0, m')"
    "length m' = length m"
    using bitmap_set_exists [of m BITMAP_ELEMENT_COUNT "of_nat k" 1] len k uk by auto
  with used_frames_set [OF len, of "of_nat k" 1 0 m'] wf k uk len
  show "\<exists>m'. bitmap_set m BITMAP_ELEMENT_COUNT (of_nat k) 1 = Inr (0, m') \<and>
      bitmap_wf BITMAP_ELEMENT_COUNT m' \<and> 32 * length m' = 32 * length m \<and>
      used_frames m' = insert k (used_frames m)"
    by (auto simp: bitmap_wf_def)
qed

section \<open>Properties\<close>

text \<open>
  C30. Setting a frame and reading the bitmap back: inside the array \<^verbatim>\<open>set\<close> succeeds, \<^verbatim>\<open>get\<close> of that
  frame then answers 1 exactly when the value was non-zero, and \<^verbatim>\<open>get\<close> of every other frame is
  unchanged.
\<close>

theorem bitmap_set_then_get:
  assumes "bitmap_wf n bitmap" "unat k < 32 * unat n"
  shows "\<exists>bitmap'. bitmap_set bitmap n k v = Inr (0, bitmap') \<and> bitmap_wf n bitmap' \<and>
    (\<forall>i. unat i < 32 * unat n \<longrightarrow> bitmap_get bitmap' n i =
      (if i = k then Inr (if v \<noteq> 0 then 1 else 0) else bitmap_get bitmap n i))"
proof -
  have len: "length bitmap = unat n" using assms(1) by (simp add: bitmap_wf_def)
  obtain b where b: "bitmap_set bitmap n k v = Inr (0, b)" "length b = length bitmap"
    "\<And>i. frame_used b i = (if i = unat k then v \<noteq> 0 else frame_used bitmap i)"
    using bitmap_set_cases [OF len assms(2)] by blast
  have "bitmap_get b n i = (if i = k then Inr (if v \<noteq> 0 then 1 else 0) else bitmap_get bitmap n i)"
    if "unat i < 32 * unat n" for i
    using that b(2,3) len by (simp add: bitmap_get_eq word_eq_unat [of i k])
  moreover have "bitmap_wf n b" using assms(1) b(2) by (simp add: bitmap_wf_def)
  ultimately show ?thesis using b(1) by blast
qed

theorem bitmap_set_then_get_witness:
  "\<exists>bitmap'. bitmap_set [0, 0] 2 33 1 = Inr (0, bitmap') \<and> bitmap_get bitmap' 2 33 = Inr 1"
  using bitmap_set_then_get [of 2 "[0, 0]" 33 1] by (auto simp: bitmap_wf_def)

text \<open>
  C29. The search answers the lowest frame that is not in use, and -1 exactly when all frames of the
  array are in use.
\<close>

theorem next_free_frame_is_least:
  assumes "bitmap_wf n bitmap"
  shows "next_free_frame_index bitmap n =
    Inr (if used_frames bitmap = {..<32 * unat n} then - 1
         else int (Min ({..<32 * unat n} - used_frames bitmap)))"
  using assms
proof (cases rule: next_free_cases)
  case (free k)
  have "Min ({..<32 * unat n} - used_frames bitmap) = k"
    using free assms by (intro Min_eqI) (auto simp: used_frames_def bitmap_wf_def not_le[symmetric])
  moreover have "used_frames bitmap \<noteq> {..<32 * unat n}" using free by (auto simp: used_frames_def)
  ultimately show ?thesis using free by simp
next
  case none
  then have "used_frames bitmap = {..<32 * unat n}"
    using assms by (auto simp: used_frames_def bitmap_wf_def)
  with none show ?thesis by simp
qed

theorem next_free_frame_is_least_witness:
  "next_free_frame_index [0xFFFFFFFF, 0xF0000000] 2 =
    Inr (if used_frames [0xFFFFFFFF, 0xF0000000] = {..<32 * unat (2 :: u32)} then - 1
         else int (Min ({..<32 * unat (2 :: u32)} - used_frames [0xFFFFFFFF, 0xF0000000])))"
  by (rule next_free_frame_is_least) (simp add: bitmap_wf_def)

text \<open>
  Marking the first bytes of memory: the frames that lie completely below \<open>nbytes\<close> become
  used and no others; if the bitmap has fewer frames, the answer is -1 and nothing is marked.
\<close>

theorem use_frames_in_bytes_marks_prefix:
  assumes "bitmap_wf n bitmap"
  shows "if 32 * unat n < unat nbytes div 4096 then use_frames_in_bytes bitmap n nbytes = Inr (- 1, bitmap)
    else \<exists>bitmap'. use_frames_in_bytes bitmap n nbytes = Inr (0, bitmap') \<and> bitmap_wf n bitmap' \<and>
      used_frames bitmap' = used_frames bitmap \<union> {..<unat nbytes div 4096}"
  using assms by (rule use_frames_in_bytes_result)

theorem use_frames_in_bytes_marks_prefix_witness:
  "\<exists>bitmap'. use_frames_in_bytes [0] 1 0x5000 = Inr (0, bitmap') \<and>
    used_frames bitmap' = used_frames [0] \<union> {..<5}"
  using use_frames_in_bytes_marks_prefix [of 1 "[0]" "0x5000"] by (auto simp: bitmap_wf_def)

text \<open>
  The bound check of \<^verbatim>\<open>set\<close> and \<^verbatim>\<open>get\<close> is off by one element: the 32 frame numbers after the last
  frame of the array pass it and the access is outside of the array; only larger numbers get -1.
\<close>

theorem bitmap_bound_check_off_by_one:
  assumes "length bitmap = unat n" "32 * unat n \<le> unat k"
  shows "if unat k < 32 * unat n + 32
    then bitmap_set bitmap n k v = Inl Out_of_bounds \<and> bitmap_get bitmap n k = Inl Out_of_bounds
    else bitmap_set bitmap n k v = Inr (- 1, bitmap) \<and> bitmap_get bitmap n k = Inr (- 1)"
proof -
  have e: "unat n \<le> unat k div 32" using assms(2) by auto
  have "unat k < 32 * unat n + 32 \<longleftrightarrow> \<not> n < k div 32"
    using e by (auto simp: word_less_nat_alt unat_element)
  with e assms(1) show ?thesis
    by (simp add: bitmap_set_def bitmap_get_def Let_def unat_element)
qed

theorem bitmap_bound_check_off_by_one_witness:
  "bitmap_set (replicate 1601 0) BITMAP_ELEMENT_COUNT 51232 1 = Inl Out_of_bounds"
  using bitmap_bound_check_off_by_one [of "replicate 1601 0" BITMAP_ELEMENT_COUNT 51232 1]
  by (simp add: BITMAP_ELEMENT_COUNT_eq)

end
