(* ===== verification/Placement_Memory.thy ===== *)
theory Placement_Memory
  imports Prelude
begin

text \<open>
  The table of free memory areas (\<^verbatim>\<open>placement_memory.c\<close>, \<^verbatim>\<open>placement_memory.h\<close>): ten slots, the
  first \<open>free_memory_area_index\<close> of them live, in ascending order of their start address.

  The state is the record \<open>placement\<close> of the two global variables; the index never leaves 0..10 and
  is a natural number, addresses and sizes are 64-bit words. Every access of \<^verbatim>\<open>free_memory_areas\<close>
  is checked: \<open>Inl Out_of_bounds\<close> is an access outside of the ten slots.
\<close>

section \<open>Data\<close>

definition MAX_MEMORY_AREAS_SIZE :: nat where
  "MAX_MEMORY_AREAS_SIZE = 10"

definition PLACEMENT_MEMORY_SIZE_IN_BYTES :: u64 where
  "PLACEMENT_MEMORY_SIZE_IN_BYTES = 5 * 1024 * 1024"

record memory_area =
  area_start :: u64
  area_size :: u64

record placement =
  free_memory_areas :: "memory_area list"
  free_memory_area_index :: nat

section \<open>Predicates on areas and clearing\<close>

function clear_loop :: "memory_area list \<Rightarrow> nat \<Rightarrow> memory_area list result" where
  "clear_loop areas i =
     (if i < MAX_MEMORY_AREAS_SIZE then
        and_then (wr areas i \<lparr>area_start = 0, area_size = 0\<rparr>) (\<lambda>areas'. clear_loop areas' (Suc i))
      else Inr areas)"
  by pat_completeness auto
termination by (relation "measure (\<lambda>(areas, i). MAX_MEMORY_AREAS_SIZE - i)") auto

definition clear_placement_memory_array :: "placement \<Rightarrow> placement result" where
  "clear_placement_memory_array s =
     and_then (clear_loop (free_memory_areas s) 0) (\<lambda>areas'.
     Inr (s\<lparr>free_memory_areas := areas', free_memory_area_index := 0\<rparr>))"

definition completely_contains :: "memory_area \<Rightarrow> memory_area \<Rightarrow> bool" where
  "completely_contains lhs rhs =
     (let start_in = area_start lhs \<le> area_start rhs \<and>
            area_start rhs \<le> area_start lhs + area_size lhs;
          end_in = area_start lhs \<le> area_start rhs + area_size rhs \<and>
            area_start rhs + area_size rhs \<le> area_start lhs + area_size lhs
      in start_in \<and> end_in)"

definition overlapp :: "memory_area \<Rightarrow> memory_area \<Rightarrow> bool" where
  "overlapp lhs rhs =
     (let lhs_start = area_start lhs; lhs_end = area_start lhs + area_size lhs - 1;
          rhs_start = area_start rhs; rhs_end = area_start rhs + area_size rhs - 1
      in lhs_start \<le> rhs_start \<and> rhs_start \<le> lhs_end \<or> lhs_start \<le> rhs_end \<and> rhs_end \<le> lhs_end)"

definition is_free :: "memory_area \<Rightarrow> bool" where
  "is_free area \<longleftrightarrow> area_size area = 0 \<and> area_start area = 0"

function areas_size_loop :: "memory_area list \<Rightarrow> nat \<Rightarrow> nat result" where
  "areas_size_loop areas i =
     (if i < MAX_MEMORY_AREAS_SIZE then
        and_then (rd areas i) (\<lambda>area.
        if area_start area = 0 \<and> area_size area = 0 then Inr i else areas_size_loop areas (Suc i))
      else Inr MAX_MEMORY_AREAS_SIZE)"
  by pat_completeness auto
termination by (relation "measure (\<lambda>(areas, i). MAX_MEMORY_AREAS_SIZE - i)") auto

definition memory_areas_size :: "placement \<Rightarrow> nat result" where
  "memory_areas_size s = areas_size_loop (free_memory_areas s) 0"

section \<open>Shifting the table\<close>

text \<open>
  The loops that close a gap (\<^verbatim>\<open>for (j = i; j < n; j++) areas[j] = areas[j + 1]\<close>) and that open one
  (\<^verbatim>\<open>for (i = n; i > k; i--) areas[i] = areas[i - 1]\<close>); the code repeats them in several routines.
\<close>

function shift_left :: "memory_area list \<Rightarrow> nat \<Rightarrow> nat \<Rightarrow> memory_area list result" where
  "shift_left areas j n =
     (if j < n then
        and_then (rd areas (j + 1)) (\<lambda>area.
        and_then (wr areas j area) (\<lambda>areas'.
        shift_left areas' (Suc j) n))
      else Inr areas)"
  by pat_completeness auto
termination by (relation "measure (\<lambda>(areas, j, n). n - j)") auto

function shift_right :: "memory_area list \<Rightarrow> nat \<Rightarrow> nat \<Rightarrow> memory_area list result" where
  "shift_right areas i k =
     (if k < i then
        and_then (rd areas (i - 1)) (\<lambda>area.
        and_then (wr areas i area) (\<lambda>areas'.
        shift_right areas' (i - 1) k))
      else Inr areas)"
  by pat_completeness auto
termination by (relation "measure (\<lambda>(areas, i, k). i - k)") auto

declare clear_loop.simps [simp del] areas_size_loop.simps [simp del]
  shift_left.simps [simp del] shift_right.simps [simp del]

section \<open>Allocating the lowest area that fits\<close>

function allocate_loop :: "placement \<Rightarrow> u64 \<Rightarrow> nat \<Rightarrow> (u64 \<times> placement) result" where
  "allocate_loop s n i =
     (if i < free_memory_area_index s then
        and_then (rd (free_memory_areas s) i) (\<lambda>area.
        if n < area_size area then
          let allocation_start = area_start area in
          and_then (wr (free_memory_areas s) i
              (area\<lparr>area_start := area_start area + n, area_size := area_size area - n\<rparr>)) (\<lambda>areas'.
          Inr (allocation_start, s\<lparr>free_memory_areas := areas'\<rparr>))
        else if area_size area = n then
          let allocation_start = area_start area in
          and_then (shift_left (free_memory_areas s) i (free_memory_area_index s)) (\<lambda>areas'.
          Inr (allocation_start, s\<lparr>free_memory_areas := areas',
              free_memory_area_index := free_memory_area_index s - 1\<rparr>))
        else allocate_loop s n (Suc i))
      else Inr (0, s))"
  by pat_completeness auto
termination by (relation "measure (\<lambda>(s, n, i). free_memory_area_index s - i)") auto

definition allocate :: "placement \<Rightarrow> u64 \<Rightarrow> (u64 \<times> placement) result" where
  "allocate s n =
     (if free_memory_area_index s = 0 then Inr (0, s)
      else if n = 0 then Inr (0, s)
      else allocate_loop s n 0)"

declare allocate_loop.simps [simp del]

section \<open>Allocating a given area\<close>

text \<open>
  The search loop of \<^verbatim>\<open>allocate_area\<close>: the first area that does not end below \<open>start\<close> (with its
  index), or \<open>None\<close> where \<^verbatim>\<open>current_area_index\<close> stays -1.
\<close>

function find_area :: "placement \<Rightarrow> u64 \<Rightarrow> nat \<Rightarrow> (nat \<times> memory_area) option result" where
  "find_area s start i =
     (if i < free_memory_area_index s then
        and_then (rd (free_memory_areas s) i) (\<lambda>current_area.
        let current_area_end = area_start current_area + area_size current_area - 1 in
        if current_area_end < start then find_area s start (Suc i)
        else Inr (Some (i, current_area)))
      else Inr None)"
  by pat_completeness auto
termination by (relation "measure (\<lambda>(s, start, i). free_memory_area_index s - i)") auto

declare find_area.simps [simp del]

definition allocate_area_at ::
    "placement \<Rightarrow> u64 \<Rightarrow> u64 \<Rightarrow> nat \<Rightarrow> memory_area \<Rightarrow> (int \<times> placement) result" where
  "allocate_area_at s start n current_area_index current_area =
     (let areas = free_memory_areas s; index = free_memory_area_index s;
          current_area_start = area_start current_area;
          current_area_end = area_start current_area + area_size current_area - 1;
          end = start + n - 1
      in
      if current_area_start = start \<and> end < current_area_end then
        and_then (wr areas current_area_index
            (current_area\<lparr>area_start := area_start current_area + n,
                          area_size := area_size current_area - n\<rparr>)) (\<lambda>areas'.
        Inr (0, s\<lparr>free_memory_areas := areas'\<rparr>))
      else if current_area_start < start \<and> current_area_end = end then
        and_then (wr areas current_area_index
            (current_area\<lparr>area_size := area_size current_area - n\<rparr>)) (\<lambda>areas'.
        Inr (0, s\<lparr>free_memory_areas := areas'\<rparr>))
      else if current_area_start = start \<and> current_area_end = end then
        and_then (shift_left areas current_area_index index) (\<lambda>areas'.
        Inr (0, s\<lparr>free_memory_areas := areas', free_memory_area_index := index - 1\<rparr>))
      else if current_area_start < start \<and> end < current_area_end then
        if index = MAX_MEMORY_AREAS_SIZE then Inr (- 4, s)
        else
          let original_size = area_size current_area;
              first = current_area\<lparr>area_size := start - area_start current_area\<rparr>
          in
          and_then (wr areas current_area_index first) (\<lambda>areas1.
          and_then (shift_right areas1 index current_area_index) (\<lambda>areas2.
          and_then (wr areas2 (current_area_index + 1)
              \<lparr>area_start = end + 1, area_size = original_size - n - area_size first\<rparr>) (\<lambda>areas3.
          Inr (0, s\<lparr>free_memory_areas := areas3, free_memory_area_index := index + 1\<rparr>))))
      else Inr (- 5, s))"

definition allocate_area :: "placement \<Rightarrow> u64 \<Rightarrow> u64 \<Rightarrow> (int \<times> placement) result" where
  "allocate_area s start n =
     (if free_memory_area_index s = 0 then Inr (- 1, s)
      else if n = 0 then Inr (- 2, s)
      else
        and_then (find_area s start 0) (\<lambda>found.
        case found of
          None \<Rightarrow> Inr (- 3, s)
        | Some (current_area_index, current_area) \<Rightarrow>
            allocate_area_at s start n current_area_index current_area))"

section \<open>Covering an area\<close>

lemma shift_left_length: "shift_left areas j n = Inr areas' \<Longrightarrow> length areas' = length areas"
proof (induction areas j n arbitrary: areas' rule: shift_left.induct)
  case (1 areas j n)
  then show ?case
    by (cases "j < n") (auto simp: shift_left.simps [of areas j n] mem_simps)
qed

lemma shift_right_length: "shift_right areas i k = Inr areas' \<Longrightarrow> length areas' = length areas"
proof (induction areas i k arbitrary: areas' rule: shift_right.induct)
  case (1 areas i k)
  then show ?case
    by (cases "k < i") (auto simp: shift_right.simps [of areas i k] mem_simps)
qed

text \<open>
  The loop of \<^verbatim>\<open>allocate_area_cover\<close>. Removing an area leaves the loop at the same index (\<^verbatim>\<open>i--\<close>
  followed by the loop's \<^verbatim>\<open>i++\<close>).
\<close>

function cover_loop :: "placement \<Rightarrow> u64 \<Rightarrow> u64 \<Rightarrow> nat \<Rightarrow> (int \<times> placement) result" where
  "cover_loop s start end i =
     (if i < free_memory_area_index s then
        and_then (rd (free_memory_areas s) i) (\<lambda>current_area.
        let areas = free_memory_areas s; index = free_memory_area_index s;
            current_area_start = area_start current_area;
            current_area_end = area_start current_area + area_size current_area - 1
        in
        if current_area_end < start \<or> end < current_area_start then cover_loop s start end (Suc i)
        else if start \<le> current_area_start \<and> current_area_end \<le> end then
          and_then (shift_left areas i index) (\<lambda>areas'.
          cover_loop (s\<lparr>free_memory_areas := areas', free_memory_area_index := index - 1\<rparr>) start end i)
        else if start \<le> current_area_start \<and> end < current_area_end then
          and_then (wr areas i \<lparr>area_start = end + 1, area_size = current_area_end - (end + 1) + 1\<rparr>)
            (\<lambda>areas'. cover_loop (s\<lparr>free_memory_areas := areas'\<rparr>) start end (Suc i))
        else if current_area_start < start \<and> current_area_end \<le> end then
          and_then (wr areas i (current_area\<lparr>area_size := start - area_start current_area\<rparr>))
            (\<lambda>areas'. cover_loop (s\<lparr>free_memory_areas := areas'\<rparr>) start end (Suc i))
        else if current_area_start < start \<and> end < current_area_end then
          if index = MAX_MEMORY_AREAS_SIZE then Inr (- 1, s)
          else
            and_then (wr areas i (current_area\<lparr>area_size := start - area_start current_area\<rparr>))
              (\<lambda>areas1.
            and_then (shift_right areas1 index i) (\<lambda>areas2.
            and_then (wr areas2 (i + 1) \<lparr>area_start = end + 1, area_size = current_area_end - end\<rparr>)
              (\<lambda>areas3.
            cover_loop (s\<lparr>free_memory_areas := areas3, free_memory_area_index := index + 1\<rparr>)
              start end (Suc i))))
        else cover_loop s start end (Suc i))
      else Inr (0, s))"
  by pat_completeness auto
termination
proof (relation "measures [\<lambda>(s, _, _, i). length (free_memory_areas s) - i,
    \<lambda>(s, _, _, i). free_memory_area_index s - i]", goal_cases)
qed (auto simp: mem_simps dest!: shift_left_length shift_right_length)

declare cover_loop.simps [simp del]

definition allocate_area_cover :: "placement \<Rightarrow> u64 \<Rightarrow> u64 \<Rightarrow> (int \<times> placement) result" where
  "allocate_area_cover s start n =
     (let end = start + n - 1 in
      if free_memory_area_index s = 0 then Inr (0, s)
      else cover_loop s start end 0)"

section \<open>Inserting a free area\<close>

text \<open>\<^verbatim>\<open>while (start > areas[i].start && i < n) i++\<close>: the slot is read before the index is checked.\<close>

function insert_position :: "memory_area list \<Rightarrow> u64 \<Rightarrow> nat \<Rightarrow> nat \<Rightarrow> nat result" where
  "insert_position areas start correct_index n =
     and_then (rd areas correct_index) (\<lambda>area.
     if area_start area < start \<and> correct_index < n
     then insert_position areas start (Suc correct_index) n
     else Inr correct_index)"
  by pat_completeness auto
termination by (relation "measure (\<lambda>(areas, start, i, n). n - i)") auto

declare insert_position.simps [simp del]

text \<open>The new area continues its predecessor; if it then touches the successor, all three merge.\<close>

definition merge_predecessor :: "placement \<Rightarrow> nat \<Rightarrow> memory_area \<Rightarrow> u64 \<Rightarrow> (int \<times> placement) result" where
  "merge_predecessor s correct_index pred n =
     (let areas = free_memory_areas s; index = free_memory_area_index s;
          pred1 = pred\<lparr>area_size := area_size pred + n\<rparr>
      in
      and_then (wr areas (correct_index - 1) pred1) (\<lambda>areas1.
      let end = area_start pred1 + area_size pred1 - 1 in
      and_then (rd areas1 correct_index) (\<lambda>succ.
      if area_start succ = end + 1 then
        and_then (wr areas1 (correct_index - 1)
            (pred1\<lparr>area_size := area_size pred1 + area_size succ\<rparr>)) (\<lambda>areas2.
        and_then (shift_left areas2 correct_index index) (\<lambda>areas3.
        Inr (0, s\<lparr>free_memory_areas := areas3, free_memory_area_index := index - 1\<rparr>)))
      else Inr (0, s\<lparr>free_memory_areas := areas1\<rparr>))))"

text \<open>
  Otherwise the new area is put in front of a successor it touches, or into its slot. The slot is
  overwritten: nothing is shifted.
\<close>

definition place_area :: "placement \<Rightarrow> nat \<Rightarrow> u64 \<Rightarrow> u64 \<Rightarrow> (int \<times> placement) result" where
  "place_area s correct_index start n =
     and_then (rd (free_memory_areas s) correct_index) (\<lambda>succ.
     if area_start succ = start + n then
       and_then (wr (free_memory_areas s) correct_index
           (succ\<lparr>area_start := start, area_size := area_size succ + n\<rparr>)) (\<lambda>areas'.
       Inr (0, s\<lparr>free_memory_areas := areas'\<rparr>))
     else
       and_then (wr (free_memory_areas s) correct_index \<lparr>area_start = start, area_size = n\<rparr>)
         (\<lambda>areas'.
       Inr (0, s\<lparr>free_memory_areas := areas',
           free_memory_area_index := free_memory_area_index s + 1\<rparr>)))"

definition insert_area :: "placement \<Rightarrow> u64 \<Rightarrow> u64 \<Rightarrow> (int \<times> placement) result" where
  "insert_area s start n =
     (let areas = free_memory_areas s; index = free_memory_area_index s;
          new_area = \<lparr>area_start = start, area_size = n\<rparr>
      in
      if index = MAX_MEMORY_AREAS_SIZE then Inr (- 1, s)
      else if n = 0 then Inr (- 2, s)
      else
        and_then (insert_position areas start 0 index) (\<lambda>correct_index.
        and_then (if 0 < correct_index then and_then (rd areas (correct_index - 1)) (\<lambda>a. Inr (Some a))
                  else Inr None) (\<lambda>pred.
        if (case pred of Some a \<Rightarrow> overlapp a new_area | None \<Rightarrow> False) then Inr (- 3, s)
        else
          and_then (rd areas correct_index) (\<lambda>succ.
          if \<not> is_free succ \<and> overlapp succ new_area then Inr (- 4, s)
          else
            case pred of
              Some a \<Rightarrow>
                let pred_end = area_start a + area_size a - 1 in
                if pred_end + 1 = start then merge_predecessor s correct_index a n
                else place_area s correct_index start n
            | None \<Rightarrow> place_area s correct_index start n))))"

end
