(* ===== verification/Placement_Correct.thy ===== *)
theory Placement_Correct
  imports Placement_Memory
begin

text \<open>
  Correctness of the table of free memory areas. The abstraction of a table is the set of free
  addresses (\<open>free_set\<close>); the invariant (\<open>placement_wf\<close>) says that the live areas are non-empty, end
  below the last byte of the address space, are sorted and do not overlap, and that the slots behind
  them are zero. The routines are first shown to act on the list of live areas (shrinking, removing
  or splitting one entry is one lemma, \<open>replace_area\<close>), then on the set.
\<close>

section \<open>Lists of areas and the addresses they cover\<close>

definition block :: "u64 \<Rightarrow> u64 \<Rightarrow> nat set" where
  "block start n = {unat start ..< unat start + unat n}"

definition area_end :: "memory_area \<Rightarrow> nat" where
  "area_end a = unat (area_start a) + unat (area_size a)"

definition area_range :: "memory_area \<Rightarrow> nat set" where
  "area_range a = {unat (area_start a) ..< area_end a}"

definition area_ok :: "memory_area \<Rightarrow> bool" where
  "area_ok a \<longleftrightarrow> area_size a \<noteq> 0 \<and> area_end a < 2 ^ 64"

definition areas_ok :: "memory_area list \<Rightarrow> bool" where
  "areas_ok as \<longleftrightarrow> (\<forall>a \<in> set as. area_ok a) \<and>
    sorted_wrt (\<lambda>a b. area_end a \<le> unat (area_start b)) as"

definition ranges :: "memory_area list \<Rightarrow> nat set" where
  "ranges as = (\<Union>a \<in> set as. area_range a)"

definition live :: "placement \<Rightarrow> memory_area list" where
  "live s = take (free_memory_area_index s) (free_memory_areas s)"

definition free_set :: "placement \<Rightarrow> nat set" where
  "free_set s = ranges (live s)"

definition placement_wf :: "placement \<Rightarrow> bool" where
  "placement_wf s \<longleftrightarrow> length (free_memory_areas s) = MAX_MEMORY_AREAS_SIZE \<and>
    free_memory_area_index s \<le> MAX_MEMORY_AREAS_SIZE \<and> areas_ok (live s) \<and>
    (\<forall>a \<in> set (drop (free_memory_area_index s) (free_memory_areas s)). is_free a)"

named_theorems area_defs \<open>areas as intervals of natural numbers\<close>

lemmas [area_defs] = block_def area_end_def area_range_def area_ok_def

lemma area_range_alt:
  "area_range a = {unat (area_start a) ..< unat (area_start a) + unat (area_size a)}"
  by (simp add: area_range_def area_end_def)

lemma ranges_append [simp]: "ranges (xs @ ys) = ranges xs \<union> ranges ys"
  by (simp add: ranges_def)

lemma ranges_Cons [simp]: "ranges (a # as) = area_range a \<union> ranges as"
  by (simp add: ranges_def)

lemma ranges_Nil [simp]: "ranges [] = {}"
  by (simp add: ranges_def)

lemma areas_ok_Nil [simp]: "areas_ok []"
  by (simp add: areas_ok_def)

lemma areas_ok_append:
  "areas_ok (xs @ ys) \<longleftrightarrow> areas_ok xs \<and> areas_ok ys \<and>
    (\<forall>a \<in> set xs. \<forall>b \<in> set ys. area_end a \<le> unat (area_start b))"
  by (auto simp: areas_ok_def sorted_wrt_append)

lemma areas_ok_Cons:
  "areas_ok (a # as) \<longleftrightarrow> area_ok a \<and> areas_ok as \<and>
    (\<forall>b \<in> set as. area_end a \<le> unat (area_start b))"
  by (auto simp: areas_ok_def)

lemma areas_ok_single [simp]: "areas_ok [a] \<longleftrightarrow> area_ok a"
  by (simp add: areas_ok_def)

lemma areas_ok_mem: "areas_ok as \<Longrightarrow> a \<in> set as \<Longrightarrow> area_ok a"
  by (simp add: areas_ok_def)

lemma area_ok_less: "area_ok a \<Longrightarrow> unat (area_start a) < area_end a"
  by (simp add: area_ok_def area_end_def unat_pos)

lemma block_last:
  fixes start n :: u64
  assumes "n \<noteq> 0" "unat start + unat n \<le> 2 ^ 64"
  shows "unat (start + n - 1) = unat start + unat n - 1"
proof -
  have n: "unat (n - 1) = unat n - 1" "1 \<le> unat n" using assms(1) by (simp_all add: word_nat Suc_le_eq)
  have "start + n - 1 = start + (n - 1)" by simp
  also have "unat \<dots> = unat start + unat (n - 1)"
    using n assms(2) by (intro unat_plus_no_wrap) simp
  finally show ?thesis using n by linarith
qed

lemma area_last:
  assumes "area_ok a"
  shows "unat (area_start a + area_size a - 1) = area_end a - 1"
  using assms by (simp add: area_ok_def area_end_def block_last)

text \<open>
  Replacing one area by a sorted list of areas inside of its bounds keeps the list sorted and
  disjoint, and takes from the free addresses exactly what the replacement leaves out.
\<close>

lemma areas_ok_disjoint:
  assumes "areas_ok (xs @ a # ys)"
  shows "area_range a \<inter> ranges (xs @ ys) = {}"
proof -
  have "area_end b \<le> unat (area_start a)" if "b \<in> set xs" for b
    using assms that by (auto simp: areas_ok_append)
  moreover have "area_end a \<le> unat (area_start b)" if "b \<in> set ys" for b
    using assms that by (auto simp: areas_ok_append areas_ok_Cons)
  ultimately show ?thesis by (force simp: ranges_def area_range_def)
qed

lemma replace_area:
  assumes "areas_ok (xs @ a # ys)" "areas_ok bs"
    and "\<And>b. b \<in> set bs \<Longrightarrow> unat (area_start a) \<le> unat (area_start b) \<and> area_end b \<le> area_end a"
  shows "areas_ok (xs @ bs @ ys)"
    and "ranges (xs @ bs @ ys) = (ranges (xs @ a # ys) - area_range a) \<union> ranges bs"
proof -
  have "\<forall>x \<in> set xs. \<forall>b \<in> set bs. area_end x \<le> unat (area_start b)"
    using assms(1,3) by (force simp: areas_ok_append)
  moreover have "\<forall>b \<in> set bs. \<forall>y \<in> set ys. area_end b \<le> unat (area_start y)"
    using assms(1,3) by (force simp: areas_ok_append areas_ok_Cons)
  ultimately show "areas_ok (xs @ bs @ ys)"
    using assms(1,2) by (auto simp: areas_ok_append areas_ok_Cons)
  show "ranges (xs @ bs @ ys) = (ranges (xs @ a # ys) - area_range a) \<union> ranges bs"
    using areas_ok_disjoint [OF assms(1)] by auto
qed

lemma area_range_subset_ranges: "a \<in> set as \<Longrightarrow> area_range a \<subseteq> ranges as"
  by (auto simp: ranges_def)

section \<open>The shift loops\<close>

lemma shift_left_eq:
  "j \<le> n \<Longrightarrow> n < length areas \<Longrightarrow>
    shift_left areas j n = Inr (take j areas @ take (n - j) (drop (Suc j) areas) @ drop n areas)"
proof (induction "n - j" arbitrary: j areas)
  case 0
  then show ?case by (subst shift_left.simps) simp
next
  case (Suc d)
  then have j: "j < n" and d: "d = n - Suc j" by simp_all
  have "shift_left areas j n = shift_left (areas[j := areas ! Suc j]) (Suc j) n"
    using j Suc.prems by (simp add: shift_left.simps [of areas j n])
  also have "\<dots> = Inr (take (Suc j) (areas[j := areas ! Suc j]) @
      take (n - Suc j) (drop (Suc (Suc j)) areas) @ drop n areas)"
    using Suc.hyps(1) [OF d] j Suc.prems by simp
  also have "take (Suc j) (areas[j := areas ! Suc j]) = take j areas @ [areas ! Suc j]"
    using j Suc.prems by (simp add: take_Suc_conv_app_nth)
  finally show ?case
    using j Suc.prems by (simp add: Cons_nth_drop_Suc [symmetric] Suc_diff_Suc [symmetric])
qed

lemma shift_left_faults:
  "j < n \<Longrightarrow> n = length areas \<Longrightarrow> shift_left areas j n = Inl Out_of_bounds"
proof (induction "n - j" arbitrary: j areas)
  case 0
  then show ?case by simp
next
  case (Suc d)
  show ?case
  proof (cases "Suc j = n")
    case True
    with Suc.prems show ?thesis by (subst shift_left.simps) simp
  next
    case False
    then show ?thesis
      using Suc.hyps(1) [of "Suc j" "areas[j := areas ! Suc j]"] Suc.hyps(2) Suc.prems
      by (subst shift_left.simps) simp
  qed
qed

lemma shift_right_eq:
  "k \<le> i \<Longrightarrow> i < length areas \<Longrightarrow>
    shift_right areas i k = Inr (take (Suc k) areas @ take (i - k) (drop k areas) @ drop (Suc i) areas)"
proof (induction "i - k" arbitrary: i areas)
  case 0
  then show ?case by (subst shift_right.simps) simp
next
  case (Suc d)
  then obtain m where i: "i = Suc m" "k \<le> m" and d: "d = m - k" by (cases i) auto
  have "shift_right areas i k = shift_right (areas[i := areas ! m]) m k"
    using i Suc.prems by (subst shift_right.simps) simp
  also have "\<dots> = Inr (take (Suc k) areas @ take (m - k) (drop k areas) @ drop (Suc m) (areas[i := areas ! m]))"
    using Suc.hyps(1) [OF d i(2), of "areas[i := areas ! m]"] i Suc.prems(2)
    by (simp add: drop_update_swap)
  also have "drop (Suc m) (areas[i := areas ! m]) = areas ! m # drop (Suc i) areas"
    using i Suc.prems(2) by (simp add: Cons_nth_drop_Suc [symmetric])
  also have "take (m - k) (drop k areas) @ areas ! m # drop (Suc i) areas =
      take (i - k) (drop k areas) @ drop (Suc i) areas"
    using i Suc.prems(2) by (simp add: Suc_diff_le take_Suc_conv_app_nth)
  finally show ?case .
qed

section \<open>Well-formed tables\<close>

text \<open>
  A well-formed table is determined by its live areas: \<open>table as\<close> is the table that holds \<open>as\<close> and
  zeros behind them.
\<close>

definition zero_area :: memory_area where
  "zero_area = \<lparr>area_start = 0, area_size = 0\<rparr>"

definition table :: "memory_area list \<Rightarrow> placement" where
  "table as = \<lparr>free_memory_areas = as @ replicate (MAX_MEMORY_AREAS_SIZE - length as) zero_area,
               free_memory_area_index = length as\<rparr>"

named_theorems table_simps \<open>accesses of a well-formed table\<close>

lemma is_free_iff: "is_free a \<longleftrightarrow> a = zero_area"
  by (cases a) (auto simp: is_free_def zero_area_def)

lemma index_table [simp]: "free_memory_area_index (table as) = length as"
  by (simp add: table_def)

lemma live_table [simp]: "live (table as) = as"
  by (simp add: live_def table_def)

lemma free_set_table [simp]: "free_set (table as) = ranges as"
  by (simp add: free_set_def)

lemma length_table [simp]:
  "length as \<le> 10 \<Longrightarrow> length (free_memory_areas (table as)) = 10"
  by (simp add: table_def MAX_MEMORY_AREAS_SIZE_def)

lemma placement_wf_table: "placement_wf (table as) \<longleftrightarrow> length as \<le> 10 \<and> areas_ok as"
  by (auto simp: placement_wf_def live_def table_def MAX_MEMORY_AREAS_SIZE_def is_free_iff)

lemma placement_wf_cases:
  assumes "placement_wf s"
  obtains as where "s = table as" "length as \<le> 10" "areas_ok as"
proof -
  let ?n = "free_memory_area_index s" and ?A = "free_memory_areas s"
  have len: "length ?A = 10" "?n \<le> 10"
    using assms by (simp_all add: placement_wf_def MAX_MEMORY_AREAS_SIZE_def)
  have "drop ?n ?A = replicate (10 - ?n) zero_area"
    using assms len by (intro replicate_eqI) (auto simp: placement_wf_def is_free_iff)
  then have "?A = take ?n ?A @ replicate (10 - ?n) zero_area"
    by (metis append_take_drop_id)
  with len have "s = table (take ?n ?A)"
    by (cases s) (simp add: table_def MAX_MEMORY_AREAS_SIZE_def)
  moreover have "length (take ?n ?A) \<le> 10" using len by simp
  moreover have "areas_ok (take ?n ?A)" using assms by (simp add: placement_wf_def live_def)
  ultimately show thesis by (rule that)
qed

lemma table_nth [table_simps]: "free_memory_areas (table (xs @ a # ys)) ! length xs = a"
  by (simp add: table_def)

lemma table_update [table_simps]:
  "(free_memory_areas (table (xs @ a # ys)))[length xs := b] = free_memory_areas (table (xs @ b # ys))"
  by (simp add: table_def)

lemma table_nth_behind [table_simps]:
  "length as < 10 \<Longrightarrow> free_memory_areas (table as) ! length as = zero_area"
  by (simp add: table_def MAX_MEMORY_AREAS_SIZE_def nth_append)

lemma table_update_behind [table_simps]:
  assumes "length as < 10"
  shows "(free_memory_areas (table as))[length as := b] = free_memory_areas (table (as @ [b]))"
proof -
  obtain k where k: "MAX_MEMORY_AREAS_SIZE - length as = Suc k"
    using assms by (metis MAX_MEMORY_AREAS_SIZE_def Suc_diff_Suc)
  then have "MAX_MEMORY_AREAS_SIZE - length (as @ [b]) = k" by simp
  with k show ?thesis by (simp add: table_def)
qed

lemma table_close_gap [table_simps]:
  assumes "Suc (length xs + length ys) < 10"
  shows "shift_left (free_memory_areas (table (xs @ a # ys))) (length xs) (Suc (length xs + length ys)) =
    Inr (free_memory_areas (table (xs @ ys)))"
proof -
  let ?n = "Suc (length xs + length ys)"
  have "MAX_MEMORY_AREAS_SIZE - length (xs @ ys) = Suc (MAX_MEMORY_AREAS_SIZE - ?n)"
    using assms by (simp add: MAX_MEMORY_AREAS_SIZE_def)
  moreover obtain k where "MAX_MEMORY_AREAS_SIZE - ?n = Suc k"
    using assms by (metis MAX_MEMORY_AREAS_SIZE_def Suc_diff_Suc)
  ultimately show ?thesis
    using assms by (subst shift_left_eq) (simp_all add: table_def)
qed

lemma table_close_gap_full [table_simps]:
  assumes "Suc (length xs + length ys) = 10"
  shows "shift_left (free_memory_areas (table (xs @ a # ys))) (length xs) 10 = Inl Out_of_bounds"
  using assms by (intro shift_left_faults) (simp_all add: table_def MAX_MEMORY_AREAS_SIZE_def)

lemma table_open_gap [table_simps]:
  assumes "Suc (length xs + length ys) < 10"
  shows "and_then (shift_right (free_memory_areas (table (xs @ a # ys))) (Suc (length xs + length ys)) (length xs))
      (\<lambda>areas. and_then (wr areas (Suc (length xs)) b) k) = k (free_memory_areas (table (xs @ a # b # ys)))"
proof -
  let ?n = "Suc (length xs + length ys)"
  obtain m where m: "MAX_MEMORY_AREAS_SIZE - ?n = Suc m"
    using assms by (metis MAX_MEMORY_AREAS_SIZE_def Suc_diff_Suc)
  then have "MAX_MEMORY_AREAS_SIZE - length (xs @ a # b # ys) = m" by simp
  with m assms show ?thesis
    by (subst shift_right_eq) (simp_all add: table_def list_update_append)
qed

lemma table_replaced [table_simps]:
  "length bs = length as \<Longrightarrow>
    (table as)\<lparr>free_memory_areas := free_memory_areas (table bs)\<rparr> = table bs"
  by (simp add: table_def)

lemma table_resized [table_simps]:
  "n = length bs \<Longrightarrow>
    (table as)\<lparr>free_memory_areas := free_memory_areas (table bs), free_memory_area_index := n\<rparr> = table bs"
  by (simp add: table_def)

section \<open>Allocating the lowest area that fits\<close>

lemma allocate_skip:
  "\<forall>x \<in> set xs. area_size x < n \<Longrightarrow> length (pre @ xs @ zs) \<le> 10 \<Longrightarrow>
    allocate_loop (table (pre @ xs @ zs)) n (length pre) =
      allocate_loop (table (pre @ xs @ zs)) n (length (pre @ xs))"
proof (induction xs arbitrary: pre)
  case Nil
  then show ?case by simp
next
  case (Cons x xs)
  then have "allocate_loop (table (pre @ (x # xs) @ zs)) n (length pre) =
      allocate_loop (table ((pre @ [x]) @ xs @ zs)) n (length (pre @ [x]))"
    by (subst allocate_loop.simps) (auto simp: table_simps)
  also have "\<dots> = allocate_loop (table ((pre @ [x]) @ xs @ zs)) n (length ((pre @ [x]) @ xs))"
    using Cons.prems by (intro Cons.IH) auto
  finally show ?case by simp
qed

lemma allocate_none:
  assumes "\<forall>x \<in> set as. area_size x < n" "length as \<le> 10"
  shows "allocate (table as) n = Inr (0, table as)"
proof -
  have "allocate_loop (table as) n 0 = allocate_loop (table as) n (length as)"
    using allocate_skip [of as n "[]" "[]"] assms by simp
  also have "\<dots> = Inr (0, table as)" by (subst allocate_loop.simps) simp
  finally show ?thesis by (simp add: allocate_def)
qed

lemma allocate_first_fit:
  assumes "\<forall>x \<in> set xs. area_size x < n" "n \<le> area_size a" "n \<noteq> 0" "length (xs @ a # ys) \<le> 10"
  shows "allocate (table (xs @ a # ys)) n =
    (if n < area_size a then
       Inr (area_start a, table (xs @ a\<lparr>area_start := area_start a + n, area_size := area_size a - n\<rparr> # ys))
     else if length (xs @ a # ys) < 10 then Inr (area_start a, table (xs @ ys))
     else Inl Out_of_bounds)"
proof -
  have "allocate (table (xs @ a # ys)) n = allocate_loop (table (xs @ a # ys)) n (length xs)"
    using allocate_skip [of xs n "[]" "a # ys"] assms by (simp add: allocate_def)
  moreover have "(area_size a = n) = (\<not> n < area_size a)" using assms(2) by auto
  ultimately show ?thesis
    using assms(4) by (subst (asm) allocate_loop.simps) (auto simp: table_simps)
qed

lemma area_split_front:
  assumes "area_ok a" "n < area_size a" "n \<noteq> 0"
  defines "b \<equiv> a\<lparr>area_start := area_start a + n, area_size := area_size a - n\<rparr>"
  shows "area_ok b" "area_end b = area_end a" "unat (area_start b) = unat (area_start a) + unat n"
    "block (area_start a) n = area_range a - area_range b" "block (area_start a) n \<subseteq> area_range a"
    "area_range b = area_range a - block (area_start a) n"
proof -
  have n: "unat n < unat (area_size a)" "0 < unat n"
    using assms(2,3) by (simp_all add: word_less_nat_alt unat_pos)
  have start: "unat (area_start b) = unat (area_start a) + unat n"
    using assms(1) n by (simp add: b_def area_ok_def area_end_def word_nat)
  have sz: "unat (area_size b) = unat (area_size a) - unat n"
    using n by (simp add: b_def word_nat)
  show e: "area_end b = area_end a" using n start sz by (simp add: area_end_def)
  show "unat (area_start b) = unat (area_start a) + unat n" by (rule start)
  have "area_size b \<noteq> 0" using sz n by (auto simp: unat_eq_0)
  with e assms(1) show "area_ok b" by (simp add: area_ok_def)
  show "block (area_start a) n = area_range a - area_range b" "block (area_start a) n \<subseteq> area_range a"
    "area_range b = area_range a - block (area_start a) n"
    using e start n by (auto simp: block_def area_range_def area_end_def)
qed

lemma area_exact: "n = area_size a \<Longrightarrow> block (area_start a) n = area_range a"
  by (simp add: block_def area_range_def area_end_def)

text \<open>The two ways in which the first area that fits gives its lower part away.\<close>

lemma first_fit_shrinks:
  assumes "areas_ok (xs @ a # ys)" "n < area_size a" "n \<noteq> 0"
  shows "areas_ok (xs @ a\<lparr>area_start := area_start a + n, area_size := area_size a - n\<rparr> # ys)"
    "ranges (xs @ a\<lparr>area_start := area_start a + n, area_size := area_size a - n\<rparr> # ys) =
      ranges (xs @ a # ys) - block (area_start a) n"
    "block (area_start a) n \<subseteq> area_range a"
proof -
  let ?b = "a\<lparr>area_start := area_start a + n, area_size := area_size a - n\<rparr>"
  have "area_ok a" using assms(1) by (auto simp: areas_ok_append areas_ok_Cons)
  note b = area_split_front [OF this assms(2,3)]
  have r: "areas_ok (xs @ [?b] @ ys)"
    "ranges (xs @ [?b] @ ys) = ranges (xs @ a # ys) - area_range a \<union> ranges [?b]"
    using replace_area [OF assms(1), of "[?b]"] b(1-3) by auto
  then show "areas_ok (xs @ ?b # ys)" by simp
  show "ranges (xs @ ?b # ys) = ranges (xs @ a # ys) - block (area_start a) n"
    using r(2) b(4,5) areas_ok_disjoint [OF assms(1)] b(2,3) by (auto simp: area_range_def)
  show "block (area_start a) n \<subseteq> area_range a" by (rule b(5))
qed

lemma first_fit_vanishes:
  assumes "areas_ok (xs @ a # ys)" "n = area_size a"
  shows "areas_ok (xs @ ys)" "ranges (xs @ ys) = ranges (xs @ a # ys) - block (area_start a) n"
    "block (area_start a) n \<subseteq> area_range a"
  using replace_area [OF assms(1), of "[]"] area_exact [of n a] assms(2) by auto

lemma allocate_cases:
  assumes "placement_wf s" "n \<noteq> 0"
  obtains (none) "allocate s n = Inr (0, s)" "\<forall>a \<in> set (live s). area_size a < n"
    | (fit) a s' where "allocate s n = Inr (area_start a, s')" "a \<in> set (live s)" "n \<le> area_size a"
        "\<And>b. b \<in> set (live s) \<Longrightarrow> n \<le> area_size b \<Longrightarrow> area_start a \<le> area_start b"
        "placement_wf s'" "free_set s' = free_set s - block (area_start a) n"
        "block (area_start a) n \<subseteq> free_set s"
    | (full) "allocate s n = Inl Out_of_bounds" "free_memory_area_index s = 10"
        "\<exists>a \<in> set (live s). area_size a = n"
proof -
  from assms(1) obtain as where s: "s = table as" "length as \<le> 10" "areas_ok as"
    by (rule placement_wf_cases)
  show thesis
  proof (cases "\<exists>a \<in> set as. n \<le> area_size a")
    case False
    then show thesis using allocate_none [of as n] s none by (auto simp: not_le)
  next
    case True
    then obtain xs a ys where as: "as = xs @ a # ys" "n \<le> area_size a" "\<forall>x \<in> set xs. \<not> n \<le> area_size x"
      by (auto dest!: split_list_first_prop)
    have low: "area_start a \<le> area_start b" if "b \<in> set as" "n \<le> area_size b" for b
    proof -
      from that as have "b = a \<or> b \<in> set ys" by auto
      moreover have "unat (area_start a) \<le> area_end a" by (simp add: area_end_def)
      ultimately show ?thesis
        using s(3) as(1) by (auto simp: areas_ok_append areas_ok_Cons word_le_nat_alt intro: order_trans)
    qed
    have fit': "allocate s n = (if n < area_size a then
        Inr (area_start a, table (xs @ a\<lparr>area_start := area_start a + n, area_size := area_size a - n\<rparr> # ys))
      else if length as < 10 then Inr (area_start a, table (xs @ ys)) else Inl Out_of_bounds)"
      using allocate_first_fit [of xs n a ys] as s assms(2) by (simp add: not_le)
    have ok: "areas_ok (xs @ a # ys)" "a \<in> set (live s)"
      using s as by (auto simp: areas_ok_append areas_ok_Cons)
    consider "n < area_size a" | "n = area_size a" "length as < 10" | "n = area_size a" "length as = 10"
      using as(2) s(2) by fastforce
    then show thesis
    proof cases
      case 1
      from first_fit_shrinks [OF ok(1) 1 assms(2)] show thesis
        using 1 fit' s as ok low area_range_subset_ranges [OF ok(2)]
        by (intro fit [of a "table (xs @ a\<lparr>area_start := area_start a + n, area_size := area_size a - n\<rparr> # ys)"])
          (auto simp: placement_wf_table)
    next
      case 2
      from first_fit_vanishes [OF ok(1) 2(1)] show thesis
        using 2 fit' s as ok low area_range_subset_ranges [OF ok(2)]
        by (intro fit [of a "table (xs @ ys)"]) (auto simp: placement_wf_table)
    next
      case 3
      then show thesis using full fit' s(1) ok(2) by auto
    qed
  qed
qed

section \<open>Allocating a given area\<close>

lemma ends_below_iff:
  assumes "area_ok a"
  shows "area_start a + area_size a - 1 < x \<longleftrightarrow> area_end a \<le> unat x"
  using area_last [OF assms] area_ok_less [OF assms] by (auto simp: word_less_nat_alt)

lemma find_area_skip:
  "\<forall>x \<in> set xs. area_ok x \<and> area_end x \<le> unat start \<Longrightarrow> length (pre @ xs @ zs) \<le> 10 \<Longrightarrow>
    find_area (table (pre @ xs @ zs)) start (length pre) =
      find_area (table (pre @ xs @ zs)) start (length (pre @ xs))"
proof (induction xs arbitrary: pre)
  case Nil
  then show ?case by simp
next
  case (Cons x xs)
  then have "find_area (table (pre @ (x # xs) @ zs)) start (length pre) =
      find_area (table ((pre @ [x]) @ xs @ zs)) start (length (pre @ [x]))"
    by (subst find_area.simps) (auto simp: table_simps ends_below_iff)
  also have "\<dots> = find_area (table ((pre @ [x]) @ xs @ zs)) start (length ((pre @ [x]) @ xs))"
    using Cons.prems by (intro Cons.IH) auto
  finally show ?case by simp
qed

lemma find_area_first:
  assumes "areas_ok (xs @ a # ys)" "length (xs @ a # ys) \<le> 10"
    "\<forall>x \<in> set xs. area_end x \<le> unat start" "unat start < area_end a"
  shows "find_area (table (xs @ a # ys)) start 0 = Inr (Some (length xs, a))"
proof -
  have "find_area (table (xs @ a # ys)) start 0 = find_area (table (xs @ a # ys)) start (length xs)"
    using find_area_skip [of xs start "[]" "a # ys"] assms by (auto simp: areas_ok_append areas_ok_def)
  moreover have "area_ok a" using assms(1) by (simp add: areas_ok_append areas_ok_Cons)
  ultimately show ?thesis
    using assms(2,4) by (subst (asm) (2) find_area.simps) (simp add: table_simps ends_below_iff)
qed

lemma find_area_none:
  assumes "areas_ok as" "length as \<le> 10" "\<forall>x \<in> set as. area_end x \<le> unat start"
  shows "find_area (table as) start 0 = Inr None"
proof -
  have "find_area (table as) start 0 = find_area (table as) start (length as)"
    using find_area_skip [of as start "[]" "[]"] assms by (auto simp: areas_ok_def)
  then show ?thesis by (subst (asm) (2) find_area.simps) simp
qed

text \<open>The pieces an area leaves when a block inside of it is taken.\<close>

lemma area_split_back:
  assumes "area_ok a" "unat (area_start a) < unat start" "unat start + unat n = area_end a" "n \<noteq> 0"
  defines "b \<equiv> a\<lparr>area_size := area_size a - n\<rparr>"
  shows "area_ok b" "area_start b = area_start a" "area_end b = unat start"
proof -
  have "unat (area_size b) = unat (area_size a) - unat n"
    using assms(2,3) by (simp add: b_def area_end_def word_nat)
  with assms(2,3) show "area_end b = unat start" by (simp add: b_def area_end_def)
  with assms(1-3) show "area_ok b" by (auto simp: area_ok_def area_end_def b_def)
qed (simp add: b_def)

lemma area_cut_back:
  assumes "area_ok a" "unat (area_start a) < unat start" "unat start < area_end a"
  defines "b \<equiv> a\<lparr>area_size := start - area_start a\<rparr>"
  shows "area_ok b" "area_start b = area_start a" "area_end b = unat start"
proof -
  have "unat (area_size b) = unat start - unat (area_start a)"
    using assms(2) by (simp add: b_def word_nat)
  with assms(2) show e: "area_end b = unat start" by (simp add: b_def area_end_def)
  have "area_size b \<noteq> 0" using assms(2) by (auto simp: b_def)
  with e assms(1,3) show "area_ok b" by (simp add: area_ok_def)
qed (simp add: b_def)

lemma area_cut_front:
  fixes e len :: u64
  assumes "area_ok a" "unat e + 1 < area_end a" "unat len = area_end a - (unat e + 1)"
  shows "area_ok \<lparr>area_start = e + 1, area_size = len\<rparr>"
    "unat (e + 1) = unat e + 1" "area_end \<lparr>area_start = e + 1, area_size = len\<rparr> = area_end a"
proof -
  show e: "unat (e + 1) = unat e + 1"
    using assms(1,2) by (subst unat_plus_no_wrap) (simp_all add: area_ok_def)
  show "area_end \<lparr>area_start = e + 1, area_size = len\<rparr> = area_end a"
    using e assms(2,3) by (simp add: area_end_def)
  moreover have "len \<noteq> 0" using assms(2,3) by auto
  ultimately show "area_ok \<lparr>area_start = e + 1, area_size = len\<rparr>"
    using assms(1) by (simp add: area_ok_def)
qed

lemma allocate_area_at_table:
  fixes start n :: u64 and xs a ys
  assumes "area_ok a" "n \<noteq> 0" "unat start + unat n \<le> 2 ^ 64" "length (xs @ a # ys) \<le> 10"
  defines "s \<equiv> table (xs @ a # ys)" and "sa \<equiv> unat (area_start a)" and "ea \<equiv> area_end a"
    and "sb \<equiv> unat start" and "eb \<equiv> unat start + unat n"
  shows "allocate_area_at s start n (length xs) a =
    (if sa = sb \<and> eb < ea then
       Inr (0, table (xs @ a\<lparr>area_start := area_start a + n, area_size := area_size a - n\<rparr> # ys))
     else if sa < sb \<and> ea = eb then Inr (0, table (xs @ a\<lparr>area_size := area_size a - n\<rparr> # ys))
     else if sa = sb \<and> ea = eb then
       if length (xs @ a # ys) < 10 then Inr (0, table (xs @ ys)) else Inl Out_of_bounds
     else if sa < sb \<and> eb < ea then
       if length (xs @ a # ys) < 10 then
         Inr (0, table (xs @ a\<lparr>area_size := start - area_start a\<rparr> #
           \<lparr>area_start = (start + n - 1) + 1,
            area_size = area_size a - n - (start - area_start a)\<rparr> # ys))
       else Inr (- 4, s)
     else Inr (- 5, s))"
proof -
  have conds: "area_start a = start \<longleftrightarrow> sa = sb" "area_start a < start \<longleftrightarrow> sa < sb"
    "start + n - 1 < area_start a + area_size a - 1 \<longleftrightarrow> eb < ea"
    "area_start a + area_size a - 1 = start + n - 1 \<longleftrightarrow> ea = eb"
    using area_last [OF assms(1)] block_last [OF assms(2,3)] area_ok_less [OF assms(1)]
      unat_pos [OF assms(2)]
    by (auto simp: word_less_nat_alt word_eq_unat sa_def sb_def ea_def eb_def)
  show ?thesis
    using assms(4)
    by (simp add: allocate_area_at_def Let_def conds s_def table_simps MAX_MEMORY_AREAS_SIZE_def)
qed

text \<open>
  What \<open>allocate_area\<close> makes of the one area \<open>a\<close> that holds the block: the pieces that remain.
\<close>

definition remaining :: "memory_area \<Rightarrow> u64 \<Rightarrow> u64 \<Rightarrow> memory_area list" where
  "remaining a start n =
     (let sa = unat (area_start a); ea = area_end a; sb = unat start; eb = unat start + unat n in
      (if sa = sb \<and> eb < ea then [a\<lparr>area_start := area_start a + n, area_size := area_size a - n\<rparr>]
       else if sa < sb \<and> ea = eb then [a\<lparr>area_size := area_size a - n\<rparr>]
       else if sa < sb \<and> eb < ea then
         [a\<lparr>area_size := start - area_start a\<rparr>,
          \<lparr>area_start = (start + n - 1) + 1, area_size = area_size a - n - (start - area_start a)\<rparr>]
       else []))"

lemma remaining_middle:
  assumes "area_ok a" "n \<noteq> 0" "unat (area_start a) < unat start" "unat start + unat n < area_end a"
  shows "areas_ok (remaining a start n) \<and>
    ranges (remaining a start n) = area_range a - block start n \<and>
    (\<forall>b \<in> set (remaining a start n). unat (area_start a) \<le> unat (area_start b) \<and> area_end b \<le> area_end a)"
proof -
  let ?sa = "unat (area_start a)" and ?ea = "area_end a" and ?sb = "unat start"
    and ?eb = "unat start + unat n"
  let ?e = "start + n - 1" and ?len = "area_size a - n - (start - area_start a)"
  have n: "0 < unat n" using assms(2) by (rule unat_pos)
  have ea: "?ea < 2 ^ 64" "?ea = ?sa + unat (area_size a)"
    using assms(1) by (simp_all add: area_ok_def area_end_def)
  have e: "unat ?e = ?eb - 1" using assms(2,4) ea by (intro block_last) simp_all
  have "unat (area_size a - n) = unat (area_size a) - unat n" "unat (start - area_start a) = ?sb - ?sa"
    using assms(3,4) ea by (simp_all add: word_nat)
  then have len: "unat ?len = ?ea - (unat ?e + 1)"
    using assms(3,4) ea n e by (subst unat_minus_no_wrap) simp_all
  have "unat ?e + 1 < ?ea" using assms(4) e n by simp
  note rear = area_cut_front [OF assms(1) this len]
  have "?sb < ?ea" using assms(4) by simp
  note front = area_cut_back [OF assms(1,3) this]
  have r: "remaining a start n = [a\<lparr>area_size := start - area_start a\<rparr>, \<lparr>area_start = ?e + 1, area_size = ?len\<rparr>]"
    using assms(3,4) by (simp add: remaining_def Let_def)
  have "unat (?e + 1) = ?eb" using rear(2) e n by simp
  then show ?thesis
    unfolding r using front rear(1,3) assms(3,4)
    by (auto simp: areas_ok_Cons block_def area_range_def simp del: diff_add_cancel)
qed

lemma remaining_correct:
  assumes "area_ok a" "n \<noteq> 0" "unat (area_start a) \<le> unat start" "unat start + unat n \<le> area_end a"
  shows "areas_ok (remaining a start n)"
    "ranges (remaining a start n) = area_range a - block start n"
    "\<And>b. b \<in> set (remaining a start n) \<Longrightarrow>
       unat (area_start a) \<le> unat (area_start b) \<and> area_end b \<le> area_end a"
proof -
  let ?sa = "unat (area_start a)" and ?ea = "area_end a" and ?sb = "unat start"
    and ?eb = "unat start + unat n"
  have ea: "?ea < 2 ^ 64" "?ea = ?sa + unat (area_size a)"
    using assms(1) by (simp_all add: area_ok_def area_end_def)
  consider "?sa = ?sb" "?eb < ?ea" | "?sa < ?sb" "?ea = ?eb" | "?sa = ?sb" "?ea = ?eb"
    | "?sa < ?sb" "?eb < ?ea" using assms(3,4) by linarith
  then have "areas_ok (remaining a start n) \<and>
    ranges (remaining a start n) = area_range a - block start n \<and>
    (\<forall>b \<in> set (remaining a start n). ?sa \<le> unat (area_start b) \<and> area_end b \<le> ?ea)"
  proof cases
    case 1
    then have "n < area_size a" using ea by (simp add: word_less_nat_alt)
    note front = area_split_front [OF assms(1) this assms(2)]
    have "start = area_start a" using 1(1) by (simp add: word_eq_unat)
    moreover have "remaining a start n = [a\<lparr>area_start := area_start a + n, area_size := area_size a - n\<rparr>]"
      using 1 by (simp add: remaining_def)
    ultimately show ?thesis using front(1,2,3,6) by simp
  next
    case 2
    note rear = area_split_back [OF assms(1) 2(1) 2(2) [symmetric] assms(2)]
    have "remaining a start n = [a\<lparr>area_size := area_size a - n\<rparr>]"
      using 2 by (simp add: remaining_def)
    moreover have "area_range (a\<lparr>area_size := area_size a - n\<rparr>) = area_range a - block start n"
      using rear 2 by (auto simp: block_def area_range_def)
    ultimately show ?thesis using rear 2 by simp
  next
    case 3
    then show ?thesis by (auto simp: remaining_def block_def area_range_def)
  next
    case 4
    then show ?thesis using remaining_middle [OF assms(1,2)] by simp
  qed
  then show "areas_ok (remaining a start n)"
    "ranges (remaining a start n) = area_range a - block start n"
    "\<And>b. b \<in> set (remaining a start n) \<Longrightarrow>
       unat (area_start a) \<le> unat (area_start b) \<and> area_end b \<le> area_end a" by auto
qed

lemma block_subset_iff:
  "n \<noteq> 0 \<Longrightarrow> block start n \<subseteq> area_range a \<longleftrightarrow>
    unat (area_start a) \<le> unat start \<and> unat start + unat n \<le> area_end a"
  using unat_pos [of n] by (auto simp: block_def area_range_def)

text \<open>The search stops at the first area that ends behind \<open>start\<close>.\<close>

lemma allocate_area_search:
  assumes "s = table as" "length as \<le> 10" "areas_ok as" "n \<noteq> 0"
  obtains (none) "allocate_area s start n = Inr (if as = [] then - 1 else - 3, s)"
      "\<forall>a \<in> set as. \<not> block start n \<subseteq> area_range a" "\<forall>a \<in> set as. area_end a \<le> unat start"
    | (found) xs a ys where "as = xs @ a # ys" "area_ok a" "unat start < area_end a"
      "allocate_area s start n = allocate_area_at s start n (length xs) a"
      "\<forall>b \<in> set xs \<union> set ys. \<not> (unat (area_start b) \<le> unat start \<and> unat start < area_end b)"
proof (cases "\<exists>a \<in> set as. unat start < area_end a")
  case False
  then have "find_area (table as) start 0 = Inr None"
    using find_area_none [of as start] assms(2,3) by (auto simp: not_less)
  then have "allocate_area s start n = Inr (if as = [] then - 1 else - 3, s)"
    using assms(1,4) by (simp add: allocate_area_def)
  moreover have "\<forall>a \<in> set as. \<not> block start n \<subseteq> area_range a"
    using False block_subset_iff [OF assms(4)] unat_pos [OF assms(4)] by fastforce
  moreover have "\<forall>a \<in> set as. area_end a \<le> unat start" using False by (simp add: not_less)
  ultimately show thesis by (rule none)
next
  case True
  then obtain xs a ys where as: "as = xs @ a # ys" "unat start < area_end a"
    "\<forall>x \<in> set xs. \<not> unat start < area_end x"
    by (auto dest!: split_list_first_prop)
  have ok: "areas_ok (xs @ a # ys)" "area_ok a" using assms(3) as by (auto simp: areas_ok_append areas_ok_Cons)
  have "allocate_area s start n = allocate_area_at s start n (length xs) a"
    using find_area_first [of xs a ys start] assms as by (simp add: allocate_area_def not_less)
  moreover have "area_end a \<le> unat (area_start b)" if "b \<in> set ys" for b
    using that ok(1) by (auto simp: areas_ok_append areas_ok_Cons)
  then have "\<forall>b \<in> set xs \<union> set ys. \<not> (unat (area_start b) \<le> unat start \<and> unat start < area_end b)"
    using as(2,3) by fastforce
  ultimately show thesis using found as(1,2) ok(2) by blast
qed

lemma allocate_area_cases:
  assumes "placement_wf s" "n \<noteq> 0" "unat start + unat n \<le> 2 ^ 64"
  obtains (inside) a s' where "allocate_area s start n = Inr (0, s')" "a \<in> set (live s)"
      "block start n \<subseteq> area_range a" "placement_wf s'" "free_set s' = free_set s - block start n"
    | (outside) r where "allocate_area s start n = Inr (r, s)"
        "r = (if live s = [] then - 1 else if \<forall>a \<in> set (live s). area_end a \<le> unat start then - 3 else - 5)"
        "\<forall>a \<in> set (live s). \<not> block start n \<subseteq> area_range a"
    | (no_slot) a where "allocate_area s start n = Inr (- 4, s)" "free_memory_area_index s = 10"
        "a \<in> set (live s)" "unat (area_start a) < unat start" "unat start + unat n < area_end a"
    | (full) a where "allocate_area s start n = Inl Out_of_bounds" "free_memory_area_index s = 10"
        "a \<in> set (live s)" "area_start a = start" "area_size a = n"
proof -
  from assms(1) obtain as where s: "s = table as" "length as \<le> 10" "areas_ok as"
    by (rule placement_wf_cases)
  from s assms(2) show thesis
  proof (cases rule: allocate_area_search [where start = start])
    case none
    then show thesis using outside [of "if as = [] then - 1 else - 3"] s(1) by simp
  next
    case (found xs a ys)
    have len: "length (xs @ a # ys) \<le> 10" and ok: "areas_ok (xs @ a # ys)" using s found(1) by simp_all
    note at_table = allocate_area_at_table [OF found(2) assms(2,3), of xs ys, OF len]
    show thesis
    proof (cases "block start n \<subseteq> area_range a")
      case True
      then have bounds: "unat (area_start a) \<le> unat start" "unat start + unat n \<le> area_end a"
        using block_subset_iff [OF assms(2)] by auto
      note rem = remaining_correct [OF found(2) assms(2) bounds]
      note rep = replace_area [OF ok rem(1,3)]
      let ?s' = "table (xs @ remaining a start n @ ys)"
      have set: "ranges (xs @ remaining a start n @ ys) = ranges as - block start n"
        using rep(2) rem(2) found(1) areas_ok_disjoint [OF ok] True by auto
      have mem: "a \<in> set (live s)" using s found(1) by simp
      consider (ten_split) "length as = 10" "unat (area_start a) < unat start" "unat start + unat n < area_end a"
        | (ten_exact) "length as = 10" "unat (area_start a) = unat start" "unat start + unat n = area_end a"
        | (slot) "allocate_area s start n = Inr (0, ?s')" "length (xs @ remaining a start n @ ys) \<le> 10"
        using found(4) at_table found(1) s bounds by (fastforce simp: remaining_def Let_def split: if_splits)
      then show thesis
      proof cases
        case ten_split
        then show thesis using no_slot [of a] found(4) at_table found(1) s(1) mem by simp
      next
        case ten_exact
        then have "area_start a = start" "area_size a = n" by (simp_all add: word_eq_unat area_end_def)
        with ten_exact show thesis using full [of a] found(4) at_table found(1) s(1) mem by simp
      next
        case slot
        then show thesis using inside [of ?s' a] rep(1) set s(1) True mem by (simp add: placement_wf_table)
      qed
    next
      case False
      then have "allocate_area s start n = Inr (- 5, s)"
        using found(4) at_table found(1) s(1) block_subset_iff [OF assms(2)] by auto
      moreover have "\<not> block start n \<subseteq> area_range b" if "b \<in> set as" for b
        using that found(1,5) False block_subset_iff [OF assms(2), of start b] unat_pos [OF assms(2)] by fastforce
      moreover have "\<not> (\<forall>a \<in> set (live s). area_end a \<le> unat start)" "live s \<noteq> []"
        using found(1,3) s(1) by (auto simp: not_le)
      ultimately show thesis using outside [of "- 5"] s(1) by simp
    qed
  qed
qed

text \<open>A block inside an area survives the allocation of another one: it lies in one of the parts that remain.\<close>

lemma remaining_contains:
  assumes "area_ok a" "n \<noteq> 0" "block start n \<subseteq> area_range a"
    and "m \<noteq> 0" "block other m \<subseteq> area_range a" "block other m \<inter> block start n = {}"
  shows "\<exists>b \<in> set (remaining a start n). block other m \<subseteq> area_range b"
proof -
  have in_a: "unat (area_start a) \<le> unat start" "unat start + unat n \<le> area_end a"
    "unat (area_start a) \<le> unat other" "unat other + unat m \<le> area_end a"
    using assms(3,5) block_subset_iff [OF assms(2)] block_subset_iff [OF assms(4)] by auto
  note pos = unat_pos [OF assms(2)] unat_pos [OF assms(4)]
  have sides: "unat other + unat m \<le> unat start \<or> unat start + unat n \<le> unat other"
  proof (rule ccontr)
    assume "\<not> ?thesis"
    then have "max (unat start) (unat other) \<in> block other m \<inter> block start n"
      using pos by (auto simp: block_def)
    then show False using assms(6) by simp
  qed
  have rest: "ranges (remaining a start n) = area_range a - block start n"
    by (rule remaining_correct(2) [OF assms(1,2) in_a(1,2)])
  have other: "block other m \<subseteq> ranges (remaining a start n)" using assms(5,6) rest by blast
  show ?thesis
  proof (cases "unat (area_start a) < unat start \<and> unat start + unat n < area_end a")
    case True
    let ?p = "a\<lparr>area_size := start - area_start a\<rparr>"
    let ?q = "\<lparr>area_start = (start + n - 1) + 1, area_size = area_size a - n - (start - area_start a)\<rparr>"
    have pq: "remaining a start n = [?p, ?q]" using True by (simp add: remaining_def Let_def)
    have p: "area_range ?p = {unat (area_start a)..<unat start}"
      using area_cut_back(3) [OF assms(1), of start] True by (simp add: area_range_def)
    show ?thesis
    proof (cases "unat other + unat m \<le> unat start")
      case True
      then have "block other m \<subseteq> area_range ?p" using in_a unfolding p by (auto simp: block_def)
      then show ?thesis unfolding pq by simp
    next
      case False
      then have "block other m \<inter> area_range ?p = {}" using sides unfolding p by (auto simp: block_def)
      then have "block other m \<subseteq> area_range ?q" using other unfolding pq by auto
      then show ?thesis unfolding pq by simp
    qed
  next
    case False
    then have "remaining a start n = [] \<or> (\<exists>x. remaining a start n = [x])"
      by (auto simp: remaining_def Let_def)
    moreover have "block other m \<noteq> {}" using pos by (simp add: block_def)
    ultimately show ?thesis using other by auto
  qed
qed

lemma allocate_area_inside:
  assumes "placement_wf s" "n \<noteq> 0" "unat start + unat n \<le> 2 ^ 64" "free_memory_area_index s < 10"
    and "a \<in> set (live s)" "block start n \<subseteq> area_range a"
  obtains s' where "allocate_area s start n = Inr (0, s')" "placement_wf s'" "free_set s' = free_set s - block start n"
    "free_memory_area_index s' \<le> Suc (free_memory_area_index s)"
    "\<And>b m other. b \<in> set (live s) \<Longrightarrow> block other m \<subseteq> area_range b \<Longrightarrow> m \<noteq> 0 \<Longrightarrow>
      block other m \<inter> block start n = {} \<Longrightarrow> \<exists>c \<in> set (live s'). block other m \<subseteq> area_range c"
proof -
  from assms(1) obtain as where s: "s = table as" "length as \<le> 10" "areas_ok as"
    by (rule placement_wf_cases)
  have bounds: "unat (area_start a) \<le> unat start" "unat start + unat n \<le> area_end a"
    using assms(6) block_subset_iff [OF assms(2)] by auto
  from s assms(2) show thesis
  proof (cases rule: allocate_area_search [where start = start])
    case none
    then show thesis using assms(5,6) s(1) by simp
  next
    case (found xs a' ys)
    have "unat start < area_end a" using bounds unat_pos [OF assms(2)] by linarith
    then have "a = a'" using found(1,5) assms(5) s(1) bounds(1) by auto
    note found = found [folded this]
    have len: "length (xs @ a # ys) < 10" and ok: "areas_ok (xs @ a # ys)" using s assms(4) found(1) by simp_all
    note rem = remaining_correct [OF found(2) assms(2) bounds]
    note rep = replace_area [OF ok rem(1,3)]
    let ?s' = "table (xs @ remaining a start n @ ys)"
    have run: "allocate_area s start n = Inr (0, ?s')"
      using found(4) allocate_area_at_table [OF found(2) assms(2,3), of xs ys] len found(1) s(1) bounds
      by (auto simp: remaining_def Let_def)
    have "length (remaining a start n) \<le> 2" by (simp add: remaining_def Let_def)
    then have index: "length (xs @ remaining a start n @ ys) \<le> Suc (length as)" using found(1) by simp
    have "\<exists>c \<in> set (live ?s'). block other m \<subseteq> area_range c"
      if "b \<in> set (live s)" "block other m \<subseteq> area_range b" "m \<noteq> 0" "block other m \<inter> block start n = {}" for b m other
    proof (cases "b = a")
      case True
      then show ?thesis
        using remaining_contains [OF found(2) assms(2,6) that(3) _ that(4)] that(2) by auto
    next
      case False
      then show ?thesis using that(1,2) s(1) found(1) by auto
    qed
    moreover have "free_set ?s' = free_set s - block start n"
      using rep(2) rem(2) found(1) s(1) areas_ok_disjoint [OF ok] assms(6) by auto
    moreover have "placement_wf ?s'" using rep(1) index len found(1) by (simp add: placement_wf_table)
    ultimately show thesis using that [OF run] index s(1) by simp
  qed
qed

text \<open>A block strictly inside an area of a full table.\<close>

lemma allocate_area_no_slot:
  assumes "placement_wf s" "n \<noteq> 0" "unat start + unat n \<le> 2 ^ 64" "free_memory_area_index s = 10"
    and "b \<in> set (live s)" "unat (area_start b) < unat start" "unat start + unat n < area_end b"
  shows "allocate_area s start n = Inr (- 4, s)"
proof -
  from assms(1) obtain as where s: "s = table as" "length as \<le> 10" "areas_ok as"
    by (rule placement_wf_cases)
  have inside: "block start n \<subseteq> area_range b" using block_subset_iff [OF assms(2)] assms(6,7) by simp
  from s assms(2) show ?thesis
  proof (cases rule: allocate_area_search [where start = start])
    case none
    then show ?thesis using inside assms(5) s(1) by simp
  next
    case (found xs a ys)
    have "unat (area_start b) \<le> unat start \<and> unat start < area_end b" using assms(6,7) by linarith
    then have "b = a" using found(1,5) assms(5) s(1) by auto
    moreover have "length (xs @ a # ys) = 10" using s(1) found(1) assms(4) by simp
    ultimately show ?thesis
      using allocate_area_at_table [OF found(2) assms(2,3), of xs ys] found(1,4) s(1) assms(6,7) by simp
  qed
qed

section \<open>Covering an area\<close>

text \<open>
  The pieces \<open>allocate_area_cover\<close> leaves of one area when the addresses from \<open>start\<close> up to and
  including \<open>e\<close> are taken; the loop computes \<open>concat (map (cut_area start e) as)\<close>.
\<close>

definition misses :: "u64 \<Rightarrow> u64 \<Rightarrow> memory_area \<Rightarrow> bool" where
  "misses start e a \<longleftrightarrow> area_end a \<le> unat start \<or> unat e < unat (area_start a)"

definition cut_area :: "u64 \<Rightarrow> u64 \<Rightarrow> memory_area \<Rightarrow> memory_area list" where
  "cut_area start e a =
     (let last = area_start a + area_size a - 1;
          front = a\<lparr>area_size := start - area_start a\<rparr> in
      if misses start e a then [a]
      else if start \<le> area_start a \<and> area_end a \<le> unat e + 1 then []
      else if start \<le> area_start a then [\<lparr>area_start = e + 1, area_size = last - (e + 1) + 1\<rparr>]
      else if area_end a \<le> unat e + 1 then [front]
      else [front, \<lparr>area_start = e + 1, area_size = last - e\<rparr>])"

lemma cut_area_correct:
  assumes "area_ok a" "unat start \<le> unat e"
  shows "areas_ok (cut_area start e a)" "ranges (cut_area start e a) = area_range a - {unat start .. unat e}"
    "\<And>b. b \<in> set (cut_area start e a) \<Longrightarrow>
       unat (area_start a) \<le> unat (area_start b) \<and> area_end b \<le> area_end a"
proof -
  let ?last = "area_start a + area_size a - 1" and ?sa = "unat (area_start a)" and ?ea = "area_end a"
    and ?P = "\<lambda>bs. areas_ok bs \<and> ranges bs = area_range a - {unat start .. unat e} \<and>
      (\<forall>b \<in> set bs. unat (area_start a) \<le> unat (area_start b) \<and> area_end b \<le> area_end a)"
  note last = area_last [OF assms(1)] and pos = area_ok_less [OF assms(1)]
  have front2: "unat (?last - e) = ?ea - (unat e + 1)" if "unat e + 1 < ?ea"
    using that last unat_minus_no_wrap [of e ?last] by linarith
  moreover have "?last - (e + 1) + 1 = ?last - e" by simp
  ultimately have front1: "unat (?last - (e + 1) + 1) = ?ea - (unat e + 1)" if "unat e + 1 < ?ea"
    using that by metis
  note part = area_cut_back [OF assms(1), of start]
  consider (miss) "misses start e a" | (all) "\<not> misses start e a" "start \<le> area_start a" "?ea \<le> unat e + 1"
    | (rear) "\<not> misses start e a" "start \<le> area_start a" "unat e + 1 < ?ea"
    | (front) "\<not> misses start e a" "area_start a < start" "?ea \<le> unat e + 1"
    | (both) "\<not> misses start e a" "area_start a < start" "unat e + 1 < ?ea"
    by fastforce
  then have "?P (cut_area start e a)"
  proof cases
    case miss
    then show ?thesis using assms pos by (auto simp: cut_area_def misses_def area_range_def)
  next
    case all
    then show ?thesis by (auto simp: cut_area_def area_range_def word_le_nat_alt)
  next
    case rear
    then have "cut_area start e a = [\<lparr>area_start = e + 1, area_size = ?last - (e + 1) + 1\<rparr>]"
      by (simp add: cut_area_def)
    with rear area_cut_front [OF assms(1) rear(3) front1 [OF rear(3)]] show ?thesis
      by (auto simp: misses_def area_range_def word_le_nat_alt)
  next
    case front
    then have b: "unat (area_start a) < unat start" "unat start < ?ea"
      by (auto simp: misses_def word_less_nat_alt)
    note part [OF b]
    moreover have "cut_area start e a = [a\<lparr>area_size := start - area_start a\<rparr>]"
      using front by (simp add: cut_area_def not_le [symmetric])
    ultimately show ?thesis using front b by (auto simp: area_range_def)
  next
    case both
    then have b: "unat (area_start a) < unat start" "unat start < ?ea"
      by (auto simp: misses_def word_less_nat_alt)
    note part [OF b]
    moreover note area_cut_front [OF assms(1) both(3) front2 [OF both(3)]]
    moreover have "cut_area start e a = [a\<lparr>area_size := start - area_start a\<rparr>, \<lparr>area_start = e + 1, area_size = ?last - e\<rparr>]"
      using both by (simp add: cut_area_def not_le [symmetric])
    ultimately show ?thesis
      using both b assms(2) by (auto simp: areas_ok_Cons area_range_def)
  qed
  then show "areas_ok (cut_area start e a)" "ranges (cut_area start e a) = area_range a - {unat start .. unat e}"
    "\<And>b. b \<in> set (cut_area start e a) \<Longrightarrow>
       unat (area_start a) \<le> unat (area_start b) \<and> area_end b \<le> area_end a" by auto
qed

lemma cut_all_correct:
  assumes "areas_ok as" "unat start \<le> unat e"
  shows "areas_ok (concat (map (cut_area start e) as)) \<and>
    ranges (concat (map (cut_area start e) as)) = ranges as - {unat start .. unat e}"
  using assms(1)
proof (induction as)
  case Nil
  then show ?case by simp
next
  case (Cons a as)
  then have ok: "area_ok a" "areas_ok as" "\<forall>b \<in> set as. area_end a \<le> unat (area_start b)"
    by (auto simp: areas_ok_Cons)
  note a = cut_area_correct [OF ok(1) assms(2)]
  have "area_end x \<le> unat (area_start y)" if "x \<in> set (cut_area start e a)" "b \<in> set as" "y \<in> set (cut_area start e b)" for x b y
    using that a(3) [of x] ok(3) cut_area_correct(3) [OF areas_ok_mem [OF ok(2)] assms(2), of b y]
    by fastforce
  with Cons.IH [OF ok(2)] a show ?case
    by (auto simp: areas_ok_append)
qed

lemma misses_iff:
  assumes "area_ok a"
  shows "area_start a + area_size a - 1 < start \<or> e < area_start a \<longleftrightarrow> misses start e a"
  using ends_below_iff [OF assms, of start] by (simp add: misses_def word_less_nat_alt)

lemma cover_skip:
  "\<forall>x \<in> set xs. area_ok x \<and> misses start e x \<Longrightarrow> length (pre @ xs @ zs) \<le> 10 \<Longrightarrow>
    cover_loop (table (pre @ xs @ zs)) start e (length pre) =
      cover_loop (table (pre @ xs @ zs)) start e (length (pre @ xs))"
proof (induction xs arbitrary: pre)
  case Nil
  then show ?case by simp
next
  case (Cons x xs)
  then have "cover_loop (table (pre @ (x # xs) @ zs)) start e (length pre) =
      cover_loop (table ((pre @ [x]) @ xs @ zs)) start e (length (pre @ [x]))"
    by (subst cover_loop.simps) (auto simp: table_simps misses_iff Let_def)
  also have "\<dots> = cover_loop (table ((pre @ [x]) @ xs @ zs)) start e (length ((pre @ [x]) @ xs))"
    using Cons.prems by (intro Cons.IH) auto
  finally show ?case by simp
qed

lemma cover_done:
  assumes "\<forall>x \<in> set xs. area_ok x \<and> misses start e x" "length (pre @ xs) \<le> 10"
  shows "cover_loop (table (pre @ xs)) start e (length pre) = Inr (0, table (pre @ xs))"
proof -
  have "cover_loop (table (pre @ xs)) start e (length pre) =
      cover_loop (table (pre @ xs)) start e (length (pre @ xs))"
    using cover_skip [of xs start e pre "[]"] assms by simp
  then show ?thesis by (subst (asm) (2) cover_loop.simps) simp
qed

lemma cut_area_misses: "misses start e a \<Longrightarrow> cut_area start e a = [a]"
  by (simp add: cut_area_def)

lemma cut_all_misses: "\<forall>x \<in> set xs. misses start e x \<Longrightarrow> concat (map (cut_area start e) xs) = xs"
  by (induction xs) (auto simp: cut_area_misses)

lemma last_le_iff:
  assumes "area_ok a"
  shows "area_start a + area_size a - 1 \<le> e \<longleftrightarrow> area_end a \<le> unat e + 1"
  using area_last [OF assms] area_ok_less [OF assms] by (auto simp: word_le_nat_alt)

text \<open>One round of the loop leaves the areas of \<open>cut_area\<close> in the place of the area it looks at.\<close>

lemma cover_loop_step:
  assumes "area_ok a" "length (pre @ a # as) < 10"
  obtains (one) b where "cut_area start e a = [b]"
      "cover_loop (table (pre @ a # as)) start e (length pre) =
        cover_loop (table ((pre @ [b]) @ as)) start e (length (pre @ [b]))"
    | (gone) "cut_area start e a = []"
      "cover_loop (table (pre @ a # as)) start e (length pre) = cover_loop (table (pre @ as)) start e (length pre)"
    | (two) b c where "cut_area start e a = [b, c]" "area_start c = e + 1" "\<not> area_end a \<le> unat e + 1"
      "cover_loop (table (pre @ a # as)) start e (length pre) =
        cover_loop (table ((pre @ [b]) @ c # as)) start e (length (pre @ [b]))"
proof -
  let ?last = "area_start a + area_size a - 1"
  have "e < ?last \<longleftrightarrow> \<not> area_end a \<le> unat e + 1" "area_start a < start \<longleftrightarrow> \<not> start \<le> area_start a"
    using last_le_iff [OF assms(1), of e] by auto
  note conds = misses_iff [OF assms(1)] last_le_iff [OF assms(1)] this
  have "cover_loop (table (pre @ a # as)) start e (length pre) =
    (if misses start e a then cover_loop (table (pre @ a # as)) start e (Suc (length pre))
     else if start \<le> area_start a \<and> area_end a \<le> unat e + 1 then
       cover_loop (table (pre @ as)) start e (length pre)
     else if start \<le> area_start a then
       cover_loop (table (pre @ \<lparr>area_start = e + 1, area_size = ?last - (e + 1) + 1\<rparr> # as)) start e (Suc (length pre))
     else if area_end a \<le> unat e + 1 then
       cover_loop (table (pre @ a\<lparr>area_size := start - area_start a\<rparr> # as)) start e (Suc (length pre))
     else cover_loop (table (pre @ a\<lparr>area_size := start - area_start a\<rparr> #
         \<lparr>area_start = e + 1, area_size = ?last - e\<rparr> # as)) start e (Suc (length pre)))"
    using assms(2)
    by (subst cover_loop.simps)
      (simp add: table_simps Let_def conds MAX_MEMORY_AREAS_SIZE_def)
  then show thesis using one gone two by (auto simp: cut_area_def Let_def split: if_splits)
qed

lemma cover_loop_eq:
  assumes "areas_ok (pre @ as)" "length (pre @ as) < 10" "unat start \<le> unat e"
  shows "cover_loop (table (pre @ as)) start e (length pre) =
    Inr (0, table (pre @ concat (map (cut_area start e) as)))"
  using assms(1,2)
proof (induction as arbitrary: pre)
  case Nil
  then show ?case using cover_done [of "[]" start e pre] by simp
next
  case (Cons a as)
  have ok: "area_ok a" "areas_ok (pre @ as)" "areas_ok (pre @ a # as)"
    using Cons.prems(1) by (auto simp: areas_ok_append areas_ok_Cons)
  note cut = cut_area_correct [OF ok(1) assms(3)]
  have step: "areas_ok ((pre @ [b]) @ as)" if "cut_area start e a = [b]" for b
    using replace_area(1) [OF ok(3) cut(1,3)] that by simp
  from ok(1) Cons.prems(2) show ?case
  proof (cases rule: cover_loop_step [where start = start and e = e])
    case (one b)
    then show ?thesis using Cons.IH [OF step [OF one(1)]] Cons.prems(2) by simp
  next
    case gone
    then show ?thesis using Cons.IH [OF ok(2)] Cons.prems(2) by simp
  next
    case (two b c)
    have "area_ok c" using cut(1) two(1) by (simp add: areas_ok_Cons)
    moreover have "unat (e + 1) = unat e + 1"
      using two(3) ok(1) by (subst unat_plus_no_wrap) (auto simp: area_ok_def)
    then have "misses start e c" using two(2) by (simp add: misses_def)
    moreover have "areas_ok as \<and> (\<forall>x \<in> set as. area_end a \<le> unat (area_start x))"
      using Cons.prems(1) by (simp add: areas_ok_append areas_ok_Cons)
    then have rest: "\<forall>x \<in> set as. misses start e x \<and> area_ok x"
      using two(3) by (auto simp: misses_def dest: areas_ok_mem)
    ultimately show ?thesis
      using two(1,4) cover_done [of "c # as" start e "pre @ [b]"] Cons.prems(2) cut_all_misses [of as start e]
      by simp
  qed
qed

lemma cover_table:
  assumes "areas_ok as" "length as < 10" "n \<noteq> 0" "unat start + unat n \<le> 2 ^ 64"
  shows "allocate_area_cover (table as) start n =
    Inr (0, table (concat (map (cut_area start (start + n - 1)) as)))"
proof -
  have "unat start \<le> unat (start + n - 1)"
    using block_last [OF assms(3,4)] unat_pos [OF assms(3)] by simp
  with cover_loop_eq [of "[]" as start "start + n - 1"] assms(1,2) show ?thesis
    by (cases as) (simp_all add: allocate_area_cover_def table_def)
qed

lemma cut_all_length:
  assumes "areas_ok as" "unat start \<le> unat e"
  shows "length (concat (map (cut_area start e) as)) \<le> Suc (length as)"
  using assms(1)
proof (induction as)
  case Nil
  then show ?case by simp
next
  case (Cons a as)
  then have ok: "area_ok a" "areas_ok as" "\<forall>b \<in> set as. area_end a \<le> unat (area_start b)"
    by (auto simp: areas_ok_Cons)
  show ?case
  proof (cases "length (cut_area start e a) \<le> 1")
    case True
    with Cons.IH [OF ok(2)] show ?thesis by simp
  next
    case False
    then have "\<not> area_end a \<le> unat e + 1" "length (cut_area start e a) = 2"
      by (auto simp: cut_area_def Let_def split: if_splits)
    moreover from this(1) ok(3) have "\<forall>x \<in> set as. misses start e x" by (auto simp: misses_def)
    ultimately show ?thesis using cut_all_misses [of as start e] by simp
  qed
qed

lemma block_inclusive:
  assumes "n \<noteq> 0" "unat start + unat n \<le> 2 ^ 64"
  shows "block start n = {unat start .. unat (start + n - 1)}"
  using block_last [OF assms] unat_pos [OF assms(1)] by (auto simp: block_def)

lemma cover_correct:
  assumes "placement_wf s" "free_memory_area_index s < 10" "n \<noteq> 0" "unat start + unat n \<le> 2 ^ 64"
  obtains s' where "allocate_area_cover s start n = Inr (0, s')" "placement_wf s'"
    "free_set s' = free_set s - block start n"
proof -
  from assms(1) obtain as where s: "s = table as" "length as \<le> 10" "areas_ok as"
    by (rule placement_wf_cases)
  let ?e = "start + n - 1"
  have e: "unat start \<le> unat ?e" using block_last [OF assms(3,4)] unat_pos [OF assms(3)] by simp
  have "length as < 10" using assms(2) s(1) by simp
  with that [of "table (concat (map (cut_area start ?e) as))"]
    cover_table [OF s(3) _ assms(3,4)] cut_all_correct [OF s(3) e] cut_all_length [OF s(3) e] s(1)
    block_inclusive [OF assms(3,4)]
  show thesis by (simp add: placement_wf_table)
qed

end
