(* ===== verification/Placement_Insert.thy ===== *)
theory Placement_Insert
  imports Placement_Correct
begin

text \<open>
  Insertion into the table of free memory areas: what the overlap test decides, the three ways in
  which a block is absorbed (behind a predecessor, in front of a successor, above everything), and
  the slot that is overwritten when a block is placed between two areas it does not touch.
\<close>

section \<open>Inserting a free area\<close>

text \<open>The overlap test misses exactly the areas that extend beyond the other one on both sides.\<close>

lemma overlapp_iff:
  assumes "area_ok l" "area_ok r"
  shows "overlapp l r \<longleftrightarrow> area_range l \<inter> area_range r \<noteq> {} \<and>
    \<not> (unat (area_start r) < unat (area_start l) \<and> area_end l < area_end r)"
proof -
  note ends = area_last [OF assms(1)] area_last [OF assms(2)]
    area_ok_less [OF assms(1)] area_ok_less [OF assms(2)]
  have "area_range l \<inter> area_range r \<noteq> {} \<longleftrightarrow>
      unat (area_start l) < area_end r \<and> unat (area_start r) < area_end l"
    using ends(3,4) by (auto simp: area_range_def intro!: exI [of _ "max (unat (area_start l)) (unat (area_start r))"])
  moreover have "overlapp l r \<longleftrightarrow>
      unat (area_start l) \<le> unat (area_start r) \<and> unat (area_start r) < area_end l \<or>
      unat (area_start l) < area_end r \<and> area_end r \<le> area_end l"
    using ends by (auto simp: overlapp_def Let_def word_le_nat_alt)
  ultimately show ?thesis using ends(3,4) by auto
qed

lemma insert_position_eq:
  "length (pre @ as) < 10 \<Longrightarrow>
    insert_position (free_memory_areas (table (pre @ as))) start (length pre) (length (pre @ as)) =
      Inr (length pre + length (takeWhile (\<lambda>a. area_start a < start) as))"
proof (induction as arbitrary: pre)
  case Nil
  then show ?case by (subst insert_position.simps) (simp add: table_simps)
next
  case (Cons a as)
  show ?case
  proof (cases "area_start a < start")
    case True
    then have "insert_position (free_memory_areas (table (pre @ a # as))) start (length pre) (length (pre @ a # as)) =
        insert_position (free_memory_areas (table ((pre @ [a]) @ as))) start (length (pre @ [a])) (length ((pre @ [a]) @ as))"
      using Cons.prems by (subst insert_position.simps) (simp add: table_simps)
    also have "\<dots> = Inr (length (pre @ [a]) + length (takeWhile (\<lambda>a. area_start a < start) as))"
      using Cons.prems by (intro Cons.IH) simp
    finally show ?thesis using True by simp
  next
    case False
    then show ?thesis
      using Cons.prems by (subst insert_position.simps) (simp add: table_simps)
  qed
qed

text \<open>
  \<open>insert_area\<close> on a table whose areas below \<open>start\<close> are \<open>xs\<close> and whose other areas are \<open>ys\<close>.
\<close>

lemma insert_area_table:
  assumes "length (xs @ ys) < 10" "areas_ok (xs @ ys)" "n \<noteq> 0"
    "\<forall>x \<in> set xs. area_start x < start" "ys \<noteq> [] \<Longrightarrow> \<not> area_start (hd ys) < start"
  defines "s \<equiv> table (xs @ ys)" and "new \<equiv> \<lparr>area_start = start, area_size = n\<rparr>"
  shows "insert_area s start n =
    (if xs \<noteq> [] \<and> overlapp (last xs) new then Inr (- 3, s)
     else if ys \<noteq> [] \<and> overlapp (hd ys) new then Inr (- 4, s)
     else if xs \<noteq> [] \<and> area_end (last xs) = unat start then merge_predecessor s (length xs) (last xs) n
     else place_area s (length xs) start n)"
proof -
  have "takeWhile (\<lambda>a. area_start a < start) (xs @ ys) = xs"
    using assms(4,5) by (cases ys) auto
  then have pos: "insert_position (free_memory_areas s) start 0 (length (xs @ ys)) = Inr (length xs)"
    using insert_position_eq [of "[]" "xs @ ys" start] assms(1) by (simp add: s_def)
  have len: "length (free_memory_areas s) = 10" "free_memory_area_index s = length (xs @ ys)"
    using assms(1) by (simp_all add: s_def)
  have succ: "\<not> is_free (free_memory_areas s ! length xs) \<and> overlapp (free_memory_areas s ! length xs) new \<longleftrightarrow>
      ys \<noteq> [] \<and> overlapp (hd ys) new"
  proof (cases ys)
    case Nil
    then show ?thesis using assms(1) by (simp add: s_def table_simps is_free_iff)
  next
    case (Cons y ys')
    then have "\<not> is_free y" using assms(2) by (auto simp: areas_ok_append areas_ok_Cons area_ok_def is_free_def)
    with Cons show ?thesis by (simp add: s_def table_simps)
  qed
  show ?thesis
  proof (cases "xs = []")
    case True
    then show ?thesis
      using pos len succ assms(1,3)
      by (simp add: insert_area_def Let_def new_def [symmetric] MAX_MEMORY_AREAS_SIZE_def)
  next
    case False
    then obtain xs' p where xs: "xs = xs' @ [p]" by (meson rev_exhaust)
    have "area_ok p" using assms(2) xs by (simp add: areas_ok_append areas_ok_Cons)
    then have "area_start p + area_size p - 1 + 1 = start \<longleftrightarrow> area_end p = unat start"
      by (simp add: word_eq_unat word_nat area_ok_def area_end_def)
    moreover have "free_memory_areas s ! (length xs - 1) = p"
      using table_nth [of xs' p ys] xs by (simp add: s_def)
    ultimately show ?thesis
      using pos len succ assms(1,3) xs
      by (simp add: insert_area_def Let_def new_def [symmetric] MAX_MEMORY_AREAS_SIZE_def)
  qed
qed

lemma merge_predecessor_table:
  assumes "length (xs @ p # ys) < 10" "areas_ok (xs @ p # ys)" "area_end p = unat start"
    "n \<noteq> 0" "unat start + unat n < 2 ^ 64"
  shows "merge_predecessor (table (xs @ p # ys)) (Suc (length xs)) p n =
    (case ys of y # ys' \<Rightarrow>
       if unat (area_start y) = unat start + unat n then
         Inr (0, table (xs @ p\<lparr>area_size := area_size p + n + area_size y\<rparr> # ys'))
       else Inr (0, table (xs @ p\<lparr>area_size := area_size p + n\<rparr> # ys))
     | [] \<Rightarrow> Inr (0, table (xs @ p\<lparr>area_size := area_size p + n\<rparr> # ys)))"
proof -
  let ?p1 = "p\<lparr>area_size := area_size p + n\<rparr>"
  have sz: "unat (area_size p + n) = unat (area_size p) + unat n"
    using assms(3,5) by (simp add: area_end_def word_nat)
  have "area_start ?p1 + area_size ?p1 - 1 + 1 = area_start p + (area_size p + n)" by simp
  also have "unat \<dots> = unat start + unat n"
    using assms(3,5) sz by (simp add: area_end_def word_nat)
  finally have edge: "unat (area_start p + (area_size p + n)) = unat start + unat n" by simp
  show ?thesis
  proof (cases ys)
    case Nil
    have "area_start p + (area_size p + n) \<noteq> 0"
      using edge unat_pos [OF assms(4)] by (auto simp: unat_eq_0)
    then show ?thesis
      using assms(1) Nil table_nth_behind [of "xs @ [?p1]"]
      by (simp add: merge_predecessor_def Let_def table_simps zero_area_def)
  next
    case (Cons y ys')
    have "free_memory_areas (table (xs @ ?p1 # y # ys')) ! Suc (length xs) = y"
      using table_nth [of "xs @ [?p1]" y ys'] by simp
    moreover have "shift_left (free_memory_areas (table (xs @ q # y # ys'))) (Suc (length xs))
        (Suc (Suc (length xs + length ys'))) = Inr (free_memory_areas (table (xs @ q # ys')))" for q
      using table_close_gap [of "xs @ [q]" ys' y] assms(1) Cons by simp
    moreover have "area_start y = area_start p + (area_size p + n) \<longleftrightarrow>
        unat (area_start y) = unat start + unat n"
      using edge by (simp add: word_eq_unat)
    ultimately show ?thesis
      using assms(1) Cons by (simp add: merge_predecessor_def Let_def table_simps)
  qed
qed

lemma place_area_table:
  assumes "length (xs @ ys) < 10" "n \<noteq> 0" "unat start + unat n < 2 ^ 64"
  shows "place_area (table (xs @ ys)) (length xs) start n =
    (case ys of y # ys' \<Rightarrow>
       if unat (area_start y) = unat start + unat n then
         Inr (0, table (xs @ y\<lparr>area_start := start, area_size := area_size y + n\<rparr> # ys'))
       else Inr (0, (table (xs @ \<lparr>area_start = start, area_size = n\<rparr> # ys'))
           \<lparr>free_memory_area_index := Suc (length (xs @ ys))\<rparr>)
     | [] \<Rightarrow> Inr (0, table (xs @ [\<lparr>area_start = start, area_size = n\<rparr>])))"
proof -
  have sum: "unat (start + n) = unat start + unat n" using assms(3) by (simp add: word_nat)
  show ?thesis
  proof (cases ys)
    case Nil
    have "start + n \<noteq> 0" using sum unat_pos [OF assms(2)] by (auto simp: unat_eq_0)
    then show ?thesis
      using assms(1) Nil table_nth_behind [of xs]
      by (simp add: place_area_def table_simps zero_area_def)
  next
    case (Cons y ys')
    have "area_start y = start + n \<longleftrightarrow> unat (area_start y) = unat start + unat n"
      by (simp add: word_eq_unat sum)
    moreover have "(table (xs @ y # ys'))\<lparr>free_memory_areas := free_memory_areas (table (xs @ z # ys')),
        free_memory_area_index := m\<rparr> = (table (xs @ z # ys'))\<lparr>free_memory_area_index := m\<rparr>" for z m
      by (simp add: table_def)
    ultimately show ?thesis
      using assms(1) Cons by (simp add: place_area_def table_simps)
  qed
qed

lemma area_range_new [simp]: "area_range \<lparr>area_start = start, area_size = n\<rparr> = block start n"
  by (simp add: area_range_def area_end_def block_def)

lemma area_ok_new:
  "n \<noteq> 0 \<Longrightarrow> unat start + unat n < 2 ^ 64 \<Longrightarrow> area_ok \<lparr>area_start = start, area_size = n\<rparr>"
  by (simp add: area_ok_def area_end_def)

lemma area_extended:
  fixes m :: u64
  assumes "area_ok p" "area_end p + unat m < 2 ^ 64"
  shows "area_ok (p\<lparr>area_size := area_size p + m\<rparr>)"
    "area_end (p\<lparr>area_size := area_size p + m\<rparr>) = area_end p + unat m"
    "area_range (p\<lparr>area_size := area_size p + m\<rparr>) = {unat (area_start p) ..< area_end p + unat m}"
proof -
  have sz: "unat (area_size p + m) = unat (area_size p) + unat m"
    using assms(2) by (simp add: area_end_def word_nat)
  moreover have "0 < unat (area_size p)" using assms(1) by (simp add: area_ok_def unat_pos)
  ultimately have "area_size p + m \<noteq> 0" by (metis add_gr_0 unat_0 less_numeral_extra(3))
  with sz assms show "area_ok (p\<lparr>area_size := area_size p + m\<rparr>)"
    "area_end (p\<lparr>area_size := area_size p + m\<rparr>) = area_end p + unat m"
    "area_range (p\<lparr>area_size := area_size p + m\<rparr>) = {unat (area_start p) ..< area_end p + unat m}"
    by (simp_all add: area_ok_def area_end_def area_range_def add.assoc)
qed

text \<open>Where a block disjoint from the free addresses lies between the areas below and above it.\<close>

lemma disjoint_split:
  assumes "areas_ok as" "n \<noteq> 0" "block start n \<inter> ranges as = {}"
  defines "xs \<equiv> takeWhile (\<lambda>a. area_start a < start) as"
    and "ys \<equiv> dropWhile (\<lambda>a. area_start a < start) as"
  shows "as = xs @ ys" "\<forall>x \<in> set xs. area_start x < start \<and> area_end x \<le> unat start"
    "\<forall>y \<in> set ys. unat start + unat n \<le> unat (area_start y)"
    "ys \<noteq> [] \<Longrightarrow> \<not> area_start (hd ys) < start"
proof -
  show as: "as = xs @ ys" by (simp add: xs_def ys_def)
  have n: "0 < unat n" using assms(2) by (rule unat_pos)
  have disj: "block start n \<inter> area_range a = {}" if "a \<in> set as" for a
    using assms(3) that by (auto simp: ranges_def)
  show hd: "\<not> area_start (hd ys) < start" if "ys \<noteq> []"
    using that hd_dropWhile [of "\<lambda>a. area_start a < start" as] by (simp add: ys_def)
  show "\<forall>x \<in> set xs. area_start x < start \<and> area_end x \<le> unat start"
  proof
    fix x assume x: "x \<in> set xs"
    then have lt: "area_start x < start" by (auto simp: xs_def dest: set_takeWhileD)
    moreover have "unat start \<in> block start n" using n by (simp add: block_def)
    then have "unat start \<notin> area_range x" using disj [of x] x as by auto
    ultimately show "area_start x < start \<and> area_end x \<le> unat start"
      by (auto simp: area_range_def word_less_nat_alt)
  qed
  show "\<forall>y \<in> set ys. unat start + unat n \<le> unat (area_start y)"
  proof
    fix y assume y: "y \<in> set ys"
    then obtain z zs where ys: "ys = z # zs" by (cases ys) auto
    have z: "unat start \<le> unat (area_start z)" using hd ys by (simp add: word_le_nat_alt not_less)
    have ok: "area_ok y" "areas_ok (z # zs)" using assms(1) as ys y by (auto simp: areas_ok_append dest: areas_ok_mem)
    then have "unat (area_start z) \<le> unat (area_start y)"
      using y ys by (auto simp: areas_ok_Cons area_end_def)
    moreover have "unat (area_start y) \<notin> block start n"
      using disj [of y] y as area_ok_less [OF ok(1)] by (auto simp: area_range_def)
    ultimately show "unat start + unat n \<le> unat (area_start y)" using z by (auto simp: block_def)
  qed
qed

text \<open>
  Growing an area of the list: the area may take the free space up to its neighbours. The three ways
  in which the code grows an area are instances.
\<close>

lemma areas_ok_replace:
  assumes "areas_ok (xs @ a # ys)" "area_ok b"
    and "\<forall>x \<in> set xs. area_end x \<le> unat (area_start b)"
    and "\<forall>y \<in> set ys. area_end b \<le> unat (area_start y)"
  shows "areas_ok (xs @ b # ys)"
  using assms unfolding areas_ok_append areas_ok_Cons by simp

lemma areas_ok_drop: "areas_ok (xs @ a # ys) \<Longrightarrow> areas_ok (xs @ ys)"
  by (simp add: areas_ok_append areas_ok_Cons)

lemma areas_ok_middle:
  assumes "areas_ok (xs @ a # ys)"
  shows "area_ok a" "\<forall>x \<in> set xs. area_end x \<le> unat (area_start a)"
    "\<forall>y \<in> set ys. area_end a \<le> unat (area_start y)"
  using assms unfolding areas_ok_append areas_ok_Cons by simp_all

lemma interval_join:
  fixes a b c :: nat
  shows "a \<le> b \<Longrightarrow> b \<le> c \<Longrightarrow> {a..<c} = {a..<b} \<union> {b..<c}"
  by auto

lemma grow_predecessor:
  fixes start n :: u64
  assumes "areas_ok (xs @ p # ys)" "area_end p = unat start" "unat start + unat n < 2 ^ 64"
    and "\<forall>y \<in> set ys. unat start + unat n \<le> unat (area_start y)"
  shows "areas_ok (xs @ p\<lparr>area_size := area_size p + n\<rparr> # ys)"
    "ranges (xs @ p\<lparr>area_size := area_size p + n\<rparr> # ys) = ranges (xs @ p # ys) \<union> block start n"
    "area_end (p\<lparr>area_size := area_size p + n\<rparr>) = unat start + unat n"
proof -
  let ?q = "p\<lparr>area_size := area_size p + n\<rparr>"
  note p = areas_ok_middle [OF assms(1)]
  have e: "area_end p + unat n < 2 ^ 64" using assms(2,3) by simp
  note ext = area_extended [OF p(1) e]
  show "area_end ?q = unat start + unat n" using ext(2) assms(2) by simp
  show "areas_ok (xs @ ?q # ys)"
    by (rule areas_ok_replace [OF assms(1) ext(1)]) (use p(2) ext(2) assms(2,4) in simp_all)
  have "area_range ?q = area_range p \<union> block start n"
    unfolding ext(3) unfolding area_range_def block_def assms(2)
    by (rule interval_join) (use area_ok_less [OF p(1)] assms(2) in simp_all)
  then show "ranges (xs @ ?q # ys) = ranges (xs @ p # ys) \<union> block start n"
    by (simp add: Un_ac)
qed

lemma join_neighbours:
  assumes "areas_ok (xs @ p # y # ys)" "area_end p = unat (area_start y)"
  shows "areas_ok (xs @ p\<lparr>area_size := area_size p + area_size y\<rparr> # ys)"
    "ranges (xs @ p\<lparr>area_size := area_size p + area_size y\<rparr> # ys) = ranges (xs @ p # y # ys)"
proof -
  have y: "area_ok y" "\<forall>z \<in> set ys. area_end y \<le> unat (area_start z)"
    using areas_ok_middle [of "xs @ [p]" y ys] assms(1) by simp_all
  then have "unat (area_start y) + unat (area_size y) < 2 ^ 64"
    by (simp add: area_ok_def area_end_def)
  moreover have "areas_ok (xs @ p # ys)"
    using areas_ok_drop [of "xs @ [p]" y ys] assms(1) by simp
  ultimately have grow: "areas_ok (xs @ p\<lparr>area_size := area_size p + area_size y\<rparr> # ys)"
    "ranges (xs @ p\<lparr>area_size := area_size p + area_size y\<rparr> # ys) =
      ranges (xs @ p # ys) \<union> block (area_start y) (area_size y)"
    using grow_predecessor [OF _ assms(2)] y(2) by (simp_all only: area_end_def)
  show "areas_ok (xs @ p\<lparr>area_size := area_size p + area_size y\<rparr> # ys)" by (fact grow(1))
  have "block (area_start y) (area_size y) = area_range y"
    by (simp add: block_def area_range_alt)
  then show "ranges (xs @ p\<lparr>area_size := area_size p + area_size y\<rparr> # ys) = ranges (xs @ p # y # ys)"
    using grow(2) by (simp add: Un_ac)
qed

lemma grow_successor:
  fixes start n :: u64
  assumes "areas_ok (xs @ y # ys)" "unat (area_start y) = unat start + unat n" "n \<noteq> 0"
    "\<forall>x \<in> set xs. area_end x \<le> unat start"
  shows "areas_ok (xs @ y\<lparr>area_start := start, area_size := area_size y + n\<rparr> # ys)"
    "ranges (xs @ y\<lparr>area_start := start, area_size := area_size y + n\<rparr> # ys) =
      ranges (xs @ y # ys) \<union> block start n"
proof -
  let ?q = "y\<lparr>area_start := start, area_size := area_size y + n\<rparr>"
  note y = areas_ok_middle [OF assms(1)]
  have sz: "unat (area_size ?q) = unat (area_size y) + unat n"
    using assms(2) y(1) by (simp add: word_nat area_ok_def area_end_def)
  have e: "area_end ?q = area_end y" unfolding area_end_def sz assms(2) by simp
  have "area_size ?q \<noteq> 0" using unat_pos [OF assms(3)] sz by (metis add_gr_0 unat_0 less_numeral_extra(3))
  then have "area_ok ?q" using e y(1) unfolding area_ok_def by simp
  then show "areas_ok (xs @ ?q # ys)"
    by (rule areas_ok_replace [OF assms(1)]) (use y(3) e assms(4) in simp_all)
  have "area_range ?q = block start n \<union> area_range y"
    unfolding area_range_def e block_def assms(2)
    using area_ok_less [OF y(1)] assms(2) by (auto simp del: ivl_disj_un)
  then show "ranges (xs @ ?q # ys) = ranges (xs @ y # ys) \<union> block start n"
    by (simp add: Un_ac)
qed

lemma insert_between:
  fixes start n :: u64
  assumes "areas_ok (xs @ ys)" "n \<noteq> 0" "unat start + unat n < 2 ^ 64"
    "\<forall>x \<in> set xs. area_end x \<le> unat start" "\<forall>y \<in> set ys. unat start + unat n \<le> unat (area_start y)"
  shows "areas_ok (xs @ \<lparr>area_start = start, area_size = n\<rparr> # ys)"
  using assms area_ok_new [OF assms(2,3)] unfolding areas_ok_append areas_ok_Cons
  by (simp add: area_end_def)

definition touches :: "u64 \<Rightarrow> u64 \<Rightarrow> memory_area \<Rightarrow> bool" where
  "touches start n a \<longleftrightarrow> area_end a = unat start \<or> unat (area_start a) = unat start + unat n"

lemma merge_predecessor_correct:
  fixes start n :: u64
  assumes "length (xs @ p # ys) < 10" "areas_ok (xs @ p # ys)" "area_end p = unat start"
    "n \<noteq> 0" "unat start + unat n < 2 ^ 64" "\<forall>y \<in> set ys. unat start + unat n \<le> unat (area_start y)"
  shows "\<exists>s'. merge_predecessor (table (xs @ p # ys)) (Suc (length xs)) p n = Inr (0, s') \<and>
    placement_wf s' \<and> free_set s' = ranges (xs @ p # ys) \<union> block start n"
proof -
  let ?q = "p\<lparr>area_size := area_size p + n\<rparr>"
  note merge = merge_predecessor_table [OF assms(1-5)]
  note grow = grow_predecessor [OF assms(2,3,5,6)]
  show ?thesis
  proof (cases "ys \<noteq> [] \<and> unat (area_start (hd ys)) = unat start + unat n")
    case True
    then obtain y ys' where ys: "ys = y # ys'" "unat (area_start y) = unat start + unat n"
      by (cases ys) auto
    have "area_end ?q = unat (area_start y)" using grow(3) ys(2) by simp
    note join = join_neighbours [OF grow(1) [unfolded ys(1)] this]
    have "merge_predecessor (table (xs @ p # ys)) (Suc (length xs)) p n =
        Inr (0, table (xs @ p\<lparr>area_size := area_size p + n + area_size y\<rparr> # ys'))"
      using merge ys by simp
    moreover have "placement_wf (table (xs @ p\<lparr>area_size := area_size p + n + area_size y\<rparr> # ys'))"
      using join(1) assms(1) ys(1) by (simp add: placement_wf_table)
    moreover have "ranges (xs @ p\<lparr>area_size := area_size p + n + area_size y\<rparr> # ys') =
        ranges (xs @ p # ys) \<union> block start n"
      using join(2) grow(2) unfolding ys(1) by simp
    ultimately show ?thesis by (metis free_set_table)
  next
    case False
    then have "merge_predecessor (table (xs @ p # ys)) (Suc (length xs)) p n = Inr (0, table (xs @ ?q # ys))"
      using merge by (cases ys) simp_all
    moreover have "placement_wf (table (xs @ ?q # ys))"
      using grow(1) assms(1) by (simp add: placement_wf_table)
    ultimately show ?thesis using grow(2) by (metis free_set_table)
  qed
qed

lemma insert_area_split:
  fixes start n :: u64
  assumes "placement_wf s" "free_memory_area_index s < 10" "n \<noteq> 0" "unat start + unat n < 2 ^ 64"
    and "block start n \<inter> free_set s = {}"
  obtains xs ys where "s = table (xs @ ys)" "length (xs @ ys) < 10" "areas_ok (xs @ ys)"
    "\<forall>x \<in> set xs. area_start x < start \<and> area_end x \<le> unat start"
    "\<forall>y \<in> set ys. unat start + unat n \<le> unat (area_start y)"
    "insert_area s start n =
      (if xs \<noteq> [] \<and> area_end (last xs) = unat start then merge_predecessor s (length xs) (last xs) n
       else place_area s (length xs) start n)"
proof -
  from assms(1) obtain as where s: "s = table as" "length as \<le> 10" "areas_ok as"
    by (rule placement_wf_cases)
  have "block start n \<inter> ranges as = {}" using assms(5) s(1) by simp
  note split = disjoint_split [OF s(3) assms(3) this]
  define xs ys where "xs = takeWhile (\<lambda>a. area_start a < start) as"
    and "ys = dropWhile (\<lambda>a. area_start a < start) as"
  note split = split [folded xs_def ys_def]
  have no: "\<not> overlapp a \<lparr>area_start = start, area_size = n\<rparr>" if "a \<in> set (xs @ ys)" for a
    using overlapp_iff [OF areas_ok_mem [OF s(3), of a] area_ok_new [OF assms(3,4)]]
      assms(5) that s(1) split(1) by (auto simp: ranges_def)
  have len: "length (xs @ ys) < 10" "areas_ok (xs @ ys)" "s = table (xs @ ys)"
    using assms(2) s split(1) by simp_all
  have a: "\<not> (xs \<noteq> [] \<and> overlapp (last xs) \<lparr>area_start = start, area_size = n\<rparr>)"
    using no [of "last xs"] by auto
  have b: "\<not> (ys \<noteq> [] \<and> overlapp (hd ys) \<lparr>area_start = start, area_size = n\<rparr>)"
    using no [of "hd ys"] by auto
  have low: "\<forall>x \<in> set xs. area_start x < start" using split(2) by simp
  have "insert_area s start n =
      (if xs \<noteq> [] \<and> area_end (last xs) = unat start then merge_predecessor s (length xs) (last xs) n
       else place_area s (length xs) start n)"
    unfolding len(3)
    by (subst insert_area_table [OF len(1,2) assms(3) low])
      (use split(4) in \<open>simp_all only: if_not_P [OF a] if_not_P [OF b] not_False_eq_True\<close>)
  with len split(2,3) show thesis by (intro that)
qed

lemma place_area_above:
  fixes start n :: u64
  assumes "length xs < 10" "areas_ok xs" "n \<noteq> 0" "unat start + unat n < 2 ^ 64"
    "\<forall>x \<in> set xs. area_end x \<le> unat start"
  shows "\<exists>s'. place_area (table xs) (length xs) start n = Inr (0, s') \<and> placement_wf s' \<and>
    free_set s' = ranges xs \<union> block start n"
proof -
  let ?s = "table (xs @ [\<lparr>area_start = start, area_size = n\<rparr>])"
  have "place_area (table xs) (length xs) start n = Inr (0, ?s)"
    using place_area_table [of xs "[]" n start] assms(1,3,4) by simp
  moreover have "placement_wf ?s"
    using insert_between [of xs "[]" n start] assms by (simp add: placement_wf_table)
  ultimately show ?thesis by (intro exI [of _ ?s]) simp
qed

lemma place_area_below:
  fixes start n :: u64
  assumes "length (xs @ y # ys) < 10" "areas_ok (xs @ y # ys)" "n \<noteq> 0" "unat start + unat n < 2 ^ 64"
    "\<forall>x \<in> set xs. area_end x \<le> unat start" "unat (area_start y) = unat start + unat n"
  shows "\<exists>s'. place_area (table (xs @ y # ys)) (length xs) start n = Inr (0, s') \<and> placement_wf s' \<and>
    free_set s' = ranges (xs @ y # ys) \<union> block start n"
proof -
  let ?q = "y\<lparr>area_start := start, area_size := area_size y + n\<rparr>"
  note grow = grow_successor [OF assms(2,6,3,5)]
  have "place_area (table (xs @ y # ys)) (length xs) start n = Inr (0, table (xs @ ?q # ys))"
    using place_area_table [OF assms(1,3,4)] assms(6) by simp
  moreover have "placement_wf (table (xs @ ?q # ys))"
    using grow(1) assms(1) by (simp add: placement_wf_table)
  ultimately show ?thesis using grow(2) by (metis free_set_table)
qed

text \<open>In the remaining case the first area above the block loses its slot.\<close>

lemma place_area_overwrites:
  fixes start n :: u64
  assumes "length (xs @ y # ys) < 10" "areas_ok (xs @ y # ys)" "n \<noteq> 0" "unat start + unat n < 2 ^ 64"
    "unat (area_start y) \<noteq> unat start + unat n"
  shows "\<exists>s'. place_area (table (xs @ y # ys)) (length xs) start n = Inr (0, s') \<and>
    free_memory_area_index s' = Suc (length (xs @ y # ys)) \<and>
    live s' = xs @ \<lparr>area_start = start, area_size = n\<rparr> # ys @ [zero_area]"
proof -
  obtain k where k: "10 - Suc (length xs + length ys) = Suc k"
    using assms(1) by (metis Suc_diff_Suc add_Suc_right length_Cons length_append)
  show ?thesis
    using place_area_table [OF assms(1,3,4)] assms(5) k
    by (simp add: live_def table_def MAX_MEMORY_AREAS_SIZE_def)
qed

lemma not_wf_zero_area: "live s = xs @ [zero_area] \<Longrightarrow> \<not> placement_wf s"
  by (simp add: placement_wf_def areas_ok_append area_ok_def zero_area_def)

lemma first_above_touches:
  assumes "areas_ok (xs @ y # ys)" "a \<in> set (xs @ y # ys)" "n \<noteq> 0"
    and "\<forall>x \<in> set xs. area_start x < start \<and> area_end x \<le> unat start"
    and "\<forall>y' \<in> set (y # ys). unat start + unat n \<le> unat (area_start y')"
    and "touches start n a"
  shows "(xs \<noteq> [] \<and> area_end (last xs) = unat start) \<or> unat (area_start y) = unat start + unat n"
proof (cases "a \<in> set xs")
  case True
  then obtain us p where xs: "xs = us @ [p]" by (cases xs rule: rev_cases) auto
  have "unat (area_start a) < unat start" using assms(4) True by (auto simp: word_less_nat_alt)
  then have e: "area_end a = unat start" using assms(6) by (simp add: touches_def)
  have p: "area_start p < start" using assms(4) xs by simp
  have "area_end a \<le> unat (area_start p)" if "a \<noteq> p"
    using assms(1) True that xs by (auto simp: areas_ok_append)
  with e p have "a = p" by (auto simp: word_less_nat_alt)
  with e xs show ?thesis by simp
next
  case False
  with assms(2) have a: "a \<in> set (y # ys)" by simp
  have ok: "area_ok a" using areas_ok_mem [OF assms(1,2)] .
  have "unat start + unat n \<le> unat (area_start a)" using assms(5) a by blast
  with area_ok_less [OF ok] assms(6) have e: "unat (area_start a) = unat start + unat n"
    by (simp add: touches_def)
  have "area_end y \<le> unat (area_start a)" if "a \<noteq> y"
    using areas_ok_middle(3) [OF assms(1)] a that by auto
  moreover have "area_ok y" by (rule areas_ok_middle(1) [OF assms(1)])
  moreover have "unat start + unat n \<le> unat (area_start y)" using assms(5) by simp
  ultimately have "a = y" using e area_ok_less [of y] by force
  with e show ?thesis by simp
qed

text \<open>A block above all areas, or right below the first area above it, takes its place in the table.\<close>

lemma place_area_absorbs:
  assumes room: "length (xs @ ys) < 10" and ok: "areas_ok (xs @ ys)"
    and n: "n \<noteq> 0" and bound: "unat start + unat n < 2 ^ 64"
    and low: "\<forall>x \<in> set xs. area_end x \<le> unat start"
    and fits: "ys = [] \<or> unat (area_start (hd ys)) = unat start + unat n"
  shows "\<exists>s'. place_area (table (xs @ ys)) (length xs) start n = Inr (0, s') \<and> placement_wf s' \<and>
      free_set s' = ranges (xs @ ys) \<union> block start n"
    "(\<exists>a \<in> set (xs @ ys). touches start n a) \<or> (\<forall>a \<in> set (xs @ ys). area_end a \<le> unat start)"
proof -
  show "\<exists>s'. place_area (table (xs @ ys)) (length xs) start n = Inr (0, s') \<and> placement_wf s' \<and>
      free_set s' = ranges (xs @ ys) \<union> block start n"
  proof (cases ys)
    case Nil
    then show ?thesis using place_area_above [of xs n start] assms by simp
  next
    case (Cons y ys')
    then have "unat (area_start y) = unat start + unat n" using fits by simp
    from place_area_below [OF room [unfolded Cons] ok [unfolded Cons] n bound low this] show ?thesis
      unfolding Cons .
  qed
  show "(\<exists>a \<in> set (xs @ ys). touches start n a) \<or> (\<forall>a \<in> set (xs @ ys). area_end a \<le> unat start)"
    using fits low by (cases ys) (auto simp: touches_def)
qed

lemma insert_area_cases:
  fixes start n :: u64
  assumes wf: "placement_wf s" and room: "free_memory_area_index s < 10" and n: "n \<noteq> 0"
    and bound: "unat start + unat n < 2 ^ 64" and disj: "block start n \<inter> free_set s = {}"
  obtains
    (absorbed) s' where "insert_area s start n = Inr (0, s')" "placement_wf s'"
      "free_set s' = free_set s \<union> block start n"
      "(\<exists>a \<in> set (live s). touches start n a) \<or> (\<forall>a \<in> set (live s). area_end a \<le> unat start)"
  | (overwrites) s' xs y ys where "insert_area s start n = Inr (0, s')" "live s = xs @ y # ys"
      "areas_ok (xs @ y # ys)"
      "live s' = xs @ \<lparr>area_start = start, area_size = n\<rparr> # ys @ [zero_area]"
      "\<forall>a \<in> set (live s). \<not> touches start n a" "\<exists>a \<in> set (live s). unat start < unat (area_start a)"
proof -
  obtain xs ys where s: "s = table (xs @ ys)" "length (xs @ ys) < 10" "areas_ok (xs @ ys)"
    and low: "\<forall>x \<in> set xs. area_start x < start \<and> area_end x \<le> unat start"
    and high: "\<forall>y \<in> set ys. unat start + unat n \<le> unat (area_start y)"
    and eq: "insert_area s start n =
      (if xs \<noteq> [] \<and> area_end (last xs) = unat start then merge_predecessor s (length xs) (last xs) n
       else place_area s (length xs) start n)"
    by (rule insert_area_split [OF assms])
  have low': "\<forall>x \<in> set xs. area_end x \<le> unat start" using low by simp
  have fs: "free_set s = ranges (xs @ ys)" "live s = xs @ ys" unfolding s(1) by simp_all
  show thesis
  proof (cases "xs \<noteq> [] \<and> area_end (last xs) = unat start")
    case True
    then obtain us p where xs: "xs = us @ [p]" "area_end p = unat start" by (cases xs rule: rev_cases) auto
    have "\<exists>s'. insert_area s start n = Inr (0, s') \<and> placement_wf s' \<and>
        free_set s' = free_set s \<union> block start n"
      using merge_predecessor_correct [of us p ys start n] s eq xs n bound high fs(1) by simp
    moreover have "touches start n p" using xs(2) by (simp add: touches_def)
    moreover have "p \<in> set (live s)" using fs(2) xs by simp
    ultimately show thesis by (metis absorbed)
  next
    case pred: False
    then have eq: "insert_area s start n = place_area (table (xs @ ys)) (length xs) start n"
      using eq unfolding s(1) by (simp only: if_False)
    show thesis
    proof (cases "ys = [] \<or> unat (area_start (hd ys)) = unat start + unat n")
      case True
      from place_area_absorbs [OF s(2,3) n bound low' True] show thesis
        using absorbed unfolding eq fs by metis
    next
      case False
      then obtain y ys' where ys: "ys = y # ys'" "unat (area_start y) \<noteq> unat start + unat n" by (cases ys) auto
      note list = s(2,3) [unfolded ys(1)]
      have "\<forall>a \<in> set (live s). \<not> touches start n a"
        unfolding fs(2) ys(1)
        using first_above_touches [OF list(2) _ n low high [unfolded ys(1)]] pred ys(2) by blast
      moreover have "unat start < unat (area_start y)"
        using high unat_pos [OF n] unfolding ys(1) by auto
      then have "\<exists>a \<in> set (live s). unat start < unat (area_start a)" using fs(2) ys(1) by auto
      moreover note place_area_overwrites [OF list n bound ys(2)]
      ultimately show thesis using overwrites list fs(2) eq unfolding ys(1) by metis
    qed
  qed
qed

end
