(* ===== verification/Placement.thy ===== *)
theory Placement
  imports Placement_Insert
begin

text \<open>
  What the table of free memory areas promises. The interface its clients rely on is the locale
  \<open>region_pool\<close>: requests that grant blocks of free addresses and returns that make a block free
  again; its client lemma is that the blocks a client holds never overlap, whatever the order of the
  requests. The routines of \<^verbatim>\<open>placement_memory.c\<close> are an interpretation of it. The properties of the
  single routines follow.
\<close>

section \<open>A pool of address regions\<close>

text \<open>Runs of a client: the list of the blocks it holds and the state of the pool.\<close>

inductive pool_run ::
    "('s \<Rightarrow> nat set \<Rightarrow> 's \<Rightarrow> bool) \<Rightarrow> ('s \<Rightarrow> nat set \<Rightarrow> 's \<Rightarrow> bool) \<Rightarrow> 's \<Rightarrow> nat set list \<Rightarrow> 's \<Rightarrow> bool"
  for grant give_back s0 where
  start: "pool_run grant give_back s0 [] s0"
| granted: "pool_run grant give_back s0 bs s \<Longrightarrow> grant s b s' \<Longrightarrow> pool_run grant give_back s0 (b # bs) s'"
| returned: "pool_run grant give_back s0 (xs @ b # ys) s \<Longrightarrow> give_back s b s' \<Longrightarrow>
    pool_run grant give_back s0 (xs @ ys) s'"

locale region_pool =
  fixes inv :: "'s \<Rightarrow> bool"
    and free :: "'s \<Rightarrow> nat set"
    and grant :: "'s \<Rightarrow> nat set \<Rightarrow> 's \<Rightarrow> bool"
    and give_back :: "'s \<Rightarrow> nat set \<Rightarrow> 's \<Rightarrow> bool"
  assumes grant_inv: "inv s \<Longrightarrow> grant s b s' \<Longrightarrow> inv s'"
    and grant_free: "inv s \<Longrightarrow> grant s b s' \<Longrightarrow> b \<subseteq> free s \<and> free s' \<subseteq> free s - b"
    and give_back_inv: "inv s \<Longrightarrow> give_back s b s' \<Longrightarrow> b \<inter> free s = {} \<Longrightarrow> inv s'"
    and give_back_free: "inv s \<Longrightarrow> give_back s b s' \<Longrightarrow> b \<inter> free s = {} \<Longrightarrow> free s' \<subseteq> free s \<union> b"
begin

lemma run_blocks:
  assumes "inv s0" "pool_run grant give_back s0 bs s"
  shows "inv s \<and> sorted_wrt disjnt bs \<and> (\<forall>b \<in> set bs. b \<inter> free s = {}) \<and>
    \<Union>(set bs) \<union> free s \<subseteq> free s0"
  using assms(2)
proof (induction rule: pool_run.induct)
  case start
  then show ?case using assms(1) by simp
next
  case (granted bs s b s')
  then have IH: "inv s" "sorted_wrt disjnt bs" "\<And>x. x \<in> set bs \<Longrightarrow> x \<inter> free s = {}"
    "\<Union>(set bs) \<union> free s \<subseteq> free s0" by blast+
  have b: "b \<subseteq> free s" "free s' \<subseteq> free s - b"
    using grant_free [OF IH(1) granted.hyps(2)] by auto
  have "inv s'" by (rule grant_inv [OF IH(1) granted.hyps(2)])
  moreover have "disjnt b x \<and> x \<inter> free s' = {}" if "x \<in> set bs" for x
    using IH(3) [OF that] b by (fastforce simp: disjnt_def)
  moreover have "b \<inter> free s' = {}" using b(2) by blast
  moreover have "\<Union>(set (b # bs)) \<union> free s' \<subseteq> free s0" using IH(4) b by auto
  ultimately show ?case using IH(2) by simp
next
  case (returned xs b ys s s')
  then have IH: "inv s" "sorted_wrt disjnt (xs @ b # ys)" "\<And>x. x \<in> set (xs @ b # ys) \<Longrightarrow> x \<inter> free s = {}"
    "\<Union>(set (xs @ b # ys)) \<union> free s \<subseteq> free s0" by blast+
  have disj: "b \<inter> free s = {}" using IH(3) [of b] by simp
  have s': "inv s'" "free s' \<subseteq> free s \<union> b"
    using give_back_inv [OF IH(1) returned.hyps(2) disj] give_back_free [OF IH(1) returned.hyps(2) disj]
    by auto
  have "x \<inter> free s' = {}" if "x \<in> set (xs @ ys)" for x
  proof -
    have "x \<inter> b = {}" using IH(2) that by (auto simp: sorted_wrt_append disjnt_def)
    moreover have "x \<inter> free s = {}" using IH(3) that by auto
    ultimately show ?thesis using s'(2) by blast
  qed
  moreover have "sorted_wrt disjnt (xs @ ys)" using IH(2) by (simp add: sorted_wrt_append)
  moreover have "\<Union>(set (xs @ ys)) \<union> free s' \<subseteq> free s0" using IH(4) s'(2) by auto
  ultimately show ?case using s'(1) by blast
qed

lemma run_inv: "inv s0 \<Longrightarrow> pool_run grant give_back s0 bs s \<Longrightarrow> inv s"
  using run_blocks by blast

end

section \<open>The table of free memory areas as a pool\<close>

text \<open>
  The requests: \<^verbatim>\<open>allocate\<close> (where the answer 0 grants nothing), \<^verbatim>\<open>allocate_area\<close> and
  \<^verbatim>\<open>allocate_area_cover\<close> of blocks that do not wrap. A block is returned by \<^verbatim>\<open>insert_area\<close> where it
  touches a free area or lies above all of them.
\<close>

inductive placement_grant :: "placement \<Rightarrow> nat set \<Rightarrow> placement \<Rightarrow> bool" where
  lowest: "allocate s n = Inr (start, s') \<Longrightarrow> start \<noteq> 0 \<Longrightarrow> placement_grant s (block start n) s'"
| none: "allocate s n = Inr (0, s') \<Longrightarrow> placement_grant s {} s'"
| exactly: "allocate_area s start n = Inr (0, s') \<Longrightarrow> unat start + unat n \<le> 2 ^ 64 \<Longrightarrow>
    placement_grant s (block start n) s'"
| refused: "allocate_area s start n = Inr (r, s') \<Longrightarrow> unat start + unat n \<le> 2 ^ 64 \<Longrightarrow> r \<noteq> 0 \<Longrightarrow>
    placement_grant s {} s'"
| covered: "allocate_area_cover s start n = Inr (r, s') \<Longrightarrow> free_memory_area_index s < 10 \<Longrightarrow> n \<noteq> 0 \<Longrightarrow>
    unat start + unat n \<le> 2 ^ 64 \<Longrightarrow> placement_grant s {} s'"

inductive placement_return :: "placement \<Rightarrow> nat set \<Rightarrow> placement \<Rightarrow> bool" where
  insert: "insert_area s start n = Inr (r, s') \<Longrightarrow> free_memory_area_index s < 10 \<Longrightarrow> n \<noteq> 0 \<Longrightarrow>
    unat start + unat n < 2 ^ 64 \<Longrightarrow>
    (\<exists>a \<in> set (live s). touches start n a) \<or> (\<forall>a \<in> set (live s). area_end a \<le> unat start) \<Longrightarrow>
    placement_return s (block start n) s'"

inductive_cases placement_grantE: "placement_grant s b s'"
inductive_cases placement_returnE: "placement_return s b s'"

lemma block_zero [simp]: "block start 0 = {}"
  by (simp add: block_def)

lemma allocate_zero: "allocate s 0 = Inr (0, s)"
  by (simp add: allocate_def)

lemma allocate_area_zero: "allocate_area s start 0 = Inr (if free_memory_area_index s = 0 then - 1 else - 2, s)"
  by (simp add: allocate_area_def)

lemma allocate_grants:
  assumes "placement_wf s" "allocate s n = Inr (start, s')"
  shows "placement_wf s'" "free_set s' \<subseteq> free_set s"
    "start \<noteq> 0 \<Longrightarrow> block start n \<subseteq> free_set s \<and> free_set s' = free_set s - block start n"
  using assms(2)
  by (cases "n = 0"; use assms(1) in \<open>auto simp: allocate_zero elim!: allocate_cases [OF assms(1), of n]\<close>)+

lemma allocate_area_grants:
  assumes "placement_wf s" "allocate_area s start n = Inr (r, s')" "unat start + unat n \<le> 2 ^ 64"
  shows "placement_wf s'" "r \<noteq> 0 \<Longrightarrow> s' = s"
    "r = 0 \<Longrightarrow> block start n \<subseteq> free_set s \<and> free_set s' = free_set s - block start n"
proof -
  have "placement_wf s' \<and> (r \<noteq> 0 \<longrightarrow> s' = s) \<and>
      (r = 0 \<longrightarrow> block start n \<subseteq> free_set s \<and> free_set s' = free_set s - block start n)"
  proof (cases "n = 0")
    case True
    then show ?thesis using assms by (auto simp: allocate_area_zero split: if_splits)
  next
    case False
    from assms(1) False assms(3) show ?thesis
    proof (cases rule: allocate_area_cases)
      case (inside a t)
      then show ?thesis
        using assms(2) area_range_subset_ranges [OF inside(2)] by (auto simp: free_set_def)
    qed (use assms in auto)
  qed
  then show "placement_wf s'" "r \<noteq> 0 \<Longrightarrow> s' = s"
    "r = 0 \<Longrightarrow> block start n \<subseteq> free_set s \<and> free_set s' = free_set s - block start n" by auto
qed

interpretation regions: region_pool placement_wf free_set placement_grant placement_return
proof
  fix s b s'
  assume wf: "placement_wf s" and step: "placement_grant s b s'"
  have "placement_wf s' \<and> b \<subseteq> free_set s \<and> free_set s' \<subseteq> free_set s - b"
    using step
  proof (cases rule: placement_grant.cases)
    case (covered start n r)
    from cover_correct [OF wf covered(3-5)] covered(1,2) show ?thesis by auto
  qed (use wf in \<open>auto dest: allocate_grants [OF wf] allocate_area_grants [OF wf]\<close>)
  then show "placement_wf s'" "b \<subseteq> free_set s \<and> free_set s' \<subseteq> free_set s - b" by auto
next
  fix s b s'
  assume wf: "placement_wf s" and step: "placement_return s b s'" and disj: "b \<inter> free_set s = {}"
  from step obtain start n r where eq: "b = block start n" "insert_area s start n = Inr (r, s')"
    "free_memory_area_index s < 10" "n \<noteq> 0" "unat start + unat n < 2 ^ 64"
    and at: "(\<exists>a \<in> set (live s). touches start n a) \<or> (\<forall>a \<in> set (live s). area_end a \<le> unat start)"
    by (cases rule: placement_return.cases) blast
  from wf eq(3-5) disj [unfolded eq(1)] have "placement_wf s' \<and> free_set s' \<subseteq> free_set s \<union> b"
  proof (cases rule: insert_area_cases)
    case absorbed
    then show ?thesis using eq(1,2) by simp
  next
    case overwrites
    from overwrites(6) obtain a where "a \<in> set (live s)" "unat start < unat (area_start a)" by blast
    moreover from this have "\<not> area_end a \<le> unat start" by (simp add: area_end_def)
    ultimately show ?thesis using at overwrites(5) by blast
  qed
  then show "placement_wf s'" "free_set s' \<subseteq> free_set s \<union> b" by auto
qed

section \<open>Helper lemmas\<close>

lemma areas_size_loop_eq:
  assumes "length as \<le> 10" "areas_ok as" "i \<le> length as"
  shows "areas_size_loop (free_memory_areas (table as)) i = Inr (length as)"
  using assms(3)
proof (induction "length as - i" arbitrary: i)
  case 0
  then have i: "i = length as" by simp
  show ?case
  proof (cases "length as = 10")
    case True
    with i show ?thesis by (subst areas_size_loop.simps) (simp add: MAX_MEMORY_AREAS_SIZE_def)
  next
    case False
    with i assms(1) have "length as < 10" by simp
    with i show ?thesis
      by (subst areas_size_loop.simps) (simp add: MAX_MEMORY_AREAS_SIZE_def table_simps zero_area_def)
  qed
next
  case (Suc d)
  then have i: "i < length as" "d = length as - Suc i" by simp_all
  have "area_ok (as ! i)" using i(1) by (intro areas_ok_mem [OF assms(2)]) simp
  moreover have "free_memory_areas (table as) ! i = as ! i"
    using i(1) by (simp add: table_def nth_append)
  ultimately show ?case
    using Suc.hyps(1) [OF i(2)] i(1) assms(1)
    by (subst areas_size_loop.simps) (simp add: MAX_MEMORY_AREAS_SIZE_def area_ok_def)
qed

lemma clear_loop_eq:
  "length areas = 10 \<Longrightarrow> i \<le> 10 \<Longrightarrow>
    clear_loop areas i = Inr (take i areas @ replicate (10 - i) zero_area)"
proof (induction "10 - i" arbitrary: areas i)
  case 0
  then show ?case by (subst clear_loop.simps) (simp add: MAX_MEMORY_AREAS_SIZE_def)
next
  case (Suc d)
  then have i: "i < 10" "d = 10 - Suc i" by simp_all
  have "clear_loop areas i = clear_loop (areas[i := zero_area]) (Suc i)"
    using i Suc.prems by (subst clear_loop.simps) (simp add: MAX_MEMORY_AREAS_SIZE_def zero_area_def)
  also have "\<dots> = Inr (take (Suc i) (areas[i := zero_area]) @ replicate (10 - Suc i) zero_area)"
    using Suc.hyps(1) [OF i(2)] Suc.prems i by simp
  also have "take (Suc i) (areas[i := zero_area]) = take i areas @ [zero_area]"
    using i Suc.prems by (simp add: take_Suc_conv_app_nth)
  finally show ?case using i by (simp add: replicate_app_Cons_same Suc_diff_le flip: replicate_Suc)
qed

lemma clear_table:
  assumes "length (free_memory_areas s) = 10"
  shows "clear_placement_memory_array s = Inr (table [])"
  using clear_loop_eq [OF assms, of 0]
  by (cases s) (simp add: clear_placement_memory_array_def table_def MAX_MEMORY_AREAS_SIZE_def)

lemma range_zero_area [simp]: "area_range zero_area = {}"
  by (simp add: area_range_def area_end_def zero_area_def)

text \<open>A size that wraps at the start of an area: the area grows downwards.\<close>

lemma allocate_area_wrapping:
  fixes n :: u64
  assumes "length (xs @ a # ys) \<le> 10" "areas_ok (xs @ a # ys)" "2 ^ 64 < unat (area_start a) + unat n"
  shows "allocate_area (table (xs @ a # ys)) (area_start a) n =
    Inr (0, table (xs @ a\<lparr>area_start := area_start a + n, area_size := area_size a - n\<rparr> # ys))"
proof -
  have ok: "area_ok a" "\<forall>x \<in> set xs. area_end x \<le> unat (area_start a)"
    using areas_ok_middle [OF assms(2)] by auto
  have n: "n \<noteq> 0" using assms(3) unat_bound [of "area_start a"] by auto
  have "unat (area_start a + n) = unat (area_start a) + unat n - 2 ^ 64"
    using assms(3) unat_bound [of "area_start a"] unat_bound [of n]
    by (simp add: unat_word_ariths mod_if)
  moreover from this have "area_start a + n \<noteq> 0" using assms(3) by auto
  ultimately have "unat (area_start a + n - 1) < unat (area_start a)"
    using unat_bound [of n] assms(3) by (simp add: unat_pred)
  then have "area_start a + n - 1 < area_start a + area_size a - 1"
    using area_last [OF ok(1)] area_ok_less [OF ok(1)] by (simp add: word_less_nat_alt)
  then show ?thesis
    using find_area_first [of xs a ys "area_start a"] assms(1,2) ok area_ok_less [OF ok(1)] n
    by (simp add: allocate_area_def allocate_area_at_def table_simps)
qed

section \<open>Properties\<close>

text \<open>
  C9. \<^verbatim>\<open>allocate\<close> takes the lowest free area that is large enough: on success the answer is its start,
  exactly that block leaves the free addresses and the table stays well-formed; where no area is
  large enough the answer is 0 and the table is unchanged. The only fault is the exact fit in a full
  table.
\<close>

theorem allocate_takes_lowest_fit:
  assumes "placement_wf s" "n \<noteq> 0"
  shows "case allocate s n of
      Inl e \<Rightarrow> e = Out_of_bounds \<and> free_memory_area_index s = 10 \<and> (\<exists>a \<in> set (live s). area_size a = n)
    | Inr (start, s') \<Rightarrow>
        if \<forall>a \<in> set (live s). area_size a < n then start = 0 \<and> s' = s
        else placement_wf s' \<and> block start n \<subseteq> free_set s \<and> free_set s' = free_set s - block start n \<and>
          (\<exists>a \<in> set (live s). area_start a = start \<and> n \<le> area_size a \<and>
            (\<forall>b \<in> set (live s). n \<le> area_size b \<longrightarrow> start \<le> area_start b))"
  using assms
proof (cases rule: allocate_cases)
  case (fit a s')
  then have "\<not> (\<forall>a \<in> set (live s). area_size a < n)" by (auto simp: not_less)
  with fit show ?thesis by auto
qed auto

theorem allocate_takes_lowest_fit_witness:
  "allocate (table [\<lparr>area_start = 0x1000, area_size = 0x10\<rparr>, \<lparr>area_start = 0x2000, area_size = 0x100\<rparr>]) 0x20 =
    Inr (0x2000, table [\<lparr>area_start = 0x1000, area_size = 0x10\<rparr>, \<lparr>area_start = 0x2020, area_size = 0xE0\<rparr>])
   \<and> free_set (table [\<lparr>area_start = 0x1000, area_size = 0x10\<rparr>, \<lparr>area_start = 0x2020, area_size = 0xE0\<rparr>]) =
     free_set (table [\<lparr>area_start = 0x1000, area_size = 0x10\<rparr>, \<lparr>area_start = 0x2000, area_size = 0x100\<rparr>])
       - block 0x2000 0x20"
proof -
  let ?s = "table [\<lparr>area_start = 0x1000, area_size = 0x10\<rparr>, \<lparr>area_start = 0x2000, area_size = 0x100\<rparr>]"
  have eq: "allocate ?s 0x20 =
    Inr (0x2000, table [\<lparr>area_start = 0x1000, area_size = 0x10\<rparr>, \<lparr>area_start = 0x2020, area_size = 0xE0\<rparr>])"
    using allocate_first_fit [of "[\<lparr>area_start = 0x1000, area_size = 0x10\<rparr>]" "0x20"
      "\<lparr>area_start = 0x2000, area_size = 0x100\<rparr>" "[]"] by simp
  have "placement_wf ?s" by (simp add: placement_wf_table areas_ok_def area_ok_def area_end_def)
  from allocate_takes_lowest_fit [OF this, of "0x20"] eq show ?thesis by simp
qed

text \<open>
  An exact fit in a full table: where all ten slots are in use and the lowest area that is large
  enough has exactly the requested size, the loop that closes the gap reads and copies the slot
  behind the array.
\<close>

theorem allocate_exact_fit_full_table_faults:
  assumes "placement_wf s" "free_memory_area_index s = 10" "n \<noteq> 0"
    and "live s = xs @ a # ys" "area_size a = n" "\<forall>x \<in> set xs. area_size x < n"
  shows "allocate s n = Inl Out_of_bounds"
proof -
  from assms(1) obtain as where s: "s = table as" "length as \<le> 10" "areas_ok as"
    by (rule placement_wf_cases)
  with assms(2,4) have "as = xs @ a # ys" "length as = 10" by simp_all
  then show ?thesis using allocate_first_fit [of xs n a ys] assms(3,5,6) s(1) by simp
qed

theorem allocate_exact_fit_full_table_faults_witness:
  "allocate (table (map (\<lambda>i. \<lparr>area_start = of_nat i * 0x1000, area_size = 0x100\<rparr>) [0..<10])) 0x100 =
    Inl Out_of_bounds"
  by (rule allocate_exact_fit_full_table_faults [where xs = "[]" and a = "\<lparr>area_start = 0, area_size = 0x100\<rparr>"
      and ys = "map (\<lambda>i. \<lparr>area_start = of_nat i * 0x1000, area_size = 0x100\<rparr>) [1..<10]"])
    (simp_all add: placement_wf_table areas_ok_def area_ok_def area_end_def upt_rec)

text \<open>
  C14. Every answer of \<^verbatim>\<open>allocate_area\<close> for a block that does not wrap. 0: the block is not empty and lies
  inside one free area; exactly the block leaves the free addresses, and the table stays well-formed. All
  other answers leave the table as it is: -1 exactly if there is no free area; otherwise -2 exactly if the
  size is 0, -3 exactly if all free areas end below the block, -5 exactly if some area ends above its
  start but the block lies inside none, and -4 exactly if an area contains the block with room on both sides
  and all ten slots are in use. The only fault is the exact fit in a full table.
\<close>

theorem allocate_area_results:
  assumes "placement_wf s" "unat start + unat n \<le> 2 ^ 64"
  shows "case allocate_area s start n of
      Inl e \<Rightarrow> e = Out_of_bounds \<and> free_memory_area_index s = 10 \<and> n \<noteq> 0 \<and>
        \<lparr>area_start = start, area_size = n\<rparr> \<in> set (live s)
    | Inr (r, s') \<Rightarrow>
        (if r = 0 then n \<noteq> 0 \<and> (\<exists>a \<in> set (live s). block start n \<subseteq> area_range a) \<and> placement_wf s' \<and>
           free_set s' = free_set s - block start n
         else s' = s) \<and>
        r \<in> {0, - 1, - 2, - 3, - 4, - 5} \<and>
        (r = - 1 \<longleftrightarrow> live s = []) \<and>
        (r = - 2 \<longleftrightarrow> live s \<noteq> [] \<and> n = 0) \<and>
        (r = - 3 \<longleftrightarrow> live s \<noteq> [] \<and> n \<noteq> 0 \<and> (\<forall>a \<in> set (live s). area_end a \<le> unat start)) \<and>
        (r = - 5 \<longleftrightarrow> n \<noteq> 0 \<and> (\<exists>a \<in> set (live s). unat start < area_end a) \<and>
          (\<forall>a \<in> set (live s). \<not> block start n \<subseteq> area_range a)) \<and>
        (r = - 4 \<longleftrightarrow> n \<noteq> 0 \<and> free_memory_area_index s = 10 \<and>
          (\<exists>a \<in> set (live s). unat (area_start a) < unat start \<and> unat start + unat n < area_end a))"
proof (cases "n = 0")
  case True
  from assms(1) obtain as where s: "s = table as" by (rule placement_wf_cases)
  show ?thesis using True s by (auto simp: allocate_area_zero)
next
  case False
  have empty: "block start n \<noteq> {}" using unat_pos [OF False] by (simp add: block_def)
  from assms(1) False assms(2) show ?thesis
  proof (cases rule: allocate_area_cases)
    case (inside a s')
    have "\<not> (\<exists>b \<in> set (live s). unat (area_start b) < unat start \<and> unat start + unat n < area_end b) \<or>
        free_memory_area_index s \<noteq> 10"
      using allocate_area_no_slot [OF assms(1) False assms(2)] inside(1) by force
    moreover have "unat start < area_end a"
      using inside(3) empty block_subset_iff [OF False] unat_pos [OF False] by fastforce
    ultimately show ?thesis using inside False by (auto simp: not_le)
  next
    case (outside r)
    then show ?thesis
      using False block_subset_iff [OF False, of start] unat_pos [OF False] by (fastforce simp: not_le split: if_splits)
  next
    case (no_slot a)
    then show ?thesis using False block_subset_iff [OF False, of start a] by (fastforce simp: not_le)
  next
    case (full a)
    then have "a = \<lparr>area_start = start, area_size = n\<rparr>" by (cases a) simp
    with full False show ?thesis by simp
  qed
qed

theorem allocate_area_results_witness:
  "free_set (table [\<lparr>area_start = 0x1000, area_size = 0x100\<rparr>, \<lparr>area_start = 0x1200, area_size = 0xE00\<rparr>]) =
    free_set (table [\<lparr>area_start = 0x1000, area_size = 0x1000\<rparr>]) - block 0x1100 0x100 \<and>
   allocate_area (table [\<lparr>area_start = 0x1000, area_size = 0x1000\<rparr>]) 0x1100 0x100 =
    Inr (0, table [\<lparr>area_start = 0x1000, area_size = 0x100\<rparr>, \<lparr>area_start = 0x1200, area_size = 0xE00\<rparr>]) \<and>
   allocate_area (table []) 0x1100 0x100 = Inr (- 1, table []) \<and>
   allocate_area (table [\<lparr>area_start = 0x1000, area_size = 0x1000\<rparr>]) 0x1100 0 =
    Inr (- 2, table [\<lparr>area_start = 0x1000, area_size = 0x1000\<rparr>]) \<and>
   allocate_area (table [\<lparr>area_start = 0x1000, area_size = 0x1000\<rparr>]) 0x2000 0x100 =
    Inr (- 3, table [\<lparr>area_start = 0x1000, area_size = 0x1000\<rparr>]) \<and>
   allocate_area (table [\<lparr>area_start = 0x1000, area_size = 0x1000\<rparr>]) 0x1F00 0x200 =
    Inr (- 5, table [\<lparr>area_start = 0x1000, area_size = 0x1000\<rparr>])"
proof (intro conjI)
  let ?a = "\<lparr>area_start = 0x1000, area_size = 0x1000\<rparr>"
  have ok: "area_ok ?a" by (simp add: area_ok_def area_end_def)
  then have wf: "placement_wf (table [?a])" "placement_wf (table [])" by (simp_all add: placement_wf_table)
  have "allocate_area (table [?a]) 0x1100 0x100 = allocate_area_at (table [?a]) 0x1100 0x100 0 ?a"
    using find_area_first [of "[]" ?a "[]" "0x1100"] ok by (simp add: allocate_area_def area_end_def)
  also have "\<dots> = Inr (0, table [\<lparr>area_start = 0x1000, area_size = 0x100\<rparr>, \<lparr>area_start = 0x1200, area_size = 0xE00\<rparr>])"
    using allocate_area_at_table [OF ok, of "0x100" "0x1100" "[]" "[]"]
    by (simp add: remaining_def area_end_def)
  finally show inside: "allocate_area (table [?a]) 0x1100 0x100 =
    Inr (0, table [\<lparr>area_start = 0x1000, area_size = 0x100\<rparr>, \<lparr>area_start = 0x1200, area_size = 0xE00\<rparr>])" .
  show "free_set (table [\<lparr>area_start = 0x1000, area_size = 0x100\<rparr>, \<lparr>area_start = 0x1200, area_size = 0xE00\<rparr>]) =
      free_set (table [?a]) - block 0x1100 0x100"
    using allocate_area_results [OF wf(1), of "0x1100" "0x100"] inside by simp
  show "allocate_area (table []) 0x1100 0x100 = Inr (- 1, table [])"
    using allocate_area_results [OF wf(2), of "0x1100" "0x100"] by (auto split: sum.splits)
  show "allocate_area (table [?a]) 0x1100 0 = Inr (- 2, table [?a])"
    using allocate_area_results [OF wf(1), of "0x1100" 0] by (auto split: sum.splits)
  show "allocate_area (table [?a]) 0x2000 0x100 = Inr (- 3, table [?a])"
    using allocate_area_results [OF wf(1), of "0x2000" "0x100"] by (auto simp: area_end_def split: sum.splits)
  show "allocate_area (table [?a]) 0x1F00 0x200 = Inr (- 5, table [?a])"
    using allocate_area_results [OF wf(1), of "0x1F00" "0x200"]
    by (auto simp: area_end_def block_subset_iff split: sum.splits dest!: subsetD [where c = "0x2000"])
      (simp_all add: block_def)
qed

text \<open>
  C19. \<^verbatim>\<open>allocate_area_cover\<close> of a non-empty block that does not wrap, in a table with a free slot:
  it always succeeds and takes exactly the addresses of the block out of the free addresses,
  whichever areas it meets.
\<close>

theorem allocate_area_cover_takes_block:
  assumes "placement_wf s" "free_memory_area_index s < 10" "n \<noteq> 0" "unat start + unat n \<le> 2 ^ 64"
  shows "\<exists>s'. allocate_area_cover s start n = Inr (0, s') \<and> placement_wf s' \<and>
    free_set s' = free_set s - block start n"
  using cover_correct [OF assms] by metis

theorem allocate_area_cover_takes_block_witness:
  "\<exists>s'. allocate_area_cover (table [\<lparr>area_start = 0x1000, area_size = 0x1000\<rparr>, \<lparr>area_start = 0x3000, area_size = 0x1000\<rparr>])
      0x1800 0x2000 = Inr (0, s') \<and>
    free_set s' = free_set (table [\<lparr>area_start = 0x1000, area_size = 0x1000\<rparr>, \<lparr>area_start = 0x3000, area_size = 0x1000\<rparr>])
      - block 0x1800 0x2000"
  using allocate_area_cover_takes_block [of "table [\<lparr>area_start = 0x1000, area_size = 0x1000\<rparr>, \<lparr>area_start = 0x3000, area_size = 0x1000\<rparr>]"
      "0x2000" "0x1800"]
  by (auto simp: placement_wf_table areas_ok_def area_ok_def area_end_def)

text \<open>
  \<^verbatim>\<open>allocate_area\<close> does not guard the sum of start and size: a size that wraps past the last
  address at the start of a free area is answered 0, and the area then begins at the wrapped address
  below, so addresses that were never free become free.
\<close>

theorem allocate_area_wrapping_size_frees:
  assumes "placement_wf s" "a \<in> set (live s)" "2 ^ 64 < unat (area_start a) + unat n"
  shows "\<exists>s'. allocate_area s (area_start a) n = Inr (0, s') \<and>
    {unat (area_start a) + unat n - 2 ^ 64 ..< area_end a} \<subseteq> free_set s'"
proof -
  from assms(1) obtain as where s: "s = table as" "length as \<le> 10" "areas_ok as"
    by (rule placement_wf_cases)
  obtain xs ys where as: "as = xs @ a # ys" using assms(2) s(1) by (auto dest: split_list)
  let ?b = "a\<lparr>area_start := area_start a + n, area_size := area_size a - n\<rparr>"
  have start: "unat (area_start ?b) = unat (area_start a) + unat n - 2 ^ 64"
    using assms(3) unat_bound [of "area_start a"] unat_bound [of n]
    by (simp add: unat_word_ariths mod_if)
  have ok: "area_end a < 2 ^ 64" using areas_ok_middle(1) s(3) as by (auto simp: area_ok_def)
  then have lt: "unat (area_size a) < unat n" using assms(3) by (simp add: area_end_def)
  have sz: "unat (area_size a - n) = unat (area_size a) + 2 ^ 64 - unat n"
    unfolding unat_sub_if' using lt unat_bound [of n] by simp
  have "area_end ?b = area_end a"
    unfolding area_end_def start using assms(3) lt unat_bound [of n] sz by simp
  then have "area_range ?b = {unat (area_start a) + unat n - 2 ^ 64 ..< area_end a}"
    using start by (simp add: area_range_def)
  then show ?thesis
    using allocate_area_wrapping [of xs a ys n] s as assms(3)
    by (intro exI [of _ "table (xs @ ?b # ys)"]) (auto simp: ranges_append)
qed

theorem allocate_area_wrapping_size_frees_witness:
  "\<exists>s'. allocate_area (table [\<lparr>area_start = 0x100000, area_size = 0x1000\<rparr>]) 0x100000 0xFFFFFFFFFFF80000 =
      Inr (0, s') \<and> 0x80000 \<in> free_set s' \<and>
    0x80000 \<notin> free_set (table [\<lparr>area_start = 0x100000, area_size = 0x1000\<rparr>])"
  using allocate_area_wrapping_size_frees [of "table [\<lparr>area_start = 0x100000, area_size = 0x1000\<rparr>]"
      "\<lparr>area_start = 0x100000, area_size = 0x1000\<rparr>" "0xFFFFFFFFFFF80000"]
  by (auto simp: placement_wf_table area_ok_def area_end_def area_range_def subset_iff)



text \<open>
  C21. Inserting a block below a free area that neither it nor any other free area touches: the answer
  is 0, but the block overwrites the slot of an area above it. That area is lost from the free
  addresses, and the table is left ill-formed, with an empty entry among its live areas.
\<close>

theorem insert_area_in_gap_loses_area:
  assumes "placement_wf s" "free_memory_area_index s < 10" "n \<noteq> 0" "unat start + unat n < 2 ^ 64"
    and "block start n \<inter> free_set s = {}" "\<forall>a \<in> set (live s). \<not> touches start n a"
    and "b \<in> set (live s)" "unat start < unat (area_start b)"
  shows "\<exists>s' y. insert_area s start n = Inr (0, s') \<and> y \<in> set (live s) \<and>
    free_set s' = (free_set s - area_range y) \<union> block start n \<and> \<not> placement_wf s'"
  using assms(1-5)
proof (cases rule: insert_area_cases)
  case (absorbed s')
  moreover have "\<not> area_end b \<le> unat start" using assms(8) by (simp add: area_end_def)
  ultimately show ?thesis using assms(6,7) by blast
next
  case (overwrites s' xs y ys)
  have "area_range y \<inter> ranges (xs @ ys) = {}" by (rule areas_ok_disjoint [OF overwrites(3)])
  then have "ranges (live s') = (ranges (live s) - area_range y) \<union> block start n"
    unfolding overwrites(2,4) by auto
  moreover have "\<not> placement_wf s'"
    using overwrites(4) by (intro not_wf_zero_area [of _ "xs @ \<lparr>area_start = start, area_size = n\<rparr> # ys"]) simp
  moreover have "y \<in> set (live s)" using overwrites(2) by simp
  ultimately show ?thesis using overwrites(1) unfolding free_set_def by blast
qed

theorem insert_area_in_gap_loses_area_witness:
  "\<exists>s' y. insert_area (table [\<lparr>area_start = 0x8000, area_size = 0x1000\<rparr>]) 0x1000 0x1000 = Inr (0, s') \<and>
    y \<in> {\<lparr>area_start = 0x8000, area_size = 0x1000\<rparr>} \<and>
    free_set s' = (free_set (table [\<lparr>area_start = 0x8000, area_size = 0x1000\<rparr>]) - area_range y) \<union> block 0x1000 0x1000"
  using insert_area_in_gap_loses_area [of "table [\<lparr>area_start = 0x8000, area_size = 0x1000\<rparr>]" "0x1000" "0x1000"
      "\<lparr>area_start = 0x8000, area_size = 0x1000\<rparr>"]
  by (auto simp: placement_wf_table area_ok_def area_end_def area_range_def block_def touches_def)

text \<open>
  The overlap test of two areas answers whether they share an address, except that it misses a
  second area that extends beyond the first one on both sides.
\<close>

theorem overlapp_misses_enclosing:
  assumes "area_ok l" "area_ok r"
  shows "overlapp l r \<longleftrightarrow> area_range l \<inter> area_range r \<noteq> {} \<and>
    \<not> (unat (area_start r) < unat (area_start l) \<and> area_end l < area_end r)"
  by (rule overlapp_iff [OF assms])

theorem overlapp_misses_enclosing_witness:
  "\<not> overlapp \<lparr>area_start = 0x2000, area_size = 0x1000\<rparr> \<lparr>area_start = 0x1000, area_size = 0x4000\<rparr>"
  using overlapp_misses_enclosing [of "\<lparr>area_start = 0x2000, area_size = 0x1000\<rparr>" "\<lparr>area_start = 0x1000, area_size = 0x4000\<rparr>"]
  by (simp add: area_ok_def area_end_def)

text \<open>
  Consequently \<^verbatim>\<open>insert_area\<close> accepts a block around the lowest free area: the answer is 0 and
  the block takes the slot of that area, although every address of the area was free already.
\<close>

theorem insert_area_accepts_enclosing:
  assumes "placement_wf s" "free_memory_area_index s < 10" "live s = y # ys" "unat start + unat n < 2 ^ 64"
    and "unat start < unat (area_start y)" "area_end y < unat start + unat n"
  shows "\<exists>s'. insert_area s start n = Inr (0, s') \<and>
    live s' = \<lparr>area_start = start, area_size = n\<rparr> # ys @ [zero_area]"
proof -
  from assms(1) obtain as where s: "s = table as" "length as \<le> 10" "areas_ok as"
    by (rule placement_wf_cases)
  with assms(3) have as: "as = y # ys" by simp
  have n: "n \<noteq> 0" using assms(5,6) by (auto simp: area_end_def)
  have y: "area_ok y" using s(3) as by (simp add: areas_ok_Cons)
  have "unat (area_start y) \<noteq> unat start + unat n" using assms(6) by (auto simp: area_end_def)
  moreover have "\<not> overlapp y \<lparr>area_start = start, area_size = n\<rparr>"
    using overlapp_iff [OF y area_ok_new [OF n assms(4)]] assms(5,6) by (simp add: area_end_def)
  ultimately show ?thesis
    using insert_area_table [of "[]" "y # ys" n start] place_area_overwrites [of "[]" y ys n start]
      s as n assms(2,4,5) by (auto simp: word_less_nat_alt)
qed

theorem insert_area_accepts_enclosing_witness:
  "\<exists>s'. insert_area (table [\<lparr>area_start = 0x2000, area_size = 0x1000\<rparr>]) 0x1000 0x4000 = Inr (0, s') \<and>
    live s' = \<lparr>area_start = 0x1000, area_size = 0x4000\<rparr> # [] @ [zero_area]"
  by (rule insert_area_accepts_enclosing [where y = "\<lparr>area_start = 0x2000, area_size = 0x1000\<rparr>"])
    (simp_all add: placement_wf_table area_ok_def area_end_def)

text \<open>
  C10. Any sequence of these requests from a well-formed table: \<^verbatim>\<open>allocate\<close> of any size, \<^verbatim>\<open>allocate_area\<close> of
  a block that does not wrap, \<^verbatim>\<open>allocate_area_cover\<close> of a non-empty block that does not wrap while a slot is
  free, and \<^verbatim>\<open>insert_area\<close> of a block that is held, while a slot is free and where it touches a free area or
  lies above all of them. The blocks held are pairwise disjoint and disjoint from the free addresses,
  all of them were free at the start, and the table stays well-formed.
\<close>

theorem placement_blocks_never_overlap:
  assumes "placement_wf s0" "pool_run placement_grant placement_return s0 bs s"
  shows "placement_wf s \<and> sorted_wrt disjnt bs \<and> (\<forall>b \<in> set bs. b \<inter> free_set s = {}) \<and>
    \<Union>(set bs) \<union> free_set s \<subseteq> free_set s0"
  by (rule regions.run_blocks [OF assms])

theorem placement_blocks_never_overlap_witness:
  "\<exists>s. pool_run placement_grant placement_return (table [\<lparr>area_start = 0x1000, area_size = 0x1000\<rparr>])
      [block 0x1000 0x100, block 0x1F00 0x100] s \<and>
    disjnt (block 0x1000 0x100) (block 0x1F00 0x100) \<and> block 0x1000 0x100 \<inter> free_set s = {} \<and>
    block 0x1100 0x200 \<subseteq> free_set s"
proof -
  let ?t = "\<lambda>a n. table [\<lparr>area_start = a, area_size = n\<rparr>]"
  have ok: "area_ok \<lparr>area_start = 0x1000, area_size = 0x1000\<rparr>" by (simp add: area_ok_def area_end_def)
  have wf: "placement_wf (?t 0x1000 0x1000)" "placement_wf (?t 0x1300 0xC00)"
    by (simp_all add: placement_wf_table area_ok_def area_end_def)
  have "allocate_area (?t 0x1000 0x1000) 0x1F00 0x100 = allocate_area_at (?t 0x1000 0x1000) 0x1F00 0x100 0
      \<lparr>area_start = 0x1000, area_size = 0x1000\<rparr>"
    using find_area_first [of "[]" "\<lparr>area_start = 0x1000, area_size = 0x1000\<rparr>" "[]" "0x1F00"] ok
    by (simp add: allocate_area_def area_end_def)
  also have "\<dots> = Inr (0, ?t 0x1000 0xF00)"
    using allocate_area_at_table [OF ok, of "0x100" "0x1F00" "[]" "[]"] by (simp add: area_end_def)
  finally have top: "allocate_area (?t 0x1000 0x1000) 0x1F00 0x100 = Inr (0, ?t 0x1000 0xF00)" .
  have low: "allocate (?t 0x1000 0xF00) 0x100 = Inr (0x1000, ?t 0x1100 0xE00)"
    "allocate (?t 0x1100 0xE00) 0x200 = Inr (0x1100, ?t 0x1300 0xC00)"
    by (simp_all add: allocate_first_fit [of "[]" _ _ "[]", simplified])
  let ?held = "[block 0x1100 0x200, block 0x1000 0x100, block 0x1F00 0x100]"
  have "pool_run placement_grant placement_return (?t 0x1000 0x1000) [block 0x1F00 0x100] (?t 0x1000 0xF00)"
    by (intro pool_run.granted [OF pool_run.start] placement_grant.exactly [OF top]) simp
  then have run: "pool_run placement_grant placement_return (?t 0x1000 0x1000) ?held (?t 0x1300 0xC00)"
    using placement_grant.lowest [OF low(1)] placement_grant.lowest [OF low(2)] by (auto intro: pool_run.granted)
  have touch: "\<exists>a \<in> set (live (?t 0x1300 0xC00)). touches 0x1100 0x200 a" by (simp add: touches_def)
  have disj: "block 0x1100 0x200 \<inter> free_set (?t 0x1300 0xC00) = {}"
    by (auto simp: block_def area_range_def area_end_def)
  have room: "free_memory_area_index (?t 0x1300 0xC00) < 10" "(0x200 :: u64) \<noteq> 0"
    "unat (0x1100 :: u64) + unat (0x200 :: u64) < 2 ^ 64" by simp_all
  have "\<exists>s. insert_area (?t 0x1300 0xC00) 0x1100 0x200 = Inr (0, s) \<and>
      free_set s = free_set (?t 0x1300 0xC00) \<union> block 0x1100 0x200"
    by (rule insert_area_cases [OF wf(2) room disj]) (use touch in blast)+
  then obtain s where s: "insert_area (?t 0x1300 0xC00) 0x1100 0x200 = Inr (0, s)"
    "free_set s = free_set (?t 0x1300 0xC00) \<union> block 0x1100 0x200" by blast
  then have "placement_return (?t 0x1300 0xC00) (block 0x1100 0x200) s"
    using touch by (intro placement_return.insert [OF s(1)]) auto
  then have run': "pool_run placement_grant placement_return (?t 0x1000 0x1000) [block 0x1000 0x100, block 0x1F00 0x100] s"
    using pool_run.returned [of placement_grant placement_return "?t 0x1000 0x1000" "[]"] run by simp
  from placement_blocks_never_overlap [OF wf(1) this] s(2) run' show ?thesis by auto
qed

text \<open>
  Clearing gives the well-formed table without free addresses, and on a well-formed table
  \<^verbatim>\<open>memory_areas_size\<close> counts the live areas.
\<close>

theorem memory_areas_size_counts:
  assumes "placement_wf s"
  shows "memory_areas_size s = Inr (free_memory_area_index s) \<and>
    clear_placement_memory_array s = Inr (table []) \<and> placement_wf (table []) \<and> free_set (table []) = {}"
proof -
  from assms obtain as where s: "s = table as" "length as \<le> 10" "areas_ok as"
    by (rule placement_wf_cases)
  with clear_table [of s] areas_size_loop_eq [OF s(2,3), of 0] show ?thesis
    by (simp add: memory_areas_size_def placement_wf_table)
qed

theorem memory_areas_size_counts_witness:
  "memory_areas_size (table [\<lparr>area_start = 0, area_size = 0x1000\<rparr>, \<lparr>area_start = 0x2000, area_size = 1\<rparr>]) = Inr 2"
  using memory_areas_size_counts [of "table [\<lparr>area_start = 0, area_size = 0x1000\<rparr>, \<lparr>area_start = 0x2000, area_size = 1\<rparr>]"]
  by (simp add: placement_wf_table areas_ok_def area_ok_def area_end_def)

end
