(* ===== verification/Multiboot.thy ===== *)
theory Multiboot
  imports Placement
begin

text \<open>
  What the boot loader leaves in memory (\<^verbatim>\<open>multiboot.h\<close>) and the routines of \<^verbatim>\<open>multiboot.c\<close> that
  take the block that the ELF fields name (meant to be the kernel image) and the loaded modules out of the
  free memory.

  Memory is read only here, always by aligned fields of type \<^verbatim>\<open>unsigned long\<close> (32 bits on the i386
  target): it is a function from the address of a field to the word stored there. Addresses are
  32-bit words, and pointer arithmetic wraps.
\<close>

section \<open>Data\<close>

type_synonym memory = "u32 \<Rightarrow> u32"

record elf_section_header_table =
  elf_num :: u32
  elf_size :: u32
  elf_addr :: u32
  elf_shndx :: u32

text \<open>Of the union \<open>u\<close> only the member \<open>elf_sec\<close> is used.\<close>

record multiboot_info =
  mbi_flags :: u32
  mem_lower :: u32
  mem_upper :: u32
  boot_device :: u32
  cmdline :: u32
  mods_count :: u32
  mods_addr :: u32
  elf_sec :: elf_section_header_table
  mmap_length :: u32
  mmap_addr :: u32

record module =
  mod_start :: u32
  mod_end :: u32
  mod_string :: u32
  mod_reserved :: u32

definition CHECK_FLAG :: "u32 \<Rightarrow> nat \<Rightarrow> bool" where
  "CHECK_FLAG flags b \<longleftrightarrow> flags AND push_bit b 1 \<noteq> 0"

definition sizeof_module :: u32 where
  "sizeof_module = 16"

definition load_module :: "memory \<Rightarrow> u32 \<Rightarrow> module" where
  "load_module mem a =
     \<lparr>mod_start = mem a, mod_end = mem (a + 4), mod_string = mem (a + 8), mod_reserved = mem (a + 12)\<rparr>"

section \<open>Blocking the kernel image and the modules\<close>

definition processELF :: "placement \<Rightarrow> multiboot_info \<Rightarrow> placement result" where
  "processELF s mbi =
     (if \<not> CHECK_FLAG (mbi_flags mbi) 5 then Inr s
      else
        and_then (allocate_area s (ucast (elf_addr (elf_sec mbi))) (ucast (elf_size (elf_sec mbi))))
          (\<lambda>(address, s'). Inr s'))"

text \<open>
  The loop over the modules. \<^verbatim>\<open>mod += sizeof(module_t)\<close> on a pointer of type \<^verbatim>\<open>module_t *\<close> moves by
  \<^verbatim>\<open>sizeof(module_t)\<close> entries of that size.
\<close>

function mods_loop :: "memory \<Rightarrow> u32 \<Rightarrow> nat \<Rightarrow> nat \<Rightarrow> placement \<Rightarrow> placement result" where
  "mods_loop mem mod_ptr i count s =
     (if i < count then
        let m = load_module mem mod_ptr in
        and_then (allocate_area s (ucast (mod_start m)) (ucast (mod_end m - mod_start m))) (\<lambda>(address, s').
        mods_loop mem (mod_ptr + sizeof_module * sizeof_module) (Suc i) count s')
      else Inr s)"
  by pat_completeness auto
termination by (relation "measure (\<lambda>(mem, p, i, count, s). count - i)") auto

declare mods_loop.simps [simp del]

definition processMods :: "memory \<Rightarrow> placement \<Rightarrow> multiboot_info \<Rightarrow> placement result" where
  "processMods mem s mbi =
     (if \<not> CHECK_FLAG (mbi_flags mbi) 3 then Inr s
      else mods_loop mem (mods_addr mbi) 0 (unat (mods_count mbi)) s)"

section \<open>Helper lemmas\<close>

text \<open>Blocking a list of blocks one after the other, whatever the single answers are.\<close>

fun block_areas :: "placement \<Rightarrow> (u64 \<times> u64) list \<Rightarrow> placement result" where
  "block_areas s [] = Inr s"
| "block_areas s ((start, n) # bs) = and_then (allocate_area s start n) (\<lambda>(address, s'). block_areas s' bs)"

definition module_block :: "module \<Rightarrow> u64 \<times> u64" where
  "module_block m = (ucast (mod_start m), ucast (mod_end m - mod_start m))"

lemma CHECK_FLAG_iff: "CHECK_FLAG flags b \<longleftrightarrow> bit flags b"
  using and_single_eq_0 [of flags b] by (simp add: CHECK_FLAG_def push_bit_eq_mult)

lemma mods_loop_eq:
  "i \<le> count \<Longrightarrow> mods_loop mem p i count s =
    block_areas s (map (\<lambda>k. module_block (load_module mem (p + of_nat (256 * k)))) [0..<count - i])"
proof (induction "count - i" arbitrary: i p s)
  case 0
  then show ?case by (subst mods_loop.simps) simp
next
  case (Suc d)
  then have i: "i < count" "d = count - Suc i" by simp_all
  have shift: "map (\<lambda>k. module_block (load_module mem (p + of_nat (256 * k)))) [0..<count - i] =
      module_block (load_module mem p) #
      map (\<lambda>k. module_block (load_module mem (p + 256 + of_nat (256 * k)))) [0..<count - Suc i]"
    using i(1) by (simp add: Suc_diff_Suc [symmetric] upt_conv_Cons map_Suc_upt [symmetric] o_def
        algebra_simps del: upt_Suc)
  show ?case
    unfolding shift using i(1) Suc.hyps(1) [OF i(2)]
    by (subst mods_loop.simps)
      (auto simp: module_block_def sizeof_module_def split_def Let_def intro!: and_then_cong)
qed

text \<open>Blocking keeps the table well-formed and never makes an address free.\<close>

lemma block_areas_safe:
  assumes "placement_wf s" "\<forall>(start, n) \<in> set bs. unat start + unat n \<le> 2 ^ 64" "block_areas s bs = Inr s'"
  shows "placement_wf s' \<and> free_set s' \<subseteq> free_set s"
  using assms
proof (induction bs arbitrary: s)
  case Nil
  then show ?case by simp
next
  case (Cons b bs)
  obtain start n where b: "b = (start, n)" by (cases b)
  obtain r t where step: "allocate_area s start n = Inr (r, t)" "block_areas t bs = Inr s'"
    using Cons.prems(3) b by (auto simp: mem_simps)
  have "unat start + unat n \<le> 2 ^ 64" using Cons.prems(2) b by simp
  note grants = allocate_area_grants [OF Cons.prems(1) step(1) this]
  have "free_set t \<subseteq> free_set s" using grants(2,3) by (cases "r = 0") auto
  moreover have "placement_wf s' \<and> free_set s' \<subseteq> free_set t"
    by (rule Cons.IH [OF grants(1)]) (use Cons.prems(2) step(2) in simp_all)
  ultimately show ?case by blast
qed

lemma block_in_u64: "unat (ucast (a :: u32) :: u64) + unat (ucast (b :: u32) :: u64) \<le> 2 ^ 64"
  using unat_bound [of a] unat_bound [of b] by (simp add: u32_in_u64)

lemma processMods_eq:
  assumes "CHECK_FLAG (mbi_flags mbi) 3"
  shows "processMods mem s mbi = block_areas s
    (map (\<lambda>k. module_block (load_module mem (mods_addr mbi + of_nat (256 * k)))) [0..<unat (mods_count mbi)])"
  using assms mods_loop_eq [of 0 "unat (mods_count mbi)" mem "mods_addr mbi" s]
  by (simp add: processMods_def)

lemma processMods_safe:
  assumes "placement_wf s" "processMods mem s mbi = Inr s'"
  shows "placement_wf s' \<and> free_set s' \<subseteq> free_set s"
proof (cases "CHECK_FLAG (mbi_flags mbi) 3")
  case True
  let ?bs = "map (\<lambda>k. module_block (load_module mem (mods_addr mbi + of_nat (256 * k)))) [0..<unat (mods_count mbi)]"
  have "block_areas s ?bs = Inr s'" using assms(2) processMods_eq [OF True] by simp
  moreover have "\<forall>(start, n) \<in> set ?bs. unat start + unat n \<le> 2 ^ 64"
    by (auto simp: module_block_def block_in_u64 [simplified])
  ultimately show ?thesis using block_areas_safe [OF assms(1)] by blast
next
  case False
  then show ?thesis using assms by (simp add: processMods_def)
qed

text \<open>Blocks that are disjoint and lie inside free areas are all taken, as long as there are slots for the parts.\<close>

definition inside_area :: "placement \<Rightarrow> u64 \<times> u64 \<Rightarrow> bool" where
  "inside_area s b \<longleftrightarrow> snd b = 0 \<or> (\<exists>a \<in> set (live s). block (fst b) (snd b) \<subseteq> area_range a)"

lemma block_areas_takes:
  assumes "placement_wf s" "free_memory_area_index s + length bs \<le> 10"
    and "\<forall>(start, n) \<in> set bs. unat start + unat n \<le> 2 ^ 64" "\<forall>b \<in> set bs. inside_area s b"
    and "sorted_wrt disjnt (map (\<lambda>(start, n). block start n) bs)"
  shows "\<exists>s'. block_areas s bs = Inr s' \<and> placement_wf s' \<and>
    free_set s' = free_set s - (\<Union>(start, n) \<in> set bs. block start n)"
  using assms
proof (induction bs arbitrary: s)
  case Nil
  then show ?case by simp
next
  case (Cons b bs)
  obtain start n where b: "b = (start, n)" by (cases b)
  have apart: "block x m \<inter> block start n = {}" if "(x, m) \<in> set bs" for x m
    using Cons.prems(5) that b by (force simp: disjnt_def)
  obtain r t where t: "allocate_area s start n = Inr (r, t)" "placement_wf t" "free_set t = free_set s - block start n"
    "free_memory_area_index t \<le> Suc (free_memory_area_index s)" "\<forall>c \<in> set bs. inside_area t c"
  proof (cases "n = 0")
    case True
    then show thesis
      using that [of _ s] Cons.prems(1,4) by (simp add: allocate_area_zero)
  next
    case False
    then obtain a where a: "a \<in> set (live s)" "block start n \<subseteq> area_range a"
      using Cons.prems(4) b by (auto simp: inside_area_def)
    have fits: "unat start + unat n \<le> 2 ^ 64" "free_memory_area_index s < 10" using Cons.prems(2,3) b by simp_all
    obtain t where t: "allocate_area s start n = Inr (0, t)" "placement_wf t" "free_set t = free_set s - block start n"
      "free_memory_area_index t \<le> Suc (free_memory_area_index s)"
      "\<And>c m x. c \<in> set (live s) \<Longrightarrow> block x m \<subseteq> area_range c \<Longrightarrow> m \<noteq> 0 \<Longrightarrow>
        block x m \<inter> block start n = {} \<Longrightarrow> \<exists>d \<in> set (live t). block x m \<subseteq> area_range d"
      using allocate_area_inside [OF Cons.prems(1) False fits a] by blast
    have "inside_area t (x, m)" if c: "(x, m) \<in> set bs" for x m
    proof (cases "m = 0")
      case True
      then show ?thesis by (simp add: inside_area_def)
    next
      case False
      then obtain d where "d \<in> set (live s)" "block x m \<subseteq> area_range d"
        using Cons.prems(4) c by (auto simp: inside_area_def)
      from t(5) [OF this False apart [OF c]] show ?thesis by (auto simp: inside_area_def)
    qed
    then have "\<forall>c \<in> set bs. inside_area t c" by auto
    then show thesis using that t(1-4) by blast
  qed
  from Cons.IH [OF t(2) _ _ t(5)] obtain s' where "block_areas t bs = Inr s'" "placement_wf s'"
    "free_set s' = free_set t - (\<Union>(start, n) \<in> set bs. block start n)"
    using Cons.prems(2,3,5) t(4) by auto
  then show ?case using t(1,3) b by auto
qed

section \<open>Properties\<close>

text \<open>
  C40. \<^verbatim>\<open>processELF\<close> and then \<^verbatim>\<open>processMods\<close>, with the flags for both set. If the block that the ELF fields
  name and the modules number 0, 16, 32, ... (as many as \<^verbatim>\<open>mods_count\<close> says) are disjoint, each is empty
  or lies inside one free area, and the table has a slot for each of them, both routines return without a
  fault, exactly the addresses of these blocks leave the free addresses, and the table stays well-formed.
\<close>

theorem multiboot_blocks_are_taken:
  assumes "placement_wf s" "CHECK_FLAG (mbi_flags mbi) 5" "CHECK_FLAG (mbi_flags mbi) 3"
    and "bs = (ucast (elf_addr (elf_sec mbi)), ucast (elf_size (elf_sec mbi))) #
      map (\<lambda>k. module_block (load_module mem (mods_addr mbi + sizeof_module * of_nat (16 * k))))
        [0..<unat (mods_count mbi)]"
    and "free_memory_area_index s + length bs \<le> 10" "\<forall>b \<in> set bs. inside_area s b"
    and "sorted_wrt disjnt (map (\<lambda>(start, n). block start n) bs)"
  shows "\<exists>s1 s2. processELF s mbi = Inr s1 \<and> processMods mem s1 mbi = Inr s2 \<and> placement_wf s2 \<and>
    free_set s2 = free_set s - (\<Union>(start, n) \<in> set bs. block start n)"
proof -
  let ?ms = "map (\<lambda>k. module_block (load_module mem (mods_addr mbi + of_nat (256 * k)))) [0..<unat (mods_count mbi)]"
  have bs: "bs = (ucast (elf_addr (elf_sec mbi)), ucast (elf_size (elf_sec mbi))) # ?ms"
    using assms(4) by (simp add: sizeof_module_def)
  have "\<forall>(start, n) \<in> set bs. unat start + unat n \<le> 2 ^ 64"
    unfolding bs by (auto simp: module_block_def block_in_u64 [simplified])
  from block_areas_takes [OF assms(1,5) this assms(6,7)] obtain s2 where s2: "block_areas s bs = Inr s2"
    "placement_wf s2" "free_set s2 = free_set s - (\<Union>(start, n) \<in> set bs. block start n)" by blast
  from s2(1) obtain r s1 where s1: "allocate_area s (ucast (elf_addr (elf_sec mbi))) (ucast (elf_size (elf_sec mbi))) = Inr (r, s1)"
    "block_areas s1 ?ms = Inr s2" unfolding bs by (auto simp: and_then_eq_Inr)
  have "processELF s mbi = Inr s1" using s1(1) assms(2) by (simp add: processELF_def)
  moreover have "processMods mem s1 mbi = Inr s2" using s1(2) processMods_eq [OF assms(3)] by simp
  ultimately show ?thesis using s2(2,3) by blast
qed

text \<open>A module table whose entries number 0 and 16 are modules of a page.\<close>

definition example_modules :: memory where
  "example_modules = (\<lambda>_. 0)(0x9000 := 0x300000, 0x9004 := 0x301000, 0x9100 := 0x400000, 0x9104 := 0x401000)"

theorem multiboot_blocks_are_taken_witness:
  "\<exists>s1 s2. processELF (table [\<lparr>area_start = 0x100000, area_size = 0x700000\<rparr>])
      \<lparr>mbi_flags = 0x28, mem_lower = 0, mem_upper = 0, boot_device = 0, cmdline = 0, mods_count = 2, mods_addr = 0x9000,
       elf_sec = \<lparr>elf_num = 0, elf_size = 0x80000, elf_addr = 0x100000, elf_shndx = 0\<rparr>, mmap_length = 0, mmap_addr = 0\<rparr>
     = Inr s1 \<and>
    processMods example_modules s1
      \<lparr>mbi_flags = 0x28, mem_lower = 0, mem_upper = 0, boot_device = 0, cmdline = 0, mods_count = 2, mods_addr = 0x9000,
       elf_sec = \<lparr>elf_num = 0, elf_size = 0x80000, elf_addr = 0x100000, elf_shndx = 0\<rparr>, mmap_length = 0, mmap_addr = 0\<rparr>
     = Inr s2 \<and>
    free_set s2 = {0x100000..<0x800000} -
      (block 0x100000 0x80000 \<union> block 0x300000 0x1000 \<union> block 0x400000 0x1000)"
proof -
  let ?a = "\<lparr>area_start = 0x100000, area_size = 0x700000\<rparr>"
  let ?mbi = "\<lparr>mbi_flags = 0x28, mem_lower = 0, mem_upper = 0, boot_device = 0, cmdline = 0, mods_count = 2, mods_addr = 0x9000,
       elf_sec = \<lparr>elf_num = 0, elf_size = 0x80000, elf_addr = 0x100000, elf_shndx = 0\<rparr>, mmap_length = 0, mmap_addr = 0\<rparr>"
  let ?bs = "[(0x100000, 0x80000), (0x300000, 0x1000), (0x400000, 0x1000)] :: (u64 \<times> u64) list"
  have bs: "?bs = (ucast (elf_addr (elf_sec ?mbi)), ucast (elf_size (elf_sec ?mbi))) #
      map (\<lambda>k. module_block (load_module example_modules (mods_addr ?mbi + sizeof_module * of_nat (16 * k))))
        [0..<unat (mods_count ?mbi)]"
    by (simp add: upt_rec module_block_def load_module_def example_modules_def sizeof_module_def)
  have wf: "placement_wf (table [?a])" by (simp add: placement_wf_table area_ok_def area_end_def)
  have flags: "CHECK_FLAG (mbi_flags ?mbi) 5" "CHECK_FLAG (mbi_flags ?mbi) 3" by (simp_all add: CHECK_FLAG_def)
  have room: "free_memory_area_index (table [?a]) + length ?bs \<le> 10" by simp
  have inside: "\<forall>b \<in> set ?bs. inside_area (table [?a]) b"
    by (auto simp: inside_area_def block_def area_range_def area_end_def)
  have apart: "sorted_wrt disjnt (map (\<lambda>(start, n). block start n) ?bs)" by (simp add: disjnt_def block_def)
  have free: "free_set (table [?a]) = {0x100000..<0x800000}" by (simp add: area_range_def area_end_def)
  have "(\<Union>(start, n) \<in> set ?bs. block start n) =
      block 0x100000 0x80000 \<union> block 0x300000 0x1000 \<union> block 0x400000 0x1000" by auto
  then show ?thesis
    using multiboot_blocks_are_taken [OF wf flags bs room inside apart] unfolding free by metis
qed

text \<open>
  The loop over the modules blocks the modules number 0, 16, 32, ... of the table at \<open>mods_addr\<close>
  (entries of 16 bytes), not the consecutive ones: the pointer is advanced by \<^verbatim>\<open>sizeof(module_t)\<close>
  whole entries.
\<close>

theorem processMods_blocks_every_sixteenth_module:
  assumes "CHECK_FLAG (mbi_flags mbi) 3"
  shows "processMods mem s mbi = block_areas s
    (map (\<lambda>k. module_block (load_module mem (mods_addr mbi + sizeof_module * of_nat (16 * k))))
      [0..<unat (mods_count mbi)])"
proof -
  have "sizeof_module * of_nat (16 * k) = of_nat (256 * k)" for k
    by (simp add: sizeof_module_def)
  then show ?thesis using processMods_eq [OF assms] by simp
qed

theorem processMods_blocks_every_sixteenth_module_witness:
  "processMods (\<lambda>a. a) (table [])
      \<lparr>mbi_flags = 8, mem_lower = 0, mem_upper = 0, boot_device = 0, cmdline = 0, mods_count = 2, mods_addr = 0x9000,
       elf_sec = \<lparr>elf_num = 0, elf_size = 0, elf_addr = 0, elf_shndx = 0\<rparr>, mmap_length = 0, mmap_addr = 0\<rparr> =
    block_areas (table []) [(0x9000, 4), (0x9100, 4)]"
  using processMods_blocks_every_sixteenth_module [of "\<lparr>mbi_flags = 8, mem_lower = 0, mem_upper = 0, boot_device = 0, cmdline = 0, mods_count = 2, mods_addr = 0x9000,
       elf_sec = \<lparr>elf_num = 0, elf_size = 0, elf_addr = 0, elf_shndx = 0\<rparr>, mmap_length = 0, mmap_addr = 0\<rparr>" "\<lambda>a. a" "table []"]
  by (simp add: CHECK_FLAG_def sizeof_module_def upt_rec module_block_def load_module_def)

end
