(* ===== verification/Memory_Map.thy ===== *)
theory Memory_Map
  imports Multiboot
begin

text \<open>
  \<^verbatim>\<open>memory_map.c\<close>: the walk over the memory map of the boot loader, which inserts the areas of
  available RAM into the table of free areas.

  The walk follows the size fields in memory and may never end, so it is a partial function; its
  value \<open>None\<close> is the walk that does not return. What it reads is specified by \<open>entries_at\<close>, the list
  of the entries it visits.
\<close>

section \<open>The walk\<close>

record memory_map =
  entry_size :: u32
  base_addr_low :: u32
  base_addr_high :: u32
  length_low :: u32
  length_high :: u32
  entry_type :: u32

definition load_entry :: "memory \<Rightarrow> u32 \<Rightarrow> memory_map" where
  "load_entry mem a =
     \<lparr>entry_size = mem a, base_addr_low = mem (a + 4), base_addr_high = mem (a + 8),
      length_low = mem (a + 12), length_high = mem (a + 16), entry_type = mem (a + 20)\<rparr>"

text \<open>The sums are computed in 32 bits, with \<^verbatim>\<open>sizeof(long)\<close> = 4, and then converted to 64 bits.\<close>

definition sizeof_long :: u32 where
  "sizeof_long = 4"

definition available_start :: "memory_map \<Rightarrow> u64" where
  "available_start e = ucast (base_addr_high e * sizeof_long + base_addr_low e)"

definition available_size :: "memory_map \<Rightarrow> u64" where
  "available_size e = ucast (length_high e * sizeof_long + length_low e)"

partial_function (option) memory_map_loop ::
    "memory \<Rightarrow> u32 \<Rightarrow> u32 \<Rightarrow> placement \<Rightarrow> (int \<times> placement) result option" where
  "memory_map_loop mem limit mmap s =
     (if mmap < limit then
        let entry = load_entry mem mmap; next_entry = mmap + entry_size entry + 4 in
        if entry_type entry = 1 then
          (case insert_area s (available_start entry) (available_size entry) of
             Inl e \<Rightarrow> Some (Inl e)
           | Inr r \<Rightarrow>
               if fst r \<noteq> 0 then Some (Inr (- 2, snd r))
               else memory_map_loop mem limit next_entry (snd r))
        else memory_map_loop mem limit next_entry s
      else Some (Inr (0, s)))"

definition process_multiboot_memory_map ::
    "memory \<Rightarrow> placement \<Rightarrow> multiboot_info \<Rightarrow> (int \<times> placement) result option" where
  "process_multiboot_memory_map mem s mbi =
     (if \<not> CHECK_FLAG (mbi_flags mbi) 6 then Some (Inr (- 1, s))
      else memory_map_loop mem (mmap_addr mbi + mmap_length mbi) (mmap_addr mbi) s)"

section \<open>The entries the walk visits\<close>

fun entries_at :: "memory \<Rightarrow> u32 \<Rightarrow> u32 \<Rightarrow> memory_map list \<Rightarrow> bool" where
  "entries_at mem limit mmap [] \<longleftrightarrow> \<not> mmap < limit"
| "entries_at mem limit mmap (e # es) \<longleftrightarrow> mmap < limit \<and> e = load_entry mem mmap \<and>
     entries_at mem limit (mmap + entry_size e + 4) es"

definition available :: "memory_map \<Rightarrow> bool" where
  "available e \<longleftrightarrow> entry_type e = 1"

definition entry_area :: "memory_map \<Rightarrow> memory_area" where
  "entry_area e = \<lparr>area_start = available_start e, area_size = available_size e\<rparr>"

text \<open>Inserting a list of areas, up to the first one that is not accepted.\<close>

fun insert_areas :: "placement \<Rightarrow> memory_area list \<Rightarrow> (int \<times> placement) result" where
  "insert_areas s [] = Inr (0, s)"
| "insert_areas s (a # as) =
     and_then (insert_area s (area_start a) (area_size a)) (\<lambda>(r, s').
     if r \<noteq> 0 then Inr (- 2, s') else insert_areas s' as)"

lemma memory_map_loop_eq:
  "entries_at mem limit mmap es \<Longrightarrow>
    memory_map_loop mem limit mmap s = Some (insert_areas s (map entry_area (filter available es)))"
proof (induction es arbitrary: mmap s)
  case Nil
  then show ?case by (subst memory_map_loop.simps) simp
next
  case (Cons e es)
  then have e: "mmap < limit" "load_entry mem mmap = e" "entries_at mem limit (mmap + entry_size e + 4) es"
    by auto
  show ?case
  proof (cases "insert_area s (available_start e) (available_size e)")
    case (Inl f)
    then show ?thesis
      using e Cons.IH [OF e(3)]
      by (subst memory_map_loop.simps) (simp add: Let_def available_def [of e] entry_area_def [of e])
  next
    case (Inr r)
    then show ?thesis
      using e Cons.IH [OF e(3)]
      by (subst memory_map_loop.simps)
        (simp add: Let_def available_def [of e] entry_area_def [of e] split_def)
  qed
qed

text \<open>The addresses of entries that a walk from \<open>start\<close> comes to.\<close>

inductive reached :: "memory \<Rightarrow> u32 \<Rightarrow> u32 \<Rightarrow> u32 \<Rightarrow> bool" for mem limit start where
  first: "reached mem limit start start"
| step: "reached mem limit start a \<Longrightarrow> a < limit \<Longrightarrow> reached mem limit start (a + mem a + 4)"

text \<open>Where no size field of an entry leads past the end of the address space, the walk ends.\<close>

lemma entries_exist:
  assumes "\<forall>a. reached mem limit start a \<and> a < limit \<longrightarrow> unat a + unat (mem a) + 4 < 2 ^ 32"
    and "reached mem limit start mmap"
  shows "\<exists>es. entries_at mem limit mmap es"
  using assms(2)
proof (induction "unat limit - unat mmap" arbitrary: mmap rule: less_induct)
  case less
  show ?case
  proof (cases "mmap < limit")
    case True
    let ?next = "mmap + entry_size (load_entry mem mmap) + 4"
    have next_entry: "?next = mmap + mem mmap + 4" by (simp add: load_entry_def)
    have b: "unat mmap + unat (mem mmap) + 4 < 2 ^ 32" using assms(1) less.prems True by blast
    then have m: "unat (mmap + mem mmap) = unat mmap + unat (mem mmap)" by (simp add: word_nat)
    have "unat (mmap + mem mmap + 4) = unat (mmap + mem mmap) + unat (4 :: u32)"
      by (rule unat_plus_no_wrap) (use b m in simp)
    then have "unat ?next = unat mmap + unat (mem mmap) + 4" using m by (simp add: load_entry_def)
    then have "unat limit - unat ?next < unat limit - unat mmap"
      using True by (simp add: word_less_nat_alt)
    moreover have "reached mem limit start ?next" unfolding next_entry by (rule reached.step [OF less.prems True])
    ultimately obtain es where "entries_at mem limit ?next es" using less.hyps by blast
    with True have "entries_at mem limit mmap (load_entry mem mmap # es)" by simp
    then show ?thesis by blast
  next
    case False
    then have "entries_at mem limit mmap []" by simp
    then show ?thesis by blast
  qed
qed

section \<open>Inserting the areas of a sorted map\<close>

lemma place_area_index:
  "place_area s i start n = Inr (r, s') \<Longrightarrow> free_memory_area_index s' \<le> Suc (free_memory_area_index s)"
  by (auto simp: place_area_def mem_simps split: if_splits)

lemma merge_predecessor_index:
  "merge_predecessor s i a n = Inr (r, s') \<Longrightarrow> free_memory_area_index s' \<le> Suc (free_memory_area_index s)"
  unfolding merge_predecessor_def Let_def and_then_eq_Inr
  by (elim exE conjE) (auto simp: and_then_eq_Inr split: if_splits)

lemma insert_area_index:
  assumes "insert_area s start n = Inr (r, s')"
  shows "free_memory_area_index s' \<le> Suc (free_memory_area_index s)"
proof -
  have "s' = s \<or> (\<exists>i a. merge_predecessor s i a n = Inr (r, s')) \<or> (\<exists>i. place_area s i start n = Inr (r, s'))"
    using assms unfolding insert_area_def Let_def
    by (auto simp: and_then_eq_Inr split: if_splits option.splits)
  then show ?thesis using merge_predecessor_index place_area_index by auto
qed

lemma live_end_bound:
  assumes "placement_wf s" "free_set s \<subseteq> {..<m}" "a \<in> set (live s)"
  shows "area_end a \<le> m"
proof -
  have "area_ok a" using assms(1,3) by (auto simp: placement_wf_def areas_ok_def)
  then have "area_end a - 1 \<in> area_range a" "0 < area_end a"
    using area_ok_less [of a] by (auto simp: area_range_def)
  then have "area_end a - 1 \<in> {..<m}"
    using assms(2,3) by (auto simp: free_set_def ranges_def)
  then show ?thesis by auto
qed

lemma insert_areas_sorted:
  assumes "placement_wf s" "areas_ok as" "free_memory_area_index s + length as \<le> 10"
    and "\<forall>a \<in> set as. free_set s \<subseteq> {..<Suc (unat (area_start a)) - 1}"
  shows "\<exists>s'. insert_areas s as = Inr (0, s') \<and> placement_wf s' \<and> free_set s' = free_set s \<union> ranges as"
  using assms
proof (induction as arbitrary: s)
  case Nil
  then show ?case by simp
next
  case (Cons a as)
  have a: "area_ok a" "areas_ok as" "\<forall>b \<in> set as. area_end a \<le> unat (area_start b)"
    using Cons.prems(2) by (simp_all add: areas_ok_Cons)
  have below: "free_set s \<subseteq> {..<unat (area_start a)}" using Cons.prems(4) by simp
  have blk: "block (area_start a) (area_size a) = area_range a" by (simp add: block_def area_range_alt)
  have room: "free_memory_area_index s < 10" and n: "area_size a \<noteq> 0"
    and fits: "unat (area_start a) + unat (area_size a) < 2 ^ 64"
    using Cons.prems(3) a(1) by (simp_all add: area_ok_def area_end_def)
  have disj: "block (area_start a) (area_size a) \<inter> free_set s = {}"
    using below by (auto simp: block_def)
  have above: "\<forall>b \<in> set (live s). area_end b \<le> unat (area_start a)"
    using live_end_bound [OF Cons.prems(1) below] by blast
  from Cons.prems(1) room n fits disj
  obtain t where t: "insert_area s (area_start a) (area_size a) = Inr (0, t)" "placement_wf t"
    "free_set t = free_set s \<union> area_range a"
  proof (cases rule: insert_area_cases)
    case (absorbed t)
    then show thesis using that blk by simp
  next
    case (overwrites t xs y ys)
    then obtain b where "b \<in> set (live s)" "unat (area_start a) < unat (area_start b)" by blast
    moreover from this have "\<not> area_end b \<le> unat (area_start a)" by (simp add: area_end_def)
    ultimately show thesis using above by blast
  qed
  have "free_set t \<subseteq> {..<Suc (unat (area_start b)) - 1}" if "b \<in> set as" for b
    using t(3) below a(3) that area_ok_less [OF a(1)] by (fastforce simp: area_range_def)
  moreover have "free_memory_area_index t + length as \<le> 10"
    using insert_area_index [OF t(1)] Cons.prems(3) by simp
  ultimately obtain s' where "insert_areas t as = Inr (0, s')" "placement_wf s'"
    "free_set s' = free_set t \<union> ranges as"
    using Cons.IH [OF t(2) a(2)] by blast
  with t show ?case by auto
qed

text \<open>A memory that holds one entry of available RAM at \<^verbatim>\<open>0x9000\<close>, for the witnesses.\<close>

definition one_entry :: "u32 \<Rightarrow> u32 \<Rightarrow> u32 \<Rightarrow> memory" where
  "one_entry step type base = (\<lambda>_. 0)(0x9000 := step, 0x9004 := base, 0x900C := 0x1000, 0x9014 := type)"

definition map_info :: multiboot_info where
  "map_info = \<lparr>mbi_flags = 0x40, mem_lower = 0, mem_upper = 0, boot_device = 0, cmdline = 0, mods_count = 0,
     mods_addr = 0, elf_sec = \<lparr>elf_num = 0, elf_size = 0, elf_addr = 0, elf_shndx = 0\<rparr>,
     mmap_length = 24, mmap_addr = 0x9000\<rparr>"

lemmas one_entry_eval = one_entry_def map_info_def load_entry_def CHECK_FLAG_def available_def entry_area_def
  available_start_def available_size_def sizeof_long_def

section \<open>Properties\<close>

text \<open>
  C25. A memory map whose available areas are non-empty, below 4 GiB, sorted and disjoint, and at most
  ten: the walk from a cleared table answers 0, and the free addresses are exactly the addresses of
  the available areas.
\<close>

theorem memory_map_frees_available_ram:
  assumes "CHECK_FLAG (mbi_flags mbi) 6" "entries_at mem (mmap_addr mbi + mmap_length mbi) (mmap_addr mbi) es"
    and "areas_ok (map entry_area (filter available es))" "length (filter available es) \<le> 10"
    and "clear_placement_memory_array s0 = Inr s" "length (free_memory_areas s0) = 10"
  shows "\<exists>s'. process_multiboot_memory_map mem s mbi = Some (Inr (0, s')) \<and> placement_wf s' \<and>
    free_set s' = ranges (map entry_area (filter available es))"
proof -
  have s: "s = table []" using clear_table [OF assms(6)] assms(5) by simp
  have "\<exists>s'. insert_areas s (map entry_area (filter available es)) = Inr (0, s') \<and> placement_wf s' \<and>
      free_set s' = free_set s \<union> ranges (map entry_area (filter available es))"
    by (rule insert_areas_sorted) (use s assms(3,4) in \<open>simp_all add: placement_wf_table\<close>)
  then show ?thesis
    using assms(1) memory_map_loop_eq [OF assms(2), of s] s
    by (auto simp: process_multiboot_memory_map_def)
qed

theorem memory_map_frees_available_ram_witness:
  "\<exists>s'. process_multiboot_memory_map (one_entry 20 1 0x100000) (table []) map_info = Some (Inr (0, s')) \<and>
    free_set s' = {0x100000..<0x101000}"
  using memory_map_frees_available_ram [of map_info "one_entry 20 1 0x100000"
      "[load_entry (one_entry 20 1 0x100000) 0x9000]" "table []" "table []"] clear_table [of "table []"]
  by (auto simp: one_entry_eval area_ok_def area_end_def area_range_def)

text \<open>
  C32. The walk over the memory map returns if none of the entries it comes to has a size field that leads
  past the end of the address space, whatever the state of the table, the other fields of the entries
  and the rest of the memory.
\<close>

theorem memory_map_walk_returns:
  assumes "\<And>a. reached mem (mmap_addr mbi + mmap_length mbi) (mmap_addr mbi) a \<Longrightarrow>
    a < mmap_addr mbi + mmap_length mbi \<Longrightarrow> unat a + unat (entry_size (load_entry mem a)) + 4 < 2 ^ 32"
  shows "\<exists>r. process_multiboot_memory_map mem s mbi = Some r"
proof -
  have "\<forall>a. reached mem (mmap_addr mbi + mmap_length mbi) (mmap_addr mbi) a \<and> a < mmap_addr mbi + mmap_length mbi
      \<longrightarrow> unat a + unat (mem a) + 4 < 2 ^ 32"
    using assms by (simp add: load_entry_def)
  from entries_exist [OF this reached.first]
  obtain es where "entries_at mem (mmap_addr mbi + mmap_length mbi) (mmap_addr mbi) es" by blast
  from memory_map_loop_eq [OF this] show ?thesis by (auto simp: process_multiboot_memory_map_def)
qed

text \<open>A map of two entries in a memory whose other words are as large as can be.\<close>

definition two_entries :: memory where
  "two_entries = (\<lambda>_. 0xFFFFFFFF)(0x9000 := 8, 0x900C := 8)"

lemma two_entries_reached: "reached two_entries 0x9018 0x9000 a \<Longrightarrow> a \<in> {0x9000, 0x900C, 0x9018}"
proof (induction rule: reached.induct)
  case (step a)
  then show ?case by (auto simp: two_entries_def)
qed simp

theorem memory_map_walk_returns_witness:
  "\<exists>r. process_multiboot_memory_map two_entries (table []) map_info = Some r"
proof (rule memory_map_walk_returns)
  fix a
  assume "reached two_entries (mmap_addr map_info + mmap_length map_info) (mmap_addr map_info) a"
    and less: "a < mmap_addr map_info + mmap_length map_info"
  then have "a = 0x9000 \<or> a = 0x900C" using two_entries_reached [of a] by (auto simp: map_info_def)
  then show "unat a + unat (entry_size (load_entry two_entries a)) + 4 < 2 ^ 32"
    by (auto simp: two_entries_def load_entry_def)
qed

text \<open>
  An entry that is not available RAM and whose size field is -4 makes the walk visit it forever:
  \<^verbatim>\<open>process_multiboot_memory_map\<close> does not return.
\<close>

theorem memory_map_walk_can_loop:
  assumes "CHECK_FLAG (mbi_flags mbi) 6" "mmap_addr mbi < mmap_addr mbi + mmap_length mbi"
    and "entry_size (load_entry mem (mmap_addr mbi)) = - 4" "entry_type (load_entry mem (mmap_addr mbi)) \<noteq> 1"
  shows "process_multiboot_memory_map mem s mbi = None"
proof -
  let ?P = "\<lambda>mem' limit mmap (s :: placement) (r :: (int \<times> placement) result).
    \<not> (mem' = mem \<and> limit = mmap_addr mbi + mmap_length mbi \<and> mmap = mmap_addr mbi)"
  have "?P mem' limit mmap s r" if "memory_map_loop mem' limit mmap s = Some r" for mem' limit mmap s r
    using _ that
  proof (rule memory_map_loop.raw_induct [of ?P], goal_cases)
    case (1 loop mem' limit mmap s r)
    then show ?case using assms(2-4) by (fastforce simp: Let_def)
  qed
  then have "memory_map_loop mem (mmap_addr mbi + mmap_length mbi) (mmap_addr mbi) s = None"
    by (metis option.exhaust)
  with assms(1) show ?thesis by (simp add: process_multiboot_memory_map_def)
qed

theorem memory_map_walk_can_loop_witness:
  "process_multiboot_memory_map (one_entry 0xFFFFFFFC 2 0) (table []) map_info = None"
  by (rule memory_map_walk_can_loop) (simp_all add: one_entry_eval)

text \<open>
  The 64-bit start of an entry is only read right where its upper half is 0: the code multiplies
  the upper half by \<^verbatim>\<open>sizeof(long)\<close> in 32 bits, so memory at 4 GiB or above is entered at an address
  below 4 GiB.
\<close>

theorem memory_map_start_only_below_4GiB:
  "unat (available_start e) = unat (base_addr_high e) * 2 ^ 32 + unat (base_addr_low e) \<longleftrightarrow> base_addr_high e = 0"
proof
  assume eq: "unat (available_start e) = unat (base_addr_high e) * 2 ^ 32 + unat (base_addr_low e)"
  have "unat (available_start e) < 2 ^ 32"
    unfolding available_start_def u32_in_u64
    using unat_bound [of "base_addr_high e * sizeof_long + base_addr_low e"] by simp
  with eq have "unat (base_addr_high e) < 1" by simp
  then show "base_addr_high e = 0" by (simp add: unat_eq_0)
next
  assume "base_addr_high e = 0"
  then show "unat (available_start e) = unat (base_addr_high e) * 2 ^ 32 + unat (base_addr_low e)"
    by (simp add: available_start_def u32_in_u64)
qed

end
