(* ===== verification/Single.thy ===== *)
theory Single
  imports Complex_Main "HOL-Library.Log_Nat" Prelude
begin

text \<open>
  The C type \<^verbatim>\<open>float\<close>: IEEE single precision. A float is the rational number it stands for, and an
  operation is the exact operation followed by rounding to the nearest number with 24 significant
  bits (and no bit below 2 to the -149), ties to the even one. Infinities and the sign of zero do not
  occur: the numbers the code computes stay below 2 to the 127, and it divides by constants only.

  The kernel is compiled for a processor that keeps intermediate results in a longer format, with the
  C99 rules (\<^verbatim>\<open>-std=c99\<close>) by which assignments and casts round to the declared type. The lemmas below
  show that the differences and quotients the printing routines do not assign to a variable are exact,
  so that the longer format makes no difference to them.

  A conversion to an integer type that cannot hold the integral part is undefined behaviour in C and
  the fault \<open>Not_representable\<close>.
\<close>

section \<open>Rounding\<close>

type_synonym single = rat

definition round_even :: "rat \<Rightarrow> int" where
  "round_even x =
     (let d = x - of_int \<lfloor>x\<rfloor> in
      if d < 1 / 2 then \<lfloor>x\<rfloor> else if 1 / 2 < d then \<lfloor>x\<rfloor> + 1
      else if even \<lfloor>x\<rfloor> then \<lfloor>x\<rfloor> else \<lfloor>x\<rfloor> + 1)"

text \<open>The exponent \<open>e\<close> of a positive number: it lies between 2 to the \<open>e\<close> and 2 to the \<open>e + 1\<close>.\<close>

definition exponent_of :: "rat \<Rightarrow> int" where
  "exponent_of x = (if 1 \<le> x then bitlen \<lfloor>x\<rfloor> - 1 else - bitlen (\<lceil>1 / x\<rceil> - 1))"

text \<open>The distance of the neighbours of a number.\<close>

definition ulp :: "rat \<Rightarrow> rat" where
  "ulp x = 2 powi max (exponent_of \<bar>x\<bar> - 23) (- 149)"

definition round_single :: "rat \<Rightarrow> single" where
  "round_single x = (if x = 0 then 0 else of_int (round_even (x / ulp x)) * ulp x)"

section \<open>Operations and conversions\<close>

definition float_of :: "int \<Rightarrow> single" where
  "float_of i = round_single (of_int i)"

definition fsub :: "single \<Rightarrow> single \<Rightarrow> single" where
  "fsub a b = round_single (a - b)"

definition fmul :: "single \<Rightarrow> single \<Rightarrow> single" where
  "fmul a b = round_single (a * b)"

definition fdiv :: "single \<Rightarrow> single \<Rightarrow> single" where
  "fdiv a b = round_single (a / b)"

text \<open>The integral part: rounding towards zero.\<close>

definition integral_part :: "single \<Rightarrow> int" where
  "integral_part x = (if 0 \<le> x then \<lfloor>x\<rfloor> else \<lceil>x\<rceil>)"

definition float_to_int :: "single \<Rightarrow> u32 result" where
  "float_to_int x =
     (let i = integral_part x in
      if - (2 ^ 31) \<le> i \<and> i < 2 ^ 31 then Inr (of_int i) else Inl Not_representable)"

definition float_to_unsigned :: "single \<Rightarrow> u32 result" where
  "float_to_unsigned x =
     (let i = integral_part x in if 0 \<le> i \<and> i < 2 ^ 32 then Inr (of_int i) else Inl Not_representable)"

section \<open>Numbers with 24 significant bits\<close>

definition is_single :: "rat \<Rightarrow> bool" where
  "is_single x \<longleftrightarrow> (\<exists>m e. x = of_int m * 2 powi e \<and> \<bar>m\<bar> \<le> 2 ^ 24 \<and> - 149 \<le> e)"

lemma is_singleI: "x = of_int m * 2 powi e \<Longrightarrow> \<bar>m\<bar> \<le> 2 ^ 24 \<Longrightarrow> - 149 \<le> e \<Longrightarrow> is_single x"
  unfolding is_single_def by blast

lemma round_even_int [simp]: "round_even (of_int i) = i"
  by (simp add: round_even_def)

lemma round_even_near: "\<bar>of_int (round_even x) - x\<bar> \<le> 1 / 2"
  unfolding round_even_def Let_def abs_le_iff by (simp add: field_simps; linarith)

lemma exponent_bounds:
  assumes "0 < x"
  shows "2 powi exponent_of x \<le> x" "x < 2 powi (exponent_of x + 1)"
proof -
  have "2 powi exponent_of x \<le> x \<and> x < 2 powi (exponent_of x + 1)"
  proof (cases "1 \<le> x")
    case True
    let ?n = "\<lfloor>x\<rfloor>"
    have n: "0 < ?n" using True by simp
    note b = bitlen_bounds [OF n]
    have len: "1 \<le> bitlen ?n" using n compute_bitlen [of ?n] bitlen_nonneg [of "?n div 2"] by simp
    have "(2 :: rat) powi (bitlen ?n - 1) = of_int (2 ^ nat (bitlen ?n - 1))"
      using len by (simp add: power_int_nonneg_exp)
    moreover have "(2 :: rat) powi bitlen ?n = of_int (2 ^ nat (bitlen ?n))"
      using len by (simp add: power_int_nonneg_exp)
    moreover have "of_int (2 ^ nat (bitlen ?n - 1)) \<le> x" using b by (simp only: le_floor_iff [symmetric])
    moreover have "x < of_int (2 ^ nat (bitlen ?n))" using b by (simp only: floor_less_iff [symmetric])
    ultimately show ?thesis using True by (simp add: exponent_of_def)
  next
    case False
    let ?n = "\<lceil>1 / x\<rceil> - 1"
    have "1 < 1 / x" using False assms by (simp add: less_divide_eq)
    then have "1 < \<lceil>1 / x\<rceil>" by (simp add: less_ceiling_iff)
    then have n: "0 < ?n" by simp
    note b = bitlen_bounds [OF n]
    have len: "1 \<le> bitlen ?n" using n compute_bitlen [of ?n] bitlen_nonneg [of "?n div 2"] by simp
    have p: "(2 :: rat) powi (bitlen ?n - 1) = of_int (2 ^ nat (bitlen ?n - 1))"
      "(2 :: rat) powi bitlen ?n = of_int (2 ^ nat (bitlen ?n))"
      using len by (simp_all add: power_int_nonneg_exp)
    have "2 ^ nat (bitlen ?n - 1) < \<lceil>1 / x\<rceil>" "\<lceil>1 / x\<rceil> \<le> 2 ^ nat (bitlen ?n)" using b by simp_all
    then have "of_int (2 ^ nat (bitlen ?n - 1)) < 1 / x" "1 / x \<le> of_int (2 ^ nat (bitlen ?n))"
      by (simp_all only: less_ceiling_iff ceiling_le_iff)
    then have "2 powi (bitlen ?n - 1) < 1 / x" "1 / x \<le> 2 powi bitlen ?n" by (simp_all only: p)
    then have "x * 2 powi (bitlen ?n - 1) < 1" "1 \<le> x * 2 powi bitlen ?n"
      using assms by (simp_all add: less_divide_eq divide_le_eq mult.commute)
    moreover have "2 powi (1 - bitlen ?n) * 2 powi (bitlen ?n - 1) = (1 :: rat)"
      "2 powi (- bitlen ?n) * 2 powi bitlen ?n = (1 :: rat)"
      by (simp_all flip: power_int_add)
    ultimately have "x * 2 powi (bitlen ?n - 1) < 2 powi (1 - bitlen ?n) * 2 powi (bitlen ?n - 1)"
      "2 powi (- bitlen ?n) * 2 powi bitlen ?n \<le> x * 2 powi bitlen ?n" by simp_all
    then have "x < 2 powi (1 - bitlen ?n)" "2 powi (- bitlen ?n) \<le> x"
      by (simp_all only: mult_less_cancel_right_pos mult_le_cancel_right_pos zero_less_power_int zero_less_numeral)
    then show ?thesis using False by (simp add: exponent_of_def)
  qed
  then show "2 powi exponent_of x \<le> x" "x < 2 powi (exponent_of x + 1)" by simp_all
qed

lemma exponent_less: "0 < x \<Longrightarrow> x < 2 powi e \<Longrightarrow> exponent_of x < e"
  using exponent_bounds(1) [of x] power_int_le_imp_less_exp [of "2 :: rat" "exponent_of x" e]
    power_int_increasing [of e "exponent_of x" "2 :: rat"] by force

lemma exponent_ge: "0 < x \<Longrightarrow> 2 powi e \<le> x \<Longrightarrow> e \<le> exponent_of x"
  using exponent_bounds(2) [of x] power_int_le_imp_less_exp [of "2 :: rat" e "exponent_of x + 1"]
    power_int_increasing [of "exponent_of x + 1" e "2 :: rat"] by force

lemma ulp_pos [simp]: "0 < ulp x"
  by (simp add: ulp_def)

lemma ulp_nonzero [simp]: "ulp x \<noteq> 0"
  using less_imp_neq [OF ulp_pos [of x]] by (rule not_sym)

lemma abs_ulp [simp]: "\<bar>ulp x\<bar> = ulp x"
  by (rule abs_of_pos) simp

lemma powi_split:
  assumes "b \<le> e"
  shows "(2 :: rat) powi e = of_int (2 ^ nat (e - b)) * 2 powi b"
proof -
  obtain n where "e = int n + b" using assms by (metis zle_iff_zadd add.commute)
  then show ?thesis by (simp add: power_int_add)
qed

lemma ulp_le:
  assumes "x \<noteq> 0" "\<bar>x\<bar> < 2 powi e" "- 125 \<le> e"
  shows "ulp x \<le> 2 powi (e - 24)"
proof -
  have "exponent_of \<bar>x\<bar> < e" using exponent_less [of "\<bar>x\<bar>" e] assms by simp
  then show ?thesis using assms(3) unfolding ulp_def by (intro power_int_increasing) auto
qed

lemma ulp_relative:
  assumes "2 powi (- 126) \<le> \<bar>x\<bar>"
  shows "ulp x \<le> \<bar>x\<bar> / 2 ^ 23"
proof -
  have "0 < (2 :: rat) powi (- 126)" by (rule zero_less_power_int) simp
  then have x: "0 < \<bar>x\<bar>" using assms by linarith
  have "- 126 \<le> exponent_of \<bar>x\<bar>" using exponent_ge [OF x assms] .
  then have "max (exponent_of \<bar>x\<bar> - 23) (- 149) = exponent_of \<bar>x\<bar> + - 23" by simp
  then have "ulp x = 2 powi (exponent_of \<bar>x\<bar> + - 23)" by (simp only: ulp_def)
  also have "\<dots> = 2 powi exponent_of \<bar>x\<bar> / 2 ^ 23"
    by (subst power_int_add) (simp_all only: divide_inverse power_int_minus power_int_numeral zero_neq_numeral [symmetric]
        not_False_eq_True simp_thms)
  also have "\<dots> \<le> \<bar>x\<bar> / 2 ^ 23" by (intro divide_right_mono exponent_bounds(1) x) simp
  finally show ?thesis .
qed

lemma round_near: "\<bar>round_single x - x\<bar> \<le> ulp x / 2"
proof (cases "x = 0")
  case False
  have "round_single x - x = (of_int (round_even (x / ulp x)) - x / ulp x) * ulp x"
    using False ulp_pos [of x] by (simp add: round_single_def left_diff_distrib)
  then have "\<bar>round_single x - x\<bar> = \<bar>of_int (round_even (x / ulp x)) - x / ulp x\<bar> * ulp x"
    by (simp add: abs_mult)
  also have "\<dots> \<le> 1 / 2 * ulp x" by (intro mult_right_mono round_even_near) (simp add: less_imp_le)
  finally show ?thesis by simp
qed (simp add: round_single_def less_imp_le)

lemma round_exact:
  assumes "is_single x"
  shows "round_single x = x"
proof (cases "x = 0")
  case False
  obtain m e where x: "x = of_int m * 2 powi e" "\<bar>m\<bar> \<le> 2 ^ 24" "- 149 \<le> e"
    using assms unfolding is_single_def by blast
  have "\<exists>i :: int. x = of_int i * ulp x"
  proof (cases "exponent_of \<bar>x\<bar> - 23 \<le> e")
    case True
    let ?u = "max (exponent_of \<bar>x\<bar> - 23) (- 149)"
    have u: "?u \<le> e" using True x(3) by simp
    have "x = of_int (m * 2 ^ nat (e - ?u)) * ulp x" using powi_split [OF u] by (simp add: x(1) ulp_def)
    then show ?thesis by blast
  next
    case far: False
    have "2 powi (e + 24) \<le> \<bar>x\<bar>"
    proof -
      have "2 powi (e + 24) \<le> (2 :: rat) powi exponent_of \<bar>x\<bar>" using far by (intro power_int_increasing) auto
      then show ?thesis using exponent_bounds(1) [of "\<bar>x\<bar>"] False by simp
    qed
    moreover have "2 powi (e + 24) = (2 ^ 24 :: rat) * 2 powi e" by (subst power_int_add) simp_all
    moreover have "\<bar>x\<bar> = of_int \<bar>m\<bar> * 2 powi e" by (simp add: x(1) abs_mult)
    ultimately have "(2 ^ 24 :: rat) * 2 powi e \<le> of_int \<bar>m\<bar> * 2 powi e" by simp
    then have "(2 ^ 24 :: rat) \<le> of_int \<bar>m\<bar>" by (simp only: mult_le_cancel_right_pos zero_less_power_int zero_less_numeral)
    then have "of_int (2 ^ 24) \<le> (of_int \<bar>m\<bar> :: rat)" by simp
    then have "2 ^ 24 \<le> \<bar>m\<bar>" by (simp only: of_int_le_iff)
    then have m: "\<bar>m\<bar> = 2 ^ 24" using x(2) by simp
    then have ax: "\<bar>x\<bar> = 2 powi (e + 24)" by (simp add: x(1) abs_mult power_int_add)
    moreover have "(2 :: rat) powi (e + 24) < 2 powi (e + 25)" by (intro power_int_strict_increasing) simp_all
    ultimately have "exponent_of \<bar>x\<bar> < e + 25" using False by (intro exponent_less) simp_all
    with far have "exponent_of \<bar>x\<bar> = e + 24" by simp
    then have "max (exponent_of \<bar>x\<bar> - 23) (- 149) = e + 1" using x(3) by simp
    then have ulp: "ulp x = 2 powi (e + 1)" by (simp only: ulp_def)
    have "of_int m = (of_int (sgn m * 2 ^ 23) * 2 :: rat)" using m by (simp add: sgn_if abs_if split: if_splits)
    then have "x = of_int (sgn m * 2 ^ 23) * ulp x" unfolding ulp by (simp add: x(1) power_int_add)
    then show ?thesis by blast
  qed
  then obtain i :: int where i: "x = of_int i * ulp x" by blast
  then have "x / ulp x = of_int i" using ulp_pos [of x] by (simp add: field_simps)
  then have "round_even (x / ulp x) = i" by simp
  then show ?thesis using False i by (simp add: round_single_def)
qed (simp add: round_single_def)

lemma is_single_int: "\<bar>i\<bar> \<le> 2 ^ 24 \<Longrightarrow> is_single (of_int i)"
  by (rule is_singleI [of _ i 0]) simp_all

lemma is_single_round: "is_single (round_single x)"
proof (cases "x = 0")
  case False
  let ?e = "max (exponent_of \<bar>x\<bar> - 23) (- 149)"
  have "\<bar>x\<bar> < 2 powi (exponent_of \<bar>x\<bar> + 1)" using False exponent_bounds(2) [of "\<bar>x\<bar>"] by simp
  also have "\<dots> \<le> 2 powi (?e + 24)" by (intro power_int_increasing) auto
  also have "\<dots> = 2 ^ 24 * ulp x" unfolding ulp_def by (subst power_int_add) simp_all
  finally have "\<bar>x / ulp x\<bar> < 2 ^ 24" by (simp add: divide_less_eq)
  moreover have "\<bar>of_int (round_even (x / ulp x)) - x / ulp x\<bar> \<le> 1 / 2" by (rule round_even_near)
  ultimately have "\<bar>of_int (round_even (x / ulp x))\<bar> < (2 ^ 24 + 1 :: rat)" by linarith
  then have "of_int \<bar>round_even (x / ulp x)\<bar> < (of_int (2 ^ 24 + 1) :: rat)" by simp
  then have "\<bar>round_even (x / ulp x)\<bar> \<le> 2 ^ 24" by (simp only: of_int_less_iff)
  then show ?thesis
    using False by (intro is_singleI [of _ "round_even (x / ulp x)" ?e]) (simp_all add: round_single_def ulp_def)
qed (simp add: round_single_def is_single_int [of 0, simplified])

lemma round_single_round [simp]: "round_single (round_single x) = round_single x"
  by (rule round_exact [OF is_single_round])

lemma round_single_0 [simp]: "round_single 0 = 0"
  by (simp add: round_single_def)

lemma round_single_nonneg: "0 \<le> x \<Longrightarrow> 0 \<le> round_single x"
proof -
  assume "0 \<le> x"
  then have "0 \<le> x / ulp x" using less_imp_le [OF ulp_pos] by (rule divide_nonneg_nonneg)
  then have "0 \<le> round_even (x / ulp x)" by (simp add: round_even_def Let_def)
  then show ?thesis using less_imp_le [OF ulp_pos [of x]] by (simp add: round_single_def)
qed

lemma round_int_exact: "\<bar>i\<bar> \<le> 2 ^ 24 \<Longrightarrow> round_single (of_int i) = of_int i"
  by (rule round_exact [OF is_single_int])

lemma float_of_small:
  assumes "m \<le> 2 ^ 24"
  shows "float_of (int m) = of_nat m" "round_single (of_nat m) = of_nat m"
  using round_int_exact [of "int m"] assms by (simp_all add: float_of_def)

text \<open>The form of a number with 24 significant bits: an integer multiple of a power of two not below 1, or a fraction.\<close>

lemma is_single_cases:
  assumes "is_single x"
  obtains (integer) m n where "x = of_int (m * 2 ^ n)" "\<bar>m\<bar> \<le> 2 ^ 24"
    | (fraction) m n where "x = of_int m / 2 ^ n" "\<bar>m\<bar> \<le> 2 ^ 24" "0 < n" "n \<le> 149"
proof -
  obtain m e where x: "x = of_int m * 2 powi e" "\<bar>m\<bar> \<le> 2 ^ 24" "- 149 \<le> e"
    using assms unfolding is_single_def by blast
  show thesis
  proof (cases "0 \<le> e")
    case True
    then have "x = of_int (m * 2 ^ nat e)" using x(1) by (simp add: power_int_nonneg_exp)
    from this x(2) show thesis by (rule integer)
  next
    case False
    then have "e = - int (nat (- e))" by simp
    then have "(2 :: rat) powi e = inverse (2 ^ nat (- e))" by (metis power_int_minus power_int_of_nat)
    then have "x = of_int m / 2 ^ nat (- e)" using x(1) by (simp add: divide_inverse)
    with x(2,3) False show thesis by (intro fraction [of m "nat (- e)"]) simp_all
  qed
qed

lemma is_single_fraction: "\<bar>m\<bar> \<le> 2 ^ 24 \<Longrightarrow> n \<le> 149 \<Longrightarrow> is_single (of_int m / 2 ^ n)"
  by (rule is_singleI [of _ m "- int n"]) (simp_all add: power_int_minus divide_inverse)

text \<open>Whole numbers divided by a power of two are exact.\<close>

lemma is_single_scale:
  assumes "is_single (of_int i)" "k \<le> 149"
  shows "is_single (of_int i / 2 ^ k)"
  using assms(1)
proof (cases rule: is_single_cases)
  case (integer m n)
  have "(2 :: rat) powi (int n - int k) = 2 ^ n / 2 ^ k" by (simp add: power_int_diff)
  then have "of_int i / 2 ^ k = of_int m * (2 :: rat) powi (int n - int k)" using integer(1) by simp
  then show ?thesis using integer(2) assms(2) by (intro is_singleI [of _ m "int n - int k"]) simp_all
next
  case (fraction m n)
  have "of_int (i * 2 ^ n) = (of_int m :: rat)" using fraction(1) by (simp add: eq_divide_eq)
  then have "m = i * 2 ^ n" by (simp only: of_int_eq_iff)
  moreover have "\<bar>i\<bar> * 1 \<le> \<bar>i\<bar> * 2 ^ n" by (intro mult_left_mono) simp_all
  ultimately have "\<bar>i\<bar> \<le> \<bar>m\<bar>" by (simp add: abs_mult)
  then show ?thesis using fraction(2) assms(2) by (intro is_single_fraction) auto
qed

text \<open>The integral part and the fraction of a float are floats.\<close>

lemma is_single_parts:
  assumes "is_single x" "0 \<le> x"
  shows "is_single (of_int \<lfloor>x\<rfloor>)" "is_single (x - of_int \<lfloor>x\<rfloor>)"
proof -
  have "is_single (of_int \<lfloor>x\<rfloor>) \<and> is_single (x - of_int \<lfloor>x\<rfloor>)"
    using assms(1)
  proof (cases rule: is_single_cases)
    case (integer m n)
    then show ?thesis using assms(1) is_single_int [of 0] by (simp only: floor_of_int diff_self) simp
  next
    case (fraction m n)
    have floor: "\<lfloor>x\<rfloor> = m div 2 ^ n"
      using floor_divide_of_int_eq [of m "2 ^ n", where ?'a = rat] fraction(1) by simp
    have "x - of_int \<lfloor>x\<rfloor> = of_int (m mod 2 ^ n) / 2 ^ n"
    proof -
      have "of_int m = (of_int (m div 2 ^ n * 2 ^ n + m mod 2 ^ n) :: rat)" by (simp only: div_mult_mod_eq)
      then have "of_int m = of_int (m div 2 ^ n) * 2 ^ n + (of_int (m mod 2 ^ n) :: rat)"
        unfolding of_int_add of_int_mult of_int_power of_int_numeral .
      then show ?thesis unfolding floor by (simp add: fraction(1) divide_diff_eq_iff)
    qed
    moreover have "0 * 2 ^ n \<le> (of_int m :: rat)" using assms(2) fraction(1) by (simp add: le_divide_eq)
    then have m: "0 \<le> m" by simp
    then have "m div 2 ^ n \<le> m" "m mod 2 ^ n \<le> m" using zdiv_mono2 [OF m, of 1 "2 ^ n"] by (simp_all add: zmod_le_nonneg_dividend)
    ultimately show ?thesis
      using m fraction(2,4) floor by (simp add: is_single_int is_single_fraction pos_imp_zdiv_nonneg_iff)
  qed
  then show "is_single (of_int \<lfloor>x\<rfloor>)" "is_single (x - of_int \<lfloor>x\<rfloor>)" by simp_all
qed

text \<open>A float below an integer keeps a distance from it.\<close>

lemma single_below:
  assumes "is_single x" "x < of_int b" "2 ^ 24 / 2 ^ Suc d \<le> (of_int b - 1 / 2 ^ d :: rat)"
  shows "x \<le> of_int b - 1 / 2 ^ d"
  using assms(1)
proof (cases rule: is_single_cases)
  case (integer m n)
  then have "m * 2 ^ n < b" using assms(2) by (simp only: of_int_less_iff)
  then have "m * 2 ^ n \<le> b - 1" by simp
  then have "x \<le> of_int (b - 1)" unfolding integer(1) of_int_le_iff .
  moreover have "1 / 2 ^ d \<le> (1 :: rat)" by simp
  ultimately show ?thesis unfolding of_int_diff of_int_1 by linarith
next
  case (fraction m n)
  have two: "(0 :: rat) < 2 ^ n" by simp
  show ?thesis
  proof (cases "n \<le> d")
    case True
    have "of_int m < (of_int b * 2 ^ n :: rat)" using assms(2) two unfolding fraction(1) by (simp only: divide_less_eq if_True)
    then have "of_int m < (of_int (b * 2 ^ n) :: rat)" by simp
    then have "m \<le> b * 2 ^ n - 1" by (simp only: of_int_less_iff)
    then have "of_int m \<le> (of_int (b * 2 ^ n - 1) :: rat)" by (simp only: of_int_le_iff)
    then have "x \<le> of_int (b * 2 ^ n - 1) / 2 ^ n" unfolding fraction(1) by (intro divide_right_mono) simp_all
    also have "\<dots> = of_int b - 1 / 2 ^ n" by (simp add: diff_divide_distrib)
    also have "\<dots> \<le> of_int b - 1 / 2 ^ d" using True by (simp add: divide_left_mono power_increasing)
    finally show ?thesis .
  next
    case False
    have "of_int m \<le> (of_int (2 ^ 24) :: rat)" using fraction(2) by (simp only: of_int_le_iff abs_le_iff)
    then have "x \<le> 2 ^ 24 / 2 ^ n" unfolding fraction(1) by (intro divide_right_mono) simp_all
    also have "\<dots> \<le> 2 ^ 24 / 2 ^ Suc d" using False by (intro divide_left_mono power_increasing) simp_all
    finally show ?thesis using assms(3) by simp
  qed
qed

text \<open>The float of an integer is an integer.\<close>

lemma float_of_integer:
  assumes "\<bar>i\<bar> < 2 ^ 126"
  obtains j where "float_of i = of_int j"
proof (cases "\<bar>i\<bar> \<le> 2 ^ 24")
  case True
  then show thesis using that [of i] by (simp add: float_of_def round_int_exact)
next
  case False
  let ?x = "of_int i :: rat"
  have "of_int (2 ^ 24) \<le> (of_int \<bar>i\<bar> :: rat)" using False by (simp only: of_int_le_iff not_le less_imp_le)
  then have x: "2 powi 24 \<le> \<bar>?x\<bar>" by simp
  then have pos: "0 < \<bar>?x\<bar>" by simp
  have e: "24 \<le> exponent_of \<bar>?x\<bar>" by (rule exponent_ge [OF pos x])
  then have "max (exponent_of \<bar>?x\<bar> - 23) (- 149) = int (nat (exponent_of \<bar>?x\<bar> - 23))" by simp
  then have "ulp ?x = 2 powi int (nat (exponent_of \<bar>?x\<bar> - 23))" by (simp only: ulp_def)
  then have "ulp ?x = of_int (2 ^ nat (exponent_of \<bar>?x\<bar> - 23))"
    unfolding power_int_of_nat of_int_power of_int_numeral .
  then have "float_of i = of_int (round_even (?x / ulp ?x) * 2 ^ nat (exponent_of \<bar>?x\<bar> - 23))"
    using pos by (simp add: float_of_def round_single_def)
  then show thesis by (rule that)
qed

lemma float_of_bound:
  assumes "0 \<le> i" "i < 2 ^ k" "k \<le> 126"
  shows "0 \<le> float_of i" "float_of i < 2 ^ Suc k"
proof -
  let ?x = "of_int i :: rat"
  show "0 \<le> float_of i" using assms(1) by (simp add: float_of_def round_single_nonneg)
  show "float_of i < 2 ^ Suc k"
  proof (cases "i = 0")
    case False
    have "?x < of_int (2 ^ k)" using assms(2) by (simp only: of_int_less_iff)
    then have less: "?x < 2 ^ k" by simp
    then have x: "\<bar>?x\<bar> < 2 powi int k" using assms(1) by simp
    have "ulp ?x \<le> 2 powi (int k - 24)" by (rule ulp_le [OF _ x]) (use False in simp_all)
    also have "\<dots> \<le> 2 powi int k" by (intro power_int_increasing) simp_all
    finally have "ulp ?x \<le> 2 ^ k" by simp
    moreover have "round_single ?x - ?x \<le> ulp ?x / 2" using round_near [of ?x] unfolding abs_le_iff by simp
    moreover have "(0 :: rat) < 2 ^ k" by simp
    ultimately show ?thesis using less unfolding float_of_def power_Suc by linarith
  qed (simp add: float_of_def)
qed

end
