(* ===== verification/Sort.thy ===== *)
theory Sort
  imports Prelude "HOL-Library.Multiset"
begin

text \<open>
  \<^verbatim>\<open>sort.c\<close>: bubble sort and quicksort over an array that is only accessed by a comparator and a swap
  callback, and the callbacks for arrays of \<^verbatim>\<open>int\<close>.

  The array is a list of its elements. The comparator gets elements by their address, \<^verbatim>\<open>data + element_size * i\<close>
  with a product of 32 bits that may wrap (\<open>element\<close>); the swap callback gets indices. The callbacks are
  arguments, as in C. \<open>quicksort_internal\<close> recurses on a range that includes the
  pivot, so it is a partial function whose termination is a theorem. Indices are natural numbers, the
  last index of a range is an integer (it is -1 for the empty array): \<^verbatim>\<open>element_count - 1\<close> converted
  to \<^verbatim>\<open>int\<close>. The routines sort arrays of at most 2 to the 32 bytes.

  The contract of the callbacks is the locale \<open>sort_callbacks\<close>; both routines are verified in it, and
  the callbacks for \<^verbatim>\<open>int\<close> are its interpretation.
\<close>

section \<open>The routines\<close>

text \<open>
  The element at the address \<^verbatim>\<open>data + element_size * i\<close>. An address that is not the start of an element
  is a fault.
\<close>

definition element :: "'a list \<Rightarrow> u32 \<Rightarrow> nat \<Rightarrow> 'a result" where
  "element data element_size i =
     (let offset = element_size * of_nat i in
      if offset mod element_size = 0 then rd data (unat (offset div element_size)) else Inl Misaligned)"

function bubble_inner ::
    "('a \<Rightarrow> 'a \<Rightarrow> int) \<Rightarrow> ('a list \<Rightarrow> nat \<Rightarrow> nat \<Rightarrow> 'a list result) \<Rightarrow> 'a list \<Rightarrow> u32 \<Rightarrow> nat \<Rightarrow> nat \<Rightarrow> 'a list result" where
  "bubble_inner comparator swap data element_size i n =
     (if i < n - 1 then
        and_then (element data element_size i) (\<lambda>a.
        and_then (element data element_size (i + 1)) (\<lambda>b.
        and_then (if 0 < comparator a b then swap data i (i + 1) else Inr data) (\<lambda>data'.
        bubble_inner comparator swap data' element_size (Suc i) n)))
      else Inr data)"
  by pat_completeness auto
termination by (relation "measure (\<lambda>(comparator, swap, data, element_size, i, n). n - 1 - i)") auto

function bubble_outer ::
    "('a \<Rightarrow> 'a \<Rightarrow> int) \<Rightarrow> ('a list \<Rightarrow> nat \<Rightarrow> nat \<Rightarrow> 'a list result) \<Rightarrow> 'a list \<Rightarrow> u32 \<Rightarrow> nat \<Rightarrow> 'a list result" where
  "bubble_outer comparator swap data element_size n =
     (if 1 < n then
        and_then (bubble_inner comparator swap data element_size 0 n) (\<lambda>data'.
        bubble_outer comparator swap data' element_size (n - 1))
      else Inr data)"
  by pat_completeness auto
termination by (relation "measure (\<lambda>(comparator, swap, data, element_size, n). n)") auto

declare bubble_inner.simps [simp del] bubble_outer.simps [simp del]

definition bubblesort ::
    "('a \<Rightarrow> 'a \<Rightarrow> int) \<Rightarrow> ('a list \<Rightarrow> nat \<Rightarrow> nat \<Rightarrow> 'a list result) \<Rightarrow> 'a list \<Rightarrow> u32 \<Rightarrow> u32 \<Rightarrow> 'a list result" where
  "bubblesort comparator swap data element_count element_size =
     bubble_outer comparator swap data element_size (unat element_count)"

text \<open>The loop \<^verbatim>\<open>while (++ptr_idx <= last)\<close> of the partition.\<close>

function partition_loop ::
    "('a \<Rightarrow> 'a \<Rightarrow> int) \<Rightarrow> ('a list \<Rightarrow> nat \<Rightarrow> nat \<Rightarrow> 'a list result) \<Rightarrow>
      'a list \<Rightarrow> u32 \<Rightarrow> nat \<Rightarrow> nat \<Rightarrow> nat \<Rightarrow> nat \<Rightarrow> ('a list \<times> nat) result" where
  "partition_loop comparator swap data element_size first ptr_idx split_index last_idx =
     (if ptr_idx + 1 \<le> last_idx then
        and_then (element data element_size (ptr_idx + 1)) (\<lambda>a.
        and_then (element data element_size first) (\<lambda>pivot.
        if comparator a pivot < 0 then
          and_then (swap data (ptr_idx + 1) split_index) (\<lambda>data'.
          partition_loop comparator swap data' element_size first (ptr_idx + 1) (split_index + 1) last_idx)
        else partition_loop comparator swap data element_size first (ptr_idx + 1) split_index last_idx))
      else Inr (data, split_index))"
  by pat_completeness auto
termination
  by (relation "measure (\<lambda>(comparator, swap, data, element_size, first, ptr_idx, split_index, last_idx). last_idx - ptr_idx)") auto

declare partition_loop.simps [simp del]

partial_function (option) quicksort_internal ::
    "('a \<Rightarrow> 'a \<Rightarrow> int) \<Rightarrow> ('a list \<Rightarrow> nat \<Rightarrow> nat \<Rightarrow> 'a list result) \<Rightarrow>
      'a list \<Rightarrow> u32 \<Rightarrow> nat \<Rightarrow> int \<Rightarrow> 'a list result option" where
  "quicksort_internal comparator swap data element_size first last_idx =
     (if last_idx - int first < 1 then Some (Inr data)
      else
        case and_then (partition_loop comparator swap data element_size first first (first + 1) (nat last_idx)) (\<lambda>ds.
             and_then (swap (fst ds) first (snd ds - 1)) (\<lambda>data'. Inr (data', snd ds))) of
          Inl e \<Rightarrow> Some (Inl e)
        | Inr ds \<Rightarrow>
            Option.bind (quicksort_internal comparator swap (fst ds) element_size first (int (snd ds) - 1)) (\<lambda>r.
            case r of
              Inl e \<Rightarrow> Some (Inl e)
            | Inr data'' \<Rightarrow> quicksort_internal comparator swap data'' element_size (snd ds) last_idx))"

definition quicksort ::
    "('a \<Rightarrow> 'a \<Rightarrow> int) \<Rightarrow> ('a list \<Rightarrow> nat \<Rightarrow> nat \<Rightarrow> 'a list result) \<Rightarrow>
      'a list \<Rightarrow> u32 \<Rightarrow> u32 \<Rightarrow> 'a list result option" where
  "quicksort comparator swap data element_count element_size =
     quicksort_internal comparator swap data element_size 0 (sint (element_count - 1))"

text \<open>The callbacks for arrays of \<^verbatim>\<open>int\<close>.\<close>

definition int_comparator :: "u32 \<Rightarrow> u32 \<Rightarrow> int" where
  "int_comparator lhs rhs = (if sint lhs < sint rhs then - 1 else if sint rhs < sint lhs then 1 else 0)"

definition int_swap :: "u32 list \<Rightarrow> nat \<Rightarrow> nat \<Rightarrow> u32 list result" where
  "int_swap data i j =
     (if i < 0 \<or> j < 0 then Inr data
      else
        and_then (rd data i) (\<lambda>temp.
        and_then (rd data j) (\<lambda>b.
        and_then (wr data i b) (\<lambda>data'.
        wr data' j temp))))"

section \<open>The contract of the callbacks\<close>

text \<open>One pass of bubble sort over \<open>x # ys\<close>: the larger of the two elements moves on.\<close>

fun bubble :: "('a \<Rightarrow> 'a \<Rightarrow> int) \<Rightarrow> 'a \<Rightarrow> 'a list \<Rightarrow> 'a list" where
  "bubble comparator x [] = [x]"
| "bubble comparator x (y # ys) =
     (if 0 < comparator x y then y # bubble comparator x ys else x # bubble comparator y ys)"

lemma length_bubble [simp]: "length (bubble comparator x ys) = Suc (length ys)"
  by (induction ys arbitrary: x) auto

lemma mset_bubble [simp]: "mset (bubble comparator x ys) = add_mset x (mset ys)"
  by (induction ys arbitrary: x) auto

lemma set_bubble [simp]: "set (bubble comparator x ys) = insert x (set ys)"
  using mset_eq_setD [of "bubble comparator x ys" "x # ys"] by simp

definition sorted_by :: "('a \<Rightarrow> 'a \<Rightarrow> int) \<Rightarrow> 'a list \<Rightarrow> bool" where
  "sorted_by comparator = sorted_wrt (\<lambda>a b. comparator a b \<le> 0)"

lemma sorted_by_append:
  "sorted_by cmp (xs @ ys) \<longleftrightarrow> sorted_by cmp xs \<and> sorted_by cmp ys \<and> (\<forall>x \<in> set xs. \<forall>y \<in> set ys. cmp x y \<le> 0)"
  by (simp add: sorted_by_def sorted_wrt_append)

lemma sorted_by_Cons:
  "sorted_by cmp (x # xs) \<longleftrightarrow> (\<forall>y \<in> set xs. cmp x y \<le> 0) \<and> sorted_by cmp xs"
  by (simp add: sorted_by_def)

lemma sorted_by_short: "length xs \<le> 1 \<Longrightarrow> sorted_by cmp xs"
  by (cases xs) (auto simp: sorted_by_def)

lemma swap_in_list:
  "(xs @ a # ys @ b # zs)[length xs := b, Suc (length xs + length ys) := a] = xs @ b # ys @ a # zs"
  by (simp add: list_update_append)

lemma last_index: "n < 2 ^ 31 \<Longrightarrow> sint (of_nat n - 1 :: u32) = int n - 1"
proof -
  assume n: "n < 2 ^ 31"
  have "(of_nat n - 1 :: u32) = word_of_int (int n - 1)" by simp
  also have "sint \<dots> = int n - 1" unfolding signed_of_int using n by (simp add: signed_take_bit_int_eq_self)
  finally show ?thesis .
qed

locale sort_callbacks =
  fixes comparator :: "'a \<Rightarrow> 'a \<Rightarrow> int"
    and swap :: "'a list \<Rightarrow> nat \<Rightarrow> nat \<Rightarrow> 'a list result"
    and element_size :: u32
  assumes size_nonzero: "element_size \<noteq> 0"
    and swap_in: "i < length xs \<Longrightarrow> j < length xs \<Longrightarrow> swap xs i j = Inr (xs[i := xs ! j, j := xs ! i])"
    and comparator_flip: "0 < comparator a b \<longleftrightarrow> comparator b a < 0"
    and comparator_trans: "comparator a b \<le> 0 \<Longrightarrow> comparator b c \<le> 0 \<Longrightarrow> comparator a c \<le> 0"
begin

text \<open>No address of an element wraps.\<close>

definition fits :: "nat \<Rightarrow> bool" where
  "fits n \<longleftrightarrow> unat element_size * n \<le> 2 ^ 32"

lemma element_in:
  assumes "fits (length data)" "i < length data"
  shows "element data element_size i = Inr (data ! i)"
proof -
  let ?n = "unat element_size"
  have n: "0 < ?n" using size_nonzero by (simp add: unat_gt_0)
  have "?n * i < ?n * length data" using assms(2) n by simp
  then have small: "?n * i < 2 ^ 32" using assms(1) unfolding fits_def by (rule less_le_trans)
  moreover have "i \<le> ?n * i" using n by simp
  ultimately have "i < 2 ^ 32" by (rule le_less_trans [rotated])
  then have i: "unat (of_nat i :: u32) = i" by (simp add: unat_of_nat take_bit_nat_eq_self)
  have offset: "unat (element_size * of_nat i) = ?n * i"
    using small by (simp add: unat_word_ariths(2) i)
  have "unat (element_size * of_nat i mod element_size) = 0" by (simp only: unat_mod offset) simp
  then have "element_size * of_nat i mod element_size = 0" by (simp only: unat_eq_0)
  moreover have "unat (element_size * of_nat i div element_size) = i" using n by (simp only: unat_div offset) simp
  ultimately show ?thesis using assms(2) unfolding element_def Let_def by simp
qed

lemma comparator_refl: "comparator a a \<le> 0"
  using comparator_flip [of a a] by auto

lemma comparator_total: "\<not> comparator a b \<le> 0 \<Longrightarrow> comparator b a \<le> 0"
  using comparator_flip [of a b] by auto

lemma swap_elements:
  "swap (xs @ a # ys @ b # zs) (length xs) (Suc (length xs + length ys)) = Inr (xs @ b # ys @ a # zs)"
  using swap_in_list [of xs a ys b zs] by (simp add: swap_in nth_append)

lemma swap_elements_back:
  "swap (xs @ a # ys @ b # zs) (Suc (length xs + length ys)) (length xs) = Inr (xs @ b # ys @ a # zs)"
  using swap_in_list [of xs a ys b zs] by (simp add: swap_in nth_append list_update_swap)

lemma swap_same: "i < length xs \<Longrightarrow> swap xs i i = Inr xs"
  by (simp add: swap_in)

subsection \<open>Bubble sort\<close>

lemma bubble_inner_eq:
  assumes "fits (length (pre @ x # ys @ zs))"
  shows "bubble_inner comparator swap (pre @ x # ys @ zs) element_size (length pre) (Suc (length pre + length ys)) =
    Inr (pre @ bubble comparator x ys @ zs)"
  using assms
proof (induction ys arbitrary: pre x)
  case Nil
  then show ?case by (subst bubble_inner.simps) simp
next
  case (Cons y ys)
  have swap: "swap (pre @ x # y # ys @ zs) (length pre) (Suc (length pre)) = Inr (pre @ y # x # ys @ zs)"
    using swap_elements [of pre x "[]" y "ys @ zs"] by simp
  have read: "element (pre @ x # y # ys @ zs) element_size (length pre) = Inr x"
    "element (pre @ x # y # ys @ zs) element_size (Suc (length pre)) = Inr y"
    using element_in [OF Cons.prems, of "length pre"] element_in [OF Cons.prems, of "Suc (length pre)"]
    by (simp_all add: nth_append)
  show ?case
    using swap read Cons.IH [of "pre @ [x]" y] Cons.IH [of "pre @ [y]" x] Cons.prems
    by (subst bubble_inner.simps) simp
qed

lemma bubble_max: "\<forall>e \<in> set (x # ys). comparator e (last (bubble comparator x ys)) \<le> 0"
proof (induction ys arbitrary: x)
  case Nil
  then show ?case by (simp add: comparator_refl)
next
  case (Cons y ys)
  have ne: "bubble comparator u ys \<noteq> []" for u by (metis length_bubble list.size(3) nat.distinct(1))
  show ?case
  proof (cases "0 < comparator x y")
    case True
    then have "comparator y x \<le> 0" using comparator_flip [of x y] by simp
    then have "comparator y (last (bubble comparator x ys)) \<le> 0"
      using Cons.IH [of x] comparator_trans [of y x] by simp
    then show ?thesis using True Cons.IH [of x] ne by simp
  next
    case False
    then have "comparator x y \<le> 0" by simp
    then have "comparator x (last (bubble comparator y ys)) \<le> 0"
      using Cons.IH [of y] comparator_trans [of x y] by simp
    then show ?thesis using False Cons.IH [of y] ne by simp
  qed
qed

lemma bubble_outer_sorts:
  assumes "sorted_by comparator zs" "\<forall>x \<in> set xs. \<forall>z \<in> set zs. comparator x z \<le> 0"
    and "fits (length (xs @ zs))"
  shows "\<exists>ys. bubble_outer comparator swap (xs @ zs) element_size (length xs) = Inr ys \<and>
    sorted_by comparator ys \<and> mset ys = mset xs + mset zs"
  using assms
proof (induction "length xs" arbitrary: xs zs)
  case 0
  then show ?case by (subst bubble_outer.simps) simp
next
  case (Suc n)
  then obtain x ys where xs: "xs = x # ys" "n = length ys" by (cases xs) auto
  show ?case
  proof (cases "ys = []")
    case True
    with xs Suc.prems show ?thesis by (subst bubble_outer.simps) (simp add: sorted_by_Cons)
  next
    case False
    let ?b = "bubble comparator x ys"
    obtain us m where b: "?b = us @ [m]" by (metis length_bubble list.size(3) nat.distinct(1) rev_exhaust)
    have len: "length us = n" using arg_cong [OF b, of length] xs by simp
    have mset: "mset xs = add_mset m (mset us)" using arg_cong [OF b, of mset] xs by simp
    have set: "set xs = insert m (set us)" using mset_eq_setD [of xs "m # us"] mset by simp
    have max: "\<forall>e \<in> set us. comparator e m \<le> 0" using bubble_max [of x ys] b xs set by (metis insertCI last_snoc list.set(2))
    have "bubble_inner comparator swap (xs @ zs) element_size 0 (Suc n) = Inr (us @ m # zs)"
      using bubble_inner_eq [of "[]" x ys zs] xs b Suc.prems(3) by simp
    then have "bubble_outer comparator swap (xs @ zs) element_size (length xs) =
        bubble_outer comparator swap (us @ m # zs) element_size n"
      using False xs by (subst bubble_outer.simps) simp
    moreover have "sorted_by comparator (m # zs)" "\<forall>u \<in> set us. \<forall>z \<in> set (m # zs). comparator u z \<le> 0"
      using Suc.prems set max by (auto simp: sorted_by_Cons)
    moreover have "fits (length (us @ m # zs))" using Suc.prems(3) xs len by simp
    moreover from Suc.hyps(1) [OF len [symmetric] calculation(2-4)]
    obtain ys where "bubble_outer comparator swap (us @ m # zs) element_size (length us) = Inr ys"
      "sorted_by comparator ys" "mset ys = mset us + mset (m # zs)" by blast
    ultimately show ?thesis using len mset by simp
  qed
qed

lemma bubblesort_sorts:
  assumes "length xs < 2 ^ 31" "fits (length xs)"
  shows "\<exists>ys. bubblesort comparator swap xs (of_nat (length xs)) element_size = Inr ys \<and> sorted_by comparator ys \<and>
    mset ys = mset xs"
  using bubble_outer_sorts [of "[]" xs] assms
  by (simp add: bubblesort_def sorted_by_def unat_of_nat)

subsection \<open>Quicksort\<close>

text \<open>
  The partition of a range \<open>p # ys\<close>: the elements below the pivot \<open>p\<close> are moved in front of the
  others (\<open>L\<close> and \<open>G\<close> below); \<open>ptr_idx\<close> is the last element looked at.
\<close>

lemma partition_loop_eq:
  assumes "\<forall>a \<in> set L. comparator a p < 0" "\<forall>a \<in> set G. \<not> comparator a p < 0"
    and "fits (length (pre @ p # L @ G @ R @ post))"
  shows "\<exists>L' G'. partition_loop comparator swap (pre @ p # L @ G @ R @ post) element_size (length pre)
        (length pre + length L + length G) (Suc (length pre + length L))
        (length pre + length L + length G + length R) =
      Inr (pre @ p # L' @ G' @ post, Suc (length pre + length L')) \<and>
    (\<forall>a \<in> set L'. comparator a p < 0) \<and> (\<forall>a \<in> set G'. \<not> comparator a p < 0) \<and>
    mset L' + mset G' = mset L + mset G + mset R"
  using assms
proof (induction R arbitrary: L G)
  case Nil
  then show ?case by (subst partition_loop.simps) auto
next
  case (Cons x R)
  let ?data = "pre @ p # L @ G @ (x # R) @ post"
  have "?data ! Suc (length pre + length L + length G) = x" "?data ! length pre = p"
    using nth_append_length [of "pre @ p # L @ G" x "R @ post"] by (simp_all add: nth_append)
  then have read: "element ?data element_size (Suc (length pre + length L + length G)) = Inr x"
    "element ?data element_size (length pre) = Inr p"
    using element_in [OF Cons.prems(3), of "Suc (length pre + length L + length G)"]
      element_in [OF Cons.prems(3), of "length pre"] by simp_all
  show ?case
  proof (cases "comparator x p < 0")
    case False
    from Cons.IH [of L "G @ [x]"] Cons.prems False obtain L' G' where
      "partition_loop comparator swap (pre @ p # L @ (G @ [x]) @ R @ post) element_size (length pre)
        (length pre + length L + length (G @ [x])) (Suc (length pre + length L))
        (length pre + length L + length (G @ [x]) + length R) =
        Inr (pre @ p # L' @ G' @ post, Suc (length pre + length L'))"
      "\<forall>a \<in> set L'. comparator a p < 0" "\<forall>a \<in> set G'. \<not> comparator a p < 0"
      "mset L' + mset G' = mset L + mset (G @ [x]) + mset R" by auto
    with read False show ?thesis
      by (intro exI [of _ L'] exI [of _ G']) (subst partition_loop.simps, simp)
  next
    case True
    obtain H where H: "swap ?data (Suc (length pre + length L + length G)) (Suc (length pre + length L)) =
        Inr (pre @ p # (L @ [x]) @ H @ R @ post)" "mset H = mset G" "length H = length G"
    proof (cases G)
      case Nil
      then show thesis using that [of "[]"] by (simp add: swap_same)
    next
      case (Cons g gs)
      then show thesis
        using that [of "gs @ [g]"] swap_elements_back [of "pre @ p # L" g gs x "R @ post"]
        by (simp add: add.assoc)
    qed
    have setH: "set H = set G" using mset_eq_setD [OF H(2)] .
    from Cons.IH [of "L @ [x]" H] Cons.prems True setH H(3) obtain L' G' where
      "partition_loop comparator swap (pre @ p # (L @ [x]) @ H @ R @ post) element_size (length pre)
        (length pre + length (L @ [x]) + length G) (Suc (length pre + length (L @ [x])))
        (length pre + length (L @ [x]) + length G + length R) =
        Inr (pre @ p # L' @ G' @ post, Suc (length pre + length L'))"
      "\<forall>a \<in> set L'. comparator a p < 0" "\<forall>a \<in> set G'. \<not> comparator a p < 0"
      "mset L' + mset G' = mset (L @ [x]) + mset H + mset R" by auto
    with read True H(1,2) show ?thesis
      by (intro exI [of _ L'] exI [of _ G']) (subst partition_loop.simps, simp)
  qed
qed

text \<open>One step: partition, put the pivot behind the smaller elements, and sort the two ranges.\<close>

lemma quicksort_step:
  assumes "ys \<noteq> []" "fits (length (pre @ (p # ys) @ post))"
  obtains B G where "quicksort_internal comparator swap (pre @ (p # ys) @ post) element_size (length pre) (int (length pre + length ys)) =
      Option.bind (quicksort_internal comparator swap (pre @ B @ [p] @ G @ post) element_size (length pre) (int (length pre + length B)))
        (\<lambda>r. case r of Inl e \<Rightarrow> Some (Inl e)
          | Inr data \<Rightarrow> quicksort_internal comparator swap data element_size (Suc (length pre + length B))
              (int (length pre + length ys)))"
    "\<forall>a \<in> set B. comparator a p < 0" "\<forall>a \<in> set G. \<not> comparator a p < 0"
    "mset ys = mset B + mset G"
proof -
  from partition_loop_eq [of "[]" p "[]" pre ys post] obtain L G where part:
    "partition_loop comparator swap (pre @ (p # ys) @ post) element_size (length pre) (length pre) (Suc (length pre))
        (length pre + length ys) = Inr (pre @ p # L @ G @ post, Suc (length pre + length L))"
    and L: "\<forall>a \<in> set L. comparator a p < 0" and G: "\<forall>a \<in> set G. \<not> comparator a p < 0"
    and mset: "mset ys = mset L + mset G" using assms(2) by auto
  obtain B where B: "swap (pre @ p # L @ G @ post) (length pre) (length pre + length L) =
      Inr (pre @ B @ [p] @ G @ post)" "mset B = mset L"
  proof (cases L rule: rev_cases)
    case Nil
    then show thesis using that [of "[]"] by (simp add: swap_same)
  next
    case (snoc us l)
    then show thesis
      using that [of "l # us"] swap_elements [of pre p us l "G @ post"] by (simp add: add.assoc)
  qed
  have len: "length B = length L" using B(2) by (rule mset_eq_length)
  have "0 < length ys" using assms by simp
  then have range: "\<not> int (length pre + length ys) - int (length pre) < 1"
    "nat (int (length pre + length ys)) = length pre + length ys" by linarith+
  have "quicksort_internal comparator swap (pre @ (p # ys) @ post) element_size (length pre) (int (length pre + length ys)) =
      Option.bind (quicksort_internal comparator swap (pre @ B @ [p] @ G @ post) element_size (length pre) (int (length pre + length B)))
        (\<lambda>r. case r of Inl e \<Rightarrow> Some (Inl e)
          | Inr data \<Rightarrow> quicksort_internal comparator swap data element_size (Suc (length pre + length B))
              (int (length pre + length ys)))"
    using range part B(1) len
    by (subst quicksort_internal.simps) (simp del: of_nat_add)
  moreover have "\<forall>a \<in> set B. comparator a p < 0" using L mset_eq_setD [OF B(2)] by simp
  ultimately show thesis using that G mset B(2) by simp
qed

definition sorts :: "'a list \<Rightarrow> bool" where
  "sorts seg \<longleftrightarrow> (\<forall>pre post. fits (length (pre @ seg @ post)) \<longrightarrow> (\<exists>seg'.
     quicksort_internal comparator swap (pre @ seg @ post) element_size (length pre) (int (length pre + length seg) - 1) =
       Some (Inr (pre @ seg' @ post)) \<and> sorted_by comparator seg' \<and> mset seg' = mset seg))"

lemma sorts_short: "length seg \<le> 1 \<Longrightarrow> sorts seg"
  unfolding sorts_def by (subst quicksort_internal.simps) (auto simp: sorted_by_short)

lemma sorts_step:
  assumes "ys \<noteq> []"
    and parts: "\<And>B G. mset ys = mset B + mset G \<Longrightarrow> \<forall>a \<in> set B. comparator a p < 0 \<Longrightarrow>
      \<forall>a \<in> set G. \<not> comparator a p < 0 \<Longrightarrow> sorts (B @ [p]) \<and> sorts G"
  shows "sorts (p # ys)"
  unfolding sorts_def
proof (intro allI impI)
  fix pre post
  assume fits: "fits (length (pre @ (p # ys) @ post))"
  from quicksort_step [OF assms(1) fits] obtain B G where step:
    "quicksort_internal comparator swap (pre @ (p # ys) @ post) element_size (length pre) (int (length pre + length ys)) =
      Option.bind (quicksort_internal comparator swap (pre @ B @ [p] @ G @ post) element_size (length pre) (int (length pre + length B)))
        (\<lambda>r. case r of Inl e \<Rightarrow> Some (Inl e)
          | Inr data \<Rightarrow> quicksort_internal comparator swap data element_size (Suc (length pre + length B))
              (int (length pre + length ys)))"
    and B: "\<forall>a \<in> set B. comparator a p < 0" and G: "\<forall>a \<in> set G. \<not> comparator a p < 0"
    and mset: "mset ys = mset B + mset G" .
  have sorts: "sorts (B @ [p])" "sorts G" using parts [OF mset B G] by auto
  have "length ys = length B + length G" using mset_eq_length [of ys "B @ G"] mset by simp
  then have "fits (length (pre @ (B @ [p]) @ G @ post))" using fits by (simp add: ac_simps)
  from sorts(1) [unfolded sorts_def, rule_format, OF this] obtain B' where left:
    "quicksort_internal comparator swap (pre @ B @ [p] @ G @ post) element_size (length pre) (int (length pre + length B)) =
      Some (Inr (pre @ B' @ G @ post))" "sorted_by comparator B'" "mset B' = add_mset p (mset B)" by auto
  have len: "length B' = Suc (length B)" "length ys = length B + length G"
    using mset_eq_length [of B' "p # B"] left(3) mset_eq_length [of ys "B @ G"] mset by simp_all
  have "fits (length ((pre @ B') @ G @ post))" using fits len by (simp add: ac_simps)
  from sorts(2) [unfolded sorts_def, rule_format, OF this] obtain G' where right:
    "quicksort_internal comparator swap (pre @ B' @ G @ post) element_size (Suc (length pre + length B))
      (int (length pre + length ys)) = Some (Inr (pre @ B' @ G' @ post))"
    "sorted_by comparator G'" "mset G' = mset G" using len by (auto simp: algebra_simps)
  have set: "set B' = insert p (set B)" "set G' = set G"
    using mset_eq_setD [of B' "p # B"] mset_eq_setD [of G' G] left(3) right(3) by simp_all
  have "comparator a b \<le> 0" if "a \<in> set B'" "b \<in> set G'" for a b
  proof -
    have "comparator a p \<le> 0" using that(1) set(1) B comparator_refl by (auto intro: less_imp_le)
    moreover have "comparator p b \<le> 0" using that(2) set(2) G comparator_flip [of p b] by auto
    ultimately show ?thesis by (rule comparator_trans)
  qed
  with left right mset step show "\<exists>seg'. quicksort_internal comparator swap (pre @ (p # ys) @ post) element_size (length pre)
      (int (length pre + length (p # ys)) - 1) = Some (Inr (pre @ seg' @ post)) \<and>
      sorted_by comparator seg' \<and> mset seg' = mset (p # ys)"
    by (intro exI [of _ "B' @ G'"]) (simp add: sorted_by_append)
qed

text \<open>
  The range of the left recursion includes the pivot. It is not shorter exactly where the pivot is
  larger than all other elements; the first element of the next range is then not the largest.
\<close>

lemma sorts_unless_maximum:
  assumes "\<And>seg. length seg < length (p # ys) \<Longrightarrow> sorts seg" "a \<in> set ys" "\<not> comparator a p < 0"
  shows "sorts (p # ys)"
proof (rule sorts_step)
  show "ys \<noteq> []" using assms(2) by auto
  fix B G
  assume mset: "mset ys = mset B + mset G" and B: "\<forall>a \<in> set B. comparator a p < 0"
  have "a \<in> set B \<union> set G" using mset_eq_setD [of ys "B @ G"] mset assms(2) by simp
  with B assms(3) have "G \<noteq> []" by auto
  then have "0 < length G" by simp
  moreover have "length ys = length B + length G" using mset_eq_length [of ys "B @ G"] mset by simp
  ultimately show "sorts (B @ [p]) \<and> sorts G" using assms(1) by simp
qed

lemma sorts_all: "sorts seg"
proof (induction "length seg" arbitrary: seg rule: less_induct)
  case less
  show ?case
  proof (cases "length seg \<le> 1")
    case True
    then show ?thesis by (rule sorts_short)
  next
    case False
    then obtain p ys where seg: "seg = p # ys" "ys \<noteq> []" by (cases seg) auto
    have shorter: "sorts seg'" if "length seg' < length (p # ys)" for seg'
      using less [of seg'] that seg by simp
    show ?thesis
    proof (cases "\<exists>a \<in> set ys. \<not> comparator a p < 0")
      case True
      with seg show ?thesis using sorts_unless_maximum [OF shorter] by auto
    next
      case max: False
      have "sorts (p # ys)"
      proof (rule sorts_step [OF seg(2)])
        fix B G
        assume mset: "mset ys = mset B + mset G" and B: "\<forall>a \<in> set B. comparator a p < 0"
          and "\<forall>a \<in> set G. \<not> comparator a p < 0"
        then have G: "G = []" using max mset_eq_setD [of ys "B @ G"] by (cases G) auto
        with mset seg(2) obtain b us where bs: "B = b # us" by (cases B) auto
        have "length ys = length B" using mset_eq_length [of ys B] mset G by simp
        moreover have "\<not> comparator p b < 0" using B bs comparator_flip [of p b] by auto
        ultimately have "sorts (b # (us @ [p]))"
          using bs by (intro sorts_unless_maximum [of b "us @ [p]" p] shorter) simp_all
        with bs G show "sorts (B @ [p]) \<and> sorts G" by (simp add: sorts_short)
      qed
      with seg show ?thesis by simp
    qed
  qed
qed

lemma quicksort_sorts:
  assumes "length xs < 2 ^ 31" "fits (length xs)"
  shows "\<exists>ys. quicksort comparator swap xs (of_nat (length xs)) element_size = Some (Inr ys) \<and>
    sorted_by comparator ys \<and> mset ys = mset xs"
  using sorts_all [of xs, unfolded sorts_def, rule_format, of "[]" "[]"] last_index [OF assms(1)] assms(2)
  by (simp add: quicksort_def)

end

section \<open>Arrays of \<^verbatim>\<open>int\<close>\<close>

interpretation ints: sort_callbacks int_comparator int_swap 4
proof
  show "(4 :: u32) \<noteq> 0" by simp
next
  fix i j and xs :: "u32 list"
  assume "i < length xs" "j < length xs"
  then show "int_swap xs i j = Inr (xs[i := xs ! j, j := xs ! i])" by (simp add: int_swap_def)
next
  fix a b c :: u32
  show "0 < int_comparator a b \<longleftrightarrow> int_comparator b a < 0" by (auto simp: int_comparator_def)
  show "int_comparator a b \<le> 0 \<Longrightarrow> int_comparator b c \<le> 0 \<Longrightarrow> int_comparator a c \<le> 0"
    by (auto simp: int_comparator_def split: if_splits)
qed

lemma int_fits: "ints.fits n \<longleftrightarrow> n \<le> 2 ^ 30"
  by (auto simp: ints.fits_def)

lemma sorted_by_int: "sorted_by int_comparator xs \<longleftrightarrow> sorted (map sint xs)"
  unfolding sorted_by_def sorted_map
  by (intro iffI; elim sorted_wrt_mono_rel [rotated]) (auto simp: int_comparator_def split: if_splits)

lemma sorted_ints_unique:
  assumes "sorted (map sint xs)" "sorted (map sint ys)" "mset xs = mset (ys :: u32 list)"
  shows "xs = ys"
proof -
  have "mset (map sint xs) = mset (map sint ys)" using assms(3) by simp
  then have "map sint xs = map sint ys"
    using assms(1,2) properties_for_sort [of "map sint xs" "map sint ys"] by (simp add: sorted_sort_id)
  then show ?thesis by (rule map_injective) (auto intro: injI signed_word_eqI)
qed

section \<open>Properties\<close>

text \<open>
  C28. Quicksort on an array of at most 2 to the 30 \<^verbatim>\<open>int\<close> (4 GiB): it returns for every array (although
  a range that is sorted next includes the pivot), accesses only the array, and leaves it sorted and
  with the same elements.
\<close>

theorem quicksort_sorts_ints:
  assumes "length xs \<le> 2 ^ 30"
  shows "\<exists>ys. quicksort int_comparator int_swap xs (of_nat (length xs)) 4 = Some (Inr ys) \<and>
    sorted (map sint ys) \<and> mset ys = mset xs"
  using ints.quicksort_sorts [of xs] assms by (simp add: sorted_by_int int_fits)

theorem quicksort_sorts_ints_witness:
  "\<exists>ys. quicksort int_comparator int_swap [3, -1, 2] 3 4 = Some (Inr ys) \<and>
    sorted (map sint ys) \<and> mset ys = mset [3, -1, 2]"
  using quicksort_sorts_ints [of "[3, -1, 2]"] by simp

text \<open>
  C33. Bubble sort and quicksort compute the same array from one of at most 2 to the 30 \<^verbatim>\<open>int\<close>: the
  rearrangement of the elements in ascending order.
\<close>

theorem bubblesort_agrees_with_quicksort:
  assumes "length xs \<le> 2 ^ 30"
  shows "quicksort int_comparator int_swap xs (of_nat (length xs)) 4 =
      Some (bubblesort int_comparator int_swap xs (of_nat (length xs)) 4) \<and>
    (\<exists>ys. bubblesort int_comparator int_swap xs (of_nat (length xs)) 4 = Inr ys \<and>
      sorted (map sint ys) \<and> mset ys = mset xs)"
proof -
  have bounds: "length xs < 2 ^ 31" "ints.fits (length xs)" using assms by (simp_all add: int_fits)
  obtain ys where "quicksort int_comparator int_swap xs (of_nat (length xs)) 4 = Some (Inr ys)"
    "sorted (map sint ys)" "mset ys = mset xs"
    using ints.quicksort_sorts [OF bounds] by (auto simp: sorted_by_int)
  moreover obtain zs where "bubblesort int_comparator int_swap xs (of_nat (length xs)) 4 = Inr zs"
    "sorted (map sint zs)" "mset zs = mset xs"
    using ints.bubblesort_sorts [OF bounds] by (auto simp: sorted_by_int)
  ultimately show ?thesis using sorted_ints_unique [of ys zs] by simp
qed

theorem bubblesort_agrees_with_quicksort_witness:
  "quicksort int_comparator int_swap [2, 1, -7, 1] 4 4 = Some (bubblesort int_comparator int_swap [2, 1, -7, 1] 4 4)"
  using bubblesort_agrees_with_quicksort [of "[2, 1, -7, 1]"] by simp

text \<open>
  From 2 to the 30 elements on, the offset of an \<^verbatim>\<open>int\<close> wraps: the comparator gets the element at the
  beginning of the array instead.
\<close>

theorem int_offset_wraps: "element xs 4 (2 ^ 30 + i) = element xs 4 i"
proof -
  have "(4 :: u32) * of_nat (2 ^ 30 + i) = 4 * of_nat i"
    by (simp add: distrib_left)
  then show ?thesis by (simp only: element_def)
qed

end
