(* ===== verification/Random_Numbers.thy ===== *)
theory Random_Numbers
  imports Prelude
begin

text \<open>
  \<^verbatim>\<open>random.c\<close>: the linear congruential generator. \<^verbatim>\<open>unsigned long\<close> is a word of the target's length
  (32 bits in the kernel, 64 bits in the hosted tests), so the routine is defined over any word type;
  the modulus \<^verbatim>\<open>0x100000000\<close> is converted to it.

  The inline assembler of the other routines uses two instructions whose results the processor chooses:
  \<^verbatim>\<open>cpuid\<close> (its \<^verbatim>\<open>ecx\<close> for the values of \<^verbatim>\<open>eax\<close> and \<^verbatim>\<open>ecx\<close>) and \<^verbatim>\<open>rdrand\<close> (a sequence of values; the code
  does not look at the carry flag that says whether a value is random). They are the record \<open>processor\<close>.
\<close>

section \<open>The generator\<close>

definition retrieve_pseudo_random :: "u32 \<Rightarrow> 'w::len word result" where
  "retrieve_pseudo_random x0 =
     (let m = 0x100000000; a = 1103515245; c = 12345 in
      if m = 0 then Inl Division_by_zero else Inr ((a * scast x0 + c) mod m))"

section \<open>The instructions of the processor\<close>

record processor =
  cpuid_ecx :: "u32 \<Rightarrow> u32 \<Rightarrow> u32"
  random_values :: "nat \<Rightarrow> u32"
  draws :: nat

definition retrieve_rdrand :: "processor \<Rightarrow> u32 \<times> processor" where
  "retrieve_rdrand p = (random_values p (draws p), p\<lparr>draws := draws p + 1\<rparr>)"

definition is_rdrand_available :: "processor \<Rightarrow> u32" where
  "is_rdrand_available p = drop_bit 0x1E (cpuid_ecx p 1 0) AND 1"

text \<open>\<^verbatim>\<open>leal (%1,%1,4), %0\<close> adds a number and four times that number.\<close>

definition asmtest :: "message list" where
  "asmtest =
     (let x = 5; five_times_x = x + x * 4 in
      [(''x = %d'' @ [CHR 0x0A], [x]), (''five_times_x = %d'' @ [CHR 0x0A], [five_times_x])])"

section \<open>Helper lemmas\<close>

lemma lcg_injective: "1103515245 * x + 12345 = 1103515245 * y + (12345 :: u32) \<Longrightarrow> x = y"
proof -
  assume "1103515245 * x + 12345 = 1103515245 * y + (12345 :: u32)"
  then have "4005161829 * (1103515245 * x) = 4005161829 * (1103515245 * y)" by simp
  then have "(4005161829 * 1103515245) * x = (4005161829 * 1103515245) * y" by (simp only: mult.assoc)
  moreover have "(4005161829 * 1103515245 :: u32) = 1" by (simp add: word_eq_unat)
  ultimately show ?thesis by (simp only: mult_1)
qed

lemma lcg_low_bits:
  "take_bit 32 (1103515245 * signed_take_bit 31 x + 12345 :: int) = take_bit 32 (1103515245 * x + 12345)"
proof -
  have "signed_take_bit 31 x mod 2 ^ 32 = (x :: int) mod 2 ^ 32"
    using take_bit_signed_take_bit [of 32 31 x] by (simp add: take_bit_eq_mod)
  then show ?thesis
    unfolding take_bit_eq_mod by (intro mod_add_cong mod_mult_cong refl)
qed

lemma lcg_64:
  "take_bit 32 (1103515245 * scast (x :: u32) + 12345 :: u64) = ucast (1103515245 * x + 12345 :: u32)"
  by transfer (simp add: lcg_low_bits)

lemma retrieve_64: "retrieve_pseudo_random x = (Inr (ucast (1103515245 * x + 12345)) :: u64 result)"
  using lcg_64 [of x] by (simp add: retrieve_pseudo_random_def Let_def take_bit_eq_mod)

section \<open>Properties\<close>

text \<open>
  On the 32-bit target the modulus is converted to 0, and every call divides by zero. With 64-bit
  longs the result is the 32-bit generator \<open>1103515245 * x + 12345\<close>, and different seeds give
  different numbers.
\<close>

theorem retrieve_pseudo_random_needs_64_bit:
  "(retrieve_pseudo_random x :: u32 result) = Inl Division_by_zero \<and>
   (retrieve_pseudo_random x :: u64 result) = Inr (ucast (1103515245 * x + 12345)) \<and>
   ((retrieve_pseudo_random x :: u64 result) = retrieve_pseudo_random y \<longleftrightarrow> x = y)"
proof -
  have "(ucast a :: u64) = ucast b \<longleftrightarrow> a = b" for a b :: u32
    using u32_in_u64 [of a] u32_in_u64 [of b] by (metis word_eq_unat)
  moreover have "(0x100000000 :: u32) = 0" by simp
  then have "(retrieve_pseudo_random x :: u32 result) = Inl Division_by_zero"
    by (simp only: retrieve_pseudo_random_def Let_def if_True refl)
  ultimately show ?thesis using lcg_injective [of x y] unfolding retrieve_64 sum.inject by blast
qed

end
