(* ===== verification/Shuffle.thy ===== *)
theory Shuffle
  imports Single Sort Random_Numbers
begin

text \<open>
  \<^verbatim>\<open>shuffle\<close> of \<^verbatim>\<open>sort.c\<close>: pairs of pseudo random numbers are turned into pairs of indices by floating point
  operations, and the swap callback is called with them.

  The generator computes with the words of the target, so the routines take the type of that word (its
  length is 32 bits in the kernel and 64 bits in the hosted tests). With 64-bit words the processor
  rounds every operation on floats to single precision; with 32-bit words no index is computed at all,
  because the generator divides by zero.
\<close>

section \<open>The routine\<close>

definition next_random :: "'w::len itself \<Rightarrow> u32 \<Rightarrow> u32 result" where
  "next_random w x0 = and_then (retrieve_pseudo_random x0 :: 'w word result) (\<lambda>r. Inr (ucast r))"

definition USIGNED_INT_MAX :: u32 where
  "USIGNED_INT_MAX = 0xFFFFFFFF"

definition random_index :: "u32 \<Rightarrow> u32 \<Rightarrow> u32 result" where
  "random_index random_int element_count =
     (let random_uniform = fdiv (float_of (uint random_int)) (float_of (uint USIGNED_INT_MAX)) in
      float_to_unsigned (fmul random_uniform (float_of (sint element_count))))"

function shuffle_loop ::
    "'w::len itself \<Rightarrow> ('a list \<Rightarrow> nat \<Rightarrow> nat \<Rightarrow> 'a list result) \<Rightarrow> int \<Rightarrow> u32 \<Rightarrow> int \<Rightarrow> u32 \<Rightarrow> 'a list \<Rightarrow> 'a list result" where
  "shuffle_loop w swap shuffle_count element_count i x0 data =
     (if i < shuffle_count then
        and_then (next_random w x0) (\<lambda>first_random_int.
        and_then (next_random w first_random_int) (\<lambda>second_random_int.
        and_then (random_index first_random_int element_count) (\<lambda>first_index.
        and_then (random_index second_random_int element_count) (\<lambda>second_index.
        and_then (swap data (unat first_index) (unat second_index)) (\<lambda>data'.
        shuffle_loop w swap shuffle_count element_count (i + 1) second_random_int data')))))
      else Inr data)"
  by pat_completeness auto
termination
  by (relation "measure (\<lambda>(w, swap, shuffle_count, element_count, i, x0, data). nat (shuffle_count - i))") auto

declare shuffle_loop.simps [simp del]

definition shuffle ::
    "'w::len itself \<Rightarrow> u32 \<Rightarrow> 'a list \<Rightarrow> u32 \<Rightarrow> ('a list \<Rightarrow> nat \<Rightarrow> nat \<Rightarrow> 'a list result) \<Rightarrow> processor \<Rightarrow>
      (int \<times> 'a list \<times> processor) result" where
  "shuffle w shuffle_count data element_count swap p =
     (if is_rdrand_available p = 0 then Inr (0, data, p)
      else
        let (seed, p') = retrieve_rdrand p in
        and_then (next_random w seed) (\<lambda>x0.
        and_then (shuffle_loop w swap (sint shuffle_count) element_count 0 x0 data) (\<lambda>data'.
        Inr (1, data', p'))))"

section \<open>The indices\<close>

lemma large_exponent:
  assumes "2 ^ 31 \<le> n" "n < 2 ^ 32"
  shows "ulp (of_nat n) = 256"
proof -
  let ?x = "of_nat n :: rat"
  have "of_nat (2 ^ 31) \<le> ?x" "?x < of_nat (2 ^ 32)" using assms by (simp_all only: of_nat_le_iff of_nat_less_iff)
  then have b: "2 powi 31 \<le> ?x" "?x < 2 powi 32" by simp_all
  then have pos: "0 < ?x" by simp
  have "exponent_of ?x = 31" using exponent_ge [OF pos b(1)] exponent_less [OF pos b(2)] by simp
  then show ?thesis using pos by (simp add: ulp_def)
qed

lemma round_even_up: "\<lfloor>y\<rfloor> = m \<Longrightarrow> odd m \<Longrightarrow> of_int m + 1 / 2 \<le> y \<Longrightarrow> round_even y = m + 1"
  by (auto simp: round_even_def Let_def)

lemma float_of_nat:
  assumes "n < 2 ^ 32"
  shows "2 ^ 32 - 128 \<le> n \<Longrightarrow> float_of (int n) = 2 ^ 32"
    and "n < 2 ^ 32 - 128 \<Longrightarrow> float_of (int n) \<le> 2 ^ 32 - 256"
proof -
  let ?x = "of_nat n :: rat"
  {
    assume "2 ^ 32 - 128 \<le> n"
    moreover from this have "ulp ?x = 256" by (intro large_exponent assms) simp
    ultimately have u: "ulp ?x = 256" "2 ^ 24 - 1 / 2 \<le> ?x / 256" "?x / 256 < 2 ^ 24" using assms by simp_all
    from u(2,3) have "\<lfloor>?x / 256\<rfloor> = 2 ^ 24 - 1" by (simp add: floor_eq_iff)
    from round_even_up [OF this] u(2) have "round_even (?x / 256) = 2 ^ 24" by simp
    moreover have "?x \<noteq> 0" using u(2) by auto
    ultimately show "float_of (int n) = 2 ^ 32" using u(1) by (simp add: float_of_def round_single_def)
  }
  {
    assume small: "n < 2 ^ 32 - 128"
    show "float_of (int n) \<le> 2 ^ 32 - 256"
    proof (cases "n < 2 ^ 31")
      case True
      then have x: "\<bar>?x\<bar> < 2 powi 31" by simp
      show ?thesis
      proof (cases "?x = 0")
        case False
        from ulp_le [OF this x] have "ulp ?x \<le> 128" by simp
        moreover have "round_single ?x - ?x \<le> ulp ?x / 2" using round_near [of ?x] unfolding abs_le_iff by simp
        ultimately show ?thesis using x unfolding float_of_def by simp
      qed (simp add: float_of_def)
    next
      case False
      then have u: "ulp ?x = 256" by (intro large_exponent assms) simp
      have "?x / 256 < 2 ^ 24 - 1 / 2" using small by simp
      moreover have "of_int (round_even (?x / 256)) \<le> ?x / 256 + 1 / 2"
        using round_even_near [of "?x / 256"] unfolding abs_le_iff by simp
      ultimately have "of_int (round_even (?x / 256)) < (of_int (2 ^ 24) :: rat)" by simp
      then have "round_even (?x / 256) \<le> 2 ^ 24 - 1" by (simp only: of_int_less_iff)
      then have "of_int (round_even (?x / 256)) \<le> (of_int (2 ^ 24 - 1) :: rat)" by (simp only: of_int_le_iff)
      with u show ?thesis by (simp add: float_of_def round_single_def)
    qed
  }
qed

lemma random_index_eq:
  assumes "unat n \<le> 2 ^ 24"
  shows "random_index x n = float_to_unsigned (round_single (float_of (int (unat x)) / 2 ^ 32 * of_nat (unat n)))"
proof -
  have "float_of (uint USIGNED_INT_MAX) = 2 ^ 32"
    using float_of_nat(1) [of 4294967295] by (simp add: USIGNED_INT_MAX_def)
  moreover have small: "\<bar>int m\<bar> < 2 ^ 126" if "m < 2 ^ 32" for m :: nat using that by simp
  have "unat x < 2 ^ 32" using unat_bound [of x] by simp
  from small [OF this] obtain j where j: "float_of (int (unat x)) = of_int j" by (rule float_of_integer)
  have "is_single (float_of (int (unat x)))" by (simp add: float_of_def is_single_round)
  then have "is_single (float_of (int (unat x)) / 2 ^ 32)" unfolding j by (rule is_single_scale) simp
  moreover have "signed_take_bit 31 (int m) = int m" if "m \<le> 2 ^ 24" for m :: nat
    using that by (intro signed_take_bit_int_eq_self) simp_all
  from this [OF assms] have "sint n = int (unat n)" unfolding sint_uint by simp
  moreover note float_of_small(1) [OF assms]
  ultimately show ?thesis
    by (simp only: random_index_def Let_def fdiv_def fmul_def uint_nat round_exact)
qed

lemma float_to_unsigned_eq:
  assumes "0 \<le> p" "p < 2 ^ 32"
  obtains i where "float_to_unsigned p = Inr i" "unat i = nat \<lfloor>p\<rfloor>"
proof -
  have p: "0 \<le> \<lfloor>p\<rfloor>" "\<lfloor>p\<rfloor> < 2 ^ 32" using assms by (simp_all add: floor_less_iff)
  then have "float_to_unsigned p = Inr (of_int \<lfloor>p\<rfloor>)"
    using assms(1) by (simp add: float_to_unsigned_def integral_part_def)
  moreover have "unat (of_int \<lfloor>p\<rfloor> :: u32) = nat \<lfloor>p\<rfloor>"
    using p unfolding unat_eq_nat_uint uint_word_of_int_eq by (simp add: take_bit_int_eq_self)
  ultimately show thesis by (rule that)
qed

text \<open>A factor below 1 keeps a distance from 1 that the rounding of the product does not bridge.\<close>

lemma below_by_rounding:
  fixes r v n :: rat
  shows "r \<le> v + v / 2 ^ 24 \<Longrightarrow> v \<le> (1 - 1 / 2 ^ 24) * n \<Longrightarrow> 1 \<le> n \<Longrightarrow> r < n"
  by simp

lemma product_below:
  assumes "0 \<le> f" "f \<le> 2 ^ 32 - 256" "f = of_int j" "0 < n"
  shows "round_single (f / 2 ^ 32 * of_nat n) < of_nat n"
proof (cases "j = 0")
  case True
  then show ?thesis using assms(3,4) by simp
next
  case False
  let ?v = "f / 2 ^ 32 * of_nat n"
  have j: "1 \<le> j" using False assms(1,3) by simp
  then have "1 \<le> f" unfolding assms(3) by simp
  moreover have n: "1 \<le> (of_nat n :: rat)" using assms(4) by simp
  ultimately have "1 / 2 ^ 32 * 1 \<le> ?v" by (intro mult_mono divide_right_mono) simp_all
  moreover have "(2 :: rat) powi (- 126) \<le> 1 / 2 ^ 32 * 1" by (simp add: power_int_minus)
  ultimately have "2 powi (- 126) \<le> ?v" by (rule order_trans [rotated])
  moreover have "0 \<le> ?v" using assms(1) by simp
  ultimately have "2 powi (- 126) \<le> \<bar>?v\<bar>" by (simp only: abs_of_nonneg)
  from ulp_relative [OF this] have "ulp ?v \<le> ?v / 2 ^ 23" using \<open>0 \<le> ?v\<close> by (simp only: abs_of_nonneg)
  moreover have "round_single ?v - ?v \<le> ulp ?v / 2" using round_near [of ?v] unfolding abs_le_iff by simp
  ultimately have "round_single ?v \<le> ?v + ?v / 2 ^ 24" by simp
  moreover have "f / 2 ^ 32 \<le> 1 - 1 / 2 ^ 24" using assms(2) by simp
  then have "?v \<le> (1 - 1 / 2 ^ 24) * of_nat n" by (intro mult_right_mono) simp_all
  ultimately show ?thesis using n by (rule below_by_rounding)
qed

lemma random_index_bounds:
  assumes "n \<noteq> 0" "unat n \<le> 2 ^ 24"
  obtains i where "random_index x n = Inr i" "unat i \<le> unat n" "unat i < unat n \<longleftrightarrow> unat x < 2 ^ 32 - 128"
proof -
  let ?f = "float_of (int (unat x))"
  let ?p = "round_single (?f / 2 ^ 32 * of_nat (unat n))"
  have x: "unat x < 2 ^ 32" using unat_bound [of x] by simp
  have n: "0 < unat n" using assms(1) by (rule unat_pos)
  have "0 \<le> int m \<and> int m < 2 ^ 32 \<and> \<bar>int m\<bar> < 2 ^ 126" if "m < 2 ^ 32" for m :: nat using that by simp
  from this [OF x] have m: "0 \<le> int (unat x)" "int (unat x) < 2 ^ 32" "\<bar>int (unat x)\<bar> < 2 ^ 126" by blast+
  obtain j where j: "?f = of_int j" by (rule float_of_integer [OF m(3)])
  have f: "0 \<le> ?f" by (rule float_of_bound(1) [OF m(1,2)]) simp
  have p: "0 \<le> ?p" by (intro round_single_nonneg mult_nonneg_nonneg divide_nonneg_nonneg f of_nat_0_le_iff) simp
  have cases: "?p = of_nat (unat n) \<and> \<not> unat x < 2 ^ 32 - 128 \<or> ?p < of_nat (unat n) \<and> unat x < 2 ^ 32 - 128"
  proof (cases "unat x < 2 ^ 32 - 128")
    case True
    from product_below [OF f float_of_nat(2) [OF x True] j n] True show ?thesis by blast
  next
    case False
    then have "?f = 2 ^ 32" using float_of_nat(1) [OF x] by (simp only: not_less)
    then have "?f / 2 ^ 32 * of_nat (unat n) = of_nat (unat n)" by simp
    then have "?p = of_nat (unat n)" using float_of_small(2) [OF assms(2)] by (simp only:)
    with False show ?thesis by blast
  qed
  have "(of_nat (unat n) :: rat) \<le> of_nat (2 ^ 24)" using assms(2) by (simp only: of_nat_le_iff)
  with cases have "?p < 2 ^ 32" by (auto simp del: of_nat_unat)
  from float_to_unsigned_eq [OF p this] obtain i where i: "random_index x n = Inr i" "unat i = nat \<lfloor>?p\<rfloor>"
    unfolding random_index_eq [OF assms(2)] .
  have below: "nat \<lfloor>q\<rfloor> < m" if "q < of_nat m" "0 < m" for q :: rat and m
  proof -
    have "\<lfloor>q\<rfloor> < int m" using that(1) by (simp add: floor_less_iff)
    then show ?thesis using that(2) by linarith
  qed
  from cases show thesis
  proof
    assume "?p = of_nat (unat n) \<and> \<not> unat x < 2 ^ 32 - 128"
    then have "unat i = unat n" "\<not> unat x < 2 ^ 32 - 128" unfolding i(2) by (simp_all only: floor_of_nat nat_int not_False_eq_True)
    then show thesis using that [OF i(1)] by (simp only: less_irrefl order_refl)
  next
    assume "?p < of_nat (unat n) \<and> unat x < 2 ^ 32 - 128"
    then have "unat i < unat n" "unat x < 2 ^ 32 - 128" unfolding i(2) by (intro below n, blast+)
    then show thesis using that [OF i(1)] by (simp only: less_imp_le)
  qed
qed

section \<open>The shuffled array\<close>

text \<open>The pseudo random numbers that a run of \<open>k\<close> rounds turns into indices.\<close>

fun used_randoms :: "u32 \<Rightarrow> nat \<Rightarrow> u32 list" where
  "used_randoms x0 0 = []"
| "used_randoms x0 (Suc k) =
     (let a = 1103515245 * x0 + 12345; b = 1103515245 * a + 12345 in a # b # used_randoms b k)"

lemma ucast_u64_u32: "ucast (ucast (y :: u32) :: u64) = y"
  by transfer simp

lemma next_random_64: "next_random TYPE(64) x = Inr (1103515245 * x + 12345)"
  unfolding next_random_def retrieve_64 and_then_Inr ucast_u64_u32 ..

lemma int_swap_permutes:
  assumes "i < length data" "j < length data"
  obtains data' where "int_swap data i j = Inr data'" "mset data' = mset data" "length data' = length data"
proof -
  have "int_swap data i j = Inr (data[i := data ! j, j := data ! i])"
    using assms by (simp add: int_swap_def)
  then show thesis by (rule that [OF _ mset_swap [OF assms(2,1)]]) simp
qed

lemma int_swap_outside: "\<not> i < length data \<or> \<not> j < length data \<Longrightarrow> int_swap data i j = Inl Out_of_bounds"
  by (auto simp: int_swap_def rd_def and_then_def)

lemma shuffle_loop_result:
  assumes "length data = unat n" "n \<noteq> 0" "unat n \<le> 2 ^ 24" "0 \<le> i"
  shows "if \<forall>r \<in> set (used_randoms x0 (nat (rounds - i))). unat r < 2 ^ 32 - 128
    then \<exists>data'. shuffle_loop TYPE(64) int_swap rounds n i x0 data = Inr data' \<and> mset data' = mset data
    else shuffle_loop TYPE(64) int_swap rounds n i x0 data = Inl Out_of_bounds"
  using assms(1,4)
proof (induction "nat (rounds - i)" arbitrary: i x0 data)
  case 0
  then have "shuffle_loop TYPE(64) int_swap rounds n i x0 data = Inr data" by (subst shuffle_loop.simps) simp
  then show ?case using 0 by simp
next
  case (Suc k)
  let ?a = "1103515245 * x0 + 12345 :: u32"
  let ?b = "1103515245 * ?a + 12345 :: u32"
  have i: "i < rounds" "k = nat (rounds - (i + 1))" using Suc.hyps(2) by linarith+
  obtain ia where ia: "random_index ?a n = Inr ia" "unat ia < unat n \<longleftrightarrow> unat ?a < 2 ^ 32 - 128"
    by (rule random_index_bounds [OF assms(2,3)])
  obtain ib where ib: "random_index ?b n = Inr ib" "unat ib < unat n \<longleftrightarrow> unat ?b < 2 ^ 32 - 128"
    by (rule random_index_bounds [OF assms(2,3)])
  have used: "used_randoms x0 (nat (rounds - i)) = ?a # ?b # used_randoms ?b k"
    unfolding Suc.hyps(2) [symmetric] by (simp only: used_randoms.simps Let_def)
  have step: "shuffle_loop TYPE(64) int_swap rounds n i x0 data =
      and_then (int_swap data (unat ia) (unat ib)) (shuffle_loop TYPE(64) int_swap rounds n (i + 1) ?b)"
    using i(1) by (subst shuffle_loop.simps) (simp only: next_random_64 ia(1) ib(1) and_then_Inr if_True)
  show ?case
  proof (cases "unat ?a < 2 ^ 32 - 128 \<and> unat ?b < 2 ^ 32 - 128")
    case True
    then have "unat ia < length data" "unat ib < length data" using ia(2) ib(2) Suc.prems(1) by (simp_all only:)
    then obtain data' where d: "int_swap data (unat ia) (unat ib) = Inr data'" "mset data' = mset data"
      "length data' = length data" by (rule int_swap_permutes)
    have "length data' = unat n" "0 \<le> i + 1" using d(3) Suc.prems by simp_all
    from Suc.hyps(1) [OF i(2) this, of ?b] True show ?thesis
      unfolding step used d(1) d(2) [symmetric] and_then_Inr i(2) [symmetric] by (simp only: list.set ball_simps simp_thms)
  next
    case False
    then have "\<not> unat ia < length data \<or> \<not> unat ib < length data" using ia(2) ib(2) Suc.prems(1) by (simp only:) blast
    from int_swap_outside [OF this]
    have "shuffle_loop TYPE(64) int_swap rounds n i x0 data = Inl Out_of_bounds"
      unfolding step by (simp only: and_then_Inl)
    moreover have "\<not> (\<forall>r \<in> set (used_randoms x0 (nat (rounds - i))). unat r < 2 ^ 32 - 128)"
      unfolding used list.set ball_simps using False by blast
    ultimately show ?thesis by (simp only: if_False simp_thms)
  qed
qed

lemma next_random_32: "next_random TYPE(32) x = Inl Division_by_zero"
proof -
  have "(0x100000000 :: u32) = 0" by simp
  then show ?thesis by (simp only: next_random_def retrieve_pseudo_random_def Let_def if_True refl and_then_Inl)
qed

section \<open>Properties\<close>

text \<open>
  C26. Bounds of the indices of \<^verbatim>\<open>shuffle\<close>: for an array of 1 to 2 to the 24 elements a pseudo random number
  becomes an index of at most the number of elements, and the index is inside of the array exactly for
  the numbers below 2 to the 32 minus 128; the quotient of the 128 largest ones is rounded up to 1.
\<close>

theorem random_index_inside:
  assumes "n \<noteq> 0" "unat n \<le> 2 ^ 24"
  shows "\<exists>i. random_index x n = Inr i \<and> unat i \<le> unat n \<and> (unat i < unat n \<longleftrightarrow> unat x < 2 ^ 32 - 128)"
  using random_index_bounds [OF assms, of x] by blast

theorem random_index_inside_witness:
  "\<exists>i. random_index 0xFFFFFF7F 30 = Inr i \<and> unat i < 30"
proof -
  have "unat (30 :: u32) = 30" "unat (0xFFFFFF7F :: u32) < 2 ^ 32 - 128" by simp_all
  then show ?thesis using random_index_inside [of 30 "0xFFFFFF7F"] by auto
qed

text \<open>
  C27. \<^verbatim>\<open>shuffle\<close> of an array of 1 to 2 to the 24 ints. Without the random generator of the processor it answers 0
  and leaves the array alone. With it and with 64-bit words it rearranges the array and answers 1 if all
  the numbers it uses are below 2 to the 32 minus 128, and accesses the element behind the array
  otherwise. With the 32-bit words of the kernel it divides by zero.
\<close>

theorem shuffle_permutes:
  assumes "length data = unat n" "n \<noteq> 0" "unat n \<le> 2 ^ 24"
    and "x0 = 1103515245 * random_values p (draws p) + 12345"
  shows "(is_rdrand_available p = 0 \<longrightarrow> shuffle w rounds data n int_swap p = Inr (0, data, p)) \<and>
    (is_rdrand_available p \<noteq> 0 \<longrightarrow>
      shuffle TYPE(32) rounds data n int_swap p = Inl Division_by_zero \<and>
      (if \<forall>r \<in> set (used_randoms x0 (nat (sint rounds))). unat r < 2 ^ 32 - 128
       then \<exists>data'. shuffle TYPE(64) rounds data n int_swap p = Inr (1, data', p\<lparr>draws := draws p + 1\<rparr>) \<and>
         mset data' = mset data
       else shuffle TYPE(64) rounds data n int_swap p = Inl Out_of_bounds))"
proof (intro conjI impI)
  let ?used = "used_randoms x0 (nat (sint rounds))"
  assume available: "is_rdrand_available p \<noteq> 0"
  then show "shuffle TYPE(32) rounds data n int_swap p = Inl Division_by_zero"
    by (simp add: shuffle_def retrieve_rdrand_def next_random_32)
  have run: "shuffle TYPE(64) rounds data n int_swap p =
      and_then (shuffle_loop TYPE(64) int_swap (sint rounds) n 0 x0 data)
        (\<lambda>data'. Inr (1, data', p\<lparr>draws := draws p + 1\<rparr>))"
    using available by (simp add: shuffle_def retrieve_rdrand_def next_random_64 assms(4))
  have "if \<forall>r \<in> set ?used. unat r < 2 ^ 32 - 128
    then \<exists>data'. shuffle_loop TYPE(64) int_swap (sint rounds) n 0 x0 data = Inr data' \<and> mset data' = mset data
    else shuffle_loop TYPE(64) int_swap (sint rounds) n 0 x0 data = Inl Out_of_bounds"
    using shuffle_loop_result [OF assms(1-3), of 0] by simp
  then show "if \<forall>r \<in> set ?used. unat r < 2 ^ 32 - 128
    then \<exists>data'. shuffle TYPE(64) rounds data n int_swap p = Inr (1, data', p\<lparr>draws := draws p + 1\<rparr>) \<and>
      mset data' = mset data
    else shuffle TYPE(64) rounds data n int_swap p = Inl Out_of_bounds"
    unfolding run by (auto split: if_splits)
qed (simp add: shuffle_def)

theorem shuffle_permutes_witness:
  "\<exists>data'. shuffle TYPE(64) 2 [10, 20, 30] 3 int_swap
      \<lparr>cpuid_ecx = \<lambda>_ _. 0xFFFFFFFF, random_values = \<lambda>_. 7, draws = 0\<rparr> =
    Inr (1, data', \<lparr>cpuid_ecx = \<lambda>_ _. 0xFFFFFFFF, random_values = \<lambda>_. 7, draws = 1\<rparr>) \<and>
    mset data' = mset [10, 20, 30]"
proof -
  let ?p = "\<lparr>cpuid_ecx = \<lambda>_ _. 0xFFFFFFFF, random_values = \<lambda>_. 7, draws = 0\<rparr> :: processor"
  let ?x0 = "1103515245 * random_values ?p (draws ?p) + 12345"
  have len: "length [10, 20, 30 :: u32] = unat (3 :: u32)" "(3 :: u32) \<noteq> 0" "unat (3 :: u32) \<le> 2 ^ 24" by simp_all
  have "is_rdrand_available ?p \<noteq> 0" by (simp add: is_rdrand_available_def)
  note result = conjunct2 [OF mp [OF conjunct2 [OF shuffle_permutes [OF len refl, of ?p _ 2]] this]]
  have two: "nat (sint (2 :: u32)) = Suc (Suc 0)" by simp
  have "\<forall>r \<in> set (used_randoms ?x0 (nat (sint (2 :: u32)))). unat r < 2 ^ 32 - 128"
    unfolding two by (simp add: Let_def)
  from result [unfolded if_P [OF this]] show ?thesis by simp
qed

end
