(* ===== verification/Descriptor_Tables.thy ===== *)
theory Descriptor_Tables
  imports Prelude
begin

text \<open>
  \<^verbatim>\<open>descriptor_tables.c\<close>: the global and the interrupt descriptor table. An entry is the packed
  structure of the header; the addresses of the tables and of the assembler stubs \<^verbatim>\<open>isr0\<close> to
  \<^verbatim>\<open>isr31\<close> are chosen by the linker and are arguments. What the processor reads out of an entry
  (base, limit, flags) is specified by decoders, and the encoders are shown to be inverted by them.
  Loading the table registers (\<^verbatim>\<open>gdt_flush\<close>, \<^verbatim>\<open>idt_flush\<close>) is assembler code.
\<close>

section \<open>Data\<close>

record gdt_entry =
  limit_low :: u16
  base_low :: u16
  base_middle :: u8
  access :: u8
  granularity :: u8
  base_high :: u8

record idt_entry =
  base_lo :: u16
  sel :: u16
  always0 :: u8
  flags :: u8
  base_hi :: u16

record table_ptr =
  ptr_limit :: u16
  ptr_base :: u32

record descriptor_tables =
  gdt_entries :: "gdt_entry list"
  gdt_ptr :: table_ptr
  idt_entries :: "idt_entry list"
  idt_ptr :: table_ptr

definition sizeof_gdt_entry :: u32 where
  "sizeof_gdt_entry = 8"

definition sizeof_idt_entry :: u32 where
  "sizeof_idt_entry = 8"

definition zero_idt_entry :: idt_entry where
  "zero_idt_entry = \<lparr>base_lo = 0, sel = 0, always0 = 0, flags = 0, base_hi = 0\<rparr>"

section \<open>The global descriptor table\<close>

definition encode_gdt :: "u32 \<Rightarrow> u32 \<Rightarrow> u8 \<Rightarrow> u8 \<Rightarrow> gdt_entry" where
  "encode_gdt base limit acc gran =
     \<lparr>limit_low = ucast (limit AND 0xFFFF),
      base_low = ucast (base AND 0xFFFF),
      base_middle = ucast (drop_bit 16 base AND 0xFF),
      access = acc,
      granularity = ucast (drop_bit 16 limit AND 0x0F) OR (gran AND 0xF0),
      base_high = ucast (drop_bit 24 base AND 0xFF)\<rparr>"

definition gdt_set_gate ::
    "descriptor_tables \<Rightarrow> nat \<Rightarrow> u32 \<Rightarrow> u32 \<Rightarrow> u8 \<Rightarrow> u8 \<Rightarrow> descriptor_tables result" where
  "gdt_set_gate s num base limit acc gran =
     and_then (wr (gdt_entries s) num (encode_gdt base limit acc gran)) (\<lambda>entries.
     Inr (s\<lparr>gdt_entries := entries\<rparr>))"

definition init_gdt :: "u32 \<Rightarrow> descriptor_tables \<Rightarrow> descriptor_tables result" where
  "init_gdt gdt_address s =
     (let s0 = s\<lparr>gdt_ptr := \<lparr>ptr_limit = ucast (sizeof_gdt_entry * 5 - 1), ptr_base = gdt_address\<rparr>\<rparr> in
      and_then (gdt_set_gate s0 0 0 0 0 0) (\<lambda>s1.
      and_then (gdt_set_gate s1 1 0 0xFFFFFFFF 0x9A 0xCF) (\<lambda>s2.
      and_then (gdt_set_gate s2 2 0 0xFFFFFFFF 0x92 0xCF) (\<lambda>s3.
      and_then (gdt_set_gate s3 3 0 0xFFFFFFFF 0xFA 0xCF) (\<lambda>s4.
      gdt_set_gate s4 4 0 0xFFFFFFFF 0xF2 0xCF)))))"

section \<open>The interrupt descriptor table\<close>

definition encode_idt :: "u32 \<Rightarrow> u16 \<Rightarrow> u8 \<Rightarrow> idt_entry" where
  "encode_idt base selector flgs =
     \<lparr>base_lo = ucast (base AND 0xFFFF), sel = selector, always0 = 0, flags = flgs,
      base_hi = ucast (drop_bit 16 base AND 0xFFFF)\<rparr>"

definition idt_set_gate ::
    "descriptor_tables \<Rightarrow> u8 \<Rightarrow> u32 \<Rightarrow> u16 \<Rightarrow> u8 \<Rightarrow> descriptor_tables result" where
  "idt_set_gate s num base selector flgs =
     and_then (wr (idt_entries s) (unat num) (encode_idt base selector flgs)) (\<lambda>entries.
     Inr (s\<lparr>idt_entries := entries\<rparr>))"

text \<open>The 32 calls \<^verbatim>\<open>idt_set_gate(i, (u32int)isr_i, 0x08, 0x8E)\<close>, in their order.\<close>

function isr_gates :: "(nat \<Rightarrow> u32) \<Rightarrow> nat \<Rightarrow> descriptor_tables \<Rightarrow> descriptor_tables result" where
  "isr_gates isr i s =
     (if i < 32 then and_then (idt_set_gate s (of_nat i) (isr i) 0x08 0x8E) (\<lambda>s'. isr_gates isr (Suc i) s')
      else Inr s)"
  by pat_completeness auto
termination by (relation "measure (\<lambda>(isr, i, s). 32 - i)") auto

declare isr_gates.simps [simp del]

text \<open>\<^verbatim>\<open>k_memset\<close> clears the bytes of all 256 entries.\<close>

definition init_idt :: "u32 \<Rightarrow> (nat \<Rightarrow> u32) \<Rightarrow> descriptor_tables \<Rightarrow> descriptor_tables result" where
  "init_idt idt_address isr s =
     (let s0 = s\<lparr>idt_ptr := \<lparr>ptr_limit = ucast (sizeof_idt_entry * 256 - 1), ptr_base = idt_address\<rparr>,
                 idt_entries := replicate 256 zero_idt_entry\<rparr>
      in isr_gates isr 0 s0)"

definition init_descriptor_tables ::
    "u32 \<Rightarrow> u32 \<Rightarrow> (nat \<Rightarrow> u32) \<Rightarrow> descriptor_tables \<Rightarrow> descriptor_tables result" where
  "init_descriptor_tables gdt_address idt_address isr s =
     and_then (init_gdt gdt_address s) (\<lambda>s'. init_idt idt_address isr s')"

section \<open>What the processor reads\<close>

definition gdt_base :: "gdt_entry \<Rightarrow> u32" where
  "gdt_base e = ucast (base_low e) OR push_bit 16 (ucast (base_middle e)) OR push_bit 24 (ucast (base_high e))"

definition gdt_limit :: "gdt_entry \<Rightarrow> u32" where
  "gdt_limit e = ucast (limit_low e) OR push_bit 16 (ucast (granularity e AND 0x0F))"

definition gdt_flags :: "gdt_entry \<Rightarrow> u8" where
  "gdt_flags e = drop_bit 4 (granularity e)"

definition idt_base :: "idt_entry \<Rightarrow> u32" where
  "idt_base e = ucast (base_lo e) OR push_bit 16 (ucast (base_hi e))"

lemma decode_gdt:
  "gdt_base (encode_gdt base limit acc gran) = base"
  "gdt_limit (encode_gdt base limit acc gran) = limit AND 0xFFFFF"
  "gdt_flags (encode_gdt base limit acc gran) = drop_bit 4 gran"
  "access (encode_gdt base limit acc gran) = acc"
proof -
  show "gdt_base (encode_gdt base limit acc gran) = base"
  proof (rule bit_word_eqI)
    fix n
    assume "n < LENGTH(32)"
    then consider "n < 16" | "16 \<le> n" "n < 24" | "24 \<le> n" "n < 32" by fastforce
    then show "bit (gdt_base (encode_gdt base limit acc gran)) n = bit base n"
      by cases (auto simp: gdt_base_def encode_gdt_def field_bits)
  qed
  show "gdt_limit (encode_gdt base limit acc gran) = limit AND 0xFFFFF"
    by (rule bit_word_eqI) (auto simp: gdt_limit_def encode_gdt_def field_bits)
  show "gdt_flags (encode_gdt base limit acc gran) = drop_bit 4 gran"
    by (rule bit_word_eqI) (auto simp: gdt_flags_def encode_gdt_def field_bits dest: bit_imp_le_length)
  show "access (encode_gdt base limit acc gran) = acc" by (simp add: encode_gdt_def)
qed

lemma decode_idt: "idt_base (encode_idt base selector flgs) = base"
  by (rule bit_word_eqI) (auto simp: idt_base_def encode_idt_def field_bits)

section \<open>Helper lemmas\<close>

lemma idt_set_gate_in:
  "length (idt_entries s) = 256 \<Longrightarrow>
    idt_set_gate s num base selector flgs =
      Inr (s\<lparr>idt_entries := (idt_entries s)[unat num := encode_idt base selector flgs]\<rparr>)"
  using unat_bound [of num] by (simp add: idt_set_gate_def)

lemma isr_gates_eq:
  assumes "length (idt_entries s) = 256" "i \<le> 32"
  shows "\<exists>entries. isr_gates isr i s = Inr (s\<lparr>idt_entries := entries\<rparr>) \<and> length entries = 256 \<and>
    (\<forall>k < 256. entries ! k = (if i \<le> k \<and> k < 32 then encode_idt (isr k) 0x08 0x8E else idt_entries s ! k))"
  using assms
proof (induction "32 - i" arbitrary: i s)
  case 0
  then show ?case by (subst isr_gates.simps) (auto intro!: exI [of _ "idt_entries s"])
next
  case (Suc d)
  then have i: "i < 32" "d = 32 - Suc i" by simp_all
  have n: "unat (of_nat i :: u8) = i" using i(1) by (simp add: unat_of_nat)
  let ?s = "s\<lparr>idt_entries := (idt_entries s)[i := encode_idt (isr i) 0x08 0x8E]\<rparr>"
  have "isr_gates isr i s = isr_gates isr (Suc i) ?s"
    using i(1) idt_set_gate_in [OF Suc.prems(1), of "of_nat i"] n by (subst isr_gates.simps) simp
  moreover obtain entries where "isr_gates isr (Suc i) ?s = Inr (?s\<lparr>idt_entries := entries\<rparr>)"
    "length entries = 256"
    "\<forall>k < 256. entries ! k = (if Suc i \<le> k \<and> k < 32 then encode_idt (isr k) 0x08 0x8E else idt_entries ?s ! k)"
    using Suc.hyps(1) [OF i(2), of ?s] Suc.prems i(1) by auto
  ultimately show ?case
    using i(1) Suc.prems(1)
    by (intro exI [of _ entries]) (auto simp: nth_list_update)
qed

lemma init_gdt_eq:
  assumes "length (gdt_entries s) = 5"
  shows "init_gdt gdt_address s = Inr (s\<lparr>gdt_ptr := \<lparr>ptr_limit = 39, ptr_base = gdt_address\<rparr>,
    gdt_entries := [encode_gdt 0 0 0 0, encode_gdt 0 0xFFFFFFFF 0x9A 0xCF, encode_gdt 0 0xFFFFFFFF 0x92 0xCF,
      encode_gdt 0 0xFFFFFFFF 0xFA 0xCF, encode_gdt 0 0xFFFFFFFF 0xF2 0xCF]\<rparr>)"
proof -
  obtain a b c d e where "gdt_entries s = [a, b, c, d, e]"
    using assms by (auto simp: length_Suc_conv numeral_eq_Suc)
  then show ?thesis by (simp add: init_gdt_def gdt_set_gate_def sizeof_gdt_entry_def Let_def)
qed

section \<open>Properties\<close>

text \<open>
  Writing a gate and reading it back the way the processor does: the base, the low 20 bits of the
  limit, the access byte and the upper half of the granularity byte are the arguments, and no other
  entry changes; a gate number outside of the table faults.
\<close>

theorem gdt_set_gate_decodes:
  "gdt_set_gate s num base limit acc gran =
    (if num < length (gdt_entries s)
     then Inr (s\<lparr>gdt_entries := (gdt_entries s)[num := encode_gdt base limit acc gran]\<rparr>)
     else Inl Out_of_bounds) \<and>
   gdt_base (encode_gdt base limit acc gran) = base \<and>
   gdt_limit (encode_gdt base limit acc gran) = limit AND 0xFFFFF \<and>
   gdt_flags (encode_gdt base limit acc gran) = drop_bit 4 gran \<and>
   access (encode_gdt base limit acc gran) = acc"
  using decode_gdt [of base limit acc gran] by (simp add: gdt_set_gate_def)

text \<open>
  After the initialisation the global descriptor table holds the null descriptor and four flat
  segments (base 0, limit \<open>0xFFFFF\<close> in 4 KiB units) with the access bytes of kernel and user code
  and data; the interrupt descriptor table leads the interrupts 0 to 31 to their stubs through the
  kernel code segment, all other entries are zero, and both table pointers cover their tables.
\<close>

theorem init_descriptor_tables_flat:
  assumes "length (gdt_entries s) = 5"
  shows "\<exists>s'. init_descriptor_tables gdt_address idt_address isr s = Inr s' \<and>
    map (\<lambda>e. (gdt_base e, gdt_limit e, gdt_flags e, access e)) (gdt_entries s') =
      [(0, 0, 0, 0), (0, 0xFFFFF, 0xC, 0x9A), (0, 0xFFFFF, 0xC, 0x92), (0, 0xFFFFF, 0xC, 0xFA), (0, 0xFFFFF, 0xC, 0xF2)] \<and>
    length (idt_entries s') = 256 \<and>
    (\<forall>k < 32. idt_base (idt_entries s' ! k) = isr k \<and> sel (idt_entries s' ! k) = 0x08 \<and>
      flags (idt_entries s' ! k) = 0x8E) \<and>
    (\<forall>k \<in> {32..<256}. idt_entries s' ! k = zero_idt_entry) \<and>
    gdt_ptr s' = \<lparr>ptr_limit = 5 * 8 - 1, ptr_base = gdt_address\<rparr> \<and>
    idt_ptr s' = \<lparr>ptr_limit = 256 * 8 - 1, ptr_base = idt_address\<rparr>"
proof -
  let ?g = "[encode_gdt 0 0 0 0, encode_gdt 0 0xFFFFFFFF 0x9A 0xCF, encode_gdt 0 0xFFFFFFFF 0x92 0xCF,
      encode_gdt 0 0xFFFFFFFF 0xFA 0xCF, encode_gdt 0 0xFFFFFFFF 0xF2 0xCF]"
  let ?s1 = "s\<lparr>gdt_ptr := \<lparr>ptr_limit = 39, ptr_base = gdt_address\<rparr>, gdt_entries := ?g\<rparr>"
  let ?s2 = "?s1\<lparr>idt_ptr := \<lparr>ptr_limit = 2047, ptr_base = idt_address\<rparr>, idt_entries := replicate 256 zero_idt_entry\<rparr>"
  obtain entries where entries: "isr_gates isr 0 ?s2 = Inr (?s2\<lparr>idt_entries := entries\<rparr>)" "length entries = 256"
    "\<forall>k < 256. entries ! k = (if k < 32 then encode_idt (isr k) 0x08 0x8E else zero_idt_entry)"
    using isr_gates_eq [of ?s2 0 isr] by auto
  have "init_descriptor_tables gdt_address idt_address isr s = Inr (?s2\<lparr>idt_entries := entries\<rparr>)"
    using init_gdt_eq [OF assms, of gdt_address] entries(1)
    by (simp add: init_descriptor_tables_def init_idt_def sizeof_idt_entry_def)
  moreover have "idt_base (entries ! k) = isr k \<and> sel (entries ! k) = 0x08 \<and> flags (entries ! k) = 0x8E"
    if "k < 32" for k
    using entries(3) that decode_idt [of "isr k" "0x08" "0x8E"] by (simp add: encode_idt_def)
  moreover have "entries ! k = zero_idt_entry" if "k \<in> {32..<256}" for k using entries(3) that by auto
  ultimately show ?thesis using entries(2) by (auto simp: decode_gdt)
qed

theorem init_descriptor_tables_flat_witness:
  "\<exists>s'. init_descriptor_tables 0x1000 0x2000 (\<lambda>k. 0x100000 + of_nat k * 16)
      \<lparr>gdt_entries = replicate 5 (encode_gdt 0 0 0 0), gdt_ptr = \<lparr>ptr_limit = 0, ptr_base = 0\<rparr>,
       idt_entries = replicate 256 zero_idt_entry, idt_ptr = \<lparr>ptr_limit = 0, ptr_base = 0\<rparr>\<rparr> = Inr s' \<and>
    idt_base (idt_entries s' ! 14) = 0x1000E0"
  using init_descriptor_tables_flat [of "\<lparr>gdt_entries = replicate 5 (encode_gdt 0 0 0 0), gdt_ptr = \<lparr>ptr_limit = 0, ptr_base = 0\<rparr>,
       idt_entries = replicate 256 zero_idt_entry, idt_ptr = \<lparr>ptr_limit = 0, ptr_base = 0\<rparr>\<rparr>"
      "0x1000" "0x2000" "\<lambda>k. 0x100000 + of_nat k * 16"]
  by (fastforce dest: spec [of _ 14])

end
