(* ===== verification/Bytes.thy ===== *)
theory Bytes
  imports Prelude
begin

text \<open>
  The memory and string routines of \<^verbatim>\<open>common.c\<close>. Memory is one list of bytes and a pointer is an
  index into it, so that source and destination may overlap; an access outside of the memory is a
  fault, and so is an expression that changes and reads a pointer without a sequence point.
\<close>

section \<open>The routines\<close>

function k_memcpy :: "u8 list \<Rightarrow> nat \<Rightarrow> nat \<Rightarrow> u32 \<Rightarrow> u8 list result" where
  "k_memcpy mem dest src len =
     (if len \<noteq> 0 then
        and_then (rd mem src) (\<lambda>b.
        and_then (wr mem dest b) (\<lambda>mem'.
        k_memcpy mem' (Suc dest) (Suc src) (len - 1)))
      else Inr mem)"
  by pat_completeness auto
termination by (relation "measure (\<lambda>(mem, dest, src, len). unat len)") (auto simp: unat_pred unat_gt_0)

function k_memset :: "u8 list \<Rightarrow> nat \<Rightarrow> u8 \<Rightarrow> u32 \<Rightarrow> u8 list result" where
  "k_memset mem dest val len =
     (if len \<noteq> 0 then
        and_then (wr mem dest val) (\<lambda>mem'.
        k_memset mem' (Suc dest) val (len - 1))
      else Inr mem)"
  by pat_completeness auto
termination by (relation "measure (\<lambda>(mem, dest, val, len). unat len)") (auto simp: unat_pred unat_gt_0)

text \<open>The comparison loop; its value is the final index and \<^verbatim>\<open>failed\<close>.\<close>

function strcmp_loop :: "u8 list \<Rightarrow> nat \<Rightarrow> nat \<Rightarrow> nat \<Rightarrow> (nat \<times> int) result" where
  "strcmp_loop mem str1 str2 i =
     and_then (rd mem (str1 + i)) (\<lambda>c1.
     if c1 = 0 then Inr (i, 0)
     else and_then (rd mem (str2 + i)) (\<lambda>c2.
       if c2 = 0 then Inr (i, 0)
       else if c1 \<noteq> c2 then Inr (i, 1)
       else strcmp_loop mem str1 str2 (Suc i)))"
  by pat_completeness auto
termination
  by (relation "measure (\<lambda>(mem, str1, str2, i). length mem - (str1 + i))") (auto simp: mem_simps)

definition k_strcmp :: "u8 list \<Rightarrow> nat \<Rightarrow> nat \<Rightarrow> int result" where
  "k_strcmp mem str1 str2 =
     and_then (strcmp_loop mem str1 str2 0) (\<lambda>(i, failed).
     and_then (rd mem (str1 + i)) (\<lambda>c1.
     and_then (rd mem (str2 + i)) (\<lambda>c2.
     Inr (if (c1 = 0 \<and> c2 \<noteq> 0) \<or> (c1 \<noteq> 0 \<and> c2 = 0) then 1 else failed))))"

text \<open>
  The loop \<^verbatim>\<open>do { *dest++ = *src++; } while (*src != 0);\<close> of the two routines, with the pointer it leaves.
\<close>

function copy_string :: "u8 list \<Rightarrow> nat \<Rightarrow> nat \<Rightarrow> (u8 list \<times> nat) result" where
  "copy_string mem dest src =
     and_then (rd mem src) (\<lambda>c.
     and_then (wr mem dest c) (\<lambda>mem'.
     and_then (rd mem' (Suc src)) (\<lambda>next_c.
     if next_c \<noteq> 0 then copy_string mem' (Suc dest) (Suc src) else Inr (mem', Suc dest))))"
  by pat_completeness auto
termination
  by (relation "measure (\<lambda>(mem, dest, src). length mem - src)") (auto simp: mem_simps)

text \<open>Nothing is returned by \<^verbatim>\<open>k_strcpy\<close>, despite the declaration.\<close>

definition k_strcpy :: "u8 list \<Rightarrow> nat \<Rightarrow> nat \<Rightarrow> u8 list result" where
  "k_strcpy mem dest src = and_then (copy_string mem dest src) (\<lambda>(mem', _). Inr mem')"

text \<open>
  The loop of \<^verbatim>\<open>k_strcat\<close> over the string at \<^verbatim>\<open>dest\<close> executes \<^verbatim>\<open>*dest = *dest++\<close>, which has no defined behaviour.
\<close>

definition k_strcat :: "u8 list \<Rightarrow> nat \<Rightarrow> nat \<Rightarrow> (u8 list \<times> nat) result" where
  "k_strcat mem dest src =
     and_then (rd mem dest) (\<lambda>c. if c \<noteq> 0 then Inl Unsequenced else copy_string mem dest src)"

declare k_memcpy.simps [simp del] k_memset.simps [simp del] strcmp_loop.simps [simp del] copy_string.simps [simp del]

section \<open>Helper lemmas\<close>

text \<open>The bytes of a memory from an address on, and the string that starts there.\<close>

definition bytes_at :: "u8 list \<Rightarrow> nat \<Rightarrow> nat \<Rightarrow> u8 list" where
  "bytes_at mem a n = take n (drop a mem)"

definition string_at :: "u8 list \<Rightarrow> nat \<Rightarrow> u8 list" where
  "string_at mem a = takeWhile (\<lambda>c. c \<noteq> 0) (drop a mem)"

definition terminated :: "u8 list \<Rightarrow> nat \<Rightarrow> bool" where
  "terminated mem a \<longleftrightarrow> 0 \<in> set (drop a mem)"

lemma string_at_step:
  "a < length mem \<Longrightarrow> string_at mem a = (if mem ! a = 0 then [] else mem ! a # string_at mem (Suc a))"
  by (simp add: string_at_def Cons_nth_drop_Suc [symmetric])

lemma terminated_step:
  "terminated mem a \<longleftrightarrow> a < length mem \<and> (mem ! a = 0 \<or> terminated mem (Suc a))"
proof (cases "a < length mem")
  case True
  then show ?thesis by (auto simp: terminated_def Cons_nth_drop_Suc [symmetric])
next
  case False
  then show ?thesis by (simp add: terminated_def)
qed

lemma terminated_less: "terminated mem a \<Longrightarrow> a < length mem"
  by (simp add: terminated_step [of mem a])

lemma k_memcpy_eq:
  assumes "dest + unat len \<le> length mem" "src + unat len \<le> length mem"
    and "dest + unat len \<le> src \<or> src + unat len \<le> dest"
  shows "k_memcpy mem dest src len = Inr (take dest mem @ bytes_at mem src (unat len) @ drop (dest + unat len) mem)"
  using assms
proof (induction mem dest src len rule: k_memcpy.induct)
  case (1 mem dest src len)
  show ?case
  proof (cases "len = 0")
    case True
    then show ?thesis by (subst k_memcpy.simps) (simp add: bytes_at_def)
  next
    case False
    then have n: "unat len = Suc (unat (len - 1))" using unat_pos [OF False] by (simp add: unat_pred)
    let ?mem = "mem[dest := mem ! src]"
    have in_range: "src < length mem" "dest < length mem" using "1.prems"(1,2) n by simp_all
    have step: "k_memcpy mem dest src len = k_memcpy ?mem (Suc dest) (Suc src) (len - 1)"
      using False in_range by (subst k_memcpy.simps) simp
    have "k_memcpy ?mem (Suc dest) (Suc src) (len - 1) =
        Inr (take (Suc dest) ?mem @ bytes_at ?mem (Suc src) (unat (len - 1)) @ drop (Suc dest + unat (len - 1)) ?mem)"
      by (rule "1.IH") (use False in_range "1.prems" n in auto)
    moreover have "take (Suc dest) ?mem = take dest mem @ [mem ! src]"
      using in_range by (simp add: take_Suc_conv_app_nth)
    moreover have "bytes_at mem src (unat len) = mem ! src # bytes_at mem (Suc src) (unat (len - 1))"
      using in_range n by (simp add: bytes_at_def Cons_nth_drop_Suc [symmetric])
    moreover have "bytes_at ?mem (Suc src) (unat (len - 1)) = bytes_at mem (Suc src) (unat (len - 1))"
      using "1.prems"(3) n by (intro nth_equalityI) (auto simp: bytes_at_def nth_list_update)
    moreover have "drop (Suc dest + unat (len - 1)) ?mem = drop (dest + unat len) mem" using n by simp
    ultimately show ?thesis using step by simp
  qed
qed

lemma k_memset_eq:
  assumes "dest + unat len \<le> length mem"
  shows "k_memset mem dest val len = Inr (take dest mem @ replicate (unat len) val @ drop (dest + unat len) mem)"
  using assms
proof (induction mem dest val len rule: k_memset.induct)
  case (1 mem dest val len)
  show ?case
  proof (cases "len = 0")
    case True
    then show ?thesis by (subst k_memset.simps) simp
  next
    case False
    then have n: "unat len = Suc (unat (len - 1))" using unat_pos [OF False] by (simp add: unat_pred)
    let ?mem = "mem[dest := val]"
    have in_range: "dest < length mem" using "1.prems" n by simp
    have "k_memset mem dest val len = k_memset ?mem (Suc dest) val (len - 1)"
      using False in_range by (subst k_memset.simps) simp
    also have "\<dots> = Inr (take (Suc dest) ?mem @ replicate (unat (len - 1)) val @ drop (Suc dest + unat (len - 1)) ?mem)"
      by (rule "1.IH") (use False in_range "1.prems" n in auto)
    also have "take (Suc dest) ?mem = take dest mem @ [val]"
      using in_range by (simp add: take_Suc_conv_app_nth)
    finally show ?thesis using n by simp
  qed
qed

lemma strcmp_loop_eq:
  assumes "terminated mem (str1 + i)" "terminated mem (str2 + i)"
  shows "\<exists>j failed. strcmp_loop mem str1 str2 i = Inr (j, failed) \<and> str1 + j < length mem \<and> str2 + j < length mem \<and>
    (let c1 = mem ! (str1 + j); c2 = mem ! (str2 + j) in
      (failed = 1 \<or> (c1 = 0) \<noteq> (c2 = 0) \<longleftrightarrow> string_at mem (str1 + i) \<noteq> string_at mem (str2 + i)) \<and> failed \<in> {0, 1})"
  using assms
proof (induction mem str1 str2 i rule: strcmp_loop.induct)
  case (1 mem str1 str2 i)
  note len = terminated_less [OF "1.prems"(1)] terminated_less [OF "1.prems"(2)]
  let ?c1 = "mem ! (str1 + i)" and ?c2 = "mem ! (str2 + i)"
  show ?case
  proof (cases "?c1 \<noteq> 0 \<and> ?c2 \<noteq> 0 \<and> ?c1 = ?c2")
    case True
    then have "terminated mem (str1 + Suc i)" "terminated mem (str2 + Suc i)"
      using "1.prems" terminated_step [of mem "str1 + i"] terminated_step [of mem "str2 + i"] by simp_all
    with "1.IH" [of ?c1 ?c2] True len have IH: "\<exists>j failed. strcmp_loop mem str1 str2 (Suc i) = Inr (j, failed) \<and>
        str1 + j < length mem \<and> str2 + j < length mem \<and>
        (let c1 = mem ! (str1 + j); c2 = mem ! (str2 + j) in
          (failed = 1 \<or> (c1 = 0) \<noteq> (c2 = 0) \<longleftrightarrow> string_at mem (str1 + Suc i) \<noteq> string_at mem (str2 + Suc i)) \<and>
          failed \<in> {0, 1})" by simp
    have "strcmp_loop mem str1 str2 i = strcmp_loop mem str1 str2 (Suc i)"
      using True len by (subst strcmp_loop.simps) simp
    moreover have "string_at mem (str1 + i) \<noteq> string_at mem (str2 + i) \<longleftrightarrow>
        string_at mem (str1 + Suc i) \<noteq> string_at mem (str2 + Suc i)"
      using True len by (simp add: string_at_step [of "str1 + i"] string_at_step [of "str2 + i"])
    ultimately show ?thesis using IH by simp
  next
    case False
    then show ?thesis
      using len
      by (subst strcmp_loop.simps)
        (auto simp: Let_def string_at_step [of "str1 + i"] string_at_step [of "str2 + i"])
  qed
qed

text \<open>A write outside of a string leaves it alone.\<close>

lemma string_at_update:
  assumes "terminated mem a" "d < a \<or> a + length (string_at mem a) < d"
  shows "string_at (mem[d := c]) a = string_at mem a \<and> terminated (mem[d := c]) a"
proof (cases "d < a")
  case True
  then show ?thesis using assms(1) by (simp add: string_at_def terminated_def)
next
  case False
  let ?S = "drop a mem"
  obtain xs ys where S: "?S = xs @ 0 # ys" "0 \<notin> set xs"
    using assms(1) unfolding terminated_def by (metis split_list_first)
  then have xs: "takeWhile (\<lambda>c. c \<noteq> 0) ?S = xs" by (auto simp: takeWhile_append)
  then have "length xs < d - a" using assms(2) False by (simp add: string_at_def)
  moreover have "drop a (mem[d := c]) = ?S[d - a := c]" using False by (simp add: drop_update_swap)
  ultimately have "\<exists>zs. drop a (mem[d := c]) = xs @ 0 # zs"
    using S(1) by (auto simp: list_update_append split: nat.splits)
  then show ?thesis using S(2) xs by (auto simp: string_at_def terminated_def takeWhile_append)
qed

lemma copy_string_eq:
  assumes "terminated mem (Suc src)" "n = Suc (length (string_at mem (Suc src)))" "dest + n \<le> length mem"
    and "dest + n \<le> src \<or> src + n < dest"
  shows "copy_string mem dest src = Inr (take dest mem @ bytes_at mem src n @ drop (dest + n) mem, dest + n)"
  using assms
proof (induction mem dest src arbitrary: n rule: copy_string.induct)
  case (1 mem dest src)
  let ?mem = "mem[dest := mem ! src]"
  have len: "Suc src < length mem" "src < length mem" "dest < length mem"
    using terminated_less [OF "1.prems"(1)] "1.prems"(2,3) by simp_all
  have next_c: "?mem ! Suc src = mem ! Suc src" using "1.prems"(2,4) by auto
  have head: "bytes_at mem src (Suc k) = mem ! src # bytes_at mem (Suc src) k" for k
    using len by (simp add: bytes_at_def Cons_nth_drop_Suc [symmetric])
  have front: "take (Suc dest) ?mem = take dest mem @ [mem ! src]"
    using len by (simp add: take_Suc_conv_app_nth)
  show ?case
  proof (cases "mem ! Suc src = 0")
    case True
    then have n: "n = 1" using "1.prems"(2) len by (simp add: string_at_step)
    have "copy_string mem dest src = Inr (?mem, Suc dest)"
      using True len next_c by (subst copy_string.simps) simp
    also have "?mem = take dest mem @ [mem ! src] @ drop (Suc dest) mem"
      using len by (simp add: upd_conv_take_nth_drop)
    finally show ?thesis using n head [of 0] by (simp add: bytes_at_def)
  next
    case False
    define m where "m = Suc (length (string_at mem (Suc (Suc src))))"
    have n: "n = Suc m" using "1.prems"(2) len False by (simp add: string_at_step [of "Suc src"] m_def)
    have "terminated mem (Suc (Suc src))" using "1.prems"(1) False terminated_step [of mem "Suc src"] by simp
    then have string: "string_at ?mem (Suc (Suc src)) = string_at mem (Suc (Suc src)) \<and> terminated ?mem (Suc (Suc src))"
      using "1.prems"(4) n by (intro string_at_update) (auto simp: m_def)
    have step: "copy_string mem dest src = copy_string ?mem (Suc dest) (Suc src)"
      using False len next_c by (subst copy_string.simps) simp
    have "copy_string ?mem (Suc dest) (Suc src) =
        Inr (take (Suc dest) ?mem @ bytes_at ?mem (Suc src) m @ drop (Suc dest + m) ?mem, Suc dest + m)"
      by (rule "1.IH" [of "mem ! src" ?mem "mem ! Suc src"])
        (use len next_c False string n "1.prems"(3,4) in \<open>auto simp: m_def\<close>)
    moreover have "bytes_at ?mem (Suc src) m = bytes_at mem (Suc src) m"
      using "1.prems"(4) n by (intro nth_equalityI) (auto simp: bytes_at_def nth_list_update)
    ultimately show ?thesis using step front head [of m] n by simp
  qed
qed

lemma splice_bytes:
  assumes "d + n \<le> length mem" "length bs = n"
  shows "length (take d mem @ bs @ drop (d + n) mem) = length mem"
    "bytes_at (take d mem @ bs @ drop (d + n) mem) d n = bs"
    "\<forall>i < length mem. i < d \<or> d + n \<le> i \<longrightarrow> (take d mem @ bs @ drop (d + n) mem) ! i = mem ! i"
proof -
  have d: "min (length mem) d = d" using assms(1) by simp
  show "length (take d mem @ bs @ drop (d + n) mem) = length mem" using assms by simp
  show "bytes_at (take d mem @ bs @ drop (d + n) mem) d n = bs" using assms d by (simp add: bytes_at_def)
  show "\<forall>i < length mem. i < d \<or> d + n \<le> i \<longrightarrow> (take d mem @ bs @ drop (d + n) mem) ! i = mem ! i"
  proof (intro allI impI)
    fix i
    assume i: "i < length mem" "i < d \<or> d + n \<le> i"
    then have "i < d \<or> d + n \<le> i \<and> \<not> i - d < n" by linarith
    then show "(take d mem @ bs @ drop (d + n) mem) ! i = mem ! i"
      using assms d i(1) by (elim disjE) (simp_all add: nth_append)
  qed
qed

section \<open>Properties\<close>

text \<open>
  Copying between ranges of the memory that do not overlap: exactly the bytes of the destination
  range become those of the source range, and every access is inside of the memory.
\<close>

theorem k_memcpy_copies:
  assumes "dest + unat len \<le> length mem" "src + unat len \<le> length mem"
    and "dest + unat len \<le> src \<or> src + unat len \<le> dest"
  shows "\<exists>mem'. k_memcpy mem dest src len = Inr mem' \<and> length mem' = length mem \<and>
    bytes_at mem' dest (unat len) = bytes_at mem src (unat len) \<and>
    (\<forall>i < length mem. i < dest \<or> dest + unat len \<le> i \<longrightarrow> mem' ! i = mem ! i)"
proof -
  have "length (bytes_at mem src (unat len)) = unat len" using assms(2) by (simp add: bytes_at_def)
  then show ?thesis
    using k_memcpy_eq [OF assms] splice_bytes [OF assms(1)] by simp
qed

theorem k_memcpy_copies_witness:
  "\<exists>mem'. k_memcpy [1, 2, 3, 4, 5] 3 0 2 = Inr mem' \<and> bytes_at mem' 3 2 = [1, 2]"
  using k_memcpy_copies [of 3 2 "[1, 2, 3, 4, 5]" 0] by (auto simp: bytes_at_def)

text \<open>
  \<^verbatim>\<open>k_strcmp\<close> of two terminated strings answers 0 where they are equal and 1 where they differ;
  it never answers -1, and it never reads outside of the memory.
\<close>

theorem k_strcmp_decides_equality:
  assumes "terminated mem str1" "terminated mem str2"
  shows "k_strcmp mem str1 str2 = Inr (if string_at mem str1 = string_at mem str2 then 0 else 1)"
proof -
  obtain j failed where loop: "strcmp_loop mem str1 str2 0 = Inr (j, failed)" "str1 + j < length mem" "str2 + j < length mem"
    "failed = 1 \<or> (mem ! (str1 + j) = 0) \<noteq> (mem ! (str2 + j) = 0) \<longleftrightarrow> string_at mem str1 \<noteq> string_at mem str2"
    "failed \<in> {0, 1}"
    using strcmp_loop_eq [of mem str1 0 str2] assms by (auto simp: Let_def)
  have "k_strcmp mem str1 str2 = Inr (if (mem ! (str1 + j) = 0) \<noteq> (mem ! (str2 + j) = 0) then 1 else failed)"
    using loop(1-3)
    by (cases "mem ! (str1 + j) = 0"; cases "mem ! (str2 + j) = 0") (simp_all add: k_strcmp_def)
  moreover have "failed = 0 \<or> failed = 1" using loop(5) by simp
  ultimately show ?thesis using loop(4) by (elim disjE) simp_all
qed

theorem k_strcmp_decides_equality_witness:
  "k_strcmp [65, 66, 0, 65, 67, 0] 0 3 = Inr 1"
  using k_strcmp_decides_equality [of "[65, 66, 0, 65, 67, 0]" 0 3] by (simp add: terminated_def string_at_def)

text \<open>
  \<^verbatim>\<open>k_strcpy\<close> between places that do not overlap copies the first byte of the source and then the
  string that follows it: of a non-empty string the terminator is not copied, and of the empty string
  the terminator and the string behind it are copied.
\<close>

theorem k_strcpy_copies_without_terminator:
  assumes "terminated mem (Suc src)" "n = Suc (length (string_at mem (Suc src)))" "dest + n \<le> length mem"
    and "dest + n \<le> src \<or> src + n < dest"
  shows "\<exists>mem'. k_strcpy mem dest src = Inr mem' \<and> length mem' = length mem \<and>
    bytes_at mem' dest n = mem ! src # string_at mem (Suc src) \<and>
    (\<forall>i < length mem. i < dest \<or> dest + n \<le> i \<longrightarrow> mem' ! i = mem ! i)"
proof -
  have src: "Suc src < length mem" using terminated_less [OF assms(1)] .
  have "bytes_at mem src n = mem ! src # bytes_at mem (Suc src) (length (string_at mem (Suc src)))"
    using src assms(2) by (simp add: bytes_at_def Cons_nth_drop_Suc [symmetric])
  also have "bytes_at mem (Suc src) (length (string_at mem (Suc src))) = string_at mem (Suc src)"
    unfolding bytes_at_def string_at_def by (rule takeWhile_eq_take [symmetric])
  finally have "bytes_at mem src n = mem ! src # string_at mem (Suc src)" .
  moreover from this have "length (bytes_at mem src n) = n" using assms(2) by simp
  ultimately show ?thesis
    using copy_string_eq [OF assms] splice_bytes [OF assms(3), of "bytes_at mem src n"] by (simp add: k_strcpy_def)
qed

theorem k_strcpy_copies_without_terminator_witness:
  "\<exists>mem'. k_strcpy [72, 105, 0, 88, 88, 88] 3 0 = Inr mem' \<and> bytes_at mem' 3 2 = [72, 105] \<and> mem' ! 5 = 88"
proof -
  let ?mem = "[72, 105, 0, 88, 88, 88] :: u8 list"
  have "terminated ?mem (Suc 0)" "2 = Suc (length (string_at ?mem (Suc 0)))"
    by (simp_all add: terminated_def string_at_def)
  from k_strcpy_copies_without_terminator [OF this, of 3]
  obtain mem' where "k_strcpy ?mem 3 0 = Inr mem'" "bytes_at mem' 3 2 = 72 # string_at ?mem (Suc 0)"
    and same: "\<forall>i < length ?mem. i < 3 \<or> 3 + 2 \<le> i \<longrightarrow> mem' ! i = ?mem ! i" by auto
  moreover have "mem' ! 5 = 88" using spec [OF same, of 5] by simp
  ultimately show ?thesis by (intro exI [of _ mem']) (simp add: string_at_def)
qed

text \<open>
  \<^verbatim>\<open>k_strcat\<close> has defined behaviour only where the string at \<^verbatim>\<open>dest\<close> is empty. It copies then as
  \<^verbatim>\<open>k_strcpy\<close> does and returns the address behind the copy, not \<^verbatim>\<open>dest\<close>.
\<close>

theorem k_strcat_needs_empty_string:
  assumes "terminated mem dest" "terminated mem (Suc src)" "n = Suc (length (string_at mem (Suc src)))"
    and "dest + n \<le> length mem" "dest + n \<le> src \<or> src + n < dest"
  shows "k_strcat mem dest src =
    (if string_at mem dest \<noteq> [] then Inl Unsequenced
     else Inr (take dest mem @ bytes_at mem src n @ drop (dest + n) mem, dest + n))"
proof -
  have "dest < length mem" using assms(1) by (rule terminated_less)
  moreover from this have "string_at mem dest = [] \<longleftrightarrow> mem ! dest = 0"
    by (simp add: string_at_step)
  ultimately show ?thesis using copy_string_eq [OF assms(2-5)] by (simp add: k_strcat_def)
qed

theorem k_strcat_needs_empty_string_witness:
  "k_strcat [72, 105, 0, 0, 88, 88] 3 0 = Inr ([72, 105, 0, 72, 105, 88], 5)"
proof -
  let ?mem = "[72, 105, 0, 0, 88, 88] :: u8 list"
  have "terminated ?mem 3" "terminated ?mem (Suc 0)" "2 = Suc (length (string_at ?mem (Suc 0)))" "3 + 2 \<le> length ?mem"
    "3 + 2 \<le> 0 \<or> 0 + 2 < (3 :: nat)"
    by (simp_all add: terminated_def string_at_def)
  from k_strcat_needs_empty_string [OF this] show ?thesis by (simp add: string_at_def bytes_at_def)
qed

end
