(* ===== verification/Console.thy ===== *)
theory Console
  imports Prelude
begin

text \<open>
  The text console of \<^verbatim>\<open>common.c\<close>: the cursor and the video memory, \<^verbatim>\<open>k_putchar\<close>, the conversion
  of integers to strings and \<^verbatim>\<open>k_printf\<close>.

  The video memory at \<^verbatim>\<open>0xB8000\<close> is a list of bytes (a cell is a character byte and an attribute
  byte; \<^verbatim>\<open>terminal_buffer\<close> addresses the same memory by 16-bit cells). Characters are signed bytes
  that are converted to \<^verbatim>\<open>int\<close> by sign extension. The variable arguments of \<^verbatim>\<open>k_printf\<close> are the
  list of 32-bit words on the stack behind the format, reading past them is a fault; the strings that
  \<^verbatim>\<open>%s\<close> arguments point to are given by a function from addresses. Floating point output
  is in the theory \<open>Float_Output\<close>, \<^verbatim>\<open>panic\<close> in \<open>Memory_Dump\<close>.
\<close>

section \<open>Data\<close>

definition COLUMNS :: nat where
  "COLUMNS = 80"

definition LINES :: nat where
  "LINES = 24"

definition ATTRIBUTE :: u8 where
  "ATTRIBUTE = 7"

record console =
  video :: "u8 list"
  xpos :: nat
  ypos :: nat
  vga_index :: nat

section \<open>Characters on the screen\<close>

function cls_loop :: "u8 list \<Rightarrow> nat \<Rightarrow> u8 list result" where
  "cls_loop v i =
     (if i < COLUMNS * LINES * 2 then and_then (wr v i 0) (\<lambda>v'. cls_loop v' (Suc i)) else Inr v)"
  by pat_completeness auto
termination by (relation "measure (\<lambda>(v, i). COLUMNS * LINES * 2 - i)") auto

definition k_cls :: "console \<Rightarrow> console result" where
  "k_cls s = and_then (cls_loop (video s) 0) (\<lambda>v. Inr (s\<lparr>video := v, xpos := 0, ypos := 0\<rparr>))"

definition newline :: "console \<Rightarrow> console" where
  "newline s =
     (let s1 = s\<lparr>xpos := 0, ypos := ypos s + 1\<rparr> in
      if LINES \<le> ypos s1 then s1\<lparr>ypos := 0\<rparr> else s1)"

definition k_putchar :: "console \<Rightarrow> u32 \<Rightarrow> console result" where
  "k_putchar s c =
     (if c = 10 \<or> c = 13 then Inr (newline s)
      else
        and_then (wr (video s) ((xpos s + ypos s * COLUMNS) * 2) (ucast (c AND 0xFF))) (\<lambda>v1.
        and_then (wr v1 ((xpos s + ypos s * COLUMNS) * 2 + 1) ATTRIBUTE) (\<lambda>v2.
        let s1 = s\<lparr>video := v2, xpos := xpos s + 1\<rparr> in
        Inr (if COLUMNS \<le> xpos s1 then newline s1 else s1))))"

text \<open>\<^verbatim>\<open>while (*p) k_putchar(*p++)\<close> for the characters of a string.\<close>

fun put_codes :: "console \<Rightarrow> u32 list \<Rightarrow> console result" where
  "put_codes s [] = Inr s"
| "put_codes s (c # cs) = and_then (k_putchar s c) (\<lambda>s'. put_codes s' cs)"

text \<open>\<^verbatim>\<open>terminal_buffer[index] = ' '\<close> for every second cell index up to 80 * 25 * 2.\<close>

function clear_cells :: "u8 list \<Rightarrow> nat \<Rightarrow> u8 list result" where
  "clear_cells v index =
     (if index < 80 * 25 * 2 then
        and_then (wr v (2 * index) 32) (\<lambda>v1.
        and_then (wr v1 (2 * index + 1) 0) (\<lambda>v2.
        clear_cells v2 (index + 2)))
      else Inr v)"
  by pat_completeness auto
termination by (relation "measure (\<lambda>(v, index). 80 * 25 * 2 - index)") auto

definition k_clear_screen :: "console \<Rightarrow> console result" where
  "k_clear_screen s = and_then (clear_cells (video s) 0) (\<lambda>v. Inr (s\<lparr>video := v\<rparr>))"

text \<open>The characters of \<open>str\<close> up to its terminator, written as 16-bit cells at \<^verbatim>\<open>vga_index\<close>.\<close>

fun k_print_string :: "console \<Rightarrow> u8 list \<Rightarrow> u8 \<Rightarrow> console result" where
  "k_print_string s [] color = Inr s"
| "k_print_string s (c # cs) color =
     (let cell = (ucast (scast c :: u32) :: u16) OR push_bit 8 (ucast color) in
      and_then (wr (video s) (2 * vga_index s) (ucast cell)) (\<lambda>v1.
      and_then (wr v1 (2 * vga_index s + 1) (ucast (drop_bit 8 cell))) (\<lambda>v2.
      k_print_string (s\<lparr>video := v2, vga_index := vga_index s + 1\<rparr>) cs color)))"

declare cls_loop.simps [simp del] clear_cells.simps [simp del]

section \<open>Integers to strings\<close>

definition CHR_d :: u32 where "CHR_d = 100"
definition CHR_u :: u32 where "CHR_u = 117"
definition CHR_x :: u32 where "CHR_x = 120"
definition CHR_s :: u32 where "CHR_s = 115"
definition CHR_percent :: u32 where "CHR_percent = 37"

definition divisor_of :: "u32 \<Rightarrow> u32" where
  "divisor_of base = (if base = CHR_x then 16 else 10)"

definition digit_char :: "u32 \<Rightarrow> u8" where
  "digit_char remainder = ucast (if remainder < 10 then remainder + 48 else remainder + 97 - 10)"

lemma divisor_of_less: "ud \<noteq> 0 \<Longrightarrow> unat (ud div divisor_of base) < unat ud"
  by (simp add: divisor_of_def unat_div unat_gt_0)

function itoa_digits :: "u8 list \<Rightarrow> nat \<Rightarrow> u32 \<Rightarrow> u32 \<Rightarrow> (u8 list \<times> nat) result" where
  "itoa_digits buf p ud base =
     and_then (wr buf p (digit_char (ud mod divisor_of base))) (\<lambda>buf'.
     if ud div divisor_of base \<noteq> 0 then itoa_digits buf' (Suc p) (ud div divisor_of base) base
     else Inr (buf', Suc p))"
  by pat_completeness auto
termination
proof (relation "measure (\<lambda>(buf, p, ud, base). unat ud)", goal_cases)
  case (2 buf p ud base buf')
  then have "ud \<noteq> 0" by auto
  then show ?case by (simp add: divisor_of_less)
qed simp

function reverse_loop :: "u8 list \<Rightarrow> nat \<Rightarrow> nat \<Rightarrow> u8 list result" where
  "reverse_loop buf p1 p2 =
     (if p1 < p2 then
        and_then (rd buf p1) (\<lambda>tmp.
        and_then (rd buf p2) (\<lambda>b.
        and_then (wr buf p1 b) (\<lambda>buf1.
        and_then (wr buf1 p2 tmp) (\<lambda>buf2.
        reverse_loop buf2 (p1 + 1) (p2 - 1)))))
      else Inr buf)"
  by pat_completeness auto
termination by (relation "measure (\<lambda>(buf, p1, p2). p2 - p1)") auto

declare itoa_digits.simps [simp del] reverse_loop.simps [simp del]

definition k_itoa :: "u8 list \<Rightarrow> u32 \<Rightarrow> u32 \<Rightarrow> u8 list result" where
  "k_itoa buf base d =
     (let negative = base = CHR_d \<and> sint d < 0;
          start = (if negative then 1 else 0);
          ud = (if negative then - d else d)
      in
      and_then (if negative then wr buf 0 45 else Inr buf) (\<lambda>buf1.
      and_then (itoa_digits buf1 start ud base) (\<lambda>(buf2, p).
      and_then (wr buf2 p 0) (\<lambda>buf3.
      reverse_loop buf3 start (p - 1)))))"

section \<open>Formatted output\<close>

definition char_code :: "u8 \<Rightarrow> u32" where
  "char_code c = scast c"

definition null_string :: "u8 list" where
  "null_string = [40, 110, 117, 108, 108, 41]"

text \<open>
  The loop of \<^verbatim>\<open>k_printf\<close> at position \<open>i\<close> of the format (with its terminator), the arguments that
  are left and the conversion buffer.
\<close>

function printf_loop ::
    "(u32 \<Rightarrow> u8 list) \<Rightarrow> u8 list \<Rightarrow> nat \<Rightarrow> u32 list \<Rightarrow> u8 list \<Rightarrow> console \<Rightarrow> console result" where
  "printf_loop strings fmt i args buf s =
     and_then (rd fmt i) (\<lambda>c.
     if c = 0 then Inr s
     else if char_code c \<noteq> CHR_percent then
       and_then (k_putchar s (char_code c)) (\<lambda>s'. printf_loop strings fmt (i + 1) args buf s')
     else
       and_then (rd fmt (i + 1)) (\<lambda>c2.
       and_then (rd args 0) (\<lambda>arg.
       if char_code c2 = CHR_d \<or> char_code c2 = CHR_u \<or> char_code c2 = CHR_x then
         and_then (k_itoa buf (char_code c2) arg) (\<lambda>buf'.
         and_then (put_codes s (map char_code (takeWhile (\<lambda>b. b \<noteq> 0) buf'))) (\<lambda>s'.
         printf_loop strings fmt (i + 2) (tl args) buf' s'))
       else if char_code c2 = CHR_s then
         and_then (put_codes s (map char_code (if arg = 0 then null_string else strings arg))) (\<lambda>s'.
         printf_loop strings fmt (i + 2) (tl args) buf s')
       else
         and_then (k_putchar s arg) (\<lambda>s'. printf_loop strings fmt (i + 2) (tl args) buf s'))))"
  by pat_completeness auto
termination
  by (relation "measure (\<lambda>(strings, fmt, i, args, buf, s). length fmt - i)") (auto simp: mem_simps)

declare printf_loop.simps [simp del]

definition k_printf :: "(u32 \<Rightarrow> u8 list) \<Rightarrow> u8 list \<Rightarrow> u8 list \<Rightarrow> u32 list \<Rightarrow> console \<Rightarrow> console result" where
  "k_printf strings buf fmt args s =
     printf_loop strings fmt 0 args buf (s\<lparr>vga_index := vga_index s + 80\<rparr>)"

text \<open>
  A call of \<^verbatim>\<open>k_printf\<close> with a string literal, which is the list of its characters without the terminator.
\<close>

definition bytes_of :: "string \<Rightarrow> u8 list" where
  "bytes_of cs = map of_char cs"

definition print_format :: "(u32 \<Rightarrow> u8 list) \<Rightarrow> u8 list \<Rightarrow> string \<Rightarrow> u32 list \<Rightarrow> console \<Rightarrow> console result" where
  "print_format strings buf fmt args s = k_printf strings buf (bytes_of fmt @ [0]) args s"

end
