(* ===== verification/Console_Correct.thy ===== *)
theory Console_Correct
  imports Console
begin

text \<open>
  Correctness of the console. The digits of a number are specified by \<open>digits_of\<close> and read back by
  \<open>parse_digits\<close>; \<open>k_itoa\<close> writes them into the buffer. The screen is a ring of 80 times 24 cells in
  which the cursor moves on by one for every printed character (\<open>put_codes_cells\<close>). \<open>render\<close> specifies
  the text that \<^verbatim>\<open>k_printf\<close> prints.
\<close>

section \<open>Digits\<close>

function digits_of :: "nat \<Rightarrow> nat \<Rightarrow> nat list" where
  "digits_of b n = (if n < b \<or> b < 2 then [n] else digits_of b (n div b) @ [n mod b])"
  by pat_completeness auto
termination by (relation "measure snd") auto

declare digits_of.simps [simp del]

definition digit_value :: "u8 \<Rightarrow> nat" where
  "digit_value c = (if unat c < 58 then unat c - 48 else unat c - 87)"

definition parse_digits :: "nat \<Rightarrow> u8 list \<Rightarrow> nat" where
  "parse_digits b = foldl (\<lambda>v c. v * b + digit_value c) 0"

definition digit_text :: "nat \<Rightarrow> u8" where
  "digit_text k = digit_char (of_nat k)"

lemma digits_of_bound: "2 \<le> b \<Longrightarrow> \<forall>k \<in> set (digits_of b n). k < b"
  by (induction b n rule: digits_of.induct) (subst digits_of.simps, auto)

lemma digits_of_length: "2 \<le> b \<Longrightarrow> 0 < k \<Longrightarrow> n < b ^ k \<Longrightarrow> length (digits_of b n) \<le> k"
proof (induction b n arbitrary: k rule: digits_of.induct)
  case (1 b n)
  show ?case
  proof (cases "n < b")
    case True
    with "1.prems" show ?thesis by (subst digits_of.simps) simp
  next
    case False
    then obtain j where k: "k = Suc j" "0 < j"
      using "1.prems" by (cases k; cases "k - 1") auto
    have "n div b < b ^ j" using "1.prems"(1,3) k by (simp add: less_mult_imp_div_less mult.commute)
    with False "1.prems"(1) k show ?thesis
      using "1.IH" [of j] by (subst digits_of.simps) simp
  qed
qed

lemma below_16: "k < 16 \<Longrightarrow> k \<in> {0, 1, 2, 3, 4, 5, 6, 7, 8, 9, 10, 11, 12, 13, 14, 15 :: nat}"
  by (simp only: insert_iff empty_iff) presburger

lemma digit_text_value: "k < 16 \<Longrightarrow> digit_value (digit_text k) = k"
proof -
  assume "k < 16"
  then have "k \<in> {0, 1, 2, 3, 4, 5, 6, 7, 8, 9, 10, 11, 12, 13, 14, 15}" by (rule below_16)
  then show ?thesis by (auto simp: digit_value_def digit_text_def digit_char_def)
qed

lemma digit_text_nonzero: "k < 16 \<Longrightarrow> digit_text k \<noteq> 0"
proof -
  assume "k < 16"
  then have "k \<in> {0, 1, 2, 3, 4, 5, 6, 7, 8, 9, 10, 11, 12, 13, 14, 15}" by (rule below_16)
  then show ?thesis by (auto simp: digit_text_def digit_char_def)
qed

lemma parse_digits_of: "2 \<le> b \<Longrightarrow> b \<le> 16 \<Longrightarrow> parse_digits b (map digit_text (digits_of b n)) = n"
proof (induction b n rule: digits_of.induct)
  case (1 b n)
  show ?case
  proof (cases "n < b")
    case True
    with "1.prems" show ?thesis
      by (subst digits_of.simps) (simp add: parse_digits_def digit_text_value)
  next
    case False
    have "n mod b < b" using "1.prems"(1) by simp
    then have "n mod b < 16" using "1.prems"(2) by linarith
    then show ?thesis
      using False "1.IH" "1.prems"
      by (subst digits_of.simps) (simp add: parse_digits_def digit_text_value)
  qed
qed

section \<open>The conversion routine\<close>

definition itoa_text :: "u32 \<Rightarrow> u32 \<Rightarrow> u8 list" where
  "itoa_text base d =
     (if base = CHR_d \<and> sint d < 0 then 45 # map digit_text (digits_of 10 (nat (- sint d)))
      else map digit_text (digits_of (unat (divisor_of base)) (unat d)))"

lemma divisor_cases: "unat (divisor_of base) = 10 \<or> unat (divisor_of base) = 16"
  by (simp add: divisor_of_def)

lemma itoa_digits_eq:
  assumes "p + length (digits_of (unat (divisor_of base)) (unat ud)) \<le> length buf"
  defines "ds \<equiv> map digit_text (digits_of (unat (divisor_of base)) (unat ud))"
  shows "itoa_digits buf p ud base = Inr (take p buf @ rev ds @ drop (p + length ds) buf, p + length ds)"
  using assms(1) unfolding ds_def
proof (induction buf p ud base rule: itoa_digits.induct)
  case (1 buf p ud base)
  let ?b = "unat (divisor_of base)"
  have b: "2 \<le> ?b" using divisor_cases [of base] by auto
  have dm: "unat (ud div divisor_of base) = unat ud div ?b" "unat (ud mod divisor_of base) = unat ud mod ?b"
    by (simp_all add: unat_div unat_mod)
  have zero: "ud div divisor_of base = 0 \<longleftrightarrow> unat ud < ?b"
  proof -
    have "ud div divisor_of base = 0 \<longleftrightarrow> unat ud div ?b = 0"
      using dm(1) by (metis unat_0 unat_eq_zero)
    then show ?thesis using b by (simp add: div_eq_0_iff)
  qed
  have digit: "digit_char (ud mod divisor_of base) = digit_text (unat ud mod ?b)"
    unfolding digit_text_def dm(2) [symmetric] by simp
  let ?c = "digit_char (ud mod divisor_of base)"
  have p: "p < length buf"
    using "1.prems" by (subst (asm) digits_of.simps) (auto split: if_splits)
  have front: "take (Suc p) (buf[p := ?c]) = take p buf @ [?c]" using p by (simp add: take_Suc_conv_app_nth)
  show ?case
  proof (cases "unat ud < ?b")
    case True
    then have ds: "digits_of ?b (unat ud) = [unat ud]" by (subst digits_of.simps) simp
    have "itoa_digits buf p ud base = Inr (buf[p := ?c], Suc p)"
      using True zero p by (subst itoa_digits.simps) simp
    moreover have "buf[p := ?c] = take p buf @ [?c] @ drop (Suc p) buf"
      using p by (simp add: upd_conv_take_nth_drop)
    moreover have "?c = digit_text (unat ud)" using digit True by simp
    ultimately show ?thesis using ds by simp
  next
    case False
    then have ds: "digits_of ?b (unat ud) = digits_of ?b (unat ud div ?b) @ [unat ud mod ?b]"
      using b by (subst digits_of.simps) simp
    have "itoa_digits buf p ud base = itoa_digits (buf[p := ?c]) (Suc p) (ud div divisor_of base) base"
      using False zero p by (subst itoa_digits.simps) simp
    also have "\<dots> = Inr (take (Suc p) (buf[p := ?c]) @ rev (map digit_text (digits_of ?b (unat (ud div divisor_of base)))) @
        drop (Suc p + length (map digit_text (digits_of ?b (unat (ud div divisor_of base))))) (buf[p := ?c]),
        Suc p + length (map digit_text (digits_of ?b (unat (ud div divisor_of base)))))"
      by (rule "1.IH") (use False zero p "1.prems" ds dm(1) in simp_all)
    finally show ?thesis
      unfolding front using ds dm(1) digit by simp
  qed
qed

lemma reverse_loop_eq:
  "reverse_loop (xs @ ys @ zs) (length xs) (length xs + length ys - 1) = Inr (xs @ rev ys @ zs)"
proof (induction "length ys" arbitrary: xs ys zs rule: less_induct)
  case less
  show ?case
  proof (cases "length ys \<le> 1")
    case True
    then have "\<not> length xs < length xs + length ys - 1" by linarith
    then show ?thesis using True by (subst reverse_loop.simps) (cases ys; simp)
  next
    case False
    then obtain a us b where ys: "ys = a # us @ [b]"
      by (cases ys; cases "tl ys" rule: rev_cases) auto
    have "reverse_loop (xs @ ys @ zs) (length xs) (length xs + length ys - 1) =
        reverse_loop ((xs @ [b]) @ us @ (a # zs)) (length (xs @ [b])) (length (xs @ [b]) + length us - 1)"
      unfolding ys by (subst reverse_loop.simps) (simp add: nth_append list_update_append)
    also have "\<dots> = Inr ((xs @ [b]) @ rev us @ (a # zs))" by (rule less) (simp add: ys)
    finally show ?thesis by (simp add: ys)
  qed
qed

lemma unat_uminus_negative:
  fixes d :: u32
  assumes "sint d < 0"
  shows "unat (- d) = nat (- sint d)"
proof -
  have range: "0 \<le> - sint d" "- sint d < 2 ^ 32" using assms sint_greater_eq [of d] by simp_all
  have "uint (word_of_int (- sint d) :: u32) = - sint d mod 2 ^ 32"
    unfolding uint_word_of_int by simp
  then have "uint (- d) = - sint d" using range by simp
  then show ?thesis by (simp only: unat_eq_nat_uint)
qed

lemma itoa_text_length: "length (itoa_text base d) \<le> 11"
proof -
  have "length (digits_of 10 (nat (- sint d))) \<le> 10"
    using sint_greater_eq [of d] by (intro digits_of_length) simp_all
  moreover have "length (digits_of 10 (unat d)) \<le> 10" "length (digits_of 16 (unat d)) \<le> 8"
    using unat_bound [of d] by (intro digits_of_length; simp)+
  ultimately show ?thesis using divisor_cases [of base] by (auto simp: itoa_text_def)
qed

lemma itoa_reversed:
  assumes "start + length ds < length buf" "take start buf = pre" "ds \<noteq> []"
  shows "and_then (wr (pre @ rev ds @ drop (start + length ds) buf) (start + length ds) 0)
      (\<lambda>buf'. reverse_loop buf' start (start + length ds - 1)) =
    Inr (pre @ ds @ 0 # drop (Suc (start + length ds)) buf)"
proof -
  have pre: "length pre = start" using assms(1,2) by auto
  have "(pre @ rev ds @ drop (start + length ds) buf)[start + length ds := 0] =
      pre @ rev ds @ 0 # drop (Suc (start + length ds)) buf"
    using assms(1) pre by (simp add: list_update_append Cons_nth_drop_Suc [symmetric])
  then show ?thesis
    using reverse_loop_eq [of pre "rev ds" "0 # drop (Suc (start + length ds)) buf"] assms(1) pre by simp
qed

lemma k_itoa_eq:
  assumes "12 \<le> length buf"
  shows "k_itoa buf base d = Inr (itoa_text base d @ 0 # drop (Suc (length (itoa_text base d))) buf)"
proof (cases "base = CHR_d \<and> sint d < 0")
  case True
  define ds where "ds = map digit_text (digits_of 10 (nat (- sint d)))"
  have str: "itoa_text base d = 45 # ds" using True by (simp add: itoa_text_def ds_def)
  have len: "1 + length ds < length buf" using itoa_text_length [of base d] str assms by simp
  have b: "unat (divisor_of base) = 10" using True by (simp add: divisor_of_def CHR_d_def CHR_x_def)
  have "ds \<noteq> []" unfolding ds_def by (subst digits_of.simps) simp
  moreover have "take 1 (buf[0 := 45]) = [45]" using assms by (cases buf) auto
  ultimately have "and_then (wr ([45] @ rev ds @ drop (1 + length ds) (buf[0 := 45])) (1 + length ds) 0)
      (\<lambda>buf'. reverse_loop buf' 1 (1 + length ds - 1)) =
    Inr ([45] @ ds @ 0 # drop (Suc (1 + length ds)) (buf[0 := 45]))"
    using itoa_reversed [of 1 ds "buf[0 := 45]" "[45]"] len by simp
  moreover have "itoa_digits (buf[0 := 45]) 1 (- d) base =
      Inr ([45] @ rev ds @ drop (1 + length ds) (buf[0 := 45]), 1 + length ds)"
    using itoa_digits_eq [of 1 base "- d" "buf[0 := 45]"] len b True \<open>take 1 _ = _\<close>
    by (simp add: ds_def unat_uminus_negative)
  moreover have "wr buf 0 45 = Inr (buf[0 := 45])" using assms by (intro wr_in) linarith
  ultimately show ?thesis using True assms str by (simp add: k_itoa_def)
next
  case False
  define ds where "ds = map digit_text (digits_of (unat (divisor_of base)) (unat d))"
  have str: "itoa_text base d = ds" using False by (auto simp: itoa_text_def ds_def)
  have len: "length ds < length buf" using itoa_text_length [of base d] str assms by simp
  have "ds \<noteq> []" unfolding ds_def by (subst digits_of.simps) simp
  then have "and_then (wr ([] @ rev ds @ drop (0 + length ds) buf) (0 + length ds) 0)
      (\<lambda>buf'. reverse_loop buf' 0 (0 + length ds - 1)) =
    Inr ([] @ ds @ 0 # drop (Suc (0 + length ds)) buf)"
    using itoa_reversed [of 0 ds buf "[]"] len by simp
  moreover have "itoa_digits buf 0 d base = Inr (rev ds @ drop (length ds) buf, length ds)"
    using itoa_digits_eq [of 0 base d buf] len by (simp add: ds_def)
  ultimately show ?thesis using False str by (auto simp: k_itoa_def)
qed

lemma itoa_text_nonzero: "0 \<notin> set (itoa_text base d)"
proof -
  have "digit_text k \<noteq> 0" if "k \<in> set (digits_of (unat (divisor_of base)) n)" for k n
    using that digits_of_bound [of "unat (divisor_of base)" n] divisor_cases [of base]
    by (intro digit_text_nonzero) force
  moreover have "digit_text k \<noteq> 0" if "k \<in> set (digits_of 10 n)" for k n
    using that digits_of_bound [of 10 n] by (intro digit_text_nonzero) force
  ultimately show ?thesis by (auto simp: itoa_text_def)
qed

lemma itoa_string: "12 \<le> length buf \<Longrightarrow> k_itoa buf base d = Inr buf' \<Longrightarrow>
    takeWhile (\<lambda>b. b \<noteq> 0) buf' = itoa_text base d \<and> length buf' = length buf"
  using k_itoa_eq [of buf base d] itoa_text_nonzero [of base d] itoa_text_length [of base d]
  by (auto simp: takeWhile_append)

section \<open>The cursor\<close>

definition cursor_ok :: "console \<Rightarrow> bool" where
  "cursor_ok s \<longleftrightarrow> xpos s < COLUMNS \<and> ypos s < LINES \<and> COLUMNS * LINES * 2 \<le> length (video s)"

definition cursor :: "console \<Rightarrow> nat" where
  "cursor s = ypos s * COLUMNS + xpos s"

definition printable :: "u32 \<Rightarrow> bool" where
  "printable c \<longleftrightarrow> c \<noteq> 10 \<and> c \<noteq> 13"

lemma newline_ok: "cursor_ok s \<Longrightarrow> cursor_ok (newline s)"
  by (auto simp: cursor_ok_def newline_def Let_def COLUMNS_def LINES_def)

lemma k_putchar_ok:
  assumes "cursor_ok s"
  shows "\<exists>s'. k_putchar s c = Inr s' \<and> cursor_ok s' \<and> length (video s') = length (video s)"
proof (cases "c = 10 \<or> c = 13")
  case True
  then show ?thesis using newline_ok [OF assms] by (auto simp: k_putchar_def newline_def Let_def)
next
  case False
  have "(xpos s + ypos s * COLUMNS) * 2 + 1 < length (video s)"
    using assms by (simp add: cursor_ok_def COLUMNS_def LINES_def)
  with False assms show ?thesis
    by (auto simp: k_putchar_def newline_def Let_def cursor_ok_def COLUMNS_def LINES_def)
qed

lemma put_codes_ok:
  "cursor_ok s \<Longrightarrow> \<exists>s'. put_codes s cs = Inr s' \<and> cursor_ok s' \<and> length (video s') = length (video s)"
proof (induction cs arbitrary: s)
  case Nil
  then show ?case by simp
next
  case (Cons c cs)
  obtain t where "k_putchar s c = Inr t" "cursor_ok t" "length (video t) = length (video s)"
    using k_putchar_ok [OF Cons.prems] by blast
  with Cons.IH [of t] show ?case by auto
qed

lemma put_codes_append: "put_codes s (cs @ ds) = and_then (put_codes s cs) (\<lambda>s'. put_codes s' ds)"
proof (induction cs arbitrary: s)
  case (Cons c cs)
  then show ?case by (cases "k_putchar s c") simp_all
qed simp

text \<open>A printable character is written into the cell of the cursor, and the cursor moves on.\<close>

lemma k_putchar_printable:
  assumes "cursor_ok s" "printable c" "k_putchar s c = Inr s'"
  shows "cursor s' = Suc (cursor s) mod (COLUMNS * LINES)"
    "video s' = (video s)[2 * cursor s := ucast (c AND 0xFF), 2 * cursor s + 1 := ATTRIBUTE]"
proof -
  have i: "(xpos s + ypos s * COLUMNS) * 2 = 2 * cursor s" by (simp add: cursor_def)
  have len: "2 * cursor s + 1 < length (video s)" "xpos s < 80" "ypos s < 24"
    using assms(1) by (simp_all add: cursor_ok_def cursor_def COLUMNS_def LINES_def)
  have s': "s' = (let s1 = s\<lparr>video := (video s)[2 * cursor s := ucast (c AND 0xFF), 2 * cursor s + 1 := ATTRIBUTE],
        xpos := xpos s + 1\<rparr> in if COLUMNS \<le> xpos s1 then newline s1 else s1)"
    using assms(2) assms(3) [unfolded k_putchar_def i] len(1)
    by (auto simp: printable_def Let_def split: if_splits)
  then show "video s' = (video s)[2 * cursor s := ucast (c AND 0xFF), 2 * cursor s + 1 := ATTRIBUTE]"
    by (simp add: Let_def newline_def)
  consider "xpos s + 1 < 80" | "xpos s = 79" "ypos s < 23" | "xpos s = 79" "ypos s = 23"
    using len(2,3) by linarith
  then show "cursor s' = Suc (cursor s) mod (COLUMNS * LINES)"
    using s' len(2,3) by cases (simp_all add: Let_def newline_def cursor_def COLUMNS_def LINES_def)
qed

text \<open>The character byte and the attribute byte of a cell.\<close>

definition cell :: "console \<Rightarrow> nat \<Rightarrow> u8 \<times> u8" where
  "cell s k = (video s ! (2 * k), video s ! (2 * k + 1))"

lemma cell_after_putchar:
  assumes "cursor_ok s" "printable c" "k_putchar s c = Inr s'" "k < COLUMNS * LINES"
  shows "cell s' k = (if k = cursor s then (ucast (c AND 0xFF), ATTRIBUTE) else cell s k)"
proof -
  have "2 * cursor s + 1 < length (video s)"
    using assms(1) by (simp add: cursor_ok_def cursor_def COLUMNS_def LINES_def)
  moreover have "2 * k \<noteq> 2 * cursor s + 1" "2 * k + 1 \<noteq> 2 * cursor s" by presburger+
  ultimately show ?thesis
    by (simp add: cell_def k_putchar_printable(2) [OF assms(1-3)])
qed

lemma put_codes_cells:
  assumes "cursor_ok s" "\<forall>c \<in> set cs. printable c" "length cs \<le> COLUMNS * LINES" "put_codes s cs = Inr s'"
  shows "cursor s' = (cursor s + length cs) mod (COLUMNS * LINES) \<and>
    (\<forall>k < COLUMNS * LINES. cell s' k =
      (let i = (k + COLUMNS * LINES - cursor s) mod (COLUMNS * LINES) in
       if i < length cs then (ucast (cs ! i AND 0xFF), ATTRIBUTE) else cell s k))"
  using assms
proof (induction cs arbitrary: s)
  case Nil
  have "cursor s < COLUMNS * LINES" using Nil.prems(1) by (simp add: cursor_ok_def cursor_def COLUMNS_def LINES_def)
  with Nil show ?case by simp
next
  case (Cons c cs)
  obtain t where t: "k_putchar s c = Inr t" "cursor_ok t" "put_codes t cs = Inr s'"
    using k_putchar_ok [OF Cons.prems(1), of c] Cons.prems(4) by auto
  have c: "printable c" using Cons.prems(2) by simp
  let ?N = "COLUMNS * LINES"
  have N: "0 < ?N" and s: "cursor s < ?N"
    using Cons.prems(1) by (simp_all add: cursor_ok_def cursor_def COLUMNS_def LINES_def)
  note put = k_putchar_printable(1) [OF Cons.prems(1) c t(1)] cell_after_putchar [OF Cons.prems(1) c t(1)]
  have IH: "cursor s' = (cursor t + length cs) mod ?N"
    "\<And>k. k < ?N \<Longrightarrow> cell s' k = (let i = (k + ?N - cursor t) mod ?N in
       if i < length cs then (ucast (cs ! i AND 0xFF), ATTRIBUTE) else cell t k)"
    using Cons.IH [OF t(2) _ _ t(3)] Cons.prems(2,3) by auto
  have "cursor s' = (cursor s + length (c # cs)) mod ?N"
    using IH(1) put(1) by (simp add: mod_add_left_eq)
  moreover have "cell s' k = (let i = (k + ?N - cursor s) mod ?N in
       if i < length (c # cs) then (ucast ((c # cs) ! i AND 0xFF), ATTRIBUTE) else cell s k)" if k: "k < ?N" for k
  proof (cases "k = cursor s")
    case True
    then have i: "(k + ?N - cursor s) mod ?N = 0" by simp
    have "(k + ?N - cursor t) mod ?N = ?N - 1"
      using True put(1) s by (cases "Suc (cursor s) = ?N") (simp_all add: mod_if)
    then have "\<not> (k + ?N - cursor t) mod ?N < length cs" using Cons.prems(3) N by simp
    then have "cell s' k = cell t k" using IH(2) [OF k] by (simp add: Let_def)
    then show ?thesis using put(2) [OF k] True i by (simp add: Let_def)
  next
    case False
    have "(k + ?N - cursor s) mod ?N = Suc ((k + ?N - cursor t) mod ?N)"
      using False put(1) s k N by (cases "Suc (cursor s) = ?N") (auto simp: mod_if)
    then show ?thesis using IH(2) [OF k] put(2) [OF k] False by (simp add: Let_def)
  qed
  ultimately show ?case by blast
qed

section \<open>Formatted output\<close>

text \<open>
  The text a format stands for; \<open>None\<close> where the format ends behind a percent sign or there are
  fewer arguments than directives.
\<close>

fun directive_text :: "(u32 \<Rightarrow> u8 list) \<Rightarrow> u8 \<Rightarrow> u32 \<Rightarrow> u32 list" where
  "directive_text strings c2 arg =
     (if char_code c2 = CHR_d \<or> char_code c2 = CHR_u \<or> char_code c2 = CHR_x
      then map char_code (itoa_text (char_code c2) arg)
      else if char_code c2 = CHR_s then map char_code (if arg = 0 then null_string else strings arg)
      else [arg])"

fun render :: "(u32 \<Rightarrow> u8 list) \<Rightarrow> u8 list \<Rightarrow> u32 list \<Rightarrow> u32 list option" where
  "render strings [] args = Some []"
| "render strings [c] args = (if char_code c = CHR_percent then None else Some [char_code c])"
| "render strings (c # c2 # cs) args =
     (if char_code c \<noteq> CHR_percent then map_option ((#) (char_code c)) (render strings (c2 # cs) args)
      else case args of
        [] \<Rightarrow> None
      | arg # args' \<Rightarrow> map_option ((@) (directive_text strings c2 arg)) (render strings cs args'))"

text \<open>A format without directives renders to itself.\<close>

lemma ucast_char_code: "ucast (char_code c) = c"
  by (rule bit_word_eqI) (auto simp: char_code_def bit_ucast_iff bit_signed_iff)

lemma char_code_simps: "char_code c = CHR_percent \<longleftrightarrow> c = 37"
proof
  assume "char_code c = CHR_percent"
  then have "ucast (char_code c) = (ucast CHR_percent :: u8)" by simp
  then show "c = 37" unfolding ucast_char_code by (simp add: CHR_percent_def)
qed (simp add: char_code_def CHR_percent_def)

lemma render_plain: "37 \<notin> set fmt \<Longrightarrow> render strings fmt args = Some (map char_code fmt)"
  by (induction strings fmt args rule: render.induct) (auto simp: char_code_simps)

lemma directive_step:
  assumes "12 \<le> length buf" "rd fmt i = Inr c" "char_code c = CHR_percent" "rd fmt (i + 1) = Inr c2"
  obtains buf' where "length buf' = length buf"
    "printf_loop strings fmt i (arg # args) buf s = and_then (put_codes s (directive_text strings c2 arg))
      (\<lambda>s'. printf_loop strings fmt (i + 2) args buf' s')"
proof -
  have c: "c \<noteq> 0" using assms(3) by (auto simp: char_code_def CHR_percent_def)
  obtain buf' where itoa: "k_itoa buf (char_code c2) arg = Inr buf'"
    using k_itoa_eq [OF assms(1)] by blast
  note str = itoa_string [OF assms(1) itoa]
  have one: "and_then (k_putchar s arg) k = and_then (put_codes s [arg]) k" for k :: "console \<Rightarrow> console result"
    by (cases "k_putchar s arg") simp_all
  show thesis
  proof (cases "char_code c2 = CHR_d \<or> char_code c2 = CHR_u \<or> char_code c2 = CHR_x")
    case True
    then show thesis
      using c assms(2-4) itoa str by (intro that [of buf']) (simp_all add: printf_loop.simps [of strings fmt i])
  next
    case False
    then show thesis
      using c assms(2-4) one
      by (intro that [of buf]) (simp_all add: printf_loop.simps [of strings fmt i] del: put_codes.simps)
  qed
qed

lemma printf_loop_eq:
  assumes "render strings cs args = Some codes" "0 \<notin> set cs" "12 \<le> length buf" "fmt = pre @ cs @ [0]"
  shows "printf_loop strings fmt (length pre) args buf s = put_codes s codes"
  using assms
proof (induction strings cs args arbitrary: pre codes buf s rule: render.induct)
  case (1 strings args)
  then show ?case by (subst printf_loop.simps) simp
next
  case (2 strings c args)
  then have "codes = [char_code c]" "char_code c \<noteq> CHR_percent" "c \<noteq> 0" by (auto split: if_splits)
  moreover have "printf_loop strings fmt (Suc (length pre)) args buf t = Inr t" for t
    using 2 by (subst printf_loop.simps) (simp add: nth_append)
  ultimately show ?case
    using "2.prems"(4) by (subst printf_loop.simps) (cases "k_putchar s (char_code c)"; simp)
next
  case (3 strings c c2 cs args)
  have fmt: "fmt ! length pre = c" "fmt ! Suc (length pre) = c2" "Suc (length pre) < length fmt"
    using "3.prems"(4) by (simp_all add: nth_append)
  show ?case
  proof (cases "char_code c = CHR_percent")
    case False
    then obtain rest where "render strings (c2 # cs) args = Some rest" "codes = char_code c # rest"
      using "3.prems"(1) by auto
    then show ?thesis
      using "3.IH"(1) [OF False, of rest buf "pre @ [c]"] "3.prems" False fmt
      by (subst printf_loop.simps) (cases "k_putchar s (char_code c)"; simp)
  next
    case True
    with "3.prems"(1) obtain arg args' rest where args: "args = arg # args'" "render strings cs args' = Some rest"
      "codes = directive_text strings c2 arg @ rest"
      by (auto split: list.splits simp del: directive_text.simps)
    obtain buf' where buf': "length buf' = length buf"
      "printf_loop strings fmt (length pre) (arg # args') buf s = and_then (put_codes s (directive_text strings c2 arg))
        (\<lambda>s'. printf_loop strings fmt (length pre + 2) args' buf' s')"
      by (rule directive_step [OF "3.prems"(3), of fmt "length pre" c c2 strings arg args' s])
        (use fmt True in simp_all)
    have "printf_loop strings fmt (length pre + 2) args' buf' t = put_codes t rest" for t
      using "3.IH"(2) [of arg args' rest buf' "pre @ [c, c2]" t] True args "3.prems"(2-4) buf'(1) by simp
    then show ?thesis using buf'(2) args by (simp add: put_codes_append del: directive_text.simps)
  qed
qed

section \<open>Printed text\<close>

text \<open>
  The text between two states of the console, apart from \<^verbatim>\<open>vga_index\<close>, which every call of \<^verbatim>\<open>k_printf\<close>
  moves on and no character depends on.
\<close>

definition shows_text :: "console \<Rightarrow> u32 list \<Rightarrow> console \<Rightarrow> bool" where
  "shows_text s codes s' \<longleftrightarrow> cursor_ok s' \<and> put_codes s codes = Inr (s'\<lparr>vga_index := vga_index s\<rparr>)"

lemma k_putchar_vga:
  "k_putchar (s\<lparr>vga_index := v\<rparr>) c = map_sum id (\<lambda>t. t\<lparr>vga_index := v\<rparr>) (k_putchar s c)"
  by (simp add: k_putchar_def newline_def Let_def wr_def and_then_def)

lemma put_codes_vga:
  "put_codes (s\<lparr>vga_index := v\<rparr>) cs = map_sum id (\<lambda>t. t\<lparr>vga_index := v\<rparr>) (put_codes s cs)"
proof (induction cs arbitrary: s)
  case (Cons c cs)
  then show ?case by (cases "k_putchar s c") (simp_all add: k_putchar_vga)
qed simp

lemma shows_text_trans:
  assumes "shows_text s cs t" "shows_text t ds u"
  shows "shows_text s (cs @ ds) u"
  using assms put_codes_vga [of "vga_index s" t ds] by (simp add: shows_text_def put_codes_append)

lemma shows_textI:
  assumes "cursor_ok s"
  obtains s' where "put_codes (s\<lparr>vga_index := v\<rparr>) cs = Inr s'" "shows_text s cs s'"
proof -
  obtain t where t: "put_codes s cs = Inr t" "cursor_ok t" using put_codes_ok [OF assms] by blast
  moreover have "vga_index t = vga_index s"
    using t(1) put_codes_vga [of "vga_index s" s cs] by simp (metis console.surjective console.update_convs(4) console.select_convs(4))
  ultimately show thesis
    using put_codes_vga [of v s cs]
    by (intro that [of "t\<lparr>vga_index := v\<rparr>"]) (simp_all add: shows_text_def cursor_ok_def)
qed

lemma shows_text_Nil: "cursor_ok s \<Longrightarrow> shows_text s [] s"
  by (simp add: shows_text_def)

lemma put_codes_length: "put_codes s cs = Inr s' \<Longrightarrow> length (video s') = length (video s)"
proof (induction cs arbitrary: s)
  case (Cons c cs)
  then obtain t where t: "k_putchar s c = Inr t" "put_codes t cs = Inr s'" by (auto simp: and_then_eq_Inr)
  then have "length (video t) = length (video s)"
    by (auto simp: k_putchar_def newline_def Let_def and_then_eq_Inr wr_eq_Inr split: if_splits)
  then show ?case using Cons.IH [OF t(2)] by simp
qed simp

lemma shows_text_length: "shows_text s cs s' \<Longrightarrow> length (video s') = length (video s)"
  by (auto simp: shows_text_def dest: put_codes_length)

lemma print_format_shows:
  assumes "cursor_ok s" "render strings (bytes_of fmt) args = Some codes" "0 \<notin> set (bytes_of fmt)" "12 \<le> length buf"
  obtains s' where "print_format strings buf fmt args s = Inr s'" "cursor_ok s'" "shows_text s codes s'"
proof -
  obtain s' where s': "put_codes (s\<lparr>vga_index := vga_index s + 80\<rparr>) codes = Inr s'" "shows_text s codes s'"
    using shows_textI [OF assms(1)] .
  moreover have "print_format strings buf fmt args s = put_codes (s\<lparr>vga_index := vga_index s + 80\<rparr>) codes"
    using printf_loop_eq [OF assms(2-4), of "bytes_of fmt @ [0]" "[]"] by (simp add: print_format_def k_printf_def)
  ultimately show thesis using that by (simp add: shows_text_def)
qed

text \<open>
  How many arguments a format needs; \<open>None\<close> where it ends behind a percent sign. With as many arguments
  every format has a text.
\<close>

fun directives :: "u8 list \<Rightarrow> nat option" where
  "directives [] = Some 0"
| "directives [c] = (if char_code c = CHR_percent then None else Some 0)"
| "directives (c # c2 # cs) =
     (if char_code c \<noteq> CHR_percent then directives (c2 # cs) else map_option Suc (directives cs))"

lemma render_directives:
  "directives fmt = Some n \<Longrightarrow> length args = n \<Longrightarrow> \<exists>codes. render strings fmt args = Some codes"
proof (induction fmt arbitrary: n args rule: directives.induct)
  case (3 c c2 cs)
  show ?case
  proof (cases "char_code c = CHR_percent")
    case True
    then obtain m arg rest where "directives cs = Some m" "args = arg # rest" "length rest = m"
      using "3.prems" by (cases args) auto
    then show ?thesis using "3.IH"(2) [of m rest] True by (auto simp del: directive_text.simps)
  next
    case False
    then show ?thesis using "3.IH"(1) [of n args] "3.prems" by auto
  qed
qed (auto split: if_splits)

section \<open>Clearing the screen\<close>

lemma clear_cells_eq:
  assumes "8000 \<le> length v" "index \<le> 4000" "even index"
  shows "\<exists>v'. clear_cells v index = Inr v' \<and> length v' = length v \<and>
    (\<forall>k < 4000. (v' ! (2 * k), v' ! (2 * k + 1)) =
      (if index \<le> k \<and> even k then (32, 0) else (v ! (2 * k), v ! (2 * k + 1))))"
  using assms
proof (induction "4000 - index" arbitrary: v index rule: less_induct)
  case less
  show ?case
  proof (cases "index < 4000")
    case False
    then show ?thesis by (subst clear_cells.simps) simp
  next
    case True
    let ?v = "v[2 * index := 32, 2 * index + 1 := 0]"
    have bound: "index + 2 \<le> 4000" using True less.prems(3) by presburger
    have "clear_cells v index = clear_cells ?v (index + 2)"
      using True less.prems(1) by (subst clear_cells.simps) simp
    moreover
    have dec: "4000 - (index + 2) < 4000 - index" and len: "8000 \<le> length ?v" and ev: "even (index + 2)"
      using True less.prems by simp_all
    from less.hyps [OF dec len bound ev] obtain v' where v': "clear_cells ?v (index + 2) = Inr v'"
      "length v' = length ?v"
      "\<forall>k < 4000. (v' ! (2 * k), v' ! (2 * k + 1)) =
        (if index + 2 \<le> k \<and> even k then (32, 0) else (?v ! (2 * k), ?v ! (2 * k + 1)))" by blast
    have upd: "(?v ! (2 * k), ?v ! (2 * k + 1)) = (if k = index then (32, 0) else (v ! (2 * k), v ! (2 * k + 1)))"
      if "k < 4000" for k
    proof -
      have "2 * k \<noteq> 2 * index + 1" "2 * k + 1 \<noteq> 2 * index" by presburger+
      then show ?thesis using that less.prems(1) True by (simp add: nth_list_update)
    qed
    have "(v' ! (2 * k), v' ! (2 * k + 1)) =
        (if index \<le> k \<and> even k then (32, 0) else (v ! (2 * k), v ! (2 * k + 1)))" if k: "k < 4000" for k
    proof -
      have "(index \<le> k \<and> even k) \<longleftrightarrow> (index + 2 \<le> k \<and> even k) \<or> k = index"
        using less.prems(3) by presburger
      then show ?thesis using v'(3) [rule_format, OF k] unfolding upd [OF k] by (simp split: if_splits)
    qed
    ultimately show ?thesis using v'(1,2) by (intro exI [of _ v']) simp
  qed
qed

section \<open>Properties\<close>

text \<open>
  C38. \<^verbatim>\<open>k_itoa\<close> into a buffer of at least 12 bytes stays inside of it and writes a terminated string
  of at most 11 characters; reading the string as a number of the base gives the integer back (signed
  for the base d, unsigned otherwise).
\<close>

theorem k_itoa_roundtrip:
  assumes "12 \<le> length buf"
  shows "\<exists>str. k_itoa buf base d = Inr (str @ 0 # drop (Suc (length str)) buf) \<and> 0 \<notin> set str \<and> length str \<le> 11 \<and>
    (if base = CHR_d \<and> sint d < 0
     then hd str = 45 \<and> - int (parse_digits 10 (tl str)) = sint d
     else parse_digits (unat (divisor_of base)) str = unat d)"
  using k_itoa_eq [OF assms, of base d] itoa_text_nonzero [of base d] itoa_text_length [of base d]
    parse_digits_of [of "unat (divisor_of base)" "unat d"] parse_digits_of [of 10 "nat (- sint d)"]
    divisor_cases [of base]
  by (intro exI [of _ "itoa_text base d"]) (auto simp: itoa_text_def)

theorem k_itoa_roundtrip_witness:
  "\<exists>str. k_itoa (replicate 20 1) CHR_d (- 42) = Inr (str @ 0 # drop (Suc (length str)) (replicate 20 1)) \<and>
    hd str = 45 \<and> - int (parse_digits 10 (tl str)) = - 42"
  using k_itoa_roundtrip [of "replicate 20 1" CHR_d "- 42"] by auto

text \<open>
  C35. \<^verbatim>\<open>k_printf\<close> prints what its format stands for: for a format with an argument of 32 bits for each of its
  directives, any number of them, and a cursor on the screen, every access is inside of the arrays, and the
  effect is that of putting the characters of the text on the screen one after the other with
  \<^verbatim>\<open>k_putchar\<close>; the cursor stays on the screen. Where the text has no line breaks and at most 1920
  characters, these are in the cells from the cursor on (the cells are a ring), all other cells are
  unchanged, and the cursor is behind the text.
\<close>

theorem k_printf_shows_text:
  assumes "cursor_ok s" "render strings fmt args = Some codes" "0 \<notin> set fmt" "12 \<le> length buf"
  shows "\<exists>s'. k_printf strings buf (fmt @ [0]) args s = Inr s' \<and>
    put_codes (s\<lparr>vga_index := vga_index s + 80\<rparr>) codes = Inr s' \<and> cursor_ok s' \<and>
    ((\<forall>c \<in> set codes. printable c) \<and> length codes \<le> COLUMNS * LINES \<longrightarrow>
      cursor s' = (cursor s + length codes) mod (COLUMNS * LINES) \<and>
      (\<forall>k < COLUMNS * LINES. cell s' k =
        (let i = (k + COLUMNS * LINES - cursor s) mod (COLUMNS * LINES) in
         if i < length codes then (ucast (codes ! i AND 0xFF), ATTRIBUTE) else cell s k)))"
proof -
  let ?s = "s\<lparr>vga_index := vga_index s + 80\<rparr>"
  have ok: "cursor_ok ?s" using assms(1) by (simp add: cursor_ok_def)
  obtain s' where s': "put_codes ?s codes = Inr s'" "cursor_ok s'" using put_codes_ok [OF ok] by blast
  have "k_printf strings buf (fmt @ [0]) args s = Inr s'"
    using printf_loop_eq [OF assms(2-4), of "fmt @ [0]" "[]"] s'(1) by (simp add: k_printf_def)
  moreover have "cursor ?s = cursor s" "cell ?s = cell s" by (auto simp: cursor_def cell_def)
  ultimately show ?thesis
    using put_codes_cells [OF ok _ _ s'(1)] s' by (intro exI [of _ s']) (simp add: Let_def)
qed

text \<open>The format of the witness, \<^verbatim>\<open>%d %x\<close>, has two directives.\<close>

theorem k_printf_shows_text_witness:
  "\<exists>s'. k_printf (\<lambda>_. []) (replicate 20 0) ([37, 100, 32, 37, 120] @ [0]) [- 7, 10]
      \<lparr>video = replicate 4000 0, xpos = 0, ypos = 0, vga_index = 0\<rparr> = Inr s' \<and> cursor s' = 4 \<and>
    map (cell s') [0, 1, 2, 3] = [(45, 7), (55, 7), (32, 7), (97, 7)]"
proof -
  have render: "render (\<lambda>_. []) [37, 100, 32, 37, 120] [- 7, 10] = Some [45, 55, 32, 97]"
    by (simp add: char_code_def CHR_percent_def CHR_d_def itoa_text_def divisor_of_def CHR_x_def CHR_u_def
        digits_of.simps [of 10 7] digits_of.simps [of 16 10] digit_text_def digit_char_def)
  show ?thesis
    using k_printf_shows_text [OF _ render, of "\<lparr>video = replicate 4000 0, xpos = 0, ypos = 0, vga_index = 0\<rparr>" "replicate 20 0"]
    by (auto simp: cursor_ok_def cursor_def COLUMNS_def LINES_def printable_def ATTRIBUTE_def Let_def)
qed

text \<open>
  \<^verbatim>\<open>k_clear_screen\<close> steps through the 16-bit cells by two: it blanks the even cells up to number
  4000, which is twice the size of the screen, and leaves every odd cell as it was.
\<close>

theorem k_clear_screen_skips_odd_cells:
  assumes "8000 \<le> length (video s)"
  shows "\<exists>s'. k_clear_screen s = Inr s' \<and>
    (\<forall>k < 4000. cell s' k = (if even k then (32, 0) else cell s k))"
proof -
  obtain v where "clear_cells (video s) 0 = Inr v"
    "\<forall>k < 4000. (v ! (2 * k), v ! (2 * k + 1)) = (if even k then (32, 0) else cell s k)"
    using clear_cells_eq [OF assms, of 0] by (auto simp: cell_def)
  then show ?thesis by (auto simp: k_clear_screen_def cell_def)
qed

theorem k_clear_screen_skips_odd_cells_witness:
  "\<exists>s'. k_clear_screen \<lparr>video = replicate 32768 65, xpos = 0, ypos = 0, vga_index = 0\<rparr> = Inr s' \<and>
    cell s' 0 = (32, 0) \<and> cell s' 1 = (65, 65)"
proof -
  obtain s' where s': "k_clear_screen \<lparr>video = replicate 32768 65, xpos = 0, ypos = 0, vga_index = 0\<rparr> = Inr s'"
    "\<forall>k < 4000. cell s' k = (if even k then (32, 0) else
      cell \<lparr>video = replicate 32768 65, xpos = 0, ypos = 0, vga_index = 0\<rparr> k)"
    using k_clear_screen_skips_odd_cells [of "\<lparr>video = replicate 32768 65, xpos = 0, ypos = 0, vga_index = 0\<rparr>"]
    by auto
  have "cell s' 0 = (32, 0)" using spec [OF s'(2), of 0] by simp
  moreover have "cell s' 1 = (65, 65)" using spec [OF s'(2), of 1] by (simp add: cell_def)
  ultimately show ?thesis using s'(1) by blast
qed

end
