(* ===== verification/Interrupts.thy ===== *)
theory Interrupts
  imports Console_Correct
begin

text \<open>
  \<^verbatim>\<open>isr.c\<close>: the table of interrupt handlers. A handler is a function of the saved registers and the
  state it runs on; the state is the console here and in the message for interrupts without a handler,
  and a parameter \<open>'s\<close> of the table otherwise. An empty slot (the null pointer) is \<open>None\<close>.
\<close>

section \<open>The routines\<close>

record registers =
  ds :: u32
  edi :: u32
  esi :: u32
  ebp :: u32
  esp :: u32
  ebx :: u32
  edx :: u32
  ecx :: u32
  eax :: u32
  int_no :: u32
  err_code :: u32
  eip :: u32
  cs :: u32
  eflags :: u32
  useresp :: u32
  ss :: u32

type_synonym 's isr = "registers \<Rightarrow> 's \<Rightarrow> 's result"

text \<open>
  \<open>report\<close> stands for the call of \<^verbatim>\<open>k_printf\<close> with the constant message, on the state of the
  handlers.
\<close>

definition isr_handler :: "('s \<Rightarrow> 's result) \<Rightarrow> 's isr option list \<Rightarrow> registers \<Rightarrow> 's \<Rightarrow> 's result" where
  "isr_handler report interrupt_handlers regs s =
     and_then (rd interrupt_handlers (unat (int_no regs))) (\<lambda>handler.
     case handler of
       Some h \<Rightarrow> h regs s
     | None \<Rightarrow> report s)"

definition register_interrupt_handler :: "'s isr option list \<Rightarrow> u8 \<Rightarrow> 's isr \<Rightarrow> 's isr option list result" where
  "register_interrupt_handler interrupt_handlers n handler = wr interrupt_handlers (unat n) (Some handler)"

text \<open>\<^verbatim>\<open>"I do not understand - isr.c - isr_handler()"\<close>\<close>

definition unknown_interrupt :: "u8 list" where
  "unknown_interrupt = [73, 32, 100, 111, 32, 110, 111, 116, 32, 117, 110, 100, 101, 114, 115, 116, 97, 110, 100,
     32, 45, 32, 105, 115, 114, 46, 99, 32, 45, 32, 105, 115, 114, 95, 104, 97, 110, 100, 108, 101, 114, 40, 41]"

definition report_unknown :: "u8 list \<Rightarrow> console \<Rightarrow> console result" where
  "report_unknown buf s = k_printf (\<lambda>_. []) buf (unknown_interrupt @ [0]) [] s"

section \<open>Sequences of registrations\<close>

fun register_all :: "'s isr option list \<Rightarrow> (u8 \<times> 's isr) list \<Rightarrow> 's isr option list result" where
  "register_all handlers [] = Inr handlers"
| "register_all handlers ((n, h) # rs) =
     and_then (register_interrupt_handler handlers n h) (\<lambda>handlers'. register_all handlers' rs)"

lemma register_all_eq:
  assumes "length handlers = 256"
  shows "\<exists>handlers'. register_all handlers rs = Inr handlers' \<and> length handlers' = 256 \<and>
    (\<forall>n :: u8. handlers' ! unat n = (case map_of (rev rs) n of Some h \<Rightarrow> Some h | None \<Rightarrow> handlers ! unat n))"
  using assms
proof (induction rs arbitrary: handlers)
  case Nil
  then show ?case by simp
next
  case (Cons r rs)
  obtain m h where r: "r = (m, h)" by (cases r)
  have m: "unat m < 256" using unat_bound [of m] by simp
  let ?handlers = "handlers[unat m := Some h]"
  obtain handlers' where IH: "register_all ?handlers rs = Inr handlers'" "length handlers' = 256"
    "\<forall>n. handlers' ! unat n = (case map_of (rev rs) n of Some h \<Rightarrow> Some h | None \<Rightarrow> ?handlers ! unat n)"
    using Cons.IH [of ?handlers] Cons.prems by auto
  have "register_all handlers (r # rs) = Inr handlers'"
    using IH(1) m Cons.prems by (simp add: r register_interrupt_handler_def)
  moreover have "handlers' ! unat n = (case map_of (rev (r # rs)) n of Some h \<Rightarrow> Some h | None \<Rightarrow> handlers ! unat n)" for n
    using IH(3) m Cons.prems word_eq_unat [of m n]
    by (cases "map_of (rev rs) n") (auto simp: r map_add_def nth_list_update)
  ultimately show ?case using IH(2) by blast
qed

text \<open>
  The report of an unknown interrupt: with a cursor on the screen it succeeds and leaves the
  cursor on the screen, its 43 characters further on.
\<close>

lemma isr_unknown_interrupt_reports:
  assumes "cursor_ok s" "int_no regs < 256" "handlers = replicate 256 None" "12 \<le> length buf"
  shows "\<exists>s'. isr_handler (report_unknown buf) handlers regs s = Inr s' \<and> cursor_ok s' \<and>
    cursor s' = (cursor s + 43) mod (COLUMNS * LINES)"
proof -
  have n: "unat (int_no regs) < 256" using assms(2) by (simp add: word_less_nat_alt)
  let ?codes = "map char_code unknown_interrupt"
  have "0 \<notin> set unknown_interrupt" "37 \<notin> set unknown_interrupt" "length ?codes = 43"
    by (simp_all add: unknown_interrupt_def)
  moreover have "\<forall>c \<in> set ?codes. printable c"
    by (simp add: unknown_interrupt_def printable_def char_code_def)
  moreover have ok: "cursor_ok (s\<lparr>vga_index := vga_index s + 80\<rparr>)" using assms(1) by (simp add: cursor_ok_def)
  obtain s' where s': "put_codes (s\<lparr>vga_index := vga_index s + 80\<rparr>) ?codes = Inr s'" "cursor_ok s'"
    using put_codes_ok [OF ok] by blast
  ultimately have "report_unknown buf s = Inr s'" "cursor s' = (cursor s + 43) mod (COLUMNS * LINES)"
    using printf_loop_eq [OF render_plain _ assms(4), of unknown_interrupt "unknown_interrupt @ [0]" "[]" "\<lambda>_. []" "[]"]
      put_codes_cells [OF ok _ _ s'(1)]
    by (simp_all add: report_unknown_def k_printf_def COLUMNS_def LINES_def cursor_def)
  then show ?thesis using n assms(3) s'(2) by (simp add: isr_handler_def)
qed

section \<open>Properties\<close>

text \<open>
  C39. After any sequence of registrations in an empty table, the dispatcher calls the handler that
  was registered last for the interrupt, with the registers and the state unchanged; for the other
  interrupts below 256 it reports, and an interrupt number from 256 on reads outside of the table.
\<close>

theorem isr_dispatches_last_registration:
  "\<exists>handlers. register_all (replicate 256 None) rs = Inr handlers \<and>
    isr_handler report handlers regs s =
      (if 256 \<le> unat (int_no regs) then Inl Out_of_bounds
       else case map_of (rev rs) (ucast (int_no regs)) of
          Some h \<Rightarrow> h regs s
        | None \<Rightarrow> report s)"
proof -
  obtain handlers where h: "register_all (replicate 256 None) rs = Inr handlers" "length handlers = 256"
    "\<forall>n :: u8. handlers ! unat n =
      (case map_of (rev rs) n of Some h \<Rightarrow> Some h | None \<Rightarrow> replicate 256 None ! unat n)"
    using register_all_eq [of "replicate 256 None" rs] by auto
  have "isr_handler report handlers regs s = (case map_of (rev rs) (ucast (int_no regs)) of
      Some h \<Rightarrow> h regs s | None \<Rightarrow> report s)" if "unat (int_no regs) < 256"
  proof -
    have n: "unat (ucast (int_no regs) :: u8) = unat (int_no regs)"
      using that by (simp add: unsigned_ucast_eq take_bit_nat_eq_self)
    have "handlers ! unat (int_no regs) = map_of (rev rs) (ucast (int_no regs))"
      using h(3) [rule_format, of "ucast (int_no regs)"] that
      by (cases "map_of (rev rs) (ucast (int_no regs) :: u8)") (simp_all add: n)
    then show ?thesis using that h(2) by (simp add: isr_handler_def)
  qed
  moreover have "isr_handler report handlers regs s = Inl Out_of_bounds" if "256 \<le> unat (int_no regs)"
    using that h(2) by (simp add: isr_handler_def)
  ultimately show ?thesis using h(1) by (intro exI [of _ handlers]) simp
qed

end
