(* ===== verification/Paging.thy ===== *)
theory Paging
  imports Bitmap
begin

text \<open>
  \<^verbatim>\<open>paging.c\<close>: mapping a page while paging is on. The kernel reaches the page directory and the page
  tables through virtual addresses (the recursive entry 1023 of the directory), so the model contains
  the translation of the processor: physical memory is a function from the physical address of a word
  to the word, \<open>cr3\<close> is the address of the directory, and every access of the routines goes through
  \<open>translate\<close>. An access to an address that is not mapped is the fault \<open>Page_fault\<close> (the handler
  itself would be interrupted). The translation buffer of the processor is not modelled.
\<close>

section \<open>Physical memory and the translation of the processor\<close>

record machine =
  phys :: "u32 \<Rightarrow> u32"
  cr3 :: u32
  frames_bitmap :: "u32 list"
  printed :: "message list"

text \<open>The messages handed to \<^verbatim>\<open>k_printf\<close>, in their order; what it does with one is the theory \<open>Console\<close>.\<close>

definition no_free_frames :: message where
  "no_free_frames = (''No free frames left!'' @ [CHR 0x0A], [])"

text \<open>The number of the frame an address or a table entry names, and the words of a frame.\<close>

definition frame_of :: "u32 \<Rightarrow> nat" where
  "frame_of x = unat x div 4096"

definition word_addr :: "nat \<Rightarrow> nat \<Rightarrow> u32" where
  "word_addr frame i = of_nat (4096 * frame + 4 * i)"

definition pd_index :: "u32 \<Rightarrow> nat" where
  "pd_index va = unat va div 4194304"

definition pt_index :: "u32 \<Rightarrow> nat" where
  "pt_index va = unat va div 4096 mod 1024"

definition present :: "u32 \<Rightarrow> bool" where
  "present e \<longleftrightarrow> e AND 1 \<noteq> 0"

text \<open>The frame a virtual address is mapped to.\<close>

definition translate :: "machine \<Rightarrow> u32 \<Rightarrow> nat option" where
  "translate s va =
     (let pde = phys s (word_addr (frame_of (cr3 s)) (pd_index va)) in
      if \<not> present pde then None
      else
        let pte = phys s (word_addr (frame_of pde) (pt_index va)) in
        if \<not> present pte then None else Some (frame_of pte))"

definition vread :: "machine \<Rightarrow> u32 \<Rightarrow> u32 result" where
  "vread s va =
     (case translate s va of
        None \<Rightarrow> Inl Page_fault
      | Some frame \<Rightarrow> Inr (phys s (of_nat (4096 * frame + unat va mod 4096))))"

definition vwrite :: "machine \<Rightarrow> u32 \<Rightarrow> u32 \<Rightarrow> machine result" where
  "vwrite s va v =
     (case translate s va of
        None \<Rightarrow> Inl Page_fault
      | Some frame \<Rightarrow> Inr (s\<lparr>phys := (phys s)(of_nat (4096 * frame + unat va mod 4096) := v)\<rparr>))"

section \<open>The end of the heap\<close>

definition heap_start :: u32 where
  "heap_start = 50 * 1024 * 1024"

text \<open>\<^verbatim>\<open>heap_end\<close> is a pointer to 4-byte words, so \<^verbatim>\<open>+= incr\<close> moves it by that many words.\<close>

definition brk :: "u32 \<Rightarrow> u32 \<Rightarrow> int \<times> u32" where
  "brk heap_end addr = (0, addr)"

definition sbrk :: "u32 \<Rightarrow> u32 \<Rightarrow> u32 \<times> u32" where
  "sbrk heap_end incr = (heap_end, heap_end + 4 * incr)"

section \<open>Mapping a page\<close>

function init_table_loop :: "machine \<Rightarrow> u32 \<Rightarrow> nat \<Rightarrow> machine result" where
  "init_table_loop s page_table_ptr i =
     (if i < 1024 then
        and_then (vwrite s (page_table_ptr + 4 * of_nat i) 0x00000002) (\<lambda>s'.
        init_table_loop s' page_table_ptr (Suc i))
      else Inr s)"
  by pat_completeness auto
termination by (relation "measure (\<lambda>(s, p, i). 1024 - i)") auto

declare init_table_loop.simps [simp del]

definition initialize_page_table :: "machine \<Rightarrow> u32 \<Rightarrow> u32 \<Rightarrow> machine result" where
  "initialize_page_table s page_table_ptr page_table_frame_address_physical =
     and_then (init_table_loop s page_table_ptr 0) (\<lambda>s1.
     vwrite s1 (page_table_ptr + 4 * 1023) page_table_frame_address_physical)"

text \<open>\<^verbatim>\<open>*ptr |= bits\<close>\<close>

definition vor :: "machine \<Rightarrow> u32 \<Rightarrow> u32 \<Rightarrow> machine result" where
  "vor s va bits = and_then (vread s va) (\<lambda>v. vwrite s va (v OR bits))"

text \<open>The installation of a page table into an absent entry of the directory.\<close>

definition install_page_table :: "machine \<Rightarrow> u32 \<Rightarrow> u32 \<Rightarrow> u32 \<Rightarrow> machine result" where
  "install_page_table s page_directory_ptr page_table_ptr frame_address =
     and_then (vwrite s page_directory_ptr 0) (\<lambda>s1.
     and_then (vwrite s1 page_directory_ptr frame_address) (\<lambda>s2.
     and_then (vor s2 page_directory_ptr 3) (\<lambda>s3.
     initialize_page_table s3 page_table_ptr frame_address)))"

definition setup_page :: "machine \<Rightarrow> u32 \<Rightarrow> machine result" where
  "setup_page s virtual_address =
     and_then (next_free_frame_index (frames_bitmap s) BITMAP_ELEMENT_COUNT) (\<lambda>page_table_frame_index.
     if page_table_frame_index < 0 then Inr (s\<lparr>printed := printed s @ [no_free_frames]\<rparr>)
     else
       and_then (bitmap_set (frames_bitmap s) BITMAP_ELEMENT_COUNT (of_int page_table_frame_index) 1) (\<lambda>(_, bitmap1).
       let s1 = s\<lparr>frames_bitmap := bitmap1\<rparr>;
           page_table_frame_address_physical = of_int (page_table_frame_index * 0x1000);
           page_directory_index = virtual_address div (4 * 1024 * 1024);
           page_table_index = (virtual_address mod (4 * 1024 * 1024)) div (4 * 1024);
           page_table_ptr = 0xFFC00000 + page_directory_index * 0x1000;
           page_directory_ptr = 0xFFFFF000 + page_directory_index * 4
       in
       and_then (vread s1 page_directory_ptr) (\<lambda>pde.
       and_then
         (if pde AND 1 = 0
          then install_page_table s1 page_directory_ptr page_table_ptr page_table_frame_address_physical
          else Inr s1) (\<lambda>s2.
       and_then (next_free_frame_index (frames_bitmap s2) BITMAP_ELEMENT_COUNT) (\<lambda>data_frame_index.
       if data_frame_index < 0 then Inr s2
       else
         and_then (bitmap_set (frames_bitmap s2) BITMAP_ELEMENT_COUNT (of_int data_frame_index) 1) (\<lambda>(_, bitmap2).
         let s3 = s2\<lparr>frames_bitmap := bitmap2\<rparr>;
             data_frame_address_physical = of_int (data_frame_index * 0x1000)
         in
         and_then (vwrite s3 (page_table_ptr + 4 * page_table_index) data_frame_address_physical) (\<lambda>s4.
         vor s4 (page_table_ptr + 4 * page_table_index) 1)))))))"

text \<open>The handler reads the faulting address out of \<open>cr2\<close>; the decoded error bits are not used.\<close>

definition page_fault_interrupt_handler :: "u32 \<Rightarrow> machine \<Rightarrow> machine result" where
  "page_fault_interrupt_handler faulting_address s = setup_page s faulting_address"

text \<open>\<^verbatim>\<open>dump_table\<close> prints the numbers of the present entries below 1023.\<close>

function dump_loop :: "machine \<Rightarrow> u32 \<Rightarrow> nat \<Rightarrow> nat list result" where
  "dump_loop s table_ptr i =
     (if i < 1023 then
        and_then (vread s (table_ptr + 4 * of_nat i)) (\<lambda>page_table_entry.
        and_then (dump_loop s table_ptr (Suc i)) (\<lambda>rest.
        Inr (if page_table_entry AND 1 \<noteq> 0 then i # rest else rest)))
      else Inr [])"
  by pat_completeness auto
termination by (relation "measure (\<lambda>(s, p, i). 1023 - i)") auto

declare dump_loop.simps [simp del]

definition dump_table :: "machine \<Rightarrow> u32 \<Rightarrow> nat list result" where
  "dump_table s table_ptr = dump_loop s table_ptr 0"

end
