(* ===== verification/Paging_Correct.thy ===== *)
theory Paging_Correct
  imports Paging
begin

text \<open>
  Correctness of the page mapping. The virtual addresses the code computes are shown to reach the
  entries of the page directory and of the page tables through the recursive entry; with that,
  \<open>setup_page\<close> is a change of at most one directory entry, one fresh page table and one entry of a
  table. The invariant \<open>paging_wf\<close> says that the directory and the page tables lie in distinct frames
  that the bitmap marks as used, so that a fresh frame is none of them.
\<close>

section \<open>Words of frames\<close>

definition word_at :: "machine \<Rightarrow> nat \<Rightarrow> nat \<Rightarrow> u32" where
  "word_at s k i = phys s (word_addr k i)"

definition set_word :: "machine \<Rightarrow> nat \<Rightarrow> nat \<Rightarrow> u32 \<Rightarrow> machine" where
  "set_word s k i v = s\<lparr>phys := (phys s)(word_addr k i := v)\<rparr>"

lemma div_mod_split:
  fixes x q m r :: nat
  assumes "x = q * m + r" "r < m"
  shows "x div m = q" "x mod m = r"
  using assms by simp_all

lemma unat_word_addr: "k < 2 ^ 20 \<Longrightarrow> i < 1024 \<Longrightarrow> unat (word_addr k i) = 4096 * k + 4 * i"
  unfolding word_addr_def unat_of_nat by simp

lemma word_addr_inj:
  assumes "k < 2 ^ 20" "i < 1024" "k' < 2 ^ 20" "i' < 1024"
  shows "word_addr k i = word_addr k' i' \<longleftrightarrow> k = k' \<and> i = i'"
proof
  assume "word_addr k i = word_addr k' i'"
  then have eq: "4096 * k + 4 * i = 4096 * k' + 4 * i'"
    using unat_word_addr [OF assms(1,2)] unat_word_addr [OF assms(3,4)] by simp
  have "k = k'" "4 * i = 4 * i'"
    using div_mod_split [of "4096 * k + 4 * i" k 4096 "4 * i"]
      div_mod_split [of "4096 * k + 4 * i" k' 4096 "4 * i'"] assms(2,4) eq by simp_all
  then show "k = k' \<and> i = i'" by simp
qed simp

lemma frame_of_bound: "frame_of x < 2 ^ 20"
  using unat_bound [of x] by (simp add: frame_of_def less_mult_imp_div_less)

lemma frame_of_word_addr: "k < 2 ^ 20 \<Longrightarrow> i < 1024 \<Longrightarrow> frame_of (word_addr k i) = k"
  by (simp add: frame_of_def unat_word_addr)

lemma pd_index_bound: "pd_index va < 1024"
  using unat_bound [of va] by (simp add: pd_index_def less_mult_imp_div_less)

lemma pt_index_bound: "pt_index va < 1024"
  by (simp add: pt_index_def)

lemma word_at_set_word:
  "k < 2 ^ 20 \<Longrightarrow> i < 1024 \<Longrightarrow> k' < 2 ^ 20 \<Longrightarrow> i' < 1024 \<Longrightarrow>
    word_at (set_word s k i v) k' i' = (if k' = k \<and> i' = i then v else word_at s k' i')"
  by (simp add: word_at_def set_word_def word_addr_inj)

lemma word_at_set_word_same [simp]: "word_at (set_word s k i v) k i = v"
  by (simp add: word_at_def set_word_def)

lemma set_word_fields [simp]:
  "cr3 (set_word s k i v) = cr3 s" "frames_bitmap (set_word s k i v) = frames_bitmap s"
  by (simp_all add: set_word_def)

lemma set_word_twice [simp]: "set_word (set_word s k i v) k i w = set_word s k i w"
  by (simp add: set_word_def)

lemma present_bit: "present e \<longleftrightarrow> bit e 0"
  using and_single_eq_0 [of e 0] by (simp add: present_def)

lemma word_addr_shift: "word_addr k i = push_bit 2 (of_nat (1024 * k + i))"
  by (simp add: word_addr_def push_bit_eq_mult)

lemma word_addr_absent: "\<not> present (word_addr k i)"
  by (simp add: present_bit word_addr_shift bit_push_bit_iff)

lemma frame_of_drop_bit: "frame_of x = unat (drop_bit 12 x)"
  by (simp add: frame_of_def drop_bit_eq_div unat_div)

text \<open>A table entry: the address of a frame with attribute bits below the address.\<close>

lemma entry_with_bits:
  assumes "k < 2 ^ 20" "drop_bit 12 bits = 0"
  shows "frame_of (word_addr k 0 OR bits) = k"
proof -
  have "frame_of (word_addr k 0 OR bits) = unat (drop_bit 12 (word_addr k 0))"
    using assms(2) by (simp add: frame_of_drop_bit drop_bit_or)
  then show ?thesis using frame_of_word_addr [OF assms(1), of 0] by (simp add: frame_of_drop_bit)
qed

lemma entry_present: "bit bits 0 \<Longrightarrow> present (e OR bits)"
  by (simp add: present_bit bit_or_iff)

lemma frame_address: "of_int (int k * 0x1000) = word_addr k 0"
  by (simp add: word_addr_def)

section \<open>The recursive entry\<close>

abbreviation dir :: "machine \<Rightarrow> nat" where
  "dir s \<equiv> frame_of (cr3 s)"

definition pde :: "machine \<Rightarrow> nat \<Rightarrow> u32" where
  "pde s d = word_at s (dir s) d"

definition recursive :: "machine \<Rightarrow> bool" where
  "recursive s \<longleftrightarrow> present (pde s 1023) \<and> frame_of (pde s 1023) = dir s"

lemma translate_eq:
  "translate s va =
     (if \<not> present (pde s (pd_index va)) then None
      else let pte = word_at s (frame_of (pde s (pd_index va))) (pt_index va) in
        if \<not> present pte then None else Some (frame_of pte))"
  by (simp add: translate_def word_at_def pde_def Let_def)

text \<open>The virtual addresses of a directory entry and of a word of a page table.\<close>

definition pd_ptr :: "nat \<Rightarrow> u32" where
  "pd_ptr d = 0xFFFFF000 + of_nat d * 4"

definition pt_base :: "nat \<Rightarrow> u32" where
  "pt_base d = 0xFFC00000 + of_nat d * 0x1000"

definition pt_ptr :: "nat \<Rightarrow> nat \<Rightarrow> u32" where
  "pt_ptr d i = pt_base d + 4 * of_nat i"

lemma unat_pd_ptr: "d < 1024 \<Longrightarrow> unat (pd_ptr d) = 0xFFFFF000 + 4 * d"
proof -
  assume d: "d < 1024"
  have "pd_ptr d = of_nat (0xFFFFF000 + 4 * d)" by (simp add: pd_ptr_def)
  then show ?thesis using d by (simp only: unat_of_nat) simp
qed

lemma unat_pt_ptr: "d < 1024 \<Longrightarrow> i < 1024 \<Longrightarrow> unat (pt_ptr d i) = 0xFFC00000 + 4096 * d + 4 * i"
proof -
  assume d: "d < 1024" "i < 1024"
  have "pt_ptr d i = of_nat (0xFFC00000 + 4096 * d + 4 * i)" by (simp add: pt_ptr_def pt_base_def)
  then show ?thesis using d by (simp only: unat_of_nat) simp
qed

lemma pd_ptr_indices:
  assumes "d < 1024"
  shows "pd_index (pd_ptr d) = 1023" "pt_index (pd_ptr d) = 1023" "unat (pd_ptr d) mod 4096 = 4 * d"
proof -
  show "pd_index (pd_ptr d) = 1023"
    unfolding pd_index_def unat_pd_ptr [OF assms]
    by (rule div_mod_split(1) [of _ _ _ "4190208 + 4 * d"]) (use assms in simp_all)
  have "(0xFFFFF000 + 4 * d) div 4096 = 1048575" "(0xFFFFF000 + 4 * d) mod 4096 = 4 * d"
    using div_mod_split [of "0xFFFFF000 + 4 * d" 1048575 4096 "4 * d"] assms by simp_all
  then show "pt_index (pd_ptr d) = 1023" "unat (pd_ptr d) mod 4096 = 4 * d"
    unfolding pt_index_def unat_pd_ptr [OF assms] by simp_all
qed

lemma pt_ptr_indices:
  assumes "d < 1024" "i < 1024"
  shows "pd_index (pt_ptr d i) = 1023" "pt_index (pt_ptr d i) = d" "unat (pt_ptr d i) mod 4096 = 4 * i"
proof -
  show "pd_index (pt_ptr d i) = 1023"
    unfolding pd_index_def unat_pt_ptr [OF assms]
    by (rule div_mod_split(1) [of _ _ _ "4096 * d + 4 * i"]) (use assms in simp_all)
  have "(0xFFC00000 + 4096 * d + 4 * i) div 4096 = 1047552 + d" "(0xFFC00000 + 4096 * d + 4 * i) mod 4096 = 4 * i"
    using div_mod_split [of "0xFFC00000 + 4096 * d + 4 * i" "1047552 + d" 4096 "4 * i"] assms by simp_all
  moreover have "(1047552 + d) mod 1024 = d"
    by (rule div_mod_split(2) [of _ 1023]) (use assms in simp_all)
  ultimately show "pt_index (pt_ptr d i) = d" "unat (pt_ptr d i) mod 4096 = 4 * i"
    unfolding pt_index_def unat_pt_ptr [OF assms] by simp_all
qed

lemma translate_pd_ptr: "recursive s \<Longrightarrow> d < 1024 \<Longrightarrow> translate s (pd_ptr d) = Some (dir s)"
  by (simp add: translate_eq pd_ptr_indices recursive_def pde_def Let_def)

lemma translate_pt_ptr:
  assumes "recursive s" "d < 1024" "i < 1024" "present (pde s d)"
  shows "translate s (pt_ptr d i) = Some (frame_of (pde s d))"
  using assms by (simp add: translate_eq pt_ptr_indices recursive_def pde_def Let_def)

named_theorems recursive_access \<open>accesses of the directory and of page tables through the recursive entry\<close>

lemma access_pd [recursive_access]:
  assumes "recursive s" "d < 1024"
  shows "vread s (pd_ptr d) = Inr (pde s d)" "vwrite s (pd_ptr d) v = Inr (set_word s (dir s) d v)"
  using translate_pd_ptr [OF assms] pd_ptr_indices(3) [OF assms(2)]
  by (simp_all add: vread_def vwrite_def pde_def word_at_def set_word_def word_addr_def)

lemma access_pt [recursive_access]:
  assumes "recursive s" "d < 1024" "i < 1024" "present (pde s d)"
  shows "vread s (pt_ptr d i) = Inr (word_at s (frame_of (pde s d)) i)"
    "vwrite s (pt_ptr d i) v = Inr (set_word s (frame_of (pde s d)) i v)"
  using translate_pt_ptr [OF assms] pt_ptr_indices(3) [OF assms(2,3)]
  by (simp_all add: vread_def vwrite_def word_at_def set_word_def word_addr_def)

lemma code_pointers:
  "va div (4 * 1024 * 1024) = of_nat (pd_index va)"
  "(va mod (4 * 1024 * 1024)) div (4 * 1024) = of_nat (pt_index va)"
proof -
  have "unat (of_nat (pd_index va) :: u32) = pd_index va"
    using pd_index_bound [of va] by (simp add: unat_of_nat)
  then show "va div (4 * 1024 * 1024) = of_nat (pd_index va)"
    by (simp add: word_eq_unat pd_index_def unat_div)
  have "(4194304 :: nat) = 4096 * 1024" by simp
  then have "unat va mod 4194304 div 4096 = unat va div 4096 mod 1024"
    by (simp only: mod_mult2_eq)
  moreover have "unat (of_nat (pt_index va) :: u32) = pt_index va"
    using pt_index_bound [of va] by (simp add: unat_of_nat)
  ultimately show "(va mod (4 * 1024 * 1024)) div (4 * 1024) = of_nat (pt_index va)"
    by (simp add: word_eq_unat pt_index_def unat_div unat_mod)
qed

section \<open>Changes that keep the recursive entry\<close>

lemma pde_set_word:
  assumes "k < 2 ^ 20" "i < 1024" "d < 1024"
  shows "pde (set_word s k i v) d = (if k = dir s \<and> i = d then v else pde s d)"
  using assms frame_of_bound [of "cr3 s"] by (auto simp: pde_def word_at_set_word)

lemma recursive_set_word:
  assumes "recursive s" "k < 2 ^ 20" "i < 1024" "k \<noteq> dir s \<or> i \<noteq> 1023"
  shows "recursive (set_word s k i v)"
  using assms pde_set_word [of k i 1023 s v] by (auto simp: recursive_def)

text \<open>The words \<open>i\<close> to 1023 of a frame filled with 2.\<close>

definition filled :: "(u32 \<Rightarrow> u32) \<Rightarrow> nat \<Rightarrow> nat \<Rightarrow> u32 \<Rightarrow> u32" where
  "filled mem k i a = (if \<exists>j. i \<le> j \<and> j < 1024 \<and> a = word_addr k j then 2 else mem a)"

definition fill :: "machine \<Rightarrow> nat \<Rightarrow> nat \<Rightarrow> machine" where
  "fill s k i = s\<lparr>phys := filled (phys s) k i\<rparr>"

lemma fill_step:
  assumes "i < 1024"
  shows "fill (set_word s k i 2) k (Suc i) = fill s k i"
proof -
  have "filled ((phys s)(word_addr k i := 2)) k (Suc i) = filled (phys s) k i"
    using assms by (intro ext) (auto simp: filled_def Suc_le_eq le_less)
  then show ?thesis by (simp add: fill_def set_word_def)
qed

lemma fill_none: "fill s k 1024 = s"
proof -
  have "filled (phys s) k 1024 = phys s" by (intro ext) (auto simp: filled_def)
  then show ?thesis by (simp add: fill_def)
qed

lemma fill_fields [simp]: "cr3 (fill s k i) = cr3 s" "frames_bitmap (fill s k i) = frames_bitmap s"
  by (simp_all add: fill_def)

lemma word_at_fill:
  "k < 2 ^ 20 \<Longrightarrow> k' < 2 ^ 20 \<Longrightarrow> j < 1024 \<Longrightarrow>
    word_at (fill s k i) k' j = (if k' = k \<and> i \<le> j then 2 else word_at s k' j)"
  by (auto simp: word_at_def fill_def filled_def word_addr_inj)

lemma init_table_loop_eq:
  assumes "recursive s" "d < 1024" "present (pde s d)" "frame_of (pde s d) \<noteq> dir s" "i \<le> 1024"
  shows "init_table_loop s (pt_base d) i = Inr (fill s (frame_of (pde s d)) i)"
  using assms
proof (induction "1024 - i" arbitrary: i s)
  case 0
  then show ?case by (subst init_table_loop.simps) (simp add: fill_none)
next
  case (Suc n)
  then have i: "i < 1024" "n = 1024 - Suc i" by simp_all
  let ?T = "frame_of (pde s d)"
  let ?s = "set_word s ?T i 2"
  have same: "pde ?s d = pde s d" "dir ?s = dir s"
    using Suc.prems(2,4) i(1) frame_of_bound by (simp_all add: pde_set_word)
  have "recursive ?s" by (rule recursive_set_word) (use Suc.prems(1,4) i(1) frame_of_bound in auto)
  then have IH: "init_table_loop ?s (pt_base d) (Suc i) = Inr (fill ?s ?T (Suc i))"
    using Suc.hyps(1) [OF i(2), of ?s] Suc.prems(2-4) same i(1) by simp
  have "vwrite s (pt_base d + 4 * of_nat i) 2 = Inr ?s"
    using access_pt(2) [OF Suc.prems(1,2) i(1) Suc.prems(3)] by (simp add: pt_ptr_def)
  then show ?case using i(1) IH fill_step [OF i(1)] by (subst init_table_loop.simps) simp
qed

section \<open>Installing a page table\<close>

definition installed :: "machine \<Rightarrow> nat \<Rightarrow> nat \<Rightarrow> machine" where
  "installed s d k =
     set_word (fill (set_word s (dir s) d (word_addr k 0 OR 3)) k 0) k 1023 (word_addr k 0)"

lemma installed_fields [simp]:
  "cr3 (installed s d k) = cr3 s" "frames_bitmap (installed s d k) = frames_bitmap s"
  by (simp_all add: installed_def)

lemma table_entry: "k < 2 ^ 20 \<Longrightarrow> frame_of (word_addr k 0 OR 3) = k \<and> present (word_addr k 0 OR 3)"
  by (simp add: entry_with_bits entry_present)

lemma data_entry: "k < 2 ^ 20 \<Longrightarrow> frame_of (word_addr k 0 OR 1) = k \<and> present (word_addr k 0 OR 1)"
  by (simp add: entry_with_bits entry_present)

lemma word_at_installed:
  assumes "k < 2 ^ 20" "k \<noteq> dir s" "d < 1024" "k' < 2 ^ 20" "j < 1024"
  shows "word_at (installed s d k) k' j =
    (if k' = k then (if j = 1023 then word_addr k 0 else 2)
     else if k' = dir s \<and> j = d then word_addr k 0 OR 3 else word_at s k' j)"
  using assms frame_of_bound [of "cr3 s"]
  by (simp add: installed_def word_at_set_word word_at_fill)

lemma pde_installed:
  assumes "k < 2 ^ 20" "k \<noteq> dir s" "d < 1024" "d' < 1024"
  shows "pde (installed s d k) d' = (if d' = d then word_addr k 0 OR 3 else pde s d')"
  using assms word_at_installed [OF assms(1-3), of "dir s" d'] frame_of_bound [of "cr3 s"]
  by (simp add: pde_def)

lemma recursive_installed:
  "recursive s \<Longrightarrow> k < 2 ^ 20 \<Longrightarrow> k \<noteq> dir s \<Longrightarrow> d < 1023 \<Longrightarrow> recursive (installed s d k)"
  by (simp add: recursive_def pde_installed)

lemma install_page_table_eq:
  assumes "recursive s" "d < 1023" "k < 2 ^ 20" "k \<noteq> dir s"
  shows "install_page_table s (pd_ptr d) (pt_base d) (word_addr k 0) = Inr (installed s d k)"
proof -
  have d: "d < 1024" using assms(2) by simp
  note dir_bound = frame_of_bound [of "cr3 s"]
  have rec: "recursive (set_word s (dir s) d v)" for v
    by (rule recursive_set_word [OF assms(1) dir_bound d]) (use assms(2) in simp)
  have entry: "pde (set_word s (dir s) d v) d = v" for v
    using pde_set_word [OF dir_bound d d] by simp
  let ?t = "set_word s (dir s) d (word_addr k 0 OR 3)"
  have t: "present (pde ?t d)" "frame_of (pde ?t d) = k" "dir ?t = dir s"
    using entry table_entry [OF assms(3)] by simp_all
  have fill: "init_table_loop ?t (pt_base d) 0 = Inr (fill ?t k 0)"
    using init_table_loop_eq [OF rec d t(1), of 0] t(2,3) assms(4) by simp
  have same: "pde (fill ?t k 0) d' = pde ?t d'" if "d' < 1024" for d'
    using that assms(3,4) dir_bound by (simp add: pde_def word_at_fill)
  have "recursive (fill ?t k 0)" using rec same [of 1023] by (simp add: recursive_def)
  then have last: "vwrite (fill ?t k 0) (pt_ptr d 1023) v = Inr (set_word (fill ?t k 0) k 1023 v)" for v
    using access_pt(2) [of "fill ?t k 0" d 1023] d t same [OF d] by simp
  have "initialize_page_table ?t (pt_base d) (word_addr k 0) = Inr (installed s d k)"
    using fill last by (simp add: initialize_page_table_def installed_def pt_ptr_def)
  then show ?thesis
    using access_pd [OF assms(1) d] access_pd [OF rec d] entry
    by (simp add: install_page_table_def vor_def)
qed

section \<open>The invariant\<close>

definition used :: "machine \<Rightarrow> nat set" where
  "used s = used_frames (frames_bitmap s)"

definition paging_wf :: "machine \<Rightarrow> bool" where
  "paging_wf s \<longleftrightarrow> bitmap_wf BITMAP_ELEMENT_COUNT (frames_bitmap s) \<and> recursive s \<and> dir s \<in> used s \<and>
    (\<forall>d < 1023. present (pde s d) \<longrightarrow> frame_of (pde s d) \<in> used s \<and> frame_of (pde s d) \<noteq> dir s) \<and>
    (\<forall>d < 1023. \<forall>d' < 1023. present (pde s d) \<and> present (pde s d') \<and> frame_of (pde s d) = frame_of (pde s d') \<longrightarrow> d = d')"

lemma frames_below: "paging_wf s \<Longrightarrow> k < 32 * length (frames_bitmap s) \<Longrightarrow> k < 2 ^ 20"
  using kernel_bitmap_capacity [of "frames_bitmap s"] by (simp add: paging_wf_def)

text \<open>The state between the two halves of \<open>setup_page\<close>: the page table is there.\<close>

definition with_table :: "machine \<Rightarrow> nat \<Rightarrow> nat \<Rightarrow> machine" where
  "with_table s d k = (if present (pde s d) then s else installed s d k)"

lemma with_table_bitmap [simp]:
  "frames_bitmap (with_table s d k) = frames_bitmap s" "cr3 (with_table s d k) = cr3 s"
  by (simp_all add: with_table_def)

lemma fields_bitmap [simp]:
  "pde (s\<lparr>frames_bitmap := b\<rparr>) = pde s" "recursive (s\<lparr>frames_bitmap := b\<rparr>) = recursive s"
  "word_at (s\<lparr>frames_bitmap := b\<rparr>) = word_at s" "translate (s\<lparr>frames_bitmap := b\<rparr>) = translate s"
  by (auto simp: pde_def word_at_def recursive_def translate_def Let_def fun_eq_iff)

lemma with_table_entry:
  assumes "recursive s" "d < 1023" "k < 2 ^ 20" "k \<noteq> dir s" "present (pde s d) \<Longrightarrow> frame_of (pde s d) \<noteq> dir s"
  shows "recursive (with_table s d k)" "present (pde (with_table s d k) d)"
    "frame_of (pde (with_table s d k) d) = (if present (pde s d) then frame_of (pde s d) else k)"
    "frame_of (pde (with_table s d k) d) \<noteq> dir s"
    "\<And>d'. d' < 1024 \<Longrightarrow> d' \<noteq> d \<Longrightarrow> pde (with_table s d k) d' = pde s d'"
  using assms table_entry [OF assms(3)]
  by (auto simp: with_table_def recursive_installed pde_installed)

lemma setup_page_pointers:
  "setup_page s va =
     and_then (next_free_frame_index (frames_bitmap s) BITMAP_ELEMENT_COUNT) (\<lambda>f.
     if f < 0 then Inr (s\<lparr>printed := printed s @ [no_free_frames]\<rparr>)
     else
       and_then (bitmap_set (frames_bitmap s) BITMAP_ELEMENT_COUNT (of_int f) 1) (\<lambda>(_, b1).
       and_then (vread (s\<lparr>frames_bitmap := b1\<rparr>) (pd_ptr (pd_index va))) (\<lambda>e.
       and_then
         (if e AND 1 = 0
          then install_page_table (s\<lparr>frames_bitmap := b1\<rparr>) (pd_ptr (pd_index va))
            (pt_base (pd_index va)) (of_int (f * 0x1000))
          else Inr (s\<lparr>frames_bitmap := b1\<rparr>)) (\<lambda>s2.
       and_then (next_free_frame_index (frames_bitmap s2) BITMAP_ELEMENT_COUNT) (\<lambda>g.
       if g < 0 then Inr s2
       else
         and_then (bitmap_set (frames_bitmap s2) BITMAP_ELEMENT_COUNT (of_int g) 1) (\<lambda>(_, b2).
         and_then (vwrite (s2\<lparr>frames_bitmap := b2\<rparr>) (pt_ptr (pd_index va) (pt_index va)) (of_int (g * 0x1000)))
           (\<lambda>s4. vor s4 (pt_ptr (pd_index va) (pt_index va)) 1)))))))"
  unfolding setup_page_def Let_def code_pointers pd_ptr_def pt_ptr_def pt_base_def by (rule refl)

lemma setup_page_eq:
  assumes "paging_wf s" "pd_index va < 1023"
    and "next_free_frame_index (frames_bitmap s) BITMAP_ELEMENT_COUNT = Inr (int k1)"
    and "bitmap_set (frames_bitmap s) BITMAP_ELEMENT_COUNT (of_nat k1) 1 = Inr (0, b1)"
    and "next_free_frame_index b1 BITMAP_ELEMENT_COUNT = Inr (int k2)"
    and "bitmap_set b1 BITMAP_ELEMENT_COUNT (of_nat k2) 1 = Inr (0, b2)"
    and "k1 < 2 ^ 20" "k2 < 2 ^ 20" "k1 \<noteq> dir s"
  defines "t \<equiv> with_table (s\<lparr>frames_bitmap := b1\<rparr>) (pd_index va) k1"
  shows "setup_page s va = Inr (set_word (t\<lparr>frames_bitmap := b2\<rparr>)
    (frame_of (pde t (pd_index va))) (pt_index va) (word_addr k2 0 OR 1))"
proof -
  let ?s1 = "s\<lparr>frames_bitmap := b1\<rparr>" and ?d = "pd_index va" and ?i = "pt_index va"
  have rec: "recursive ?s1" and d: "?d < 1024" using assms(1,2) by (simp_all add: paging_wf_def)
  have T: "present (pde ?s1 ?d) \<Longrightarrow> frame_of (pde ?s1 ?d) \<noteq> dir ?s1"
    using assms(1,2) by (simp add: paging_wf_def)
  note table = with_table_entry [OF rec assms(2,7) _ T, folded t_def, simplified, OF assms(9)]
  have read: "vread ?s1 (pd_ptr ?d) = Inr (pde s ?d)" using access_pd(1) [OF rec d] by simp
  have "(if pde s ?d AND 1 = 0
      then install_page_table ?s1 (pd_ptr ?d) (pt_base ?d) (of_int (int k1 * 0x1000))
      else Inr ?s1) = Inr t"
    unfolding frame_address using install_page_table_eq [OF rec assms(2,7)] assms(9)
    by (simp add: t_def with_table_def present_def)
  moreover have "frames_bitmap t = b1" by (simp add: t_def)
  moreover
  let ?t = "t\<lparr>frames_bitmap := b2\<rparr>" and ?T = "frame_of (pde t ?d)"
  have t: "recursive ?t" "present (pde ?t ?d)" "?T \<noteq> dir ?t" using table by (simp_all add: t_def)
  let ?u = "set_word ?t ?T ?i (word_addr k2 0)"
  have stored: "vwrite ?t (pt_ptr ?d ?i) (word_addr k2 0) = Inr ?u"
    using access_pt(2) [OF t(1) d pt_index_bound t(2)] by simp
  have u: "recursive ?u" "pde ?u ?d = pde t ?d"
    using recursive_set_word [OF t(1) frame_of_bound pt_index_bound] t(3) pde_set_word [OF frame_of_bound pt_index_bound d]
    by simp_all
  then have "vor ?u (pt_ptr ?d ?i) 1 = Inr (set_word ?t ?T ?i (word_addr k2 0 OR 1))"
    using access_pt [OF u(1) d pt_index_bound] t(2)
    by (simp add: vor_def)
  ultimately show ?thesis
    using assms(3-6) read stored
    by (simp add: setup_page_pointers frame_address [simplified] split del: if_split)
qed

section \<open>The effect of mapping a page\<close>

text \<open>Storing an entry for the page of \<open>va\<close> in the state in which its page table is there.\<close>

definition mapped :: "machine \<Rightarrow> u32 \<Rightarrow> nat \<Rightarrow> nat \<Rightarrow> machine" where
  "mapped s va k1 k2 =
     set_word (with_table s (pd_index va) k1) (frame_of (pde (with_table s (pd_index va) k1) (pd_index va)))
       (pt_index va) (word_addr k2 0 OR 1)"

lemma page_split: "pd_index w = pd_index va \<Longrightarrow> pt_index w = pt_index va \<Longrightarrow> unat w div 4096 = unat va div 4096"
proof -
  have "unat x div 4096 = 1024 * pd_index x + pt_index x" for x :: u32
    by (simp add: pd_index_def pt_index_def div_mult2_eq [of "unat x" 4096 1024, simplified])
  then show "pd_index w = pd_index va \<Longrightarrow> pt_index w = pt_index va \<Longrightarrow> unat w div 4096 = unat va div 4096"
    by simp
qed

lemma entry_rules:
  assumes "paging_wf s" "k \<notin> used s"
  shows "k \<noteq> dir s"
    "d < 1023 \<Longrightarrow> present (pde s d) \<Longrightarrow>
      frame_of (pde s d) \<in> used s \<and> frame_of (pde s d) \<noteq> dir s \<and> frame_of (pde s d) \<noteq> k"
    "d < 1023 \<Longrightarrow> d' < 1023 \<Longrightarrow> present (pde s d) \<Longrightarrow> present (pde s d') \<Longrightarrow>
      frame_of (pde s d) = frame_of (pde s d') \<Longrightarrow> d = d'"
  using assms by (auto simp: paging_wf_def)

text \<open>The directory and the words of the other tables after mapping.\<close>

lemma mapped_words:
  fixes data :: nat
  assumes "paging_wf s" "pd_index va < 1023" "k1 \<notin> used s" "k1 < 2 ^ 20"
  defines "d \<equiv> pd_index va" and "s' \<equiv> mapped s va k1 data"
  defines "T \<equiv> (if present (pde s d) then frame_of (pde s d) else k1)"
  shows "dir s' = dir s" "T \<noteq> dir s'" "recursive s'" "present (pde s' d)" "frame_of (pde s' d) = T"
    "\<And>d'. d' < 1024 \<Longrightarrow> d' \<noteq> d \<Longrightarrow> pde s' d' = pde s d'"
    "word_at s' T (pt_index va) = word_addr data 0 OR 1"
    "\<And>j. j < 1024 \<Longrightarrow> j \<noteq> pt_index va \<Longrightarrow> word_at s' T j =
      (if present (pde s d) then word_at s T j else if j = 1023 then word_addr k1 0 else 2)"
    "\<And>k j. k < 2 ^ 20 \<Longrightarrow> j < 1024 \<Longrightarrow> k \<noteq> T \<Longrightarrow> k \<noteq> dir s \<Longrightarrow> word_at s' k j = word_at s k j"
proof -
  let ?t = "with_table s d k1"
  have d: "d < 1023" and rec: "recursive s" using assms(1,2) by (simp_all add: d_def paging_wf_def)
  note rules = entry_rules [OF assms(1,3)]
  note t = with_table_entry [OF rec d assms(4) rules(1)] 
  have T: "frame_of (pde ?t d) = T" "T \<noteq> dir s" "T < 2 ^ 20"
    using t(3,4) rules(2) [OF d] frame_of_bound assms(4) by (auto simp: T_def)
  have s': "s' = set_word ?t T (pt_index va) (word_addr data 0 OR 1)"
    by (simp add: s'_def mapped_def d_def [symmetric] T(1))
  show dir: "dir s' = dir s" by (simp add: s')
  show "T \<noteq> dir s'" using T(2) dir by simp
  have pde: "pde s' d' = pde ?t d'" if "d' < 1024" for d'
    using that T(2) pde_set_word [OF T(3) pt_index_bound that] by (simp add: s')
  show "recursive s'" using t(1) rules(2) [OF d] pde [of 1023] by (simp add: recursive_def dir)
  show "present (pde s' d)" "frame_of (pde s' d) = T"
    using t(2) rules(2) [OF d] pde [of d] d T(1) by simp_all
  show "pde s' d' = pde s d'" if "d' < 1024" "d' \<noteq> d" for d'
    using t(5) [OF _ that] rules(2) [OF d] pde that by simp
  show "word_at s' T (pt_index va) = word_addr data 0 OR 1" by (simp add: s')
  have word: "word_at s' k j = word_at ?t k j" if "k < 2 ^ 20" "j < 1024" "k \<noteq> T \<or> j \<noteq> pt_index va" for k j
    using that by (auto simp: s' word_at_set_word [OF T(3) pt_index_bound])
  show "word_at s' T j = (if present (pde s d) then word_at s T j else if j = 1023 then word_addr k1 0 else 2)"
    if "j < 1024" "j \<noteq> pt_index va" for j
    using word [OF T(3) that(1)] that d word_at_installed [OF assms(4) rules(1), of d T j] T(3)
    by (auto simp: with_table_def T_def)
  show "word_at s' k j = word_at s k j" if "k < 2 ^ 20" "j < 1024" "k \<noteq> T" "k \<noteq> dir s" for k j
    using word [OF that(1,2)] that d word_at_installed [OF assms(4) rules(1), of d k j]
    by (auto simp: with_table_def T_def split: if_splits)
qed

lemma mapped_translate:
  assumes "paging_wf s" "pd_index va < 1023" "k1 \<notin> used s" "k1 < 2 ^ 20" "k2 < 2 ^ 20"
  shows "translate (mapped s va k1 k2) va = Some k2"
    "pd_index w < 1023 \<Longrightarrow> unat w div 4096 \<noteq> unat va div 4096 \<Longrightarrow>
      translate (mapped s va k1 k2) w = translate s w"
proof -
  let ?d = "pd_index va" and ?s' = "mapped s va k1 k2"
  let ?T = "if present (pde s ?d) then frame_of (pde s ?d) else k1"
  note words = mapped_words [where data = k2, OF assms(1-4)]
  show "translate ?s' va = Some k2"
    using words(4,5,7) data_entry [OF assms(5)] by (simp add: translate_eq Let_def)
  assume w: "pd_index w < 1023" "unat w div 4096 \<noteq> unat va div 4096"
  show "translate ?s' w = translate s w"
  proof (cases "pd_index w = ?d")
    case True
    then have i: "pt_index w \<noteq> pt_index va" using page_split w(2) by blast
    have "translate ?s' w = (let pte = word_at ?s' ?T (pt_index w) in if \<not> present pte then None else Some (frame_of pte))"
      using words(4,5) True by (simp add: translate_eq)
    also have "word_at ?s' ?T (pt_index w) =
        (if present (pde s ?d) then word_at s ?T (pt_index w) else if pt_index w = 1023 then word_addr k1 0 else 2)"
      by (rule words(8) [OF pt_index_bound i])
    finally show ?thesis
      using True word_addr_absent [of k1 0] by (auto simp: translate_eq Let_def present_def)
  next
    case False
    then have pde: "pde ?s' (pd_index w) = pde s (pd_index w)" using words(6) w(1) by simp
    show ?thesis
    proof (cases "present (pde s (pd_index w))")
      case True
      note rules = entry_rules [OF assms(1,3)]
      have "frame_of (pde s (pd_index w)) \<noteq> ?T"
        using rules(2) [OF w(1) True] rules(3) [OF w(1) assms(2) True] False by auto
      then have "word_at ?s' (frame_of (pde s (pd_index w))) (pt_index w) =
          word_at s (frame_of (pde s (pd_index w))) (pt_index w)"
        using words(9) [OF frame_of_bound pt_index_bound] rules(2) [OF w(1) True] by blast
      then show ?thesis using pde by (simp add: translate_eq)
    qed (use pde in \<open>simp add: translate_eq\<close>)
  qed
qed

lemma mapped_wf:
  assumes "paging_wf s" "pd_index va < 1023" "k1 \<notin> used s" "k1 < 2 ^ 20"
    and "bitmap_wf BITMAP_ELEMENT_COUNT b" "used_frames b = insert k2 (insert k1 (used s))"
  shows "paging_wf ((mapped s va k1 k2)\<lparr>frames_bitmap := b\<rparr>)"
proof -
  let ?d = "pd_index va" and ?s' = "mapped s va k1 k2"
  let ?T = "if present (pde s ?d) then frame_of (pde s ?d) else k1"
  note words = mapped_words [where data = k2, OF assms(1-4)] and rules = entry_rules [OF assms(1,3)]
  have T: "?T \<in> insert k1 (used s)" using rules(2) [OF assms(2)] by auto
  have other: "frame_of (pde s d') \<in> used s \<and> frame_of (pde s d') \<noteq> dir s \<and> frame_of (pde s d') \<noteq> ?T"
    if "d' < 1023" "d' \<noteq> ?d" "present (pde s d')" for d'
    using rules(2) [OF that(1,3)] rules(3) [OF that(1) assms(2) that(3)] that(2) by auto
  have "dir s \<in> used s" using assms(1) by (simp add: paging_wf_def)
  moreover have "present (pde ?s' d') \<longrightarrow> frame_of (pde ?s' d') \<in> used_frames b \<and> frame_of (pde ?s' d') \<noteq> dir s"
    if "d' < 1023" for d'
    using words(1,2,4,5) words(6) [of d'] other [OF that] T that assms(6) by (cases "d' = ?d") auto
  moreover have "d1 = d2" if "d1 < 1023" "d2 < 1023" "present (pde ?s' d1)" "present (pde ?s' d2)"
    "frame_of (pde ?s' d1) = frame_of (pde ?s' d2)" for d1 d2
  proof -
    have same: "pde ?s' d' = pde s d'" if "d' < 1023" "d' \<noteq> ?d" for d' using words(6) that by simp
    consider "d1 = ?d" "d2 = ?d" | "d1 \<noteq> ?d" "d2 = ?d" | "d1 = ?d" "d2 \<noteq> ?d" | "d1 \<noteq> ?d" "d2 \<noteq> ?d" by blast
    then show ?thesis
    proof cases
      case 2
      then have "frame_of (pde s d1) = ?T" using that(5) same [OF that(1)] words(5) by simp
      then show ?thesis using other [OF that(1) 2(1)] that(3) same [OF that(1) 2(1)] by simp
    next
      case 3
      then have "frame_of (pde s d2) = ?T" using that(5) same [OF that(2)] words(5) by simp
      then show ?thesis using other [OF that(2) 3(2)] that(4) same [OF that(2) 3(2)] by simp
    next
      case 4
      then show ?thesis using rules(3) [OF that(1,2)] that(3-5) same [OF that(1)] same [OF that(2)] by simp
    qed simp
  qed
  ultimately show ?thesis
    using words(1,3) assms(5,6) by (auto simp: paging_wf_def used_def)
qed

text \<open>A frame that holds neither the directory nor a page table.\<close>

definition data_frame :: "machine \<Rightarrow> nat \<Rightarrow> bool" where
  "data_frame s k \<longleftrightarrow> k \<noteq> dir s \<and> (\<forall>d < 1023. present (pde s d) \<longrightarrow> frame_of (pde s d) \<noteq> k)"

lemma mapped_data_frame:
  assumes "paging_wf s" "pd_index va < 1023" "k1 \<notin> used s" "k1 < 2 ^ 20" "k2 \<notin> used s" "k1 \<noteq> k2"
  shows "data_frame (mapped s va k1 k2) k2"
proof -
  let ?d = "pd_index va" and ?s' = "mapped s va k1 k2"
  note words = mapped_words [where data = k2, OF assms(1-4)] and rules = entry_rules [OF assms(1,3)]
  have "dir s \<in> used s" using assms(1) by (simp add: paging_wf_def)
  moreover have "frame_of (pde ?s' d') \<noteq> k2" if "d' < 1023" "present (pde ?s' d')" for d'
    using words(5) words(6) [of d'] rules(2) [of d'] that assms(5,6) by (cases "d' = ?d") auto
  ultimately show ?thesis using words(1) assms(5) by (auto simp: data_frame_def)
qed

text \<open>The frames the pool can still hand out.\<close>

definition free_frames :: "machine \<Rightarrow> nat set" where
  "free_frames s = {..<32 * length (frames_bitmap s)} - used s"

lemma take_free_frame:
  assumes "bitmap_wf BITMAP_ELEMENT_COUNT m" "{..<32 * length m} - used_frames m \<noteq> {}"
  obtains k m' where "next_free_frame_index m BITMAP_ELEMENT_COUNT = Inr (int k)"
    "k \<in> {..<32 * length m} - used_frames m" "bitmap_set m BITMAP_ELEMENT_COUNT (of_nat k) 1 = Inr (0, m')"
    "bitmap_wf BITMAP_ELEMENT_COUNT m'" "length m' = length m" "used_frames m' = insert k (used_frames m)"
proof -
  from frames.next_free_total [OF assms(1)] assms(2)
  obtain j where "next_free_frame_index m BITMAP_ELEMENT_COUNT = Inr (int j)" by auto
  moreover from this obtain k m' where "int j = int k" "k < 32 * length m" "k \<notin> used_frames m"
    "bitmap_set m BITMAP_ELEMENT_COUNT (of_int (int j)) 1 = Inr (0, m')" "bitmap_wf BITMAP_ELEMENT_COUNT m'"
    "32 * length m' = 32 * length m" "used_frames m' = insert k (used_frames m)"
    by (rule frames.take_frame [OF assms(1)]) simp
  ultimately show thesis using that [of k m'] by simp
qed

lemma setup_page_takes_two:
  assumes "paging_wf s" "pd_index va < 1023" "2 \<le> card (free_frames s)"
  obtains k1 k2 b where "setup_page s va = Inr ((mapped s va k1 k2)\<lparr>frames_bitmap := b\<rparr>)"
    "k1 \<in> free_frames s" "k2 \<in> free_frames s" "k1 \<noteq> k2" "k1 < 2 ^ 20" "k2 < 2 ^ 20"
    "bitmap_wf BITMAP_ELEMENT_COUNT b" "length b = length (frames_bitmap s)"
    "used_frames b = insert k2 (insert k1 (used s))"
proof -
  have wf: "bitmap_wf BITMAP_ELEMENT_COUNT (frames_bitmap s)" using assms(1) by (simp add: paging_wf_def)
  have "free_frames s \<noteq> {}" using assms(3) by auto
  then obtain k1 b1 where k1: "next_free_frame_index (frames_bitmap s) BITMAP_ELEMENT_COUNT = Inr (int k1)"
    "k1 \<in> free_frames s" "bitmap_set (frames_bitmap s) BITMAP_ELEMENT_COUNT (of_nat k1) 1 = Inr (0, b1)"
    "bitmap_wf BITMAP_ELEMENT_COUNT b1" "length b1 = length (frames_bitmap s)" "used_frames b1 = insert k1 (used s)"
    using take_free_frame [OF wf] unfolding free_frames_def used_def by metis
  have "card (free_frames s - {k1}) = card (free_frames s) - 1"
    using k1(2) by (intro card_Diff_singleton)
  then have "0 < card (free_frames s - {k1})" using assms(3) by linarith
  then have "free_frames s - {k1} \<noteq> {}" by (metis card.empty less_numeral_extra(3))
  moreover have rest: "{..<32 * length b1} - used_frames b1 = free_frames s - {k1}"
    using k1(5,6) by (auto simp: free_frames_def)
  ultimately obtain k2 b2 where k2: "next_free_frame_index b1 BITMAP_ELEMENT_COUNT = Inr (int k2)"
    "k2 \<in> {..<32 * length b1} - used_frames b1" "bitmap_set b1 BITMAP_ELEMENT_COUNT (of_nat k2) 1 = Inr (0, b2)"
    "bitmap_wf BITMAP_ELEMENT_COUNT b2" "length b2 = length b1" "used_frames b2 = insert k2 (used_frames b1)"
    using take_free_frame [OF k1(4)] by metis
  have k2': "k2 \<in> free_frames s" "k2 \<noteq> k1" using k2(2) rest by auto
  have bounds: "k1 < 2 ^ 20" "k2 < 2 ^ 20"
    using k1(2) k2'(1) frames_below [OF assms(1)] by (auto simp: free_frames_def)
  have "k1 \<noteq> dir s" using assms(1) k1(2) by (auto simp: paging_wf_def free_frames_def)
  from setup_page_eq [OF assms(1,2) k1(1,3) k2(1,3) bounds this]
  have "setup_page s va = Inr ((mapped s va k1 k2)\<lparr>frames_bitmap := b2\<rparr>)"
    by (simp add: mapped_def with_table_def installed_def set_word_def fill_def pde_def word_at_def split: if_splits)
  then show thesis using that k1 k2 k2' bounds by simp
qed

lemma translate_bitmap: "translate (s\<lparr>frames_bitmap := b\<rparr>) = translate s"
  by simp

lemma setup_page_maps:
  assumes "paging_wf s" "pd_index va < 1023" "2 \<le> card (free_frames s)"
  obtains s' k1 k2 where "setup_page s va = Inr s'" "paging_wf s'" "translate s' va = Some k2"
    "k1 \<in> free_frames s" "k2 \<in> free_frames s" "k1 \<noteq> k2"
    "used s' = insert k2 (insert k1 (used s))" "free_frames s' = free_frames s - {k1, k2}"
    "\<And>w. pd_index w < 1023 \<Longrightarrow> unat w div 4096 \<noteq> unat va div 4096 \<Longrightarrow> translate s' w = translate s w"
    "data_frame s' k2" "printed s' = printed s"
proof -
  from setup_page_takes_two [OF assms] obtain k1 k2 b where k:
    "setup_page s va = Inr ((mapped s va k1 k2)\<lparr>frames_bitmap := b\<rparr>)"
    "k1 \<in> free_frames s" "k2 \<in> free_frames s" "k1 \<noteq> k2" "k1 < 2 ^ 20" "k2 < 2 ^ 20"
    "bitmap_wf BITMAP_ELEMENT_COUNT b" "length b = length (frames_bitmap s)"
    "used_frames b = insert k2 (insert k1 (used s))" by metis
  have fresh: "k1 \<notin> used s" using k(2) by (simp add: free_frames_def)
  show thesis
  proof (rule that [OF k(1)])
    show "paging_wf ((mapped s va k1 k2)\<lparr>frames_bitmap := b\<rparr>)"
      by (rule mapped_wf [OF assms(1,2) fresh k(5,7,9)])
    show "translate ((mapped s va k1 k2)\<lparr>frames_bitmap := b\<rparr>) va = Some k2"
      unfolding translate_bitmap by (rule mapped_translate(1) [OF assms(1,2) fresh k(5,6)])
    show "translate ((mapped s va k1 k2)\<lparr>frames_bitmap := b\<rparr>) w = translate s w"
      if "pd_index w < 1023" "unat w div 4096 \<noteq> unat va div 4096" for w
      unfolding translate_bitmap by (rule mapped_translate(2) [OF assms(1,2) fresh k(5,6) that])
    show "used ((mapped s va k1 k2)\<lparr>frames_bitmap := b\<rparr>) = insert k2 (insert k1 (used s))"
      using k(9) by (simp add: used_def)
    then show "free_frames ((mapped s va k1 k2)\<lparr>frames_bitmap := b\<rparr>) = free_frames s - {k1, k2}"
      using k(8) by (auto simp: free_frames_def)
    have "data_frame (mapped s va k1 k2) k2"
      using mapped_data_frame [OF assms(1,2) fresh k(5)] k(3,4) by (simp add: free_frames_def)
    then show "data_frame ((mapped s va k1 k2)\<lparr>frames_bitmap := b\<rparr>) k2" by (simp add: data_frame_def)
    show "printed ((mapped s va k1 k2)\<lparr>frames_bitmap := b\<rparr>) = printed s"
      by (simp add: mapped_def with_table_def installed_def set_word_def fill_def)
  qed (use k in simp_all)
qed

text \<open>Handling the page faults at a list of addresses.\<close>

fun handle_faults :: "machine \<Rightarrow> u32 list \<Rightarrow> machine result" where
  "handle_faults s [] = Inr s"
| "handle_faults s (va # vas) = and_then (page_fault_interrupt_handler va s) (\<lambda>s'. handle_faults s' vas)"

definition page :: "u32 \<Rightarrow> nat" where
  "page va = unat va div 4096"

lemma handle_faults_maps:
  assumes "paging_wf s" "\<forall>va \<in> set vas. pd_index va < 1023" "distinct (map page vas)"
    and "2 * length vas \<le> card (free_frames s)"
  shows "\<exists>s' frames. handle_faults s vas = Inr s' \<and> paging_wf s' \<and> length frames = length vas \<and>
    (\<forall>i < length vas. translate s' (vas ! i) = Some (frames ! i)) \<and>
    distinct frames \<and> set frames \<subseteq> free_frames s \<and> set frames \<union> used s \<subseteq> used s' \<and>
    (\<forall>w. pd_index w < 1023 \<and> page w \<notin> page ` set vas \<longrightarrow> translate s' w = translate s w)"
  using assms
proof (induction vas arbitrary: s)
  case Nil
  then show ?case by simp
next
  case (Cons va vas)
  have two: "pd_index va < 1023" "2 \<le> card (free_frames s)" using Cons.prems(2,4) by simp_all
  obtain t k1 k2 where t: "setup_page s va = Inr t" "paging_wf t" "translate t va = Some k2"
    "k1 \<in> free_frames s" "k2 \<in> free_frames s" "k1 \<noteq> k2"
    "used t = insert k2 (insert k1 (used s))" "free_frames t = free_frames s - {k1, k2}"
    "\<And>w. pd_index w < 1023 \<Longrightarrow> unat w div 4096 \<noteq> unat va div 4096 \<Longrightarrow> translate t w = translate s w"
    by (rule setup_page_maps [OF Cons.prems(1) two]) blast
  have "finite (free_frames s)" by (simp add: free_frames_def)
  then have "card (free_frames t) = card (free_frames s) - 2"
    using t(4-6,8) by (simp add: card_Diff_subset)
  then have "2 * length vas \<le> card (free_frames t)" using Cons.prems(4) by simp
  then obtain s' frames where IH: "handle_faults t vas = Inr s'" "paging_wf s'" "length frames = length vas"
    "\<forall>i < length vas. translate s' (vas ! i) = Some (frames ! i)"
    "distinct frames" "set frames \<subseteq> free_frames t" "set frames \<union> used t \<subseteq> used s'"
    "\<forall>w. pd_index w < 1023 \<and> page w \<notin> page ` set vas \<longrightarrow> translate s' w = translate t w"
    using Cons.IH [OF t(2)] Cons.prems(2,3) by auto
  have va: "translate s' va = Some k2" using IH(8) two(1) t(3) Cons.prems(3) by simp
  have "\<forall>i < length (va # vas). translate s' ((va # vas) ! i) = Some ((k2 # frames) ! i)"
    using va IH(4) by (auto simp: nth_Cons split: nat.splits)
  moreover have "distinct (k2 # frames)" "set (k2 # frames) \<subseteq> free_frames s"
    using IH(5,6) t(5,8) by auto
  moreover have "set (k2 # frames) \<union> used s \<subseteq> used s'" using IH(7) t(7) by auto
  moreover have "translate s' w = translate s w" if "pd_index w < 1023" "page w \<notin> page ` set (va # vas)" for w
    using IH(8) t(9) [of w] that by (simp add: page_def)
  moreover have "handle_faults s (va # vas) = Inr s'"
    using t(1) IH(1) by (simp add: page_fault_interrupt_handler_def)
  ultimately show ?case using IH(2,3) by (intro exI [of _ s'] exI [of _ "k2 # frames"]) simp
qed

text \<open>A machine whose directory is in frame 0 and whose other frames are free, for the witnesses.\<close>

definition fresh_machine :: machine where
  "fresh_machine = \<lparr>phys = (\<lambda>_. 0)(word_addr 0 1023 := 1), cr3 = 0,
     frames_bitmap = 0x80000000 # replicate 1600 0, printed = []\<rparr>"

lemma msb: "bit (0x80000000 :: u32) j \<longleftrightarrow> j = 31"
  using bit_single [of 31 j, where 'a = 32] by simp

lemma fresh_machine_used: "used fresh_machine = {0}"
proof -
  have "frame_used (frames_bitmap fresh_machine) k \<and> k < 32 * 1601 \<longleftrightarrow> k = 0" for k
  proof (cases "k div 32")
    case 0
    then have "k mod 32 = k" by simp
    then have "frame_used (frames_bitmap fresh_machine) k \<longleftrightarrow> 31 - k = 31 \<and> k < 32"
      using 0 msb [of "31 - k"] by (simp add: fresh_machine_def frame_used_def div_eq_0_iff)
    then show ?thesis using 0 by auto
  next
    case (Suc n)
    then have "k < 32 * 1601 \<Longrightarrow> n < 1600" by (simp add: div_less_iff_less_mult less_mult_imp_div_less)
    with Suc show ?thesis by (auto simp: fresh_machine_def frame_used_def)
  qed
  then show ?thesis by (auto simp: used_def used_frames_def fresh_machine_def)
qed

lemma fresh_machine_pde: "d < 1024 \<Longrightarrow> pde fresh_machine d = (if d = 1023 then 1 else 0)"
  by (simp add: pde_def word_at_def fresh_machine_def frame_of_def word_addr_inj)

lemma fresh_machine_wf: "paging_wf fresh_machine"
proof -
  have "dir fresh_machine = 0" by (simp add: fresh_machine_def frame_of_def)
  moreover have "bitmap_wf BITMAP_ELEMENT_COUNT (frames_bitmap fresh_machine)"
    by (simp add: bitmap_wf_def fresh_machine_def BITMAP_ELEMENT_COUNT_eq)
  moreover have "\<not> present (pde fresh_machine d)" if "d < 1023" for d
    using that by (simp add: fresh_machine_pde present_def)
  ultimately show ?thesis
    by (simp add: paging_wf_def recursive_def fresh_machine_used fresh_machine_pde present_def frame_of_def)
qed

lemma fresh_machine_free: "card (free_frames fresh_machine) = 51231"
proof -
  have "free_frames fresh_machine = {1..<51232}"
    by (auto simp: free_frames_def fresh_machine_used) (simp_all add: fresh_machine_def)
  then show ?thesis by simp
qed

section \<open>Properties\<close>

text \<open>
  C22. A page fault at an address outside of the last 4 MiB, with two free frames left: the handler
  succeeds (none of its accesses faults), the faulting page is then mapped to a frame that was free
  and is now marked as used, all other pages outside of the last 4 MiB are translated as before, and
  the directory and the page tables stay in distinct used frames.
\<close>

theorem page_fault_maps_page:
  assumes "paging_wf s" "pd_index va < 1023" "2 \<le> card (free_frames s)"
  shows "\<exists>s' frame. page_fault_interrupt_handler va s = Inr s' \<and> paging_wf s' \<and>
    translate s' va = Some frame \<and> frame \<in> free_frames s \<and> frame \<in> used s' \<and>
    (\<forall>w. pd_index w < 1023 \<and> page w \<noteq> page va \<longrightarrow> translate s' w = translate s w)"
proof -
  obtain s' k1 k2 where "setup_page s va = Inr s'" "paging_wf s'" "translate s' va = Some k2"
    "k2 \<in> free_frames s" "used s' = insert k2 (insert k1 (used s))"
    "\<And>w. pd_index w < 1023 \<Longrightarrow> unat w div 4096 \<noteq> unat va div 4096 \<Longrightarrow> translate s' w = translate s w"
    by (rule setup_page_maps [OF assms]) blast
  then show ?thesis
    by (intro exI [of _ s'] exI [of _ k2]) (simp add: page_fault_interrupt_handler_def page_def)
qed

theorem page_fault_maps_page_witness:
  "\<exists>s' frame. page_fault_interrupt_handler 0xA0000000 fresh_machine = Inr s' \<and>
    translate s' 0xA0000000 = Some frame \<and> frame \<in> free_frames fresh_machine"
  using page_fault_maps_page [OF fresh_machine_wf, of "0xA0000000"]
  by (auto simp: pd_index_def fresh_machine_free)

text \<open>
  C24. Page faults at any list of addresses in distinct pages (outside of the last 4 MiB), with two
  free frames for each: afterwards all the pages are mapped, to pairwise distinct frames that were
  free before, and every other page is translated as before.
\<close>

theorem page_faults_map_distinct_frames:
  assumes "paging_wf s" "\<forall>va \<in> set vas. pd_index va < 1023" "distinct (map page vas)"
    and "2 * length vas \<le> card (free_frames s)"
  shows "\<exists>s' frames. handle_faults s vas = Inr s' \<and> length frames = length vas \<and>
    (\<forall>i < length vas. translate s' (vas ! i) = Some (frames ! i)) \<and>
    distinct frames \<and> set frames \<subseteq> free_frames s \<and>
    (\<forall>w. pd_index w < 1023 \<and> page w \<notin> page ` set vas \<longrightarrow> translate s' w = translate s w)"
  using handle_faults_maps [OF assms] by blast

theorem page_faults_map_distinct_frames_witness:
  "\<exists>s' frames. handle_faults fresh_machine [0xA0000000, 0xA0001000] = Inr s' \<and> length frames = 2 \<and>
    translate s' 0xA0000000 = Some (frames ! 0) \<and> translate s' 0xA0001000 = Some (frames ! 1) \<and> distinct frames"
proof -
  let ?vas = "[0xA0000000, 0xA0001000] :: u32 list"
  have "\<forall>va \<in> set ?vas. pd_index va < 1023" "distinct (map page ?vas)"
    "2 * length ?vas \<le> card (free_frames fresh_machine)"
    by (simp_all add: pd_index_def page_def fresh_machine_free)
  from page_faults_map_distinct_frames [OF fresh_machine_wf this]
  obtain s' frames where s': "handle_faults fresh_machine ?vas = Inr s'" "length frames = length ?vas"
    and all: "\<forall>i < length ?vas. translate s' (?vas ! i) = Some (frames ! i)" and d: "distinct frames" by blast
  have "translate s' 0xA0000000 = Some (frames ! 0)" "translate s' 0xA0001000 = Some (frames ! 1)"
    using spec [OF all, of 0] spec [OF all, of 1] by simp_all
  then show ?thesis using s' d by (intro exI [of _ s'] exI [of _ frames]) simp
qed

text \<open>
  Where the page table of the faulting address exists, \<^verbatim>\<open>setup_page\<close> nevertheless takes a frame
  for a page table: it is marked as used, but the only word of memory that changes is the entry of the
  page, which names the second frame. The first frame is lost.
\<close>

theorem setup_page_leaks_frame:
  assumes "paging_wf s" "pd_index va < 1023" "2 \<le> card (free_frames s)" "present (pde s (pd_index va))"
  shows "\<exists>s' k1 k2. setup_page s va = Inr s' \<and> k1 \<noteq> k2 \<and> {k1, k2} \<subseteq> free_frames s \<and>
    used s' = used s \<union> {k1, k2} \<and>
    phys s' = (phys s)(word_addr (frame_of (pde s (pd_index va))) (pt_index va) := word_addr k2 0 OR 1)"
proof -
  obtain k1 k2 b where "setup_page s va = Inr ((mapped s va k1 k2)\<lparr>frames_bitmap := b\<rparr>)"
    "k1 \<in> free_frames s" "k2 \<in> free_frames s" "k1 \<noteq> k2" "used_frames b = insert k2 (insert k1 (used s))"
    by (rule setup_page_takes_two [OF assms(1-3)]) blast
  then show ?thesis
    using assms(4)
    by (intro exI [of _ "(mapped s va k1 k2)\<lparr>frames_bitmap := b\<rparr>"] exI [of _ k1] exI [of _ k2])
      (auto simp: mapped_def with_table_def set_word_def used_def)
qed

theorem setup_page_leaks_frame_witness:
  "\<exists>s s' k1 k2. setup_page s 0xA0001000 = Inr s' \<and> k1 \<noteq> k2 \<and> used s' = used s \<union> {k1, k2}"
proof -
  obtain s k1 k2 where s: "setup_page fresh_machine 0xA0000000 = Inr s" "paging_wf s"
    "translate s 0xA0000000 = Some k2" "free_frames s = free_frames fresh_machine - {k1, k2}"
    by (rule setup_page_maps [OF fresh_machine_wf, of "0xA0000000"]) (simp_all add: pd_index_def fresh_machine_free)
  have "present (pde s (pd_index 0xA0001000))"
    using s(3) by (simp add: translate_eq pd_index_def split: if_splits)
  moreover have "card (free_frames fresh_machine) - card {k1, k2} \<le> card (free_frames s)"
    unfolding s(4) by (rule diff_card_le_card_Diff) simp
  then have "2 \<le> card (free_frames s)"
    using fresh_machine_free card_insert_le_m1 [of 2 "{k2}" k1] by simp
  ultimately show ?thesis
    using setup_page_leaks_frame [OF s(2), of "0xA0001000"] by (fastforce simp: pd_index_def)
qed

text \<open>
  \<^verbatim>\<open>sbrk\<close> answers the previous break and moves it by four times the number of bytes it is given
  (\<^verbatim>\<open>heap_end\<close> points to words); the break moves by the documented amount only for an increment of 0.
\<close>

theorem sbrk_moves_by_words:
  "sbrk heap_end incr = (heap_end, heap_end + 4 * incr) \<and>
   (snd (sbrk heap_end incr) = heap_end + incr \<longleftrightarrow> incr = 0)"
proof -
  have "incr = 0" if "4 * incr = incr"
  proof -
    have "3 * incr = 4 * incr - incr" by (simp add: algebra_simps)
    also have "\<dots> = 0" using that by simp
    finally have "2863311531 * (3 * incr) = 0" by simp
    then have "(2863311531 * 3) * incr = 0" by (simp only: mult.assoc)
    moreover have "(2863311531 * 3 :: u32) = 1" by (simp add: word_eq_unat)
    ultimately show ?thesis by (simp only: mult_1)
  qed
  then show ?thesis by (auto simp: sbrk_def)
qed

end
