(* ===== verification/Linked_Rings.thy ===== *)
theory Linked_Rings
  imports Prelude
begin

text \<open>
  Circular doubly-linked lists in a memory of words. An element at address \<open>a\<close> has its \<^verbatim>\<open>prev\<close> pointer
  at \<open>a\<close> and its \<^verbatim>\<open>next\<close> pointer at \<open>a + 4\<close>, as \<^verbatim>\<open>list_t\<close> of the heap and \<^verbatim>\<open>linked_list_item_t\<close> of the
  collections have them. \<open>chain m a xs z\<close> says that the links of the memory \<open>m\<close> lead from \<open>a\<close> through
  \<open>xs\<close> to \<open>z\<close> and back; a \<open>ring\<close> is a chain that returns to its head. The lemmas state what adding an
  element at the end, taking one out, and writes elsewhere do to a ring.
\<close>

type_synonym word_memory = "u32 \<Rightarrow> u32"

section \<open>Chains\<close>

definition linked :: "word_memory \<Rightarrow> u32 \<Rightarrow> u32 \<Rightarrow> bool" where
  "linked m a b \<longleftrightarrow> m (a + 4) = b \<and> m b = a"

fun chain :: "word_memory \<Rightarrow> u32 \<Rightarrow> u32 list \<Rightarrow> u32 \<Rightarrow> bool" where
  "chain m a [] z \<longleftrightarrow> linked m a z"
| "chain m a (x # xs) z \<longleftrightarrow> linked m a x \<and> chain m x xs z"

definition ring :: "word_memory \<Rightarrow> u32 \<Rightarrow> u32 list \<Rightarrow> bool" where
  "ring m h xs \<longleftrightarrow> chain m h xs h"

text \<open>The two words of an element do not overlap with those of another one.\<close>

definition apart :: "u32 set \<Rightarrow> bool" where
  "apart A \<longleftrightarrow> (\<forall>a \<in> A. \<forall>b \<in> A. a + 4 \<noteq> b)"

lemma apartD: "apart A \<Longrightarrow> a \<in> A \<Longrightarrow> b \<in> A \<Longrightarrow> a + 4 \<noteq> b"
  by (simp add: apart_def)

lemma apart_subset: "apart A \<Longrightarrow> B \<subseteq> A \<Longrightarrow> apart B"
  by (auto simp: apart_def)

lemma chain_append: "chain m a (xs @ y # ys) z \<longleftrightarrow> chain m a xs y \<and> chain m y ys z"
  by (induction xs arbitrary: a) auto

lemma chain_prev_end: "chain m a xs z \<Longrightarrow> m z = last (a # xs)"
  by (induction xs arbitrary: a) (auto simp: linked_def)

lemma chain_next_start: "chain m a xs z \<Longrightarrow> m (a + 4) = hd (xs @ [z])"
  by (cases xs) (auto simp: linked_def)

lemma chain_frame:
  assumes "chain m a xs z" "\<And>b. b \<in> set (a # xs) \<Longrightarrow> m' (b + 4) = m (b + 4)"
    and "\<And>b. b \<in> set (xs @ [z]) \<Longrightarrow> m' b = m b"
  shows "chain m' a xs z"
  using assms by (induction xs arbitrary: a) (auto simp: linked_def)

lemma ring_frame:
  assumes "ring m h xs" "\<And>b. b \<in> set (h # xs) \<Longrightarrow> m' (b + 4) = m (b + 4) \<and> m' b = m b"
  shows "ring m' h xs"
proof -
  have "chain m' h xs h"
    by (rule chain_frame [of m]) (use assms in \<open>auto simp: ring_def\<close>)
  then show ?thesis by (simp add: ring_def)
qed

lemma ring_write:
  assumes "ring m h xs" "\<And>b. b \<in> set (h # xs) \<Longrightarrow> a \<noteq> b \<and> a \<noteq> b + 4"
  shows "ring (m(a := v)) h xs"
proof (rule ring_frame [OF assms(1)])
  fix b assume "b \<in> set (h # xs)"
  then show "(m(a := v)) (b + 4) = m (b + 4) \<and> (m(a := v)) b = m b" using assms(2) [of b] by auto
qed

text \<open>The links of a ring determine its elements.\<close>

lemma chain_unique:
  assumes "chain m a xs z" "chain m a ys z" "z \<notin> set xs" "z \<notin> set ys"
  shows "xs = ys"
  using assms
proof (induction xs arbitrary: a ys)
  case Nil
  then show ?case by (cases ys) (auto simp: linked_def)
next
  case (Cons x xs)
  then obtain y ys' where ys: "ys = y # ys'" by (cases ys) (auto simp: linked_def)
  with Cons.prems have "y = x" by (simp add: linked_def)
  then have "xs = ys'" using Cons.IH [of x ys'] Cons.prems ys by simp
  then show ?case using ys \<open>y = x\<close> by simp
qed

section \<open>Changing a ring\<close>

text \<open>An empty ring links its head to itself.\<close>

lemma ring_empty: "h \<noteq> h + 4 \<Longrightarrow> ring (m(h := h, h + 4 := h)) h []"
  by (simp add: ring_def linked_def)

lemma plus_4: "a \<noteq> a + (4 :: u32)" "a + 4 \<noteq> (a :: u32)"
  by simp_all

lemma ring_add_last:
  assumes "ring m h xs" "distinct (h # xs)" "e \<notin> set (h # xs)" "apart (insert e (set (h # xs)))"
  shows "ring (m(e := m h, e + 4 := h, m h + 4 := e, h := e)) h (xs @ [e])"
proof -
  let ?p = "last (h # xs)"
  let ?m = "m(e := ?p, e + 4 := h, ?p + 4 := e, h := e)"
  have p: "m h = ?p" using assms(1) by (simp only: ring_def chain_prev_end)
  have in_ring: "?p \<in> set (h # xs)" by (rule last_in_set) simp
  have ap: "a + 4 \<noteq> b" if "a \<in> insert e (set (h # xs))" "b \<in> insert e (set (h # xs))" for a b
    using apartD [OF assms(4) that] .
  have fields: "?m (?p + 4) = e" "?m e = ?p" "?m (e + 4) = h" "?m h = e"
    using in_ring assms(3) ap [of ?p e] ap [of ?p h] ap [of e h] ap [of e e] ap [of h h] ap [of e ?p] by auto
  have next_kept: "?m (b + 4) = m (b + 4)" if "b \<in> set (h # xs)" "b \<noteq> ?p" for b
    using that assms(3) ap [of b e] ap [of b h] by auto
  have prev_kept: "?m b = m b" if "b \<in> set xs" for b
    using that in_ring assms(2,3) ap [of e b] ap [of ?p b] by auto
  have "chain ?m h (xs @ [e]) h"
  proof (cases xs rule: rev_cases)
    case Nil
    then show ?thesis using fields by (simp add: linked_def)
  next
    case (snoc ys q)
    then have q: "?p = q" by simp
    have "chain m h ys q" using assms(1) snoc by (simp add: ring_def chain_append)
    then have "chain ?m h ys q"
    proof (rule chain_frame)
      show "?m (b + 4) = m (b + 4)" if "b \<in> set (h # ys)" for b
        using that assms(2) snoc q next_kept [of b] by auto
      show "?m b = m b" if "b \<in> set (ys @ [q])" for b
        using that snoc prev_kept [of b] by auto
    qed
    then show ?thesis using fields snoc q by (simp add: chain_append linked_def)
  qed
  then show ?thesis using p by (simp add: ring_def)
qed

lemma chain_kept:
  assumes "chain m a xs b" "\<And>x. x \<in> set (a # xs) \<Longrightarrow> x \<noteq> p \<and> x + 4 \<noteq> n"
    and "\<And>x. x \<in> set (xs @ [b]) \<Longrightarrow> x \<noteq> n \<and> x \<noteq> p + 4"
  shows "chain (m(p + 4 := n, n := p)) a xs b"
  by (rule chain_frame [OF assms(1)]) (use assms(2,3) in auto)

lemma ring_take_out:
  assumes "ring m h (xs @ e # ys)" "distinct (h # xs @ e # ys)" "apart (set (h # xs @ e # ys))"
  shows "ring (m(m e + 4 := m (e + 4), m (e + 4) := m e)) h (xs @ ys)"
proof -
  let ?p = "last (h # xs)" and ?n = "hd (ys @ [h])"
  let ?m = "m(?p + 4 := ?n, ?n := ?p)"
  have links: "chain m h xs e" "chain m e ys h" using assms(1) by (simp_all add: ring_def chain_append)
  have pn: "m e = ?p" "m (e + 4) = ?n" using links by (simp_all only: chain_prev_end chain_next_start)
  have p_in: "?p \<in> set (h # xs)" by (rule last_in_set) simp
  have n_in: "?n \<in> set (ys @ [h])" by (rule hd_in_set) simp
  have ap: "a + 4 \<noteq> b" if "a \<in> set (h # xs @ e # ys)" "b \<in> set (h # xs @ e # ys)" for a b
    using apartD [OF assms(3) that] .
  have "?p + 4 \<noteq> ?n" using ap p_in n_in by auto
  then have fields: "?m (?p + 4) = ?n" "?m ?n = ?p" by auto
  have front_part: "chain ?m h (butlast xs) ?p" if "xs \<noteq> []"
  proof -
    obtain zs q where xs: "xs = zs @ [q]" using \<open>xs \<noteq> []\<close> by (cases xs rule: rev_cases) auto
    have "chain m h zs q" using links(1) xs by (simp add: chain_append)
    then have "chain (m(q + 4 := ?n, ?n := q)) h zs q"
    proof (rule chain_kept)
      show "x \<noteq> q \<and> x + 4 \<noteq> ?n" if "x \<in> set (h # zs)" for x
        using that assms(2) n_in xs ap [of x ?n] by auto
      show "x \<noteq> ?n \<and> x \<noteq> q + 4" if "x \<in> set (zs @ [q])" for x
        using that assms(2) n_in xs ap [of q x] by auto
    qed
    then show ?thesis using xs by simp
  qed
  have back_part: "chain ?m ?n (tl ys) h" if "ys \<noteq> []"
  proof -
    obtain r zs where ys: "ys = r # zs" using \<open>ys \<noteq> []\<close> by (cases ys) auto
    have "chain m r zs h" using links(2) ys by simp
    then have "chain (m(?p + 4 := r, r := ?p)) r zs h"
    proof (rule chain_kept)
      show "x \<noteq> ?p \<and> x + 4 \<noteq> r" if "x \<in> set (r # zs)" for x
        using that assms(2) p_in ys ap [of x r] by auto
      show "x \<noteq> r \<and> x \<noteq> ?p + 4" if "x \<in> set (zs @ [h])" for x
        using that assms(2) p_in ys ap [of ?p x] by auto
    qed
    then show ?thesis using ys by simp
  qed
  have "chain ?m h (xs @ ys) h"
  proof (cases xs rule: rev_cases; cases ys)
    assume "xs = []" "ys = []"
    then show ?thesis using fields by (simp add: linked_def)
  next
    fix r zs assume "xs = []" "ys = r # zs"
    then show ?thesis using fields back_part by (simp add: linked_def)
  next
    fix zs q assume "xs = zs @ [q]" "ys = []"
    then show ?thesis using fields front_part by (simp add: linked_def chain_append)
  next
    fix zs q r us assume "xs = zs @ [q]" "ys = r # us"
    then show ?thesis using fields front_part back_part by (simp add: linked_def chain_append)
  qed
  then show ?thesis using pn by (simp add: ring_def)
qed

end
