(* ===== verification/Buddy_Heap.thy ===== *)
theory Buddy_Heap
  imports Paging Linked_Rings
begin

text \<open>
  \<^verbatim>\<open>heap_buddy_system_evanw.c\<close>: the routines of the buddy allocator behind \<^verbatim>\<open>malloc\<close> and \<^verbatim>\<open>free\<close>, in
  the order of the file. Pointers and sizes are 32-bit words; the free lists live in the memory they
  manage, so the memory is a function from the address of a word to the word, and the list routines
  are functions on it. The array \<^verbatim>\<open>buckets\<close> is at the address \<open>buckets\<close> of that memory; the bit array
  \<^verbatim>\<open>node_is_split\<close> is a function of the index, with its bound checked. \<^verbatim>\<open>brk\<close> and \<^verbatim>\<open>sbrk\<close> are the ones of
  \<open>Paging\<close>.
\<close>

section \<open>Constants and state\<close>

definition HEADER_SIZE :: u32 where "HEADER_SIZE = 8"
definition MIN_ALLOC_LOG2 :: nat where "MIN_ALLOC_LOG2 = 4"
definition MIN_ALLOC :: u32 where "MIN_ALLOC = push_bit MIN_ALLOC_LOG2 1"
definition MAX_ALLOC_LOG2 :: nat where "MAX_ALLOC_LOG2 = 31"
definition MAX_ALLOC :: u32 where "MAX_ALLOC = push_bit MAX_ALLOC_LOG2 1"
definition BUCKET_COUNT :: u32 where "BUCKET_COUNT = of_nat (MAX_ALLOC_LOG2 - MIN_ALLOC_LOG2 + 1)"
definition sizeof_list :: u32 where "sizeof_list = 8"

record heap =
  mem :: word_memory
  node_is_split :: "u32 \<Rightarrow> u8"
  buckets :: u32
  bucket_limit :: u32
  base_ptr :: u32
  max_ptr :: u32
  heap_end :: u32

definition bucket_head :: "heap \<Rightarrow> u32 \<Rightarrow> u32" where
  "bucket_head h bucket = buckets h + sizeof_list * bucket"

text \<open>The number of bytes of \<^verbatim>\<open>node_is_split\<close>: \<^verbatim>\<open>(1 << (BUCKET_COUNT - 1)) / 8\<close>.\<close>

definition split_bytes :: u32 where
  "split_bytes = push_bit (unat (BUCKET_COUNT - 1)) 1 div 8"

section \<open>The end of the heap\<close>

definition update_max_ptr :: "heap \<Rightarrow> u32 \<Rightarrow> int \<times> heap" where
  "update_max_ptr h new_value =
     (if max_ptr h < new_value then
        let (failed, heap_end') = brk (heap_end h) new_value; h' = h\<lparr>heap_end := heap_end'\<rparr> in
        if failed \<noteq> 0 then (0, h') else (1, h'\<lparr>max_ptr := new_value\<rparr>)
      else (1, h))"

section \<open>Free lists\<close>

definition list_init :: "word_memory \<Rightarrow> u32 \<Rightarrow> word_memory" where
  "list_init m list = m(list := list, list + 4 := list)"

definition list_push :: "word_memory \<Rightarrow> u32 \<Rightarrow> u32 \<Rightarrow> word_memory" where
  "list_push m list entry =
     (let prev = m list in m(entry := prev, entry + 4 := list, prev + 4 := entry, list := entry))"

definition list_remove :: "word_memory \<Rightarrow> u32 \<Rightarrow> word_memory" where
  "list_remove m entry = (let prev = m entry; next = m (entry + 4) in m(prev + 4 := next, next := prev))"

definition list_pop :: "word_memory \<Rightarrow> u32 \<Rightarrow> u32 \<times> word_memory" where
  "list_pop m list = (let back = m list in if back = list then (0, m) else (back, list_remove m back))"

section \<open>Nodes of the tree\<close>

definition ptr_for_node :: "heap \<Rightarrow> u32 \<Rightarrow> u32 \<Rightarrow> u32" where
  "ptr_for_node h index bucket =
     base_ptr h + push_bit (MAX_ALLOC_LOG2 - unat bucket) (index - push_bit (unat bucket) 1 + 1)"

text \<open>The difference of two pointers is signed, so the shift is an arithmetic one.\<close>

definition node_for_ptr :: "heap \<Rightarrow> u32 \<Rightarrow> u32 \<Rightarrow> u32" where
  "node_for_ptr h ptr bucket =
     signed_drop_bit (MAX_ALLOC_LOG2 - unat bucket) (ptr - base_ptr h) + push_bit (unat bucket) 1 - 1"

definition parent_is_split :: "heap \<Rightarrow> u32 \<Rightarrow> u8 result" where
  "parent_is_split h index =
     (let index' = (index - 1) div 2 in
      if index' div 8 < split_bytes
      then Inr (drop_bit (unat (index' mod 8)) (node_is_split h (index' div 8)) AND 1)
      else Inl Out_of_bounds)"

definition flip_parent_is_split :: "heap \<Rightarrow> u32 \<Rightarrow> heap result" where
  "flip_parent_is_split h index =
     (let index' = (index - 1) div 2 in
      if index' div 8 < split_bytes
      then Inr (h\<lparr>node_is_split := (node_is_split h)(index' div 8 :=
             node_is_split h (index' div 8) XOR push_bit (unat (index' mod 8)) 1)\<rparr>)
      else Inl Out_of_bounds)"

text \<open>The loop does not end for a request above \<^verbatim>\<open>MAX_ALLOC\<close>: \<^verbatim>\<open>size\<close> becomes 0.\<close>

partial_function (option) bucket_loop :: "u32 \<Rightarrow> u32 \<Rightarrow> u32 \<Rightarrow> u32 option" where
  "bucket_loop request bucket n =
     (if n < request then bucket_loop request (bucket - 1) (n * 2) else Some bucket)"

definition bucket_for_request :: "u32 \<Rightarrow> u32 option" where
  "bucket_for_request request = bucket_loop request (BUCKET_COUNT - 1) MIN_ALLOC"

section \<open>Growing the tree\<close>

function lower_bucket_limit :: "heap \<Rightarrow> u32 \<Rightarrow> (int \<times> heap) result" where
  "lower_bucket_limit h bucket =
     (if bucket < bucket_limit h then
        let root = node_for_ptr h (base_ptr h) (bucket_limit h); limit = bucket_limit h - 1 in
        and_then (parent_is_split h root) (\<lambda>split.
        if split = 0 then
          let m1 = list_remove (mem h) (base_ptr h);
              m2 = list_init m1 (bucket_head h limit);
              m3 = list_push m2 (bucket_head h limit) (base_ptr h)
          in lower_bucket_limit (h\<lparr>mem := m3, bucket_limit := limit\<rparr>) bucket
        else
          let right_child = ptr_for_node h (root + 1) (bucket_limit h);
              (success, h1) = update_max_ptr h (right_child + sizeof_list)
          in
          if success = 0 then Inr (0, h1)
          else
            let m1 = list_push (mem h1) (bucket_head h (bucket_limit h)) right_child;
                m2 = list_init m1 (bucket_head h limit);
                root' = (root - 1) div 2
            in
            and_then (if root' \<noteq> 0 then flip_parent_is_split h1 root' else Inr h1) (\<lambda>h2.
            lower_bucket_limit (h2\<lparr>mem := m2, bucket_limit := limit\<rparr>) bucket))
      else Inr (1, h))"
  by pat_completeness auto
termination
proof (relation "measure (\<lambda>(h, _). unat (bucket_limit h))", goal_cases)
qed (auto simp: word_less_nat_alt intro: unat_pred_less)

declare lower_bucket_limit.simps [simp del]

section \<open>Allocating and freeing\<close>

text \<open>Splitting the node \<open>i\<close> of \<open>bucket\<close> down to \<open>original_bucket\<close>.\<close>

function split_loop :: "heap \<Rightarrow> u32 \<Rightarrow> u32 \<Rightarrow> u32 \<Rightarrow> heap result" where
  "split_loop h i bucket original_bucket =
     (if bucket < original_bucket then
        let i' = i * 2 + 1; bucket' = bucket + 1 in
        and_then (flip_parent_is_split h i') (\<lambda>h1.
        split_loop
          (h1\<lparr>mem := list_push (mem h1) (bucket_head h1 bucket') (ptr_for_node h1 (i' + 1) bucket')\<rparr>)
          i' bucket' original_bucket)
      else Inr h)"
  by pat_completeness auto
termination
proof (relation "measure (\<lambda>(_, _, b, ob). unat ob - unat b)", goal_cases)
  case (2 h i bucket original_bucket i' bucket' h1)
  have "unat bucket + unat (1 :: u32) < 2 ^ 32"
    using 2(1) unat_bound [of original_bucket] by (simp add: word_less_nat_alt)
  then have "unat (bucket + 1) = unat bucket + 1"
    using unat_plus_no_wrap [of bucket 1] by simp
  then show ?case using 2 by (simp add: word_less_nat_alt)
qed simp

declare split_loop.simps [simp del]

text \<open>
  The rest of an iteration of \<^verbatim>\<open>malloc\<close>, with a block taken off the list of \<open>bucket\<close>: the answer is the
  pointer behind the header.
\<close>

definition use_block :: "heap \<Rightarrow> u32 \<Rightarrow> u32 \<Rightarrow> u32 \<Rightarrow> u32 \<Rightarrow> (u32 \<times> heap) result" where
  "use_block h ptr bucket original_bucket request =
     (let n = push_bit (MAX_ALLOC_LOG2 - unat bucket) 1;
          bytes_needed = (if bucket < original_bucket then n div 2 + sizeof_list else n);
          (success, h1) = update_max_ptr h (ptr + bytes_needed)
      in
      if success = 0 then Inr (0, h1\<lparr>mem := list_push (mem h1) (bucket_head h1 bucket) ptr\<rparr>)
      else
        let i = node_for_ptr h1 ptr bucket in
        and_then (if i \<noteq> 0 then flip_parent_is_split h1 i else Inr h1) (\<lambda>h2.
        and_then (split_loop h2 i bucket original_bucket) (\<lambda>h3.
        Inr (ptr + HEADER_SIZE, h3\<lparr>mem := (mem h3)(ptr := request)\<rparr>))))"

function malloc_loop :: "heap \<Rightarrow> u32 \<Rightarrow> u32 \<Rightarrow> u32 \<Rightarrow> (u32 \<times> heap) result" where
  "malloc_loop h bucket original_bucket request =
     (if bucket + 1 \<noteq> 0 then
        and_then (lower_bucket_limit h bucket) (\<lambda>(success, h1).
        if success = 0 then Inr (0, h1)
        else
          let (ptr, m1) = list_pop (mem h1) (bucket_head h1 bucket); h2 = h1\<lparr>mem := m1\<rparr> in
          if ptr = 0 then
            if bucket \<noteq> bucket_limit h2 \<or> bucket = 0
            then malloc_loop h2 (bucket - 1) original_bucket request
            else
              and_then (lower_bucket_limit h2 (bucket - 1)) (\<lambda>(success', h3).
              if success' = 0 then Inr (0, h3)
              else
                let (ptr', m3) = list_pop (mem h3) (bucket_head h3 bucket) in
                use_block (h3\<lparr>mem := m3\<rparr>) ptr' bucket original_bucket request)
          else use_block h2 ptr bucket original_bucket request)
      else Inr (0, h))"
  by pat_completeness auto
termination
proof (relation "measure (\<lambda>(_, b, _, _). unat (b + 1))", goal_cases)
  case (2 h bucket)
  have "unat bucket = unat (bucket + 1) - 1" using unat_pred [OF 2(1)] by simp
  moreover have "unat (bucket + 1) \<noteq> 0" using 2(1) by (simp add: unat_eq_zero)
  ultimately show ?case by simp
qed simp

declare malloc_loop.simps [simp del]

text \<open>The first call of \<^verbatim>\<open>malloc\<close> sets the allocator up.\<close>

definition set_up :: "heap \<Rightarrow> heap" where
  "set_up h =
     (if base_ptr h = 0 then
        let (current_break, heap_end') = sbrk (heap_end h) 0;
            h' = h\<lparr>heap_end := heap_end', base_ptr := current_break, max_ptr := current_break,
                   bucket_limit := BUCKET_COUNT - 1\<rparr>;
            h'' = snd (update_max_ptr h' (base_ptr h' + sizeof_list));
            m1 = list_init (mem h'') (bucket_head h'' (BUCKET_COUNT - 1));
            m2 = list_push m1 (bucket_head h'' (BUCKET_COUNT - 1)) (base_ptr h'')
        in h''\<lparr>mem := m2\<rparr>
      else h)"

text \<open>The value is \<open>None\<close> where the call does not return.\<close>

definition malloc :: "heap \<Rightarrow> u32 \<Rightarrow> (u32 \<times> heap) result option" where
  "malloc h request =
     (if MAX_ALLOC < request + HEADER_SIZE then Some (Inr (0, h))
      else
        let h1 = set_up h in
        Option.bind (bucket_for_request (request + HEADER_SIZE)) (\<lambda>bucket.
        Some (malloc_loop h1 bucket bucket request)))"

text \<open>The loop of \<^verbatim>\<open>free\<close>: the node and the bucket at which it ends.\<close>

function free_loop :: "heap \<Rightarrow> u32 \<Rightarrow> u32 \<Rightarrow> (u32 \<times> u32 \<times> heap) result" where
  "free_loop h i bucket =
     (if i \<noteq> 0 then
        and_then (flip_parent_is_split h i) (\<lambda>h1.
        and_then (parent_is_split h1 i) (\<lambda>split.
        if split \<noteq> 0 \<or> bucket = bucket_limit h1 then Inr (i, bucket, h1)
        else
          free_loop (h1\<lparr>mem := list_remove (mem h1) (ptr_for_node h1 (((i - 1) XOR 1) + 1) bucket)\<rparr>)
            ((i - 1) div 2) (bucket - 1)))
      else Inr (i, bucket, h))"
  by pat_completeness auto
termination
proof (relation "measure (\<lambda>(_, i, _). unat i)", goal_cases)
  case (2 h i)
  have "unat ((i - 1) div 2) \<le> unat (i - 1)" by (simp add: unat_div)
  moreover have "unat (i - 1) < unat i" using 2(1) unat_pred [of i] unat_pos [of i] by simp
  ultimately show ?case by simp
qed simp

declare free_loop.simps [simp del]

definition free :: "heap \<Rightarrow> u32 \<Rightarrow> heap result option" where
  "free h ptr =
     (if ptr = 0 then Some (Inr h)
      else
        let ptr' = ptr - HEADER_SIZE in
        Option.bind (bucket_for_request (mem h ptr' + HEADER_SIZE)) (\<lambda>bucket.
        Some (and_then (free_loop h (node_for_ptr h ptr' bucket) bucket) (\<lambda>(i, bucket', h1).
          Inr (h1\<lparr>mem := list_push (mem h1) (bucket_head h1 bucket') (ptr_for_node h1 i bucket')\<rparr>)))))"

end
