(* ===== verification/Buddy_Nodes.thy ===== *)
theory Buddy_Nodes
  imports Main
begin

text \<open>
  The arithmetic of the tree of the buddy allocator. The node \<open>k\<close> of level \<open>b\<close> stands for the offsets
  \<open>blk b k\<close>, \<open>k\<close> times the block size of the level and up; its index in the linearized tree is
  \<open>idx b k\<close>. The abstract state of the allocator is the set \<open>S\<close> of the offsets inside of allocated
  blocks: it determines which nodes are unused, the content of every free list (\<open>maximal\<close>: the unused
  nodes whose parent is not unused) and every split flag. The lemmas say how these change when an
  unused maximal node is taken, when a block is given back, and when the tree grows by a level.
\<close>

definition bsize :: "nat \<Rightarrow> nat" where
  "bsize b = 2 ^ (31 - b)"

definition blk :: "nat \<Rightarrow> nat \<Rightarrow> nat set" where
  "blk b k = {k * bsize b ..< (k + 1) * bsize b}"

definition idx :: "nat \<Rightarrow> nat \<Rightarrow> nat" where
  "idx b k = 2 ^ b - 1 + k"

definition unused :: "nat set \<Rightarrow> nat \<Rightarrow> nat \<Rightarrow> bool" where
  "unused S b k \<longleftrightarrow> blk b k \<inter> S = {}"

definition maximal :: "nat \<Rightarrow> nat set \<Rightarrow> nat \<Rightarrow> nat set" where
  "maximal L S b = {k. k < 2 ^ (b - L) \<and> unused S b k \<and> (b = L \<or> \<not> unused S (b - 1) (k div 2))}"

definition split_flag :: "nat \<Rightarrow> nat set \<Rightarrow> nat \<Rightarrow> nat \<Rightarrow> bool" where
  "split_flag L S b k \<longleftrightarrow> L \<le> b + 1 \<and> unused S (b + 1) (2 * k) \<noteq> unused S (b + 1) (2 * k + 1)"

section \<open>Nodes and their offsets\<close>

lemma bsize_pos [simp]: "0 < bsize b" "bsize b \<noteq> 0"
  by (simp_all add: bsize_def)

lemma bsize_split: "b \<le> c \<Longrightarrow> c \<le> 31 \<Longrightarrow> bsize b = bsize c * 2 ^ (c - b)"
  by (simp add: bsize_def flip: power_add)

lemma bsize_double: "0 < b \<Longrightarrow> b \<le> 31 \<Longrightarrow> bsize (b - 1) = 2 * bsize b"
  using bsize_split [of "b - 1" b] by simp

lemma mem_blk: "x \<in> blk b k \<longleftrightarrow> x div bsize b = k"
proof -
  have "k * bsize b \<le> x \<and> x < (k + 1) * bsize b \<longleftrightarrow> x div bsize b = k"
    by (metis add.commute bsize_pos(2) div_nat_eqI less_add_same_cancel1 mult.commute plus_1_eq_Suc
        dividend_less_div_times div_times_less_eq_dividend less_eq_Suc_le mult_Suc not_less nat_less_le
        bsize_pos(1))
  then show ?thesis by (simp add: blk_def)
qed

lemma blk_start: "k * bsize b \<in> blk b k"
  by (simp add: mem_blk)

lemma blk_level: "x \<in> blk c j \<Longrightarrow> b \<le> c \<Longrightarrow> c \<le> 31 \<Longrightarrow> x \<in> blk b k \<longleftrightarrow> j div 2 ^ (c - b) = k"
  by (auto simp: mem_blk bsize_split [of b c] div_mult2_eq)

text \<open>Two nodes are nested or apart.\<close>

definition inside :: "nat \<Rightarrow> nat \<Rightarrow> nat \<Rightarrow> nat \<Rightarrow> bool" where
  "inside c j b k \<longleftrightarrow> b \<le> c \<and> j div 2 ^ (c - b) = k"

lemma inside_subset: "inside c j b k \<Longrightarrow> c \<le> 31 \<Longrightarrow> blk c j \<subseteq> blk b k"
  by (auto simp: inside_def blk_level)

lemma blk_meet: "b \<le> 31 \<Longrightarrow> c \<le> 31 \<Longrightarrow> blk c j \<inter> blk b k \<noteq> {} \<longleftrightarrow> inside c j b k \<or> inside b k c j"
proof (cases "b \<le> c")
  case True
  assume "c \<le> 31"
  show ?thesis
  proof
    assume "blk c j \<inter> blk b k \<noteq> {}"
    then obtain x where "x \<in> blk c j" "x \<in> blk b k" by blast
    then show "inside c j b k \<or> inside b k c j"
      using blk_level [of x c j b k] True \<open>c \<le> 31\<close> by (simp add: inside_def)
  next
    assume "inside c j b k \<or> inside b k c j"
    then have "j div 2 ^ (c - b) = k" using True by (auto simp: inside_def)
    then show "blk c j \<inter> blk b k \<noteq> {}"
      using blk_start [of j c] blk_level [of "j * bsize c" c j b k] True \<open>c \<le> 31\<close> by blast
  qed
next
  case False
  assume "b \<le> 31"
  show ?thesis
  proof
    assume "blk c j \<inter> blk b k \<noteq> {}"
    then obtain x where "x \<in> blk c j" "x \<in> blk b k" by blast
    then show "inside c j b k \<or> inside b k c j"
      using blk_level [of x b k c j] False \<open>b \<le> 31\<close> by (simp add: inside_def)
  next
    assume "inside c j b k \<or> inside b k c j"
    then have "k div 2 ^ (b - c) = j" using False by (auto simp: inside_def)
    then show "blk c j \<inter> blk b k \<noteq> {}"
      using blk_start [of k b] blk_level [of "k * bsize b" b k c j] False \<open>b \<le> 31\<close> by auto
  qed
qed

lemma inside_refl [simp]: "inside b k b k"
  by (simp add: inside_def)

lemma inside_parent:
  assumes "inside c j b k" "b < c"
  shows "inside (c - 1) (j div 2) b k"
proof -
  have "j div 2 ^ (c - b) = j div 2 div 2 ^ (c - 1 - b)"
    using assms(2) by (simp add: div_mult2_eq [symmetric] Suc_diff_Suc flip: power_Suc)
  then show ?thesis using assms by (simp add: inside_def)
qed

lemma parent_inside:
  assumes "0 < c"
  shows "inside c j (c - 1) (j div 2)"
  using assms by (simp add: inside_def)

lemma inside_trans: "inside d i c j \<Longrightarrow> inside c j b k \<Longrightarrow> inside d i b k"
proof -
  assume "inside d i c j" "inside c j b k"
  then have "b \<le> c" "c \<le> d" "i div 2 ^ (d - c) = j" "j div 2 ^ (c - b) = k" by (auto simp: inside_def)
  moreover then have "i div 2 ^ (d - b) = i div (2 ^ (d - c) * 2 ^ (c - b))"
    by (simp flip: power_add)
  ultimately show ?thesis by (simp add: inside_def div_mult2_eq)
qed

lemma unused_inside: "unused S b k \<Longrightarrow> inside c j b k \<Longrightarrow> c \<le> 31 \<Longrightarrow> unused S c j"
  using inside_subset [of c j b k] by (auto simp: unused_def)

lemma unused_children:
  assumes "b < 31"
  shows "unused S b k \<longleftrightarrow> unused S (b + 1) (2 * k) \<and> unused S (b + 1) (2 * k + 1)"
proof -
  have "blk b k = blk (b + 1) (2 * k) \<union> blk (b + 1) (2 * k + 1)"
  proof (intro set_eqI)
    fix x
    have "x div bsize b = x div bsize (b + 1) div 2"
      using assms bsize_split [of b "b + 1"] by (simp add: div_mult2_eq)
    then show "x \<in> blk b k \<longleftrightarrow> x \<in> blk (b + 1) (2 * k) \<union> blk (b + 1) (2 * k + 1)"
      by (auto simp: mem_blk)
  qed
  then show ?thesis by (auto simp: unused_def)
qed

lemma unused_union: "b \<le> 31 \<Longrightarrow> c \<le> 31 \<Longrightarrow>
    unused (S \<union> blk b k) c j \<longleftrightarrow> unused S c j \<and> \<not> inside c j b k \<and> \<not> inside b k c j"
  using blk_meet [of b c j k] by (auto simp: unused_def)

lemma unused_empty [simp]: "unused {} b k"
  by (simp add: unused_def)

section \<open>Taking a maximal unused node\<close>

text \<open>Above a maximal node no node of the tree is unused; next to it and below it nothing changes.\<close>

lemma above_maximal:
  assumes "k \<in> maximal L S b" "inside b k c j" "c < b" "L \<le> c" "b \<le> 31"
  shows "\<not> unused S c j"
proof
  assume "unused S c j"
  moreover have "inside (b - 1) (k div 2) c j" using assms(2,3) by (rule inside_parent)
  ultimately have "unused S (b - 1) (k div 2)" by (rule unused_inside) (use assms(5) in simp)
  then show False using assms(1,3,4) by (simp add: maximal_def)
qed

text \<open>The parent of a node that stays maximal was in use before, or the block has touched it.\<close>

lemma parent_stays_used:
  assumes "k \<in> maximal L S b" "b \<le> 31" "L < c" "c \<le> 31" "\<not> inside c j b k"
    and "\<not> unused (S \<union> blk b k) (c - 1) (j div 2)"
  shows "\<not> unused S (c - 1) (j div 2)"
proof -
  have "c - 1 \<le> 31" using assms(4) by simp
  from unused_union [OF assms(2) this] assms(6)
  consider "\<not> unused S (c - 1) (j div 2)" | "inside (c - 1) (j div 2) b k" | "inside b k (c - 1) (j div 2)"
    by blast
  then show ?thesis
  proof cases
    case 2
    have "inside c j (c - 1) (j div 2)" using assms(3) by (intro parent_inside) simp
    then have "inside c j b k" using 2 by (rule inside_trans)
    with assms(5) show ?thesis by simp
  next
    case 3
    have "c - 1 \<noteq> b"
    proof
      assume "c - 1 = b"
      then have "inside c j b k" using 3 assms(3) by (auto simp: inside_def)
      with assms(5) show False by simp
    qed
    then have "c - 1 < b" using 3 by (auto simp: inside_def)
    with 3 show ?thesis using assms by (intro above_maximal) auto
  qed simp
qed

lemma maximal_apart:
  assumes "k \<in> maximal L S b" "L \<le> b" "b \<le> 31" "L \<le> c" "c \<le> 31" "j \<in> maximal L S c" "c = b \<Longrightarrow> j \<noteq> k"
  shows "\<not> inside c j b k" "\<not> inside b k c j"
proof -
  show "\<not> inside c j b k"
  proof
    assume inside: "inside c j b k"
    then have "b < c" using assms(7) by (cases "b = c") (auto simp: inside_def)
    then have "\<not> unused S b k" using inside assms by (intro above_maximal [of j L S c]) auto
    then show False using assms(1) by (simp add: maximal_def)
  qed
  show "\<not> inside b k c j"
  proof
    assume inside: "inside b k c j"
    then have "c < b" using assms(7) by (cases "b = c") (auto simp: inside_def)
    then have "\<not> unused S c j" using inside assms by (intro above_maximal) auto
    then show False using assms(6) by (simp add: maximal_def)
  qed
qed

lemma take_maximal:
  assumes "k \<in> maximal L S b" "L \<le> b" "b \<le> 31" "L \<le> c" "c \<le> 31"
  shows "maximal L (S \<union> blk b k) c = maximal L S c - (if c = b then {k} else {})"
proof (intro set_eqI iffI)
  note un = unused_union [OF assms(3,5)]
  fix j
  assume j: "j \<in> maximal L (S \<union> blk b k) c"
  then have apart: "unused S c j" "\<not> inside c j b k" "\<not> inside b k c j"
    using un by (auto simp: maximal_def)
  have "\<not> unused S (c - 1) (j div 2)" if "c \<noteq> L"
  proof (rule parent_stays_used [OF assms(1,3) _ assms(5) apart(2)])
    show "L < c" using that assms(4) by simp
    show "\<not> unused (S \<union> blk b k) (c - 1) (j div 2)" using j that by (simp add: maximal_def)
  qed
  moreover have "j \<noteq> k" if "c = b" using apart(2) that by auto
  ultimately show "j \<in> maximal L S c - (if c = b then {k} else {})"
    using j apart(1) by (auto simp: maximal_def)
next
  fix j
  assume "j \<in> maximal L S c - (if c = b then {k} else {})"
  then have max: "j \<in> maximal L S c" "c = b \<Longrightarrow> j \<noteq> k" by auto
  have "\<not> unused (S \<union> blk b k) (c - 1) (j div 2)" if "c \<noteq> L"
    using max(1) that by (auto simp: maximal_def unused_def)
  then show "j \<in> maximal L (S \<union> blk b k) c"
    using max(1) maximal_apart [OF assms max] unused_union [OF assms(3,5)] by (auto simp: maximal_def)
qed

text \<open>The flag of a node depends on its children: whether they are unused changes inside of the block only.\<close>

lemma take_child:
  assumes "k \<in> maximal L S b" "b \<le> 31" "c < 31" "L \<le> c + 1"
  shows "unused (S \<union> blk b k) (c + 1) i \<longleftrightarrow> unused S (c + 1) i \<and> \<not> inside (c + 1) i b k"
proof -
  have "\<not> unused S (c + 1) i" if "inside b k (c + 1) i" "c + 1 < b"
    using that assms by (intro above_maximal) auto
  moreover have "inside (c + 1) i b k" if "inside b k (c + 1) i" "\<not> c + 1 < b"
  proof -
    have "b = c + 1" using that by (auto simp: inside_def)
    then show ?thesis using that by (simp add: inside_def)
  qed
  moreover have "c + 1 \<le> 31" using assms(3) by simp
  ultimately show ?thesis using unused_union [OF assms(2), of "c + 1" S k i] by blast
qed

lemma take_flag:
  assumes "k \<in> maximal L S b" "L \<le> b" "b \<le> 31" "c < 31"
  shows "split_flag L (S \<union> blk b k) c j \<longleftrightarrow> split_flag L S c j \<noteq> (c + 1 = b \<and> j = k div 2)"
proof -
  note keep = take_child [OF assms(1,3,4)]
  have unused_k: "unused S d i" if "inside d i b k" "d \<le> 31" for d i
    by (rule unused_inside [of S b k]) (use assms(1) that in \<open>simp_all add: maximal_def\<close>)
  consider "b \<le> c" | "c + 1 = b" | "c + 1 < b" by linarith
  then show ?thesis
  proof cases
    case 1
    then have both: "inside (c + 1) (2 * j) b k \<longleftrightarrow> inside (c + 1) (2 * j + 1) b k"
      by (simp add: inside_def Suc_diff_le div_mult2_eq)
    have below: "c + 1 \<le> 31" "L \<le> c + 1" "c + 1 \<noteq> b" using 1 assms(2,4) by simp_all
    show ?thesis
      using both below keep unused_k [of "c + 1" "2 * j"] unused_k [of "c + 1" "2 * j + 1"]
      by (cases "inside (c + 1) (2 * j) b k") (simp_all add: split_flag_def)
  next
    case 2
    then have L: "L \<le> c + 1" using assms(2) by simp
    have now: "unused (S \<union> blk b k) (c + 1) i \<longleftrightarrow> unused S (c + 1) i \<and> i \<noteq> k" for i
      using keep [OF L, of i] 2 by (auto simp: inside_def)
    have old: "unused S (c + 1) k" using unused_k [of b k] 2 assms(3) by simp
    consider "k = 2 * j" | "k = 2 * j + 1" | "k \<noteq> 2 * j" "k \<noteq> 2 * j + 1" "j \<noteq> k div 2" by fastforce
    then show ?thesis
      using L old 2 now [of "2 * j"] now [of "2 * j + 1"] by cases (simp_all add: split_flag_def)
  next
    case 3
    then have "\<not> inside (c + 1) i b k" for i by (auto simp: inside_def)
    then have "unused (S \<union> blk b k) (c + 1) i \<longleftrightarrow> unused S (c + 1) i" if "L \<le> c + 1" for i
      using keep [OF that, of i] by simp
    then show ?thesis using 3 by (auto simp: split_flag_def)
  qed
qed

section \<open>Giving a block back\<close>

lemma give_maximal:
  assumes "blk b k \<subseteq> S" "k < 2 ^ (b - L)" "L \<le> b" "b \<le> 31" "b = L \<or> \<not> unused (S - blk b k) (b - 1) (k div 2)"
  shows "k \<in> maximal L (S - blk b k) b" "(S - blk b k) \<union> blk b k = S"
  using assms by (auto simp: maximal_def unused_def)

text \<open>A node whose sibling is in use leaves a parent that is in use.\<close>

lemma sibling_used:
  assumes "\<not> unused S b (if even k then k + 1 else k - 1)" "0 < b" "b \<le> 31"
  shows "\<not> unused (S - blk b k) (b - 1) (k div 2)"
proof -
  let ?s = "if even k then k + 1 else k - 1"
  have "?s \<noteq> k" by (cases k) auto
  then have "blk b ?s \<inter> blk b k = {}" by (auto simp: mem_blk)
  then have "\<not> unused (S - blk b k) b ?s" using assms(1) by (auto simp: unused_def)
  moreover have "?s div 2 = k div 2" by (cases "even k") (auto elim!: oddE)
  then have "inside b ?s (b - 1) (k div 2)" using assms(2) by (simp add: inside_def)
  ultimately show ?thesis using unused_inside [of _ "b - 1" "k div 2" b ?s] assms(3) by blast
qed

section \<open>Growing the tree\<close>

lemma unused_outside: "S \<subseteq> {..<bsize L} \<Longrightarrow> L \<le> b \<Longrightarrow> b \<le> 31 \<Longrightarrow> 2 ^ (b - L) \<le> k \<Longrightarrow> unused S b k"
proof -
  assume S: "S \<subseteq> {..<bsize L}" and b: "L \<le> b" "b \<le> 31" and k: "2 ^ (b - L) \<le> k"
  have "bsize L \<le> k * bsize b" using bsize_split [OF b] k by (simp add: mult.commute)
  then have "x \<notin> S" if "x \<in> blk b k" for x using that S by (auto simp: blk_def)
  then show "unused S b k" by (auto simp: unused_def)
qed

lemma root_used:
  assumes "S \<subseteq> {..<bsize L}" "S \<noteq> {}"
  shows "\<not> unused S L 0"
proof -
  have "blk L 0 = {..<bsize L}" by (auto simp: blk_def)
  then show ?thesis using assms by (auto simp: unused_def)
qed

lemma maximal_empty: "L \<le> b \<Longrightarrow> maximal L {} b = (if b = L then {0} else {})"
  by (auto simp: maximal_def)

lemma split_flag_empty: "\<not> split_flag L {} b k"
  by (simp add: split_flag_def)

lemma grow_maximal:
  assumes "S \<subseteq> {..<bsize L}" "S \<noteq> {}" "0 < L" "L - 1 \<le> b" "b \<le> 31" "L \<le> 31"
  shows "maximal (L - 1) S b = (if b = L - 1 then {} else if b = L then {1} else maximal L S b)"
proof -
  have not_root: "\<not> unused S L 0" using assms(1,2) by (rule root_used)
  have "inside L 0 (L - 1) 0" by (simp add: inside_def)
  then have not_parent: "\<not> unused S (L - 1) 0" using not_root unused_inside assms(6) by blast
  consider "b = L - 1" | "b = L" | "L < b" using assms(4) by linarith
  then show ?thesis
  proof cases
    case 1
    then show ?thesis using not_parent by (auto simp: maximal_def)
  next
    case 2
    moreover have "unused S L 1" using assms by (intro unused_outside) auto
    moreover have "k = 0 \<or> k = 1" if "k < 2 ^ (L - (L - 1))" for k :: nat using that assms(3) by auto
    ultimately show ?thesis
      using assms(3) not_root not_parent by (auto simp: maximal_def)
  next
    case 3
    have in_old: "k < 2 ^ (b - L)" if "k \<in> maximal (L - 1) S b" for k
    proof (rule ccontr)
      assume "\<not> k < 2 ^ (b - L)"
      then have "2 ^ (b - L) \<le> k" by simp
      moreover have "(2 :: nat) ^ (b - L) = 2 ^ (b - 1 - L) * 2" using 3 by (simp add: Suc_diff_Suc flip: power_Suc2)
      ultimately have "2 ^ (b - 1 - L) \<le> k div 2" by (simp add: less_eq_div_iff_mult_less_eq)
      then have "unused S (b - 1) (k div 2)" using 3 assms by (intro unused_outside) auto
      then show False using that 3 by (auto simp: maximal_def)
    qed
    have in_new: "k < 2 ^ (b - (L - 1))" if "k < 2 ^ (b - L)" for k :: nat
    proof -
      have "(2 :: nat) ^ (b - L) \<le> 2 ^ (b - (L - 1))" by (rule power_increasing) auto
      with that show ?thesis by linarith
    qed
    have "k \<in> maximal (L - 1) S b \<longleftrightarrow> k \<in> maximal L S b" for k
      using in_old [of k] in_new [of k] 3 by (auto simp: maximal_def)
    then show ?thesis using 3 by auto
  qed
qed

lemma grow_flag:
  assumes "S \<subseteq> {..<bsize L}" "S \<noteq> {}" "0 < L" "L \<le> 31"
  shows "split_flag (L - 1) S b k \<longleftrightarrow> split_flag L S b k \<noteq> (b + 2 = L \<and> k = 0)"
proof -
  have not_root: "\<not> unused S L 0" using assms(1,2) by (rule root_used)
  have "inside L 0 (L - 1) 0" by (simp add: inside_def)
  then have not_parent: "\<not> unused S (L - 1) 0" using not_root unused_inside assms(4) by blast
  have small: "S \<subseteq> {..<bsize (L - 1)}"
    using assms(1) bsize_double [OF assms(3,4)] by auto
  show ?thesis
  proof (cases "b + 2 = L")
    case True
    then have L: "L - 1 = b + 1" "\<not> L \<le> b + 1" by auto
    have "unused S (b + 1) i" if "0 < i" for i
      using that L(1) assms(4) small by (intro unused_outside [of S "L - 1"]) auto
    moreover have "2 * k = 0 \<longleftrightarrow> k = 0" by simp
    ultimately show ?thesis
      using L not_parent by (cases "k = 0") (auto simp: split_flag_def)
  next
    case False
    then have "L - 1 \<le> b + 1 \<longleftrightarrow> L \<le> b + 1" by linarith
    then show ?thesis using False by (simp add: split_flag_def)
  qed
qed

end
