(* ===== verification/Buddy_State.thy ===== *)
theory Buddy_State
  imports Buddy_Heap Buddy_Nodes
begin

text \<open>
  The free lists of the heap in memory: where the list heads and the nodes lie, that their elements do
  not overlap, the lists of all the levels in one memory (\<open>free_lists\<close>), and what each list operation of
  the code does to them: it changes one list, leaves all the others as they are, and writes only to
  words of elements.
\<close>

section \<open>Addresses\<close>

definition naddr :: "heap \<Rightarrow> nat \<Rightarrow> nat \<Rightarrow> u32" where
  "naddr h b k = base_ptr h + of_nat (k * bsize b)"

definition head :: "heap \<Rightarrow> nat \<Rightarrow> u32" where
  "head h b = bucket_head h (of_nat b)"

text \<open>The array of list heads lies below the heap, and less than 2 GiB lie below and above its start.\<close>

definition layout :: "heap \<Rightarrow> bool" where
  "layout h \<longleftrightarrow> unat (base_ptr h) + 2 ^ 31 < 2 ^ 32 \<and> unat (buckets h) + 8 * 28 \<le> unat (base_ptr h)"

lemma offset_bound:
  assumes "b \<le> 27" "k < 2 ^ b"
  shows "k * bsize b + bsize b \<le> 2 ^ 31"
proof -
  have "(k + 1) * bsize b \<le> 2 ^ b * bsize b" using assms(2) by (intro mult_le_mono1) simp
  also have "\<dots> = 2 ^ 31" using assms(1) by (simp add: bsize_def flip: power_add)
  finally show ?thesis by simp
qed

lemma bsize_16: "b \<le> 27 \<Longrightarrow> bsize b = 16 * 2 ^ (27 - b)"
  using bsize_split [of b 27] by (simp add: bsize_def)

lemma bsize_ge_16: "b \<le> 27 \<Longrightarrow> 16 \<le> bsize b"
  by (simp add: bsize_16)

lemma unat_offset: "n < 2 ^ 31 \<Longrightarrow> unat (of_nat n :: u32) = n"
  by (simp add: unat_of_nat take_bit_nat_eq_self)

lemma unat_base_plus:
  assumes "layout h" "x < 2 ^ 31"
  shows "unat (base_ptr h + of_nat x) = unat (base_ptr h) + x"
proof -
  have "unat (base_ptr h) + unat (of_nat x :: u32) < 2 ^ 32"
    using assms by (simp add: layout_def unat_offset)
  then show ?thesis using unat_plus_no_wrap [of "base_ptr h" "of_nat x"] assms(2) by (simp add: unat_offset)
qed

lemma unat_naddr:
  assumes "layout h" "b \<le> 27" "k < 2 ^ b"
  shows "unat (naddr h b k) = unat (base_ptr h) + k * bsize b"
  unfolding naddr_def using offset_bound [OF assms(2,3)] bsize_ge_16 [OF assms(2)]
  by (intro unat_base_plus [OF assms(1)]) simp

lemma unat_head:
  assumes "layout h" "b \<le> 27"
  shows "unat (head h b) = unat (buckets h) + 8 * b"
proof -
  have "8 * b < 2 ^ 31" using assms(2) by simp
  then have b8: "unat (of_nat (8 * b) :: u32) = 8 * b" by (rule unat_offset)
  have "unat (buckets h) + unat (of_nat (8 * b) :: u32) < 2 ^ 32"
    using assms unat_bound [of "base_ptr h"] by (simp add: layout_def b8 del: of_nat_mult)
  then have "unat (buckets h + of_nat (8 * b)) = unat (buckets h) + 8 * b"
    using unat_plus_no_wrap [of "buckets h" "of_nat (8 * b)"] b8 by (simp del: of_nat_mult)
  then show ?thesis by (simp add: head_def bucket_head_def sizeof_list_def)
qed

lemma naddr_inj:
  assumes "layout h" "b \<le> 27" "k < 2 ^ b" "c \<le> 27" "j < 2 ^ c"
  shows "naddr h b k = naddr h c j \<longleftrightarrow> k * bsize b = j * bsize c"
  using assms unat_naddr by (auto simp: word_eq_unat)

lemma head_inj: "layout h \<Longrightarrow> b \<le> 27 \<Longrightarrow> c \<le> 27 \<Longrightarrow> head h b = head h c \<longleftrightarrow> b = c"
  by (auto simp: word_eq_unat unat_head)

lemma head_less_naddr:
  assumes "layout h" "b \<le> 27" "c \<le> 27" "j < 2 ^ c"
  shows "unat (head h b) + 8 \<le> unat (naddr h c j)"
  using assms by (simp add: unat_head unat_naddr) (simp add: layout_def)

lemma naddr_nonzero: "layout h \<Longrightarrow> b \<le> 27 \<Longrightarrow> k < 2 ^ b \<Longrightarrow> naddr h b k \<noteq> 0"
  using head_less_naddr [of h 0 b k] by auto

section \<open>Elements do not overlap\<close>

definition elements :: "heap \<Rightarrow> u32 set" where
  "elements h = head h ` {..27} \<union> {naddr h b k | b k. b \<le> 27 \<and> k < 2 ^ b}"

lemma unat_plus_4: "unat a + 8 \<le> 2 ^ 32 \<Longrightarrow> unat (a + 4 :: u32) = unat a + 4"
  using unat_plus_no_wrap [of a 4] by simp

lemma element_cases:
  assumes "layout h" "a \<in> elements h"
  obtains (head) b where "b \<le> 27" "a = head h b"
    | (node) b k where "b \<le> 27" "k < 2 ^ b" "a = naddr h b k"
  using assms(2) by (auto simp: elements_def)

lemma element_next:
  assumes "layout h" "a \<in> elements h"
  shows "unat (a + 4) = unat a + 4"
  using assms
proof (cases rule: element_cases)
  case (head b)
  then have "unat a + 8 \<le> unat (base_ptr h)" using assms(1) by (simp add: unat_head) (simp add: layout_def)
  then show ?thesis using unat_bound [of "base_ptr h"] by (intro unat_plus_4) simp
next
  case (node b k)
  then have "unat a + 16 \<le> unat (base_ptr h) + 2 ^ 31"
    using assms(1) offset_bound [of b k] bsize_ge_16 [of b] by (simp add: unat_naddr)
  then show ?thesis using assms(1) by (intro unat_plus_4) (simp add: layout_def)
qed

lemma apart_elements:
  assumes "layout h"
  shows "apart (elements h)"
  unfolding apart_def
proof (intro ballI notI)
  fix a a' assume a: "a \<in> elements h" "a' \<in> elements h" and eq: "a + 4 = a'"
  then have n: "unat a' = unat a + 4" using element_next [OF assms a(1)] by simp
  from assms a(1) show False
  proof (cases rule: element_cases)
    case (head b)
    note b = this
    from assms a(2) show False
    proof (cases rule: element_cases)
      case (head c)
      then have "8 * c = 8 * b + 4" using n b assms by (simp add: unat_head)
      then show False by presburger
    next
      case (node c j)
      then show False using n b assms head_less_naddr [of h b c j] by simp
    qed
  next
    case (node b k)
    note b = this
    from assms a(2) show False
    proof (cases rule: element_cases)
      case (head c)
      then show False using n b assms head_less_naddr [of h c b k] by simp
    next
      case (node c j)
      then have "j * bsize c = k * bsize b + 4" using n b assms by (simp add: unat_naddr)
      then have "16 * (j * 2 ^ (27 - c)) = 16 * (k * 2 ^ (27 - b)) + 4"
        using b node by (simp add: bsize_16)
      then show False by presburger
    qed
  qed
qed

text \<open>The words of a set of elements; an operation on some elements does not change a ring of others.\<close>

definition words :: "u32 set \<Rightarrow> u32 set" where
  "words A = A \<union> (\<lambda>a. a + 4) ` A"

lemma words_mono: "A \<subseteq> B \<Longrightarrow> words A \<subseteq> words B"
  by (auto simp: words_def)

lemma words_disjoint: "apart (A \<union> B) \<Longrightarrow> A \<inter> B = {} \<Longrightarrow> words A \<inter> words B = {}"
  by (auto simp: words_def apart_def)

lemma ring_other:
  assumes "ring m l xs" "\<And>a. a \<notin> words A \<Longrightarrow> m' a = m a" "apart (set (l # xs) \<union> A)" "set (l # xs) \<inter> A = {}"
  shows "ring m' l xs"
proof (rule ring_frame [OF assms(1)])
  fix b assume "b \<in> set (l # xs)"
  then have "b \<in> words (set (l # xs))" "b + 4 \<in> words (set (l # xs))" by (auto simp: words_def)
  then show "m' (b + 4) = m (b + 4) \<and> m' b = m b"
    using words_disjoint [OF assms(3,4)] assms(2) by blast
qed

section \<open>Free lists in memory\<close>

text \<open>
  The levels \<open>R\<close> have circular lists in the memory \<open>m\<close>, the list of level \<open>b\<close> linking the nodes \<open>F b\<close>;
  all the nodes are pairwise disjoint blocks.
\<close>

definition free_lists :: "heap \<Rightarrow> word_memory \<Rightarrow> nat set \<Rightarrow> (nat \<Rightarrow> nat list) \<Rightarrow> bool" where
  "free_lists h m R F \<longleftrightarrow>
     (\<forall>b \<in> R. b \<le> 27 \<and> distinct (F b) \<and> (\<forall>k \<in> set (F b). k < 2 ^ b) \<and>
        ring m (head h b) (map (naddr h b) (F b))) \<and>
     (\<forall>b \<in> R. \<forall>c \<in> R. \<forall>k \<in> set (F b). \<forall>j \<in> set (F c). (b, k) \<noteq> (c, j) \<longrightarrow> blk b k \<inter> blk c j = {})"

definition ring_set :: "heap \<Rightarrow> (nat \<Rightarrow> nat list) \<Rightarrow> nat \<Rightarrow> u32 set" where
  "ring_set h F b = set (head h b # map (naddr h b) (F b))"

lemma free_listsD:
  assumes "free_lists h m R F" "b \<in> R"
  shows "b \<le> 27" "distinct (F b)" "\<And>k. k \<in> set (F b) \<Longrightarrow> k < 2 ^ b"
    "ring m (head h b) (map (naddr h b) (F b))"
  using assms by (auto simp: free_lists_def)

lemma free_lists_disjoint:
  assumes "free_lists h m R F" "b \<in> R" "c \<in> R" "k \<in> set (F b)" "j \<in> set (F c)" "(b, k) \<noteq> (c, j)"
  shows "blk b k \<inter> blk c j = {}"
  using assms unfolding free_lists_def by blast

lemma naddr_distinct:
  assumes "layout h" "b \<le> 27" "k < 2 ^ b" "c \<le> 27" "j < 2 ^ c" "blk b k \<inter> blk c j = {}"
  shows "naddr h b k \<noteq> naddr h c j"
proof
  assume "naddr h b k = naddr h c j"
  then have "k * bsize b = j * bsize c" using naddr_inj assms by simp
  then show False using assms(6) blk_start [of k b] blk_start [of j c] by auto
qed

lemma naddr_not_head: "layout h \<Longrightarrow> b \<le> 27 \<Longrightarrow> c \<le> 27 \<Longrightarrow> k < 2 ^ c \<Longrightarrow> naddr h c k \<noteq> head h b"
  using head_less_naddr [of h b c k] by auto

lemma ring_set_elements:
  assumes "free_lists h m R F" "b \<in> R"
  shows "ring_set h F b \<subseteq> elements h"
  using free_listsD [OF assms] by (auto simp: ring_set_def elements_def)

lemma naddr_element: "b \<le> 27 \<Longrightarrow> k < 2 ^ b \<Longrightarrow> naddr h b k \<in> elements h"
  by (auto simp: elements_def)

lemma head_element: "b \<le> 27 \<Longrightarrow> head h b \<in> elements h"
  by (auto simp: elements_def)

text \<open>An element of no list: a node whose block is disjoint from those of the lists.\<close>

lemma naddr_not_in_ring:
  assumes "layout h" "free_lists h m R F" "c \<in> R" "b \<le> 27" "k < 2 ^ b"
    and "\<And>j. j \<in> set (F c) \<Longrightarrow> blk b k \<inter> blk c j = {}"
  shows "naddr h b k \<notin> ring_set h F c"
proof
  assume "naddr h b k \<in> ring_set h F c"
  then consider "naddr h b k = head h c" | j where "j \<in> set (F c)" "naddr h b k = naddr h c j"
    by (auto simp: ring_set_def)
  then show False
  proof cases
    case 1
    then show False using naddr_not_head [OF assms(1) free_listsD(1) [OF assms(2,3)] assms(4,5)] by simp
  next
    case (2 j)
    then show False
      using naddr_distinct [OF assms(1,4,5) free_listsD(1) [OF assms(2,3)] free_listsD(3) [OF assms(2,3) 2(1)]]
        assms(6) [OF 2(1)] by simp
  qed
qed

lemma head_not_in_ring:
  assumes "layout h" "free_lists h m R F" "c \<in> R" "b \<le> 27" "b \<noteq> c"
  shows "head h b \<notin> ring_set h F c"
  using assms free_listsD [OF assms(2,3)] head_inj [OF assms(1), of b c] naddr_not_head [OF assms(1,4), of c]
  by (fastforce simp: ring_set_def)

lemma ring_sets_disjoint:
  assumes "layout h" "free_lists h m R F" "b \<in> R" "c \<in> R" "b \<noteq> c"
  shows "ring_set h F b \<inter> ring_set h F c = {}"
proof -
  have "head h b \<notin> ring_set h F c"
    using assms free_listsD(1) [OF assms(2,3)] by (intro head_not_in_ring) auto
  moreover have nodes: "naddr h b k \<notin> ring_set h F c" if "k \<in> set (F b)" for k
    using assms free_listsD [OF assms(2,3)] that
    by (intro naddr_not_in_ring [OF assms(1,2,4)] free_lists_disjoint [OF assms(2,3,4)]) auto
  moreover have "naddr h b ` set (F b) \<inter> ring_set h F c = {}" using nodes by blast
  moreover have "ring_set h F b = insert (head h b) (naddr h b ` set (F b))" by (simp add: ring_set_def)
  ultimately show ?thesis by simp
qed

lemma ring_distinct:
  assumes "layout h" "free_lists h m R F" "b \<in> R"
  shows "distinct (head h b # map (naddr h b) (F b))"
proof -
  note f = free_listsD [OF assms(2,3)]
  have "inj_on (naddr h b) (set (F b))"
    using f(1,3) by (auto simp: inj_on_def naddr_inj [OF assms(1)])
  moreover have "head h b \<noteq> naddr h b k" if "k \<in> set (F b)" for k
    using naddr_not_head [OF assms(1) f(1,1) f(3) [OF that]] by simp
  ultimately show ?thesis using f(2) by (auto simp: distinct_map)
qed

section \<open>List operations\<close>

lemma ring_ends:
  assumes "ring m l xs"
  shows "m l \<in> set (l # xs)"
proof -
  have "m l = last (l # xs)" using assms unfolding ring_def by (rule chain_prev_end)
  moreover have "last (l # xs) \<in> set (l # xs)" by (rule last_in_set) simp
  ultimately show ?thesis by simp
qed

lemma ring_links:
  assumes "ring m l (xs @ e # ys)"
  shows "m e \<in> set (l # xs)" "m (e + 4) \<in> set (l # ys)"
proof -
  have "chain m l xs e" "chain m e ys l" using assms by (simp_all add: ring_def chain_append)
  then have "m e = last (l # xs)" "m (e + 4) = hd (ys @ [l])"
    by (simp_all only: chain_prev_end chain_next_start)
  moreover have "last (l # xs) \<in> set (l # xs)" "hd (ys @ [l]) \<in> set (ys @ [l])"
    by (rule last_in_set, simp) (rule hd_in_set, simp)
  ultimately show "m e \<in> set (l # xs)" "m (e + 4) \<in> set (l # ys)" by auto
qed

lemma list_push_frame:
  assumes "ring m l xs" "a \<notin> words (insert e (set (l # xs)))"
  shows "list_push m l e a = m a"
  using assms(2) ring_ends [OF assms(1)] by (auto simp: list_push_def words_def Let_def)

lemma list_remove_frame:
  assumes "ring m l (xs @ e # ys)" "a \<notin> words (set (l # xs @ e # ys))"
  shows "list_remove m e a = m a"
proof -
  have "m e \<in> set (l # xs @ e # ys)" "m (e + 4) \<in> set (l # xs @ e # ys)"
    using ring_links [OF assms(1)] by auto
  then show ?thesis using assms(2) by (auto simp: list_remove_def words_def Let_def)
qed

lemma list_init_frame: "a \<notin> words {l} \<Longrightarrow> list_init m l a = m a"
  by (auto simp: list_init_def words_def)

text \<open>Each list operation changes one list and leaves the others as they are.\<close>

lemma free_lists_push:
  assumes lay: "layout h" and lists: "free_lists h m R F" and b: "b \<in> R" and k: "k < 2 ^ b"
    and new: "\<And>c j. c \<in> R \<Longrightarrow> j \<in> set (F c) \<Longrightarrow> blk b k \<inter> blk c j = {}"
  shows "free_lists h (list_push m (head h b) (naddr h b k)) R (F(b := F b @ [k]))"
proof -
  let ?e = "naddr h b k" and ?m = "list_push m (head h b) (naddr h b k)"
  note fb = free_listsD [OF lists b]
  have b27: "b \<le> 27" by (rule fb)
  have e: "?e \<notin> ring_set h F c" if "c \<in> R" for c
    using new [OF that] by (rule naddr_not_in_ring [OF lay lists that b27 k])
  have sub: "insert ?e (ring_set h F c) \<subseteq> elements h" if "c \<in> R" for c
    using ring_set_elements [OF lists that] naddr_element [OF b27 k] by simp
  have "apart (insert ?e (ring_set h F b))"
    using apart_elements [OF lay] sub [OF b] by (rule apart_subset)
  then have ring_b: "ring ?m (head h b) (map (naddr h b) (F b @ [k]))"
    using ring_add_last [OF fb(4) ring_distinct [OF lay lists b]] e [OF b]
    by (simp add: list_push_def Let_def ring_set_def)
  have ring_c: "ring ?m (head h c) (map (naddr h c) (F c))" if c: "c \<in> R" "c \<noteq> b" for c
  proof (rule ring_other [OF free_listsD(4) [OF lists c(1)]])
    show "?m a = m a" if "a \<notin> words (insert ?e (ring_set h F b))" for a
      using that unfolding ring_set_def by (rule list_push_frame [OF fb(4)])
    show "apart (set (head h c # map (naddr h c) (F c)) \<union> insert ?e (ring_set h F b))"
      using apart_elements [OF lay] ring_set_elements [OF lists c(1)] sub [OF b]
      by (rule_tac apart_subset) (auto simp: ring_set_def)
    show "set (head h c # map (naddr h c) (F c)) \<inter> insert ?e (ring_set h F b) = {}"
      using e [OF c(1)] ring_sets_disjoint [OF lay lists c(1) b c(2)] by (simp add: ring_set_def)
  qed
  have "k \<notin> set (F b)" using new [OF b, of k] blk_start [of k b] by blast
  moreover have "blk c j \<inter> blk b k = {}" if "c \<in> R" "j \<in> set (F c)" for c j
    using new [OF that] by blast
  ultimately show ?thesis
    using lists ring_b ring_c k new unfolding free_lists_def by (auto simp: Ball_def)
qed

lemma free_lists_remove:
  assumes lay: "layout h" and lists: "free_lists h m R F" and b: "b \<in> R" and k: "F b = ks @ k # js"
  shows "free_lists h (list_remove m (naddr h b k)) R (F(b := ks @ js))"
proof -
  let ?m = "list_remove m (naddr h b k)"
  note fb = free_listsD [OF lists b]
  have elems: "apart (ring_set h F b \<union> ring_set h F c)" if "c \<in> R" for c
    using apart_elements [OF lay] ring_set_elements [OF lists b] ring_set_elements [OF lists that]
    by (rule_tac apart_subset) auto
  have ring_b: "ring ?m (head h b) (map (naddr h b) (ks @ js))"
    using ring_take_out [of m "head h b" "map (naddr h b) ks" "naddr h b k" "map (naddr h b) js"]
      fb(4) ring_distinct [OF lay lists b] elems [OF b]
    by (simp add: k list_remove_def Let_def ring_set_def)
  have ring_c: "ring ?m (head h c) (map (naddr h c) (F c))" if c: "c \<in> R" "c \<noteq> b" for c
  proof (rule ring_other [OF free_listsD(4) [OF lists c(1)]])
    show "?m a = m a" if "a \<notin> words (ring_set h F b)" for a
      using that fb(4) unfolding ring_set_def k map_append list.map by (rule list_remove_frame [rotated])
    show "apart (set (head h c # map (naddr h c) (F c)) \<union> ring_set h F b)"
      using elems [OF c(1)] by (simp add: ring_set_def Un_commute)
    show "set (head h c # map (naddr h c) (F c)) \<inter> ring_set h F b = {}"
      using ring_sets_disjoint [OF lay lists c(1) b c(2)] by (simp add: ring_set_def)
  qed
  have "set (ks @ js) \<subseteq> set (F b)" "distinct (ks @ js)" using fb(2) k by auto
  then show ?thesis
    using lists ring_b ring_c unfolding free_lists_def by (auto simp: Ball_def subset_iff)
qed

lemma free_lists_init:
  assumes lay: "layout h" and lists: "free_lists h m R F" and b: "b \<notin> R" "b \<le> 27"
  shows "free_lists h (list_init m (head h b)) (insert b R) (F(b := []))"
proof -
  let ?m = "list_init m (head h b)"
  have ring_b: "ring ?m (head h b) []" unfolding list_init_def by (rule ring_empty) simp
  have ring_c: "ring ?m (head h c) (map (naddr h c) (F c))" if c: "c \<in> R" for c
  proof (rule ring_other [OF free_listsD(4) [OF lists c]])
    show "?m a = m a" if "a \<notin> words {head h b}" for a using that by (rule list_init_frame)
    show "apart (set (head h c # map (naddr h c) (F c)) \<union> {head h b})"
      using apart_elements [OF lay] ring_set_elements [OF lists c] head_element [OF b(2), of h]
      by (rule_tac apart_subset) (auto simp: ring_set_def)
    show "set (head h c # map (naddr h c) (F c)) \<inter> {head h b} = {}"
      using head_not_in_ring [OF lay lists c b(2)] b(1) c by (auto simp: ring_set_def)
  qed
  show ?thesis
    using lists ring_b ring_c b unfolding free_lists_def by (auto simp: Ball_def)
qed

lemma free_lists_pop:
  assumes lay: "layout h" and lists: "free_lists h m R F" and b: "b \<in> R"
  shows "list_pop m (head h b) =
    (if F b = [] then (0, m) else (naddr h b (last (F b)), list_remove m (naddr h b (last (F b)))))"
proof -
  note fb = free_listsD [OF lists b]
  have last_one: "m (head h b) = last (head h b # map (naddr h b) (F b))"
    using fb(4) unfolding ring_def by (rule chain_prev_end)
  show ?thesis
  proof (cases "F b = []")
    case True
    then show ?thesis using last_one by (simp add: list_pop_def)
  next
    case False
    then have "m (head h b) = naddr h b (last (F b))" using last_one by (simp add: last_map)
    moreover have "naddr h b (last (F b)) \<noteq> head h b"
      using naddr_not_head [OF lay fb(1,1) fb(3)] False by simp
    ultimately show ?thesis using False by (simp add: list_pop_def Let_def)
  qed
qed

end
