(* ===== verification/Buddy_Tree.thy ===== *)
theory Buddy_Tree
  imports Buddy_State
begin

text \<open>
  The nodes and the flags in the code's representation, the invariant \<open>heap_ok\<close> of a heap whose
  allocated offsets are \<open>S\<close>, and the two steps all the routines are made of: taking an unused node out
  of a free list, and giving a block back to one, each with the flag of the parent flipped.
\<close>

section \<open>Indices and pointers of nodes\<close>

definition node :: "nat \<Rightarrow> nat \<Rightarrow> u32" where
  "node b k = of_nat (idx b k)"

lemma idx_bound: "b \<le> 27 \<Longrightarrow> k < 2 ^ b \<Longrightarrow> idx b k < 2 ^ 28"
proof -
  assume "b \<le> 27" "k < 2 ^ b"
  then have "(2 :: nat) ^ b \<le> 2 ^ 27" by (intro power_increasing) auto
  then show "idx b k < 2 ^ 28" using \<open>k < 2 ^ b\<close> by (simp add: idx_def)
qed

lemma unat_node: "b \<le> 27 \<Longrightarrow> k < 2 ^ b \<Longrightarrow> unat (node b k) = idx b k"
  using idx_bound [of b k] unat_offset [of "idx b k"] by (simp add: node_def)

lemma idx_Suc: "idx b k + 1 = 2 ^ b + k"
  by (simp add: idx_def)

lemma idx_eq_0: "idx b k = 0 \<longleftrightarrow> b = 0 \<and> k = 0"
proof -
  have "(2 :: nat) ^ b = 1 \<longleftrightarrow> b = 0" by simp
  moreover have "(1 :: nat) \<le> 2 ^ b" by simp
  ultimately show ?thesis using idx_Suc [of b k] by linarith
qed

lemma node_eq_0: "b \<le> 27 \<Longrightarrow> k < 2 ^ b \<Longrightarrow> node b k = 0 \<longleftrightarrow> b = 0"
  using unat_node [of b k] idx_eq_0 [of b k] by (auto simp: word_eq_unat)

lemma idx_child: "idx (b + 1) (2 * k + d) = 2 * idx b k + 1 + d"
proof -
  have "(2 :: nat) ^ (b + 1) = 2 * 2 ^ b" by simp
  then show ?thesis using idx_Suc [of b k] idx_Suc [of "b + 1" "2 * k + d"] by linarith
qed

lemma idx_parent:
  assumes "0 < b"
  shows "(idx b k - 1) div 2 = idx (b - 1) (k div 2)"
proof -
  have "idx b k = 2 * idx (b - 1) (k div 2) + 1 + k mod 2"
    using idx_child [of "b - 1" "k div 2" "k mod 2"] assms by simp
  then show ?thesis by simp
qed

lemma parent_bound: "0 < b \<Longrightarrow> (k :: nat) < 2 ^ b \<Longrightarrow> k div 2 < 2 ^ (b - 1)"
  by (simp add: div_less_iff_less_mult flip: power_Suc2)

lemma node_parent:
  assumes "0 < b" "b \<le> 27" "k < 2 ^ b"
  shows "(node b k - 1) div 2 = node (b - 1) (k div 2)"
proof -
  have "unat (node (b - 1) (k div 2)) = (idx b k - 1) div 2"
    using assms parent_bound [of b k] idx_parent [of b k] unat_node [of "b - 1" "k div 2"] by linarith
  moreover have "unat ((node b k - 1) div 2) = (idx b k - 1) div 2"
    using assms node_eq_0 [of b k] by (simp add: unat_div unat_pred unat_node)
  ultimately show ?thesis by (simp add: word_eq_unat)
qed

lemma node_left: "node b k * 2 + 1 = node (b + 1) (2 * k)"
proof -
  have "idx (b + 1) (2 * k) = idx b k * 2 + 1" using idx_child [of b k 0] by simp
  then show ?thesis by (simp add: node_def)
qed

lemma node_next: "node b k + 1 = node b (k + 1)"
proof -
  have "idx b (k + 1) = idx b k + 1" using idx_Suc [of b k] idx_Suc [of b "k + 1"] by linarith
  then show ?thesis by (simp add: node_def)
qed

lemma node_sibling:
  assumes "0 < b" "b \<le> 27" "k < 2 ^ b"
  shows "((node b k - 1) XOR 1) + 1 = node b (if even k then k + 1 else k - 1)"
proof -
  have ev: "even ((2 :: nat) ^ b)" using assms(1) by simp
  have pos: "0 < idx b k" using assms(1) idx_eq_0 [of b k] by simp
  have n: "unat (node b k - 1) = idx b k - 1"
    using assms node_eq_0 [of b k] by (simp add: unat_pred unat_node)
  have "(2 :: nat) \<le> 2 ^ b" using power_increasing [of 1 b "2 :: nat"] assms(1) by simp
  then have "idx b k - 1 + 2 = 2 ^ b + k" using idx_Suc [of b k] by linarith
  then have par: "even (idx b k - 1) \<longleftrightarrow> even k" using ev by (metis even_add even_numeral even_plus_one_iff)
  have bound: "idx b k < 2 ^ 28" using assms by (intro idx_bound)
  have sib: "idx b (if even k then k + 1 else k - 1) = (if even k then idx b k + 1 else idx b k - 1)"
    using idx_Suc [of b k] idx_Suc [of b "k + 1"] idx_Suc [of b "k - 1"] by (cases k) auto
  have "unat ((node b k - 1) XOR 1) = (idx b k - 1) XOR 1"
    by (simp add: unsigned_xor_eq n)
  also have "\<dots> = (if even k then idx b k else idx b k - 2)"
    using par pos by (simp add: xor_Suc_0_eq numeral_2_eq_2)
  finally have x: "unat ((node b k - 1) XOR 1) = (if even k then idx b k else idx b k - 2)" .
  have "odd k \<longrightarrow> 2 \<le> idx b k" using par pos by (cases "idx b k = 1") auto
  then have "unat (((node b k - 1) XOR 1) + 1) = (if even k then idx b k + 1 else idx b k - 1)"
    using x bound unat_plus_no_wrap [of "(node b k - 1) XOR 1" 1] by auto
  also have "\<dots> = unat (of_nat (if even k then idx b k + 1 else idx b k - 1) :: u32)"
    using bound by (subst unat_offset) auto
  finally have "((node b k - 1) XOR 1) + 1 = of_nat (if even k then idx b k + 1 else idx b k - 1)"
    by (simp only: word_eq_unat)
  then show ?thesis by (simp only: node_def sib)
qed

lemma level_word: "b \<le> 27 \<Longrightarrow> unat (of_nat b :: u32) = b"
  by (simp add: unat_offset)

lemma push_bit_of_nat: "push_bit n (of_nat x :: u32) = of_nat (x * 2 ^ n)"
  by (simp add: push_bit_eq_mult)

lemma node_Suc: "node b k + 1 = of_nat (2 ^ b + k)"
proof -
  have "node b k + 1 = of_nat (idx b k + 1)" by (simp add: node_def)
  then show ?thesis by (simp only: idx_Suc)
qed

lemma ptr_for_node_eq:
  assumes "b \<le> 27"
  shows "ptr_for_node h (node b k) (of_nat b) = naddr h b k"
proof -
  note node_Suc [of b k]
  moreover have "node b k - push_bit b 1 + 1 = (node b k + 1) - 2 ^ b"
    by (simp add: push_bit_eq_mult)
  ultimately have "node b k - push_bit b 1 + 1 = of_nat k" by simp
  then show ?thesis
    by (simp add: ptr_for_node_def level_word assms MAX_ALLOC_LOG2_def naddr_def bsize_def push_bit_of_nat)
qed

lemma signed_drop_bit_positive:
  assumes "n < 2 ^ 31"
  shows "signed_drop_bit m (of_nat n :: u32) = drop_bit m (of_nat n)"
proof (rule bit_word_eqI)
  fix i assume "i < LENGTH(32)"
  have "\<not> bit (unat (of_nat n :: u32)) 31"
    unfolding unat_offset [OF assms] using assms by (simp add: bit_iff_odd)
  then have "\<not> bit (of_nat n :: u32) 31" by (simp add: bit_unsigned_iff)
  then show "bit (signed_drop_bit m (of_nat n :: u32)) i \<longleftrightarrow> bit (drop_bit m (of_nat n :: u32)) i"
    using \<open>i < LENGTH(32)\<close>
    by (auto simp: bit_signed_drop_bit_iff bit_drop_bit_eq dest: bit_imp_le_length)
qed

lemma node_for_ptr_eq:
  assumes "layout h" "b \<le> 27" "k < 2 ^ b"
  shows "node_for_ptr h (naddr h b k) (of_nat b) = node b k"
proof -
  let ?n = "k * bsize b"
  have bound: "?n < 2 ^ 31" using offset_bound [OF assms(2,3)] bsize_ge_16 [OF assms(2)] by simp
  have "unat (signed_drop_bit (31 - b) (of_nat ?n :: u32)) = ?n div 2 ^ (31 - b)"
    unfolding signed_drop_bit_positive [OF bound] unat_drop_bit_eq unat_offset [OF bound]
    by (rule drop_bit_eq_div)
  also have "\<dots> = k" by (simp add: bsize_def)
  also have "\<dots> = unat (of_nat k :: u32)"
    using bound bsize_ge_16 [OF assms(2)] by (intro unat_offset [symmetric] le_less_trans [of k ?n]) auto
  finally have "signed_drop_bit (31 - b) (of_nat ?n :: u32) = of_nat k" by (simp only: word_eq_unat)
  moreover have "of_nat k + 2 ^ b - 1 = (node b k + 1) - 1" unfolding node_Suc by simp
  ultimately show ?thesis
    by (simp add: node_for_ptr_def naddr_def level_word assms(2) MAX_ALLOC_LOG2_def push_bit_eq_mult del: of_nat_mult)
qed

section \<open>Split flags\<close>

definition flag :: "heap \<Rightarrow> nat \<Rightarrow> bool" where
  "flag h i = bit (node_is_split h (of_nat (i div 8))) (i mod 8)"

definition flip_flag :: "heap \<Rightarrow> nat \<Rightarrow> heap" where
  "flip_flag h i = h\<lparr>node_is_split := (node_is_split h)(of_nat (i div 8) :=
     node_is_split h (of_nat (i div 8)) XOR 2 ^ (i mod 8))\<rparr>"

lemma flip_flag_fields [simp]:
  "mem (flip_flag h i) = mem h" "buckets (flip_flag h i) = buckets h"
  "bucket_limit (flip_flag h i) = bucket_limit h" "base_ptr (flip_flag h i) = base_ptr h"
  "max_ptr (flip_flag h i) = max_ptr h" "heap_end (flip_flag h i) = heap_end h"
  by (simp_all add: flip_flag_def)

lemma flag_flip:
  assumes "i < 2 ^ 31" "j < 2 ^ 31"
  shows "flag (flip_flag h i) j \<longleftrightarrow> flag h j \<noteq> (i = j)"
proof (cases "i div 8 = j div 8")
  case True
  then have "i = j \<longleftrightarrow> j mod 8 = i mod 8" by (metis div_mult_mod_eq)
  moreover have "i mod 8 < LENGTH(8)" by simp
  ultimately show ?thesis using True bit_xor_single [of "i mod 8", where 'a = 8]
    by (auto simp: flag_def flip_flag_def)
next
  case False
  have "i div 8 < 2 ^ 31" "j div 8 < 2 ^ 31" using assms by (auto intro: le_less_trans [OF div_le_dividend])
  then have "(of_nat (i div 8) :: u32) \<noteq> of_nat (j div 8)"
    using False unat_offset by (metis word_eq_unat)
  then show ?thesis using False by (auto simp: flag_def flip_flag_def)
qed

lemma split_bytes_eq: "split_bytes = 16777216"
  by (simp add: split_bytes_def BUCKET_COUNT_def MAX_ALLOC_LOG2_def MIN_ALLOC_LOG2_def push_bit_eq_mult)

lemma flag_index:
  assumes "b \<le> 26" "k < 2 ^ b"
  shows "node b k div 8 < split_bytes" "node b k div 8 = of_nat (idx b k div 8)"
    "unat (node b k mod 8) = idx b k mod 8" "idx b k < 2 ^ 27"
proof -
  have "(2 :: nat) ^ b \<le> 2 ^ 26" using assms(1) by (rule power_increasing) simp
  then show bound: "idx b k < 2 ^ 27" using assms(2) by (simp add: idx_def)
  have n: "unat (node b k) = idx b k" using assms by (simp add: unat_node)
  then have d: "unat (node b k div 8) = idx b k div 8" by (simp add: unat_div)
  then show "node b k div 8 < split_bytes" using bound by (simp add: word_less_nat_alt split_bytes_eq)
  have "idx b k div 8 < 2 ^ 31" using bound by simp
  then show "node b k div 8 = of_nat (idx b k div 8)" using d by (simp add: word_eq_unat unat_offset)
  show "unat (node b k mod 8) = idx b k mod 8" using n by (simp add: unat_mod)
qed

lemma parent_is_split_eq:
  assumes "0 < b" "b \<le> 27" "k < 2 ^ b"
  shows "\<exists>w. parent_is_split h (node b k) = Inr w \<and> (w = 0 \<longleftrightarrow> \<not> flag h (idx (b - 1) (k div 2)))"
proof -
  have "b - 1 \<le> 26" using assms by simp
  note f = flag_index [OF this parent_bound [OF assms(1,3)]]
  let ?w = "drop_bit (idx (b - 1) (k div 2) mod 8) (node_is_split h (of_nat (idx (b - 1) (k div 2) div 8))) AND 1"
  have "parent_is_split h (node b k) = Inr ?w"
    using f by (simp add: parent_is_split_def node_parent [OF assms])
  moreover have "?w = 0 \<longleftrightarrow> \<not> flag h (idx (b - 1) (k div 2))"
    using and_single_eq_0 [of _ 0, where 'a = 8] by (simp add: flag_def bit_drop_bit_eq)
  ultimately show ?thesis by blast
qed

lemma flip_parent_is_split_eq:
  assumes "0 < b" "b \<le> 27" "k < 2 ^ b"
  shows "flip_parent_is_split h (node b k) = Inr (flip_flag h (idx (b - 1) (k div 2)))"
proof -
  have "b - 1 \<le> 26" using assms by simp
  note f = flag_index [OF this parent_bound [OF assms(1,3)]]
  show ?thesis
    using f by (simp add: flip_parent_is_split_def node_parent [OF assms] flip_flag_def push_bit_eq_mult)
qed

lemma idx_inj:
  assumes "k < 2 ^ b" "j < 2 ^ c" "idx b k = idx c j"
  shows "b = c \<and> k = j"
proof -
  have eq: "2 ^ b + k = 2 ^ c + j" using assms(3) idx_Suc [of b k] idx_Suc [of c j] by simp
  have "\<not> b < c" "\<not> c < b"
    using assms(1,2) eq power_increasing [of "Suc b" c "2 :: nat"] power_increasing [of "Suc c" b "2 :: nat"]
    by auto
  then show ?thesis using eq by simp
qed

section \<open>The invariant\<close>

definition limit :: "heap \<Rightarrow> nat" where
  "limit h = unat (bucket_limit h)"

definition flags_ok :: "heap \<Rightarrow> nat \<Rightarrow> nat set \<Rightarrow> bool" where
  "flags_ok h L S \<longleftrightarrow> (\<forall>b < 27. \<forall>k < 2 ^ b. flag h (idx b k) = split_flag L S b k)"

text \<open>
  The flags and the free lists of \<open>h\<close> are those the tree rooted at the bucket limit has when \<open>S\<close> is
  allocated; \<open>F b\<close> is the free list of level \<open>b\<close>, the next node to be popped at its end.
\<close>

definition heap_ok :: "heap \<Rightarrow> nat set \<Rightarrow> (nat \<Rightarrow> nat list) \<Rightarrow> bool" where
  "heap_ok h S F \<longleftrightarrow> layout h \<and> limit h \<le> 27 \<and> S \<subseteq> {..<bsize (limit h)} \<and> flags_ok h (limit h) S \<and>
     free_lists h (mem h) {limit h..27} F \<and> (\<forall>b \<in> {limit h..27}. set (F b) = maximal (limit h) S b)"

lemma heap_okD:
  assumes "heap_ok h S F"
  shows "layout h" "limit h \<le> 27" "S \<subseteq> {..<bsize (limit h)}" "flags_ok h (limit h) S"
    "free_lists h (mem h) {limit h..27} F"
    "\<And>b. limit h \<le> b \<Longrightarrow> b \<le> 27 \<Longrightarrow> set (F b) = maximal (limit h) S b"
  using assms by (simp_all add: heap_ok_def)

lemma maximal_bound: "k \<in> maximal L S b \<Longrightarrow> k < 2 ^ b"
proof -
  assume "k \<in> maximal L S b"
  then have "k < 2 ^ (b - L)" by (simp add: maximal_def)
  also have "\<dots> \<le> 2 ^ b" by (rule power_increasing) auto
  finally show ?thesis .
qed

lemma layout_cong: "base_ptr h' = base_ptr h \<Longrightarrow> buckets h' = buckets h \<Longrightarrow> layout h' = layout h"
  by (simp add: layout_def)

lemma naddr_cong: "base_ptr h' = base_ptr h \<Longrightarrow> naddr h' = naddr h"
  by (simp add: naddr_def fun_eq_iff)

lemma head_cong: "buckets h' = buckets h \<Longrightarrow> head h' = head h"
  by (simp add: head_def bucket_head_def fun_eq_iff)

lemma free_lists_cong:
  "base_ptr h' = base_ptr h \<Longrightarrow> buckets h' = buckets h \<Longrightarrow> free_lists h' m R F = free_lists h m R F"
  using naddr_cong [of h' h] head_cong [of h' h] by (simp add: free_lists_def)

lemma flag_cong: "node_is_split h' = node_is_split h \<Longrightarrow> flag h' i = flag h i"
  by (simp add: flag_def)

section \<open>Taking a node and giving a block back\<close>

definition flip_parent :: "heap \<Rightarrow> nat \<Rightarrow> nat \<Rightarrow> heap" where
  "flip_parent h b k = (if b = 0 then h else flip_flag h (idx (b - 1) (k div 2)))"

lemma flip_parent_fields [simp]:
  "mem (flip_parent h b k) = mem h" "buckets (flip_parent h b k) = buckets h"
  "bucket_limit (flip_parent h b k) = bucket_limit h" "base_ptr (flip_parent h b k) = base_ptr h"
  "max_ptr (flip_parent h b k) = max_ptr h" "heap_end (flip_parent h b k) = heap_end h"
  by (simp_all add: flip_parent_def)

lemma flip_parent_limit [simp]: "limit (flip_parent h b k) = limit h"
  by (simp add: limit_def)

lemma flag_flip_parent:
  assumes "b \<le> 27" "k < 2 ^ b" "c < 27" "j < 2 ^ c"
  shows "flag (flip_parent h b k) (idx c j) \<longleftrightarrow> flag h (idx c j) \<noteq> (c + 1 = b \<and> j = k div 2)"
proof (cases "b = 0")
  case False
  then have p: "b - 1 \<le> 26" "k div 2 < 2 ^ (b - 1)" using assms parent_bound [of b k] by auto
  have "idx (b - 1) (k div 2) < 2 ^ 27" "idx c j < 2 ^ 27"
    using flag_index(4) [OF p] flag_index(4) [of c j] assms by simp_all
  then have bounds: "idx (b - 1) (k div 2) < 2 ^ 31" "idx c j < 2 ^ 31" by simp_all
  have "idx (b - 1) (k div 2) = idx c j \<longleftrightarrow> c + 1 = b \<and> j = k div 2"
    using idx_inj [OF p(2) assms(4)] False by auto
  then show ?thesis using False flag_flip [OF bounds, of h] by (simp add: flip_parent_def)
qed (simp add: flip_parent_def)

lemma blk_in_root:
  assumes "k < 2 ^ (b - L)" "L \<le> b" "b \<le> 31"
  shows "blk b k \<subseteq> {..<bsize L}"
proof -
  have "inside b k L 0" using assms by (simp add: inside_def)
  then have "blk b k \<subseteq> blk L 0" using assms(3) by (rule inside_subset)
  then show ?thesis by (auto simp: blk_def)
qed

lemma take_block:
  assumes ok: "heap_ok h S F" and b: "limit h \<le> b" "b \<le> 27" and k: "F b = ks @ k # js"
  shows "heap_ok ((flip_parent h b k)\<lparr>mem := list_remove (mem h) (naddr h b k)\<rparr>)
    (S \<union> blk b k) (F(b := ks @ js))"
proof -
  let ?h = "(flip_parent h b k)\<lparr>mem := list_remove (mem h) (naddr h b k)\<rparr>" and ?L = "limit h"
  note d = heap_okD [OF ok]
  have in_R: "b \<in> {?L..27}" using b by simp
  have max: "k \<in> maximal ?L S b" using d(6) [OF b] k by auto
  have k_bound: "k < 2 ^ b" using max by (rule maximal_bound)
  have lim: "limit ?h = ?L" by (simp add: limit_def)
  have "blk b k \<subseteq> {..<bsize ?L}" using max b by (intro blk_in_root) (auto simp: maximal_def)
  moreover have "flags_ok ?h ?L (S \<union> blk b k)"
    unfolding flags_ok_def
  proof (intro allI impI)
    fix c j :: nat assume c: "c < 27" "j < 2 ^ c"
    have "flag ?h (idx c j) = flag (flip_parent h b k) (idx c j)" by (rule flag_cong) simp
    then show "flag ?h (idx c j) = split_flag ?L (S \<union> blk b k) c j"
      using flag_flip_parent [OF b(2) k_bound c, of h] take_flag [OF max b(1), of c j] b(2) c d(4)
      by (simp add: flags_ok_def)
  qed
  moreover have "free_lists ?h (mem ?h) {?L..27} (F(b := ks @ js))"
    using free_lists_remove [where b = b, OF d(1) d(5) in_R k] free_lists_cong [of ?h h] by simp
  moreover have "set ((F(b := ks @ js)) c) = maximal ?L (S \<union> blk b k) c" if "c \<in> {?L..27}" for c
  proof -
    have "set (F c) = maximal ?L S c" using d(6) that by simp
    moreover have "distinct (F b)" using free_listsD(2) [OF d(5) in_R] .
    moreover have "maximal ?L (S \<union> blk b k) c = maximal ?L S c - (if c = b then {k} else {})"
      using that b by (intro take_maximal [OF max]) auto
    ultimately show ?thesis using k by (cases "c = b") auto
  qed
  ultimately show ?thesis
    using d(1-3) lim layout_cong [of ?h h] by (simp add: heap_ok_def)
qed

lemma give_block:
  assumes ok: "heap_ok h S F" and b: "limit h \<le> b" "b \<le> 27" and k: "k < 2 ^ (b - limit h)" "blk b k \<subseteq> S"
    and parent: "b = limit h \<or> \<not> unused (S - blk b k) (b - 1) (k div 2)"
  shows "heap_ok ((flip_parent h b k)\<lparr>mem := list_push (mem h) (head h b) (naddr h b k)\<rparr>)
    (S - blk b k) (F(b := F b @ [k]))"
proof -
  let ?h = "(flip_parent h b k)\<lparr>mem := list_push (mem h) (head h b) (naddr h b k)\<rparr>"
    and ?L = "limit h" and ?S = "S - blk b k"
  note d = heap_okD [OF ok]
  have in_R: "b \<in> {?L..27}" using b by simp
  have b31: "b \<le> 31" using b by simp
  note give = give_maximal [OF k(2,1) b(1) b31 parent]
  have k_bound: "k < 2 ^ b" using give(1) by (rule maximal_bound)
  have lim: "limit ?h = ?L" by (simp add: limit_def)
  have "flags_ok ?h ?L ?S"
    unfolding flags_ok_def
  proof (intro allI impI)
    fix c j :: nat assume c: "c < 27" "j < 2 ^ c"
    have "flag ?h (idx c j) = flag (flip_parent h b k) (idx c j)" by (rule flag_cong) simp
    moreover have "split_flag ?L S c j \<longleftrightarrow> split_flag ?L ?S c j \<noteq> (c + 1 = b \<and> j = k div 2)"
      using take_flag [OF give(1) b(1) b31, of c j] c unfolding give(2) by simp
    ultimately show "flag ?h (idx c j) = split_flag ?L ?S c j"
      using flag_flip_parent [OF b(2) k_bound c, of h] c d(4) by (auto simp: flags_ok_def)
  qed
  moreover have "free_lists ?h (mem ?h) {?L..27} (F(b := F b @ [k]))"
  proof -
    have "blk b k \<inter> blk c j = {}" if "c \<in> {?L..27}" "j \<in> set (F c)" for c j
      using that d(6) [of c] k(2) by (auto simp: maximal_def unused_def)
    then show ?thesis
      using free_lists_push [OF d(1) d(5) in_R k_bound] free_lists_cong [of ?h h] by simp
  qed
  moreover have "set ((F(b := F b @ [k])) c) = maximal ?L ?S c" if "c \<in> {?L..27}" for c
  proof -
    have "set (F c) = maximal ?L S c" using d(6) that by simp
    moreover have "maximal ?L S c = maximal ?L ?S c - (if c = b then {k} else {})"
      using take_maximal [OF give(1) b(1) b31, of c] that unfolding give(2) by simp
    ultimately show ?thesis using give(1) by (cases "c = b") auto
  qed
  ultimately show ?thesis
    using d(1-3) lim layout_cong [of ?h h] by (auto simp: heap_ok_def)
qed

section \<open>Growing the tree\<close>

text \<open>An unused tree becomes a single free block of twice the size.\<close>

lemma grow_unused:
  assumes ok: "heap_ok h {} F" and L: "0 < limit h"
  defines "M \<equiv> limit h - 1"
  shows "heap_ok (h\<lparr>mem := list_push (list_init (list_remove (mem h) (base_ptr h)) (head h M)) (head h M) (base_ptr h),
      bucket_limit := of_nat M\<rparr>) {} (F(limit h := [], M := [0]))"
proof -
  let ?m = "list_remove (mem h) (base_ptr h)"
  let ?h = "h\<lparr>mem := list_push (list_init ?m (head h M)) (head h M) (base_ptr h), bucket_limit := of_nat M\<rparr>"
  note d = heap_okD [OF ok]
  have base: "base_ptr h = naddr h b 0" for b by (simp add: naddr_def)
  have in_R: "limit h \<in> {limit h..27}" using d(2) by simp
  have sets: "set (F b) = (if b = limit h then {0} else {})" if "limit h \<le> b" "b \<le> 27" for b
    using d(6) [OF that] that by (simp add: maximal_empty)
  have "F (limit h) = [0]"
    using sets [of "limit h"] d(2) free_listsD(2) [OF d(5) in_R] distinct_card [of "F (limit h)"]
    by (cases "F (limit h)"; cases "tl (F (limit h))") auto
  then have "free_lists h ?m {limit h..27} (F(limit h := []))"
    using free_lists_remove [where b = "limit h" and k = 0 and ks = "[]" and js = "[]", OF d(1) d(5) in_R]
    by (simp flip: base)
  moreover have M: "M \<notin> {limit h..27}" "M \<le> 27" using L d(2) by (auto simp: M_def)
  ultimately have "free_lists h (list_init ?m (head h M)) (insert M {limit h..27}) (F(limit h := [], M := []))"
    by (intro free_lists_init [OF d(1)])
  moreover have R: "insert M {limit h..27} = {M..27}" using L d(2) by (auto simp: M_def)
  ultimately have lists: "free_lists h (list_init ?m (head h M)) {M..27} (F(limit h := [], M := []))" by simp
  have "blk M 0 \<inter> blk c j = {}" if "c \<in> {M..27}" "j \<in> set ((F(limit h := [], M := [])) c)" for c j
    using that sets [of c] by (auto simp: M_def split: if_splits)
  then have "free_lists h (list_push (list_init ?m (head h M)) (head h M) (naddr h M 0)) {M..27}
      ((F(limit h := [], M := []))(M := (F(limit h := [], M := [])) M @ [0]))"
    using M(2) by (intro free_lists_push [OF d(1) lists]) auto
  then have "free_lists h (list_push (list_init ?m (head h M)) (head h M) (base_ptr h)) {M..27} (F(limit h := [], M := [0]))"
    by (simp flip: base)
  moreover have "limit ?h = M"
    using M(2) by (simp add: limit_def level_word)
  moreover have "flag ?h i = flag h i" for i by (rule flag_cong) simp
  then have "flags_ok ?h M {}" using d(4) by (simp add: flags_ok_def split_flag_empty)
  moreover have "set ((F(limit h := [], M := [0])) b) = maximal M {} b" if "b \<in> {M..27}" for b
    using that sets [of b] L by (auto simp: maximal_empty M_def)
  ultimately show ?thesis
    using d(1) M(2) layout_cong [of ?h h] free_lists_cong [of ?h h] by (simp add: heap_ok_def)
qed

text \<open>A tree in use becomes the left half of one of twice the size, its right half a free block.\<close>

lemma grow_used:
  assumes ok: "heap_ok h S F" and L: "0 < limit h" and S: "S \<noteq> {}"
  defines "M \<equiv> limit h - 1"
  shows "heap_ok ((flip_parent h M 0)\<lparr>mem := list_init (list_push (mem h) (head h (limit h)) (naddr h (limit h) 1)) (head h M),
      bucket_limit := of_nat M\<rparr>) S (F(limit h := F (limit h) @ [1], M := []))"
proof -
  let ?m = "list_push (mem h) (head h (limit h)) (naddr h (limit h) 1)"
  let ?h = "(flip_parent h M 0)\<lparr>mem := list_init ?m (head h M), bucket_limit := of_nat M\<rparr>"
  let ?F = "F(limit h := F (limit h) @ [1], M := [])"
  note d = heap_okD [OF ok]
  have in_R: "limit h \<in> {limit h..27}" using d(2) by simp
  have M: "M \<notin> {limit h..27}" "M \<le> 27" "M + 1 = limit h" using L d(2) by (auto simp: M_def)
  have "blk (limit h) 1 \<inter> blk c j = {}" if "c \<in> {limit h..27}" "j \<in> set (F c)" for c j
  proof -
    have "j < 2 ^ (c - limit h)" using d(6) [of c] that by (auto simp: maximal_def)
    then have "blk c j \<subseteq> {..<bsize (limit h)}" using that by (intro blk_in_root) auto
    moreover have "blk (limit h) 1 \<inter> {..<bsize (limit h)} = {}" by (auto simp: blk_def)
    ultimately show ?thesis by blast
  qed
  then have "free_lists h ?m {limit h..27} (F(limit h := F (limit h) @ [1]))"
    using L one_less_power [of "2 :: nat" "limit h"] by (intro free_lists_push [OF d(1) d(5) in_R]) auto
  then have "free_lists h (list_init ?m (head h M)) (insert M {limit h..27}) ?F"
    using M(1,2) by (rule free_lists_init [OF d(1)])
  moreover have "insert M {limit h..27} = {M..27}" using L d(2) by (auto simp: M_def)
  ultimately have "free_lists h (list_init ?m (head h M)) {M..27} ?F" by simp
  moreover have "limit ?h = M" using M(2) by (simp add: limit_def level_word)
  moreover have "flags_ok ?h M S"
    unfolding flags_ok_def
  proof (intro allI impI)
    fix c j :: nat assume c: "c < 27" "j < 2 ^ c"
    have "flag ?h (idx c j) = flag (flip_parent h M 0) (idx c j)" by (rule flag_cong) simp
    moreover have "c + 1 = M \<and> j = 0 div 2 \<longleftrightarrow> c + 2 = limit h \<and> j = 0" using M(3) by auto
    ultimately show "flag ?h (idx c j) = split_flag M S c j"
      using flag_flip_parent [OF M(2) _ c, of 0 h] grow_flag [OF d(3) S L, of c j] d(2) d(4) c
      by (simp add: flags_ok_def M_def)
  qed
  moreover have "set (?F b) = maximal M S b" if "b \<in> {M..27}" for b
  proof -
    have "maximal M S b = (if b = M then {} else if b = limit h then {1} else maximal (limit h) S b)"
      using grow_maximal [OF d(3) S L, of b] that d(2) by (simp add: M_def)
    moreover have "maximal (limit h) S (limit h) = {}" 
    proof -
      have "k = 0" if "k < 2 ^ (limit h - limit h)" for k :: nat using that by simp
      then show ?thesis using root_used [OF d(3) S] unfolding maximal_def by blast
    qed
    then have "F (limit h) = []" using d(6) [of "limit h"] d(2) by simp
    moreover have "set (F b) = maximal (limit h) S b" if "b \<noteq> M"
      using that \<open>b \<in> {M..27}\<close> M(3) by (intro d(6)) auto
    ultimately show ?thesis using M(3) by simp
  qed
  moreover have "S \<subseteq> {..<bsize M}"
    using d(2,3) bsize_double [OF L] by (auto simp: M_def)
  ultimately show ?thesis
    using d(1) M(2) layout_cong [of ?h h] free_lists_cong [of ?h h] by (simp add: heap_ok_def)
qed

end
