(* ===== verification/Buddy_Correct.thy ===== *)
theory Buddy_Correct
  imports Buddy_Tree
begin

text \<open>
  The routines of the allocator on a heap that satisfies the invariant. \<open>reserved h S F\<close> says that
  everything in use lies below \<^verbatim>\<open>max_ptr\<close>, which is the break; \<open>same_data h h' S\<close> that a routine left
  the words of the allocated offsets \<open>S\<close> alone. Each routine has one lemma that gives its result:
  growing the tree, splitting a block, one iteration of \<^verbatim>\<open>malloc\<close>, its loop, and the loop of \<^verbatim>\<open>free\<close>.
\<close>

section \<open>Reserved memory and untouched data\<close>

definition reserved :: "heap \<Rightarrow> nat set \<Rightarrow> (nat \<Rightarrow> nat list) \<Rightarrow> bool" where
  "reserved h S F \<longleftrightarrow> heap_end h = max_ptr h \<and> (\<forall>x \<in> S. unat (base_ptr h) + x < unat (max_ptr h)) \<and>
     (\<forall>b \<in> {limit h..27}. \<forall>k \<in> set (F b). unat (base_ptr h) + k * bsize b + 8 \<le> unat (max_ptr h))"

definition free_below :: "heap \<Rightarrow> (nat \<Rightarrow> nat list) \<Rightarrow> bool" where
  "free_below h F \<longleftrightarrow> heap_end h = max_ptr h \<and>
     (\<forall>b \<in> {limit h..27}. \<forall>k \<in> set (F b). unat (base_ptr h) + k * bsize b + 8 \<le> unat (max_ptr h))"

lemma reserved_iff:
  "reserved h S F \<longleftrightarrow> free_below h F \<and> (\<forall>x \<in> S. unat (base_ptr h) + x < unat (max_ptr h))"
  by (auto simp: reserved_def free_below_def)

text \<open>
  The addresses that do not belong to the allocator: neither a word of a list head nor between the start of
  the heap and the break. A routine is confined if it leaves them alone and does not lower the break.
\<close>

definition outside :: "heap \<Rightarrow> u32 \<Rightarrow> bool" where
  "outside h a \<longleftrightarrow> a \<notin> words (head h ` {..27}) \<and> (unat a < unat (base_ptr h) \<or> unat (max_ptr h) \<le> unat a)"

definition confined :: "heap \<Rightarrow> heap \<Rightarrow> bool" where
  "confined h h' \<longleftrightarrow> unat (max_ptr h) \<le> unat (max_ptr h') \<and> (\<forall>a. outside h' a \<longrightarrow> mem h' a = mem h a)"

lemma outside_mono:
  assumes "outside h' a" "base_ptr h' = base_ptr h" "buckets h' = buckets h" "unat (max_ptr h) \<le> unat (max_ptr h')"
  shows "outside h a"
  using assms head_cong [of h' h] by (auto simp: outside_def)

lemma confined_trans:
  assumes "confined h h'" "confined h' h''" "base_ptr h'' = base_ptr h'" "buckets h'' = buckets h'"
  shows "confined h h''"
  using assms outside_mono [OF _ assms(3,4)] by (auto simp: confined_def)

lemma node_not_outside:
  assumes "layout h" "b \<le> 27" "k < 2 ^ b" "unat (base_ptr h) + k * bsize b + 8 \<le> unat (max_ptr h')"
    and "base_ptr h' = base_ptr h" "outside h' a"
  shows "a \<notin> words {naddr h b k}"
proof
  assume "a \<in> words {naddr h b k}"
  then have "unat a = unat (naddr h b k) \<or> unat a = unat (naddr h b k) + 4"
    using element_next [OF assms(1) naddr_element [OF assms(2,3)]] by (auto simp: words_def)
  then show False using unat_naddr [OF assms(1-3)] assms(4-6) by (auto simp: outside_def)
qed

lemma ring_not_outside:
  assumes "layout h" "free_lists h m R F" "b \<in> R"
    and "\<And>k. k \<in> set (F b) \<Longrightarrow> unat (base_ptr h) + k * bsize b + 8 \<le> unat (max_ptr h')"
    and "base_ptr h' = base_ptr h" "buckets h' = buckets h" "outside h' a"
  shows "a \<notin> words (ring_set h F b)"
proof -
  note lists = free_listsD [OF assms(2,3)]
  have "words (ring_set h F b) = words {head h b} \<union> (\<Union>k \<in> set (F b). words {naddr h b k})"
    by (auto simp: ring_set_def words_def)
  moreover have "a \<notin> words {naddr h b k}" if "k \<in> set (F b)" for k
    using node_not_outside [OF assms(1) lists(1) lists(3) [OF that] assms(4) [OF that] assms(5,7)] .
  moreover have "words {head h b} \<subseteq> words (head h' ` {..27})"
    using lists(1) head_cong [of h' h] assms(5,6) by (intro words_mono) auto
  ultimately show ?thesis using assms(7) by (auto simp: outside_def)
qed

definition same_data :: "heap \<Rightarrow> heap \<Rightarrow> nat set \<Rightarrow> bool" where
  "same_data h h' S \<longleftrightarrow> base_ptr h' = base_ptr h \<and> buckets h' = buckets h \<and> confined h h' \<and>
     (\<forall>x \<in> S. mem h' (base_ptr h + of_nat x) = mem h (base_ptr h + of_nat x))"

lemma same_data_refl [simp]: "same_data h h S"
  by (simp add: same_data_def confined_def)

lemma same_data_trans: "same_data h h' S \<Longrightarrow> same_data h' h'' S \<Longrightarrow> same_data h h'' S"
  by (auto simp: same_data_def intro: confined_trans)

lemma same_data_subset: "same_data h h' S \<Longrightarrow> T \<subseteq> S \<Longrightarrow> same_data h h' T"
  by (auto simp: same_data_def)

lemma words_insert: "words (insert a A) = words {a} \<union> words A"
  by (auto simp: words_def)

lemma data_not_head:
  assumes "layout h" "x < 2 ^ 31" "b \<le> 27"
  shows "base_ptr h + of_nat x \<notin> words {head h b}"
proof
  assume "base_ptr h + of_nat x \<in> words {head h b}"
  then have "unat (base_ptr h + of_nat x) \<le> unat (head h b) + 4"
    using element_next [OF assms(1) head_element [OF assms(3)]] by (auto simp: words_def)
  then show False
    using unat_base_plus [OF assms(1,2)] head_less_naddr [OF assms(1,3), of 0 0] by (simp add: naddr_def)
qed

lemma data_not_node:
  assumes "layout h" "x < 2 ^ 31" "b \<le> 27" "k < 2 ^ b" "x \<notin> blk b k"
  shows "base_ptr h + of_nat x \<notin> words {naddr h b k}"
proof
  assume "base_ptr h + of_nat x \<in> words {naddr h b k}"
  then have "unat (base_ptr h + of_nat x) = unat (naddr h b k) \<or>
      unat (base_ptr h + of_nat x) = unat (naddr h b k) + 4"
    using element_next [OF assms(1) naddr_element [OF assms(3,4)]] by (auto simp: words_def)
  then have "x = k * bsize b \<or> x = k * bsize b + 4"
    using unat_base_plus [OF assms(1,2)] unat_naddr [OF assms(1,3,4)] by auto
  then show False using assms(5) bsize_ge_16 [OF assms(3)] by (auto simp: blk_def)
qed

lemma data_not_ring:
  assumes "layout h" "free_lists h m R F" "b \<in> R" "x < 2 ^ 31" "\<And>k. k \<in> set (F b) \<Longrightarrow> x \<notin> blk b k"
  shows "base_ptr h + of_nat x \<notin> words (ring_set h F b)"
proof -
  have "words (ring_set h F b) = words {head h b} \<union> (\<Union>k \<in> set (F b). words {naddr h b k})"
    by (auto simp: ring_set_def words_def)
  then show ?thesis
    using data_not_head [OF assms(1,4)] data_not_node [OF assms(1,4)] free_listsD [OF assms(2,3)] assms(5) by auto
qed

lemma data_bound: "heap_ok h S F \<Longrightarrow> x \<in> S \<Longrightarrow> x < 2 ^ 31"
proof -
  assume "heap_ok h S F" "x \<in> S"
  then have "x < bsize (limit h)" using heap_okD(3) by blast
  also have "\<dots> \<le> 2 ^ 31" unfolding bsize_def by (rule power_increasing) auto
  finally show ?thesis .
qed

lemma data_not_free:
  assumes "heap_ok h S F" "limit h \<le> b" "b \<le> 27" "x \<in> S"
  shows "base_ptr h + of_nat x \<notin> words (ring_set h F b)"
proof (rule data_not_ring [OF heap_okD(1,5) [OF assms(1)] _ data_bound [OF assms(1,4)]])
  fix k assume "k \<in> set (F b)"
  then show "x \<notin> blk b k"
    using heap_okD(6) [OF assms(1-3)] assms(4) by (auto simp: maximal_def unused_def)
qed (use assms in simp)

lemma take_same_data:
  assumes "heap_ok h S F" "limit h \<le> b" "b \<le> 27" "F b = ks @ k # js" "free_below h F"
    and "base_ptr h' = base_ptr h" "buckets h' = buckets h" "mem h' = list_remove (mem h) (naddr h b k)"
    and "unat (max_ptr h) \<le> unat (max_ptr h')"
  shows "same_data h h' S"
proof -
  note d = heap_okD [OF assms(1)]
  have R: "b \<in> {limit h..27}" using assms(2,3) by simp
  have "ring (mem h) (head h b) (map (naddr h b) ks @ naddr h b k # map (naddr h b) js)"
    using free_listsD(4) [OF d(5) R] assms(4) by simp
  then have frame: "list_remove (mem h) (naddr h b k) a = mem h a" if "a \<notin> words (ring_set h F b)" for a
    by (rule list_remove_frame) (use that assms(4) in \<open>simp add: ring_set_def\<close>)
  have "a \<notin> words (ring_set h F b)" if "outside h' a" for a
  proof (rule ring_not_outside [OF d(1,5) R _ assms(6,7) that])
    fix j assume "j \<in> set (F b)"
    then show "unat (base_ptr h) + j * bsize b + 8 \<le> unat (max_ptr h')"
      using assms(5,9) R by (fastforce simp: free_below_def)
  qed
  then show ?thesis
    using frame data_not_free [OF assms(1-3)] assms(6-9) by (simp add: same_data_def confined_def)
qed

lemma give_same_data:
  assumes "heap_ok h S F" "limit h \<le> b" "b \<le> 27" "k < 2 ^ b" "free_below h F"
    and "base_ptr h' = base_ptr h" "buckets h' = buckets h"
    "mem h' = list_push (mem h) (head h b) (naddr h b k)"
    and "unat (max_ptr h) \<le> unat (max_ptr h')" "unat (base_ptr h) + k * bsize b + 8 \<le> unat (max_ptr h')"
  shows "same_data h h' (S - blk b k)"
proof -
  note d = heap_okD [OF assms(1)]
  have R: "b \<in> {limit h..27}" using assms(2,3) by simp
  have "ring (mem h) (head h b) (map (naddr h b) (F b))" using free_listsD(4) [OF d(5) R] .
  then have frame: "list_push (mem h) (head h b) (naddr h b k) a = mem h a"
    if "a \<notin> words {naddr h b k}" "a \<notin> words (ring_set h F b)" for a
    using that unfolding ring_set_def by (intro list_push_frame [of _ _ "map (naddr h b) (F b)"]) (auto simp: words_def)
  have "a \<notin> words (ring_set h F b)" if "outside h' a" for a
  proof (rule ring_not_outside [OF d(1,5) R _ assms(6,7) that])
    fix j assume "j \<in> set (F b)"
    then show "unat (base_ptr h) + j * bsize b + 8 \<le> unat (max_ptr h')"
      using assms(5,9) R by (fastforce simp: free_below_def)
  qed
  moreover have "a \<notin> words {naddr h b k}" if "outside h' a" for a
    using d(1) assms(3,4,10,6) that by (rule node_not_outside)
  moreover have "base_ptr h + of_nat x \<notin> words {naddr h b k}" if "x \<in> S - blk b k" for x
    using that data_bound [OF assms(1)] assms(3,4) by (intro data_not_node [OF d(1)]) auto
  ultimately show ?thesis
    using frame data_not_free [OF assms(1-3)] assms(6-9) by (simp add: same_data_def confined_def)
qed

lemma heap_ok_cong:
  assumes "mem h' = mem h" "node_is_split h' = node_is_split h" "buckets h' = buckets h"
    "bucket_limit h' = bucket_limit h" "base_ptr h' = base_ptr h"
  shows "heap_ok h' S F = heap_ok h S F"
  using assms layout_cong [of h' h] free_lists_cong [of h' h] flag_cong [of h' h]
  by (simp add: heap_ok_def limit_def flags_ok_def)

section \<open>Moving the break\<close>

definition raise_max :: "heap \<Rightarrow> u32 \<Rightarrow> heap" where
  "raise_max h p = h\<lparr>heap_end := max (max_ptr h) p, max_ptr := max (max_ptr h) p\<rparr>"

lemma update_max_ptr_eq: "heap_end h = max_ptr h \<Longrightarrow> update_max_ptr h p = (1, raise_max h p)"
  by (auto simp: update_max_ptr_def brk_def raise_max_def max_def not_less)

lemma raise_max_fields [simp]:
  "mem (raise_max h p) = mem h" "buckets (raise_max h p) = buckets h"
  "bucket_limit (raise_max h p) = bucket_limit h" "base_ptr (raise_max h p) = base_ptr h"
  "node_is_split (raise_max h p) = node_is_split h" "heap_end (raise_max h p) = max_ptr (raise_max h p)"
  "max_ptr (raise_max h p) = max (max_ptr h) p" "limit (raise_max h p) = limit h"
  by (simp_all add: raise_max_def limit_def)

lemma raise_max_ok: "heap_ok (raise_max h p) S F = heap_ok h S F"
  by (rule heap_ok_cong) simp_all

lemma unat_max: "unat (max a b :: u32) = max (unat a) (unat b)"
  by (auto simp: max_def word_le_nat_alt)

lemma reserved_raise: "reserved h S F \<Longrightarrow> reserved (raise_max h p) S F"
  by (fastforce simp: reserved_def unat_max)

section \<open>Growing the tree\<close>

lemma limit_word: "bucket_limit h = of_nat (limit h)"
  by (simp add: limit_def)

lemma limit_pred: "0 < limit h \<Longrightarrow> bucket_limit h - 1 = of_nat (limit h - 1)"
  by (simp add: limit_word of_nat_diff)

lemma naddr_0: "naddr h b 0 = base_ptr h"
  by (simp add: naddr_def)

lemma root_flag:
  assumes "heap_ok h S F" "0 < limit h"
  shows "flag h (idx (limit h - 1) 0) \<longleftrightarrow> S \<noteq> {}"
proof -
  note d = heap_okD [OF assms(1)]
  have "unused S (limit h) 1" using d(2,3) one_less_power [of "2 :: nat"] by (intro unused_outside [of S "limit h"]) auto
  moreover have "unused S (limit h) 0 \<longleftrightarrow> S = {}" using root_used [OF d(3)] by auto
  ultimately show ?thesis
    using d(2,4) assms(2) by (simp add: flags_ok_def split_flag_def)
qed

text \<open>One round of the loop, on an unused and on a used tree.\<close>

definition grown_unused :: "heap \<Rightarrow> heap" where
  "grown_unused h = h\<lparr>mem := list_push (list_init (list_remove (mem h) (base_ptr h)) (head h (limit h - 1)))
     (head h (limit h - 1)) (base_ptr h), bucket_limit := bucket_limit h - 1\<rparr>"

definition grown_used :: "heap \<Rightarrow> heap" where
  "grown_used h =
     (flip_parent (raise_max h (naddr h (limit h) 1 + 8)) (limit h - 1) 0)
       \<lparr>mem := list_init (list_push (mem h) (head h (limit h)) (naddr h (limit h) 1)) (head h (limit h - 1)),
        bucket_limit := bucket_limit h - 1\<rparr>"

lemma lower_bucket_limit_step:
  assumes ok: "heap_ok h S F" and max: "heap_end h = max_ptr h" and b: "b < limit h"
  shows "lower_bucket_limit h (of_nat b) =
    lower_bucket_limit (if S = {} then grown_unused h else grown_used h) (of_nat b)"
proof -
  note d = heap_okD [OF ok]
  have L: "0 < limit h" "limit h \<le> 27" using b d(2) by auto
  have less: "of_nat b < bucket_limit h"
    using b d(2) by (simp add: word_less_nat_alt level_word flip: limit_def)
  have root: "node_for_ptr h (base_ptr h) (bucket_limit h) = node (limit h) 0"
    using node_for_ptr_eq [OF d(1) L(2), of 0] by (simp add: naddr_0 limit_word)
  have right: "ptr_for_node h (node (limit h) 0 + 1) (bucket_limit h) = naddr h (limit h) 1"
    using ptr_for_node_eq [OF L(2), of h 1] by (simp add: node_next limit_word)
  have heads: "bucket_head h (bucket_limit h) = head h (limit h)"
    "bucket_head h (bucket_limit h - 1) = head h (limit h - 1)"
    by (simp_all add: head_def limit_pred [OF L(1)]) (simp add: limit_word)
  have parent: "(node (limit h) 0 - 1) div 2 = node (limit h - 1) 0"
    using node_parent [OF L, of 0] by simp
  obtain w where w: "parent_is_split h (node (limit h) 0) = Inr w" "w = 0 \<longleftrightarrow> S = {}"
    using parent_is_split_eq [OF L, of 0 h] root_flag [OF ok L(1)] by auto
  have flip: "(if node (limit h - 1) 0 \<noteq> 0 then flip_parent_is_split h' (node (limit h - 1) 0) else Inr h')
      = Inr (flip_parent h' (limit h - 1) 0)" for h'
    using L flip_parent_is_split_eq [of "limit h - 1" 0 h'] node_eq_0 [of "limit h - 1" 0]
    by (simp add: flip_parent_def)
  show ?thesis
  proof (cases "S = {}")
    case True
    then show ?thesis
      using less root w heads L(1)
      by (subst lower_bucket_limit.simps) (simp add: Let_def grown_unused_def del: One_nat_def)
  next
    case False
    then show ?thesis
      using less w L(1)
      by (subst lower_bucket_limit.simps)
        (simp add: Let_def root right heads parent flip update_max_ptr_eq [OF max] grown_used_def
          sizeof_list_def del: One_nat_def)
  qed
qed

lemma list_push_init_frame: "a \<notin> words {l, e} \<Longrightarrow> list_push (list_init m l) l e a = m a"
  by (auto simp: list_push_def list_init_def words_def Let_def)

lemma head_not_outside: "outside h' a \<Longrightarrow> base_ptr h' = base_ptr h \<Longrightarrow> buckets h' = buckets h \<Longrightarrow> b \<le> 27 \<Longrightarrow>
    a \<notin> words {head h b}"
  using head_cong [of h' h] by (auto simp: outside_def words_def)

lemma grown_unused_data:
  assumes "heap_ok h {} F" "reserved h {} F" "unat (base_ptr h) + 8 \<le> unat (max_ptr h)"
  shows "same_data h (grown_unused h) {}"
proof -
  note d = heap_okD [OF assms(1)]
  let ?m = "list_remove (mem h) (base_ptr h)"
  have "set (F (limit h)) = {0}" "distinct (F (limit h))"
    using d(6) [of "limit h"] d(2) free_listsD(2) [OF d(5)] by (auto simp: maximal_empty)
  then have "F (limit h) = [] @ 0 # []" by (cases "F (limit h)") (auto simp: subset_singleton_iff split: if_splits)
  then have removed: "same_data h (h\<lparr>mem := ?m\<rparr>) {}"
    using assms(2) d(2) by (intro take_same_data [OF assms(1)]) (auto simp: reserved_iff naddr_0)
  have "mem (grown_unused h) a = mem h a" if a: "outside (grown_unused h) a" for a
  proof -
    have "a \<notin> words {head h (limit h - 1)}"
      using a d(2) by (intro head_not_outside [of "grown_unused h"]) (auto simp: grown_unused_def)
    moreover have "a \<notin> words {naddr h 0 0}"
      using a assms(3) by (intro node_not_outside [OF d(1), of 0 0 "grown_unused h"]) (auto simp: grown_unused_def)
    ultimately have "a \<notin> words {head h (limit h - 1), base_ptr h}" by (auto simp: words_def naddr_0)
    then have "mem (grown_unused h) a = ?m a" by (simp add: grown_unused_def list_push_init_frame)
    moreover have "outside (h\<lparr>mem := ?m\<rparr>) a"
      using a by (rule outside_mono) (simp_all add: grown_unused_def)
    ultimately show ?thesis using removed by (simp add: same_data_def confined_def)
  qed
  then show ?thesis by (simp add: same_data_def confined_def) (simp add: grown_unused_def)
qed

lemma grown_unused_ok:
  assumes "heap_ok h {} F" "reserved h {} F" "0 < limit h"
  shows "\<exists>F'. heap_ok (grown_unused h) {} F' \<and> reserved (grown_unused h) {} F' \<and>
    limit (grown_unused h) = limit h - 1 \<and> same_data h (grown_unused h) {}"
proof -
  let ?F = "F(limit h := [], limit h - 1 := [0])"
  note d = heap_okD [OF assms(1)]
  have lim: "limit (grown_unused h) = limit h - 1"
    using d(2) by (simp add: grown_unused_def limit_pred [OF assms(3)] limit_def [of "h\<lparr>mem := _, bucket_limit := _\<rparr>"] level_word del: of_nat_diff)
  have "0 \<in> set (F (limit h))" using d(6) [of "limit h"] d(2) by (simp add: maximal_empty)
  then have base: "unat (base_ptr h) + 8 \<le> unat (max_ptr h)"
    using assms(2) d(2) by (fastforce simp: reserved_def)
  have "set (?F b) \<subseteq> {0}" if "limit h - 1 \<le> b" "b \<le> 27" for b
    using that d(6) [of b] assms(3) by (auto simp: maximal_empty split: if_splits)
  then have "reserved (grown_unused h) {} ?F"
    using assms(2) base lim by (fastforce simp: reserved_def grown_unused_def)
  then show ?thesis
    using grow_unused [OF assms(1,3)] lim
      grown_unused_data [OF assms(1,2) base]
    by (intro exI [of _ ?F]) (simp add: grown_unused_def limit_pred [OF assms(3)])
qed

lemma right_half_end:
  assumes "heap_ok h S F" "0 < limit h"
  shows "unat (naddr h (limit h) 1 + 8) = unat (base_ptr h) + bsize (limit h) + 8"
proof -
  note d = heap_okD [OF assms(1)]
  have one: "1 < (2 :: nat) ^ limit h" using assms(2) one_less_power [of "2 :: nat"] by simp
  have "unat (naddr h (limit h) 1) + 16 \<le> unat (base_ptr h) + 2 ^ 31"
    using unat_naddr [OF d(1,2) one] offset_bound [OF d(2) one] bsize_ge_16 [OF d(2)] by simp
  then have "unat (naddr h (limit h) 1) + unat (8 :: u32) < 2 ^ 32" using d(1) by (simp add: layout_def)
  then show ?thesis
    using unat_plus_no_wrap [of "naddr h (limit h) 1" 8] unat_naddr [OF d(1,2) one] by simp
qed

lemma grown_used_data:
  assumes "heap_ok h S F" "reserved h S F" "0 < limit h"
  shows "same_data h (grown_used h) S"
proof -
  let ?p = "naddr h (limit h) 1 + 8" and ?m = "list_push (mem h) (head h (limit h)) (naddr h (limit h) 1)"
  let ?h1 = "(raise_max h ?p)\<lparr>mem := ?m\<rparr>"
  note d = heap_okD [OF assms(1)] and p = right_half_end [OF assms(1,3)]
  have one: "1 < (2 :: nat) ^ limit h" using assms(3) one_less_power [of "2 :: nat"] by simp
  have "same_data h ?h1 (S - blk (limit h) 1)"
    using d(2) one assms(2) p by (intro give_same_data [OF assms(1)]) (auto simp: reserved_iff unat_max)
  moreover have "S - blk (limit h) 1 = S" using d(3) by (auto simp: blk_def)
  ultimately have pushed: "same_data h ?h1 S" by simp
  have L: "limit h - 1 \<le> 27" using d(2) by simp
  have "list_init ?m (head h (limit h - 1)) (base_ptr h + of_nat x) = ?m (base_ptr h + of_nat x)" if "x \<in> S" for x
    using data_bound [OF assms(1) that] L by (intro list_init_frame data_not_head [OF d(1)]) auto
  moreover have "list_init ?m (head h (limit h - 1)) a = ?m a" if "outside (grown_used h) a" for a
    using L by (intro list_init_frame head_not_outside [OF that]) (simp_all add: grown_used_def)
  moreover have "outside ?h1 a" if "outside (grown_used h) a" for a
    using that by (rule outside_mono) (simp_all add: grown_used_def)
  moreover have "max_ptr (grown_used h) = max_ptr ?h1" "base_ptr (grown_used h) = base_ptr h"
    "buckets (grown_used h) = buckets h" "mem (grown_used h) = list_init ?m (head h (limit h - 1))"
    by (simp_all add: grown_used_def)
  ultimately show ?thesis using pushed by (simp add: same_data_def confined_def)
qed

lemma grown_used_ok:
  assumes "heap_ok h S F" "reserved h S F" "0 < limit h" "S \<noteq> {}"
  shows "\<exists>F'. heap_ok (grown_used h) S F' \<and> reserved (grown_used h) S F' \<and>
    limit (grown_used h) = limit h - 1 \<and> same_data h (grown_used h) S"
proof -
  let ?p = "naddr h (limit h) 1 + 8" and ?F = "F(limit h := F (limit h) @ [1], limit h - 1 := [])"
  let ?g = "raise_max h ?p"
  note d = heap_okD [OF assms(1)]
  have lim: "limit (grown_used h) = limit h - 1"
    using d(2) by (simp add: grown_used_def limit_pred [OF assms(3)] limit_def [of "(flip_parent _ _ _)\<lparr>mem := _, bucket_limit := _\<rparr>"] level_word del: of_nat_diff)
  note p = right_half_end [OF assms(1,3)]
  have cells: "unat (base_ptr h) + k * bsize b + 8 \<le> unat (max_ptr ?g)"
    if "limit h - 1 \<le> b" "b \<le> 27" "k \<in> set (?F b)" for b k
  proof -
    from that assms(3) consider "b = limit h" "k = 1" | "limit h \<le> b" "k \<in> set (F b)" by (auto split: if_splits)
    then show ?thesis
    proof cases
      case 1
      then show ?thesis using p by (simp add: unat_max)
    next
      case 2
      then show ?thesis using assms(2) that(2) by (fastforce simp: reserved_def unat_max)
    qed
  qed
  have res: "reserved (grown_used h) S ?F"
    unfolding reserved_def lim
  proof (intro conjI ballI)
    show "heap_end (grown_used h) = max_ptr (grown_used h)" by (simp add: grown_used_def)
    show "unat (base_ptr (grown_used h)) + x < unat (max_ptr (grown_used h))" if "x \<in> S" for x
      using that reserved_raise [OF assms(2), of ?p] by (simp add: reserved_def grown_used_def)
    show "unat (base_ptr (grown_used h)) + k * bsize b + 8 \<le> unat (max_ptr (grown_used h))"
      if "b \<in> {limit h - 1..27}" "k \<in> set (?F b)" for b k
      using cells [of b k] that by (simp add: grown_used_def)
  qed
  have "heap_ok ?g S F" using assms(1) by (simp add: raise_max_ok)
  from grow_used [OF this _ assms(4)] have "heap_ok (grown_used h) S ?F"
    using assms(3) head_cong [of ?g h] naddr_cong [of ?g h] by (simp add: grown_used_def limit_pred [OF assms(3)])
  then show ?thesis using lim res grown_used_data [OF assms(1-3)] by blast
qed

lemma lower_bucket_limit_ok:
  assumes "heap_ok h S F" "reserved h S F" "b \<le> 27"
  shows "\<exists>h' F'. lower_bucket_limit h (of_nat b) = Inr (1, h') \<and> heap_ok h' S F' \<and> reserved h' S F' \<and>
    limit h' = min (limit h) b \<and> same_data h h' S"
  using assms
proof (induction "limit h - b" arbitrary: h F)
  case 0
  then have "\<not> of_nat b < bucket_limit h"
    by (simp add: word_less_nat_alt level_word flip: limit_def)
  then show ?case using 0 by (subst lower_bucket_limit.simps) auto
next
  case (Suc n)
  then have b: "b < limit h" by simp
  have max: "heap_end h = max_ptr h" using Suc.prems(2) by (simp add: reserved_def)
  let ?g = "if S = {} then grown_unused h else grown_used h"
  have "\<exists>F'. heap_ok ?g S F' \<and> reserved ?g S F' \<and> limit ?g = limit h - 1 \<and> same_data h ?g S"
    using grown_unused_ok [of h F] grown_used_ok [of h S F] Suc.prems b by (cases "S = {}") auto
  then obtain F' where g: "heap_ok ?g S F'" "reserved ?g S F'" "limit ?g = limit h - 1" "same_data h ?g S" by blast
  have "n = limit ?g - b" using Suc.hyps(2) g(3) by simp
  from Suc.hyps(1) [OF this g(1,2) Suc.prems(3)] obtain h' F'' where h':
    "lower_bucket_limit ?g (of_nat b) = Inr (1, h')" "heap_ok h' S F''" "reserved h' S F''"
    "limit h' = min (limit ?g) b" "same_data ?g h' S" by blast
  then show ?case
    using lower_bucket_limit_step [OF Suc.prems(1) max b] g(3,4) b same_data_trans [of h ?g S h']
    by (intro exI [of _ h'] exI [of _ F'']) auto
qed

section \<open>Splitting a block\<close>

lemma bsize_half: "b < 31 \<Longrightarrow> bsize b = 2 * bsize (b + 1)"
  using bsize_double [of "b + 1"] by simp

lemma split_step:
  assumes "b < ob" "ob \<le> 27" "k < 2 ^ b"
  shows "split_loop h (node b k) (of_nat b) (of_nat ob) =
    split_loop ((flip_parent h (b + 1) (2 * k + 1))
        \<lparr>mem := list_push (mem h) (head h (b + 1)) (naddr h (b + 1) (2 * k + 1))\<rparr>)
      (node (b + 1) (2 * k)) (of_nat (b + 1)) (of_nat ob)"
proof -
  let ?f = "flip_flag h (idx b k)"
  have less: "(of_nat b :: u32) < of_nat ob" using assms by (simp add: word_less_nat_alt level_word)
  have next_level: "(of_nat b :: u32) + 1 = of_nat (b + 1)" by simp
  have "2 * k < 2 ^ (b + 1)" "b + 1 \<le> 27" using assms by auto
  then have flip: "flip_parent_is_split h (node (b + 1) (2 * k)) = Inr ?f"
    using flip_parent_is_split_eq [of "b + 1" "2 * k" h] by simp
  have ptr: "ptr_for_node ?f (node (b + 1) (2 * k) + 1) (of_nat (b + 1)) = naddr h (b + 1) (2 * k + 1)"
    using ptr_for_node_eq [of "b + 1" ?f "2 * k + 1"] \<open>b + 1 \<le> 27\<close> naddr_cong [of ?f h]
    by (simp add: node_next)
  have hd: "bucket_head ?f (of_nat (b + 1)) = head h (b + 1)" by (simp add: head_def bucket_head_def)
  have parent: "flip_parent h (b + 1) (2 * k + 1) = ?f" by (simp add: flip_parent_def)
  show ?thesis
    unfolding parent using less
    by (subst split_loop.simps)
      (simp only: Let_def node_left next_level flip and_then_Inr ptr hd if_True flip_flag_fields)
qed

text \<open>The heap after one round: the right half is free, the left half is split further.\<close>

definition halved :: "heap \<Rightarrow> nat \<Rightarrow> nat \<Rightarrow> heap" where
  "halved h b k = (flip_parent h (b + 1) (2 * k + 1))
     \<lparr>mem := list_push (mem h) (head h (b + 1)) (naddr h (b + 1) (2 * k + 1))\<rparr>"

lemma halved_fields [simp]:
  "limit (halved h b k) = limit h" "base_ptr (halved h b k) = base_ptr h" "max_ptr (halved h b k) = max_ptr h"
  "heap_end (halved h b k) = heap_end h"
  by (simp_all add: halved_def limit_def)

lemma halves: "b < 31 \<Longrightarrow> blk b k = blk (b + 1) (2 * k) \<union> blk (b + 1) (2 * k + 1)"
  using bsize_split [of b "b + 1"] by (auto simp: mem_blk div_mult2_eq)

lemma halved_ok:
  assumes ok: "heap_ok h S F" and below: "free_below h F" and b: "limit h \<le> b" "b < 27"
    and k: "k < 2 ^ (b - limit h)" "blk b k \<subseteq> S"
    and room: "unat (base_ptr h) + k * bsize b + bsize (b + 1) + 8 \<le> unat (max_ptr h)"
  shows "heap_ok (halved h b k) (S - blk (b + 1) (2 * k + 1)) (F(b + 1 := F (b + 1) @ [2 * k + 1]))"
    "free_below (halved h b k) (F(b + 1 := F (b + 1) @ [2 * k + 1]))"
    "same_data h (halved h b k) (S - blk (b + 1) (2 * k + 1))"
proof -
  let ?b = "b + 1" and ?r = "2 * k + 1"
  let ?S = "S - blk ?b ?r"
  have b': "limit h \<le> ?b" "?b \<le> 27" using b by auto
  have "(2 :: nat) ^ (?b - limit h) = 2 * 2 ^ (b - limit h)" using b(1) by (simp add: Suc_diff_le)
  then have r: "?r < 2 ^ (?b - limit h)" using k(1) by simp
  have sub: "blk ?b ?r \<subseteq> S" "2 * k * bsize ?b \<in> blk b k" "2 * k * bsize ?b \<notin> blk ?b ?r"
    using halves [of b k] b(2) k(2) blk_start [of "2 * k" ?b] by (auto simp: mem_blk)
  then have "\<not> unused ?S (?b - 1) (?r div 2)" using k(2) by (auto simp: unused_def)
  then show "heap_ok (halved h b k) ?S (F(?b := F ?b @ [?r]))"
    unfolding halved_def using sub(1) by (intro give_block [OF ok b' r]) auto
  have size: "bsize b = 2 * bsize ?b" using b by (intro bsize_half) simp
  have "?r < 2 ^ ?b" using r power_increasing [of "?b - limit h" ?b "2 :: nat"] by linarith
  then show "same_data h (halved h b k) ?S"
    using below room size by (intro give_same_data [OF ok b']) (auto simp: halved_def algebra_simps)
  show "free_below (halved h b k) (F(?b := F ?b @ [?r]))"
    unfolding free_below_def halved_fields
  proof (intro conjI ballI)
    show "heap_end h = max_ptr h" using below by (simp add: free_below_def)
    fix c j assume c: "c \<in> {limit h..27}" and j: "j \<in> set ((F(?b := F ?b @ [?r])) c)"
    then consider "c = ?b" "j = ?r" | "j \<in> set (F c)" by (cases "c = ?b") auto
    then show "unat (base_ptr h) + j * bsize c + 8 \<le> unat (max_ptr h)"
      using room size below c by cases (simp_all add: free_below_def algebra_simps)
  qed
qed

lemma split_loop_ok:
  assumes "heap_ok h S F" "free_below h F" "limit h \<le> b" "b \<le> ob" "ob \<le> 27" "k < 2 ^ (b - limit h)"
    and "blk b k \<subseteq> S" "b < ob \<Longrightarrow> unat (base_ptr h) + k * bsize b + bsize (b + 1) + 8 \<le> unat (max_ptr h)"
  shows "\<exists>h' F'. split_loop h (node b k) (of_nat b) (of_nat ob) = Inr h' \<and>
    heap_ok h' ((S - blk b k) \<union> blk ob (k * 2 ^ (ob - b))) F' \<and> free_below h' F' \<and>
    max_ptr h' = max_ptr h \<and> limit h' = limit h \<and> same_data h h' (S - blk b k)"
  using assms
proof (induction "ob - b" arbitrary: h S F b k)
  case 0
  then have "split_loop h (node b k) (of_nat b) (of_nat ob) = Inr h" by (subst split_loop.simps) simp
  moreover have "(S - blk b k) \<union> blk ob (k * 2 ^ (ob - b)) = S" using 0 by auto
  ultimately show ?case using 0 by (intro exI [of _ h] exI [of _ F]) auto
next
  case (Suc n)
  let ?b = "b + 1" and ?r = "2 * k + 1"
  let ?h = "halved h b k" and ?S = "S - blk ?b ?r"
  have b: "b < ob" "b < 27" "?b \<le> ob" "limit ?h \<le> ?b" "b < 31" using Suc.hyps(2) Suc.prems by auto
  note half = halved_ok [OF Suc.prems(1-3) b(2) Suc.prems(6,7) Suc.prems(8) [OF b(1)]]
  have "(2 :: nat) ^ (?b - limit ?h) = 2 * 2 ^ (b - limit h)" using Suc.prems(3) by (simp add: Suc_diff_le)
  then have left: "2 * k < 2 ^ (?b - limit ?h)" using Suc.prems(6) by simp
  have kb: "k < 2 ^ b" using Suc.prems(6) power_increasing [of "b - limit h" b "2 :: nat"] by linarith
  have blocks: "blk b k = blk ?b (2 * k) \<union> blk ?b ?r" using b(5) by (rule halves)
  have sub: "blk ?b (2 * k) \<subseteq> ?S" using Suc.prems(7) blocks by (auto simp: mem_blk)
  have room: "unat (base_ptr ?h) + 2 * k * bsize ?b + bsize (?b + 1) + 8 \<le> unat (max_ptr ?h)" if "?b < ob"
    using Suc.prems(8) [OF b(1)] bsize_half [of b] bsize_half [of ?b] b(2) that by (simp add: algebra_simps)
  have "n = ob - ?b" using Suc.hyps(2) by simp
  from Suc.hyps(1) [OF this half(1,2) b(4,3) Suc.prems(5) left sub room]
  obtain h' F' where h': "split_loop ?h (node ?b (2 * k)) (of_nat ?b) (of_nat ob) = Inr h'"
    "heap_ok h' ((?S - blk ?b (2 * k)) \<union> blk ob (2 * k * 2 ^ (ob - ?b))) F'" "free_below h' F'"
    "max_ptr h' = max_ptr ?h" "limit h' = limit ?h" "same_data ?h h' (?S - blk ?b (2 * k))"
    by blast
  have set_eq: "?S - blk ?b (2 * k) = S - blk b k" using blocks by auto
  have pos_eq: "2 * k * 2 ^ (ob - ?b) = k * 2 ^ (ob - b)"
    using b(1) by (simp add: Suc_diff_Suc flip: power_Suc)
  have "same_data h h' (S - blk b k)"
    using same_data_trans [OF same_data_subset [OF half(3), of "S - blk b k"]] h'(6) set_eq blocks by auto
  moreover have "heap_ok h' ((S - blk b k) \<union> blk ob (k * 2 ^ (ob - b))) F'"
    using h'(2) unfolding set_eq pos_eq .
  moreover have "split_loop h (node b k) (of_nat b) (of_nat ob) = Inr h'"
    using h'(1) split_step [OF b(1) Suc.prems(5) kb, of h] by (simp add: halved_def)
  ultimately show ?case using h'(3-5) by (intro exI [of _ h'] exI [of _ F']) simp
qed

section \<open>Writes into allocated blocks\<close>

lemma heap_ok_write:
  assumes "heap_ok h S F" "x \<in> S"
  shows "heap_ok (h\<lparr>mem := (mem h)(base_ptr h + of_nat x := v)\<rparr>) S F"
proof -
  let ?h = "h\<lparr>mem := (mem h)(base_ptr h + of_nat x := v)\<rparr>"
  note d = heap_okD [OF assms(1)]
  have "ring (mem ?h) (head h b) (map (naddr h b) (F b))" if "b \<in> {limit h..27}" for b
  proof -
    have "base_ptr h + of_nat x \<notin> words (ring_set h F b)"
      using that assms by (intro data_not_free) auto
    then have "base_ptr h + of_nat x \<noteq> a \<and> base_ptr h + of_nat x \<noteq> a + 4"
      if "a \<in> set (head h b # map (naddr h b) (F b))" for a
      using that by (auto simp: words_def ring_set_def)
    then show ?thesis
      using ring_write [OF free_listsD(4) [OF d(5) that]] by simp
  qed
  then have "free_lists h (mem ?h) {limit h..27} F"
    using d(5) by (simp add: free_lists_def)
  then have "free_lists ?h (mem ?h) {limit h..27} F" using free_lists_cong [of ?h h] by simp
  moreover have "limit ?h = limit h" by (simp add: limit_def)
  moreover have "flags_ok ?h L S = flags_ok h L S" for L using flag_cong [of ?h h] by (simp add: flags_ok_def)
  ultimately show ?thesis using d layout_cong [of ?h h] by (simp add: heap_ok_def)
qed

section \<open>Using a block\<close>

text \<open>The outcome of a successful allocation of a block of level \<open>ob\<close>, with \<open>S\<close> allocated before.\<close>

definition granted :: "heap \<Rightarrow> nat set \<Rightarrow> nat \<Rightarrow> u32 \<Rightarrow> u32 \<Rightarrow> heap \<Rightarrow> bool" where
  "granted h S ob request p h' \<longleftrightarrow> (\<exists>k F'. k < 2 ^ ob \<and> p = naddr h ob k + 8 \<and> unused S ob k \<and>
     heap_ok h' (S \<union> blk ob k) F' \<and> reserved h' (S \<union> blk ob k) F' \<and> same_data h h' S \<and>
     mem h' (naddr h ob k) = request)"

lemma granted_after:
  assumes "granted h' S ob request p h''" "same_data h h' S"
  shows "granted h S ob request p h''"
proof -
  have "naddr h' = naddr h" using assms(2) by (intro naddr_cong) (simp add: same_data_def)
  then show ?thesis using assms same_data_trans [OF assms(2)] by (fastforce simp: granted_def)
qed

lemma push_bit_bsize: "b \<le> 27 \<Longrightarrow> push_bit (MAX_ALLOC_LOG2 - unat (of_nat b :: u32)) (1 :: u32) = of_nat (bsize b)"
  by (simp add: level_word MAX_ALLOC_LOG2_def bsize_def push_bit_eq_mult)

lemma bytes_needed:
  assumes "layout h" "b \<le> ob" "ob \<le> 27" "k < 2 ^ b"
  shows "unat (naddr h b k + (if (of_nat b :: u32) < of_nat ob then of_nat (bsize b) div 2 + sizeof_list else of_nat (bsize b)))
    = unat (base_ptr h) + k * bsize b + (if b < ob then bsize (b + 1) + 8 else bsize b)"
proof -
  have b: "b \<le> 27" using assms by simp
  have off: "k * bsize b + bsize b \<le> 2 ^ 31" using offset_bound [OF b assms(4)] .
  then have sz: "bsize b < 2 ^ 32" by simp
  have less: "(of_nat b :: u32) < of_nat ob \<longleftrightarrow> b < ob" using assms by (simp add: word_less_nat_alt level_word)
  have n: "unat (of_nat (bsize b) :: u32) = bsize b" using sz by (simp add: unat_of_nat take_bit_nat_eq_self)
  let ?w = "if b < ob then of_nat (bsize b) div 2 + 8 else of_nat (bsize b) :: u32"
  have w: "unat ?w = (if b < ob then bsize (b + 1) + 8 else bsize b)" "unat ?w \<le> bsize b"
  proof -
    have "unat ?w = (if b < ob then bsize (b + 1) + 8 else bsize b) \<and> unat ?w \<le> bsize b"
    proof (cases "b < ob")
      case True
      then have half: "bsize b = 2 * bsize (b + 1)" "16 \<le> bsize (b + 1)"
        using assms(3) bsize_half [of b] bsize_ge_16 [of "b + 1"] by auto
      have "unat (of_nat (bsize b) div 2 :: u32) = bsize (b + 1)" 
        unfolding unat_div n using half(1) by simp
      then show ?thesis
        using True half sz unat_plus_no_wrap [of "of_nat (bsize b) div 2 :: u32" 8] by simp
    qed (simp add: n)
    then show "unat ?w = (if b < ob then bsize (b + 1) + 8 else bsize b)" "unat ?w \<le> bsize b" by blast+
  qed
  have "unat (naddr h b k) + unat ?w < 2 ^ 32"
    using unat_naddr [OF assms(1) b assms(4)] w(2) off assms(1) by (simp add: layout_def)
  then have "unat (naddr h b k + ?w) = unat (naddr h b k) + unat ?w" by (intro unat_plus_no_wrap) simp
  then show ?thesis
    unfolding less sizeof_list_def using unat_naddr [OF assms(1) b assms(4)] w(1) by linarith
qed

lemma descendant:
  assumes "b \<le> ob" "ob \<le> 27"
  shows "inside ob (k * 2 ^ (ob - b)) b k" "k * 2 ^ (ob - b) * bsize ob = k * bsize b"
    "naddr h ob (k * 2 ^ (ob - b)) = naddr h b k" "k < 2 ^ b \<Longrightarrow> k * 2 ^ (ob - b) < 2 ^ ob"
proof -
  show "inside ob (k * 2 ^ (ob - b)) b k" using assms by (simp add: inside_def)
  show eq: "k * 2 ^ (ob - b) * bsize ob = k * bsize b"
    using assms bsize_split [of b ob] by simp
  then show "naddr h ob (k * 2 ^ (ob - b)) = naddr h b k" by (simp only: naddr_def)
  assume "k < 2 ^ b"
  then have "k * 2 ^ (ob - b) < 2 ^ b * 2 ^ (ob - b)" by simp
  then show "k * 2 ^ (ob - b) < 2 ^ ob" using assms(1) by (simp flip: power_add)
qed

text \<open>The heap after the block \<open>k\<close> of level \<open>b\<close> is taken off its list, with the break raised to \<open>q\<close>.\<close>

definition taken :: "heap \<Rightarrow> nat \<Rightarrow> nat \<Rightarrow> u32 \<Rightarrow> heap" where
  "taken h b k q = flip_parent (raise_max (h\<lparr>mem := list_remove (mem h) (naddr h b k)\<rparr>) q) b k"

lemma taken_fields [simp]:
  "limit (taken h b k q) = limit h" "base_ptr (taken h b k q) = base_ptr h" "max_ptr (taken h b k q) = max (max_ptr h) q"
  by (simp_all add: taken_def limit_def)

lemma taken_ok:
  assumes "heap_ok h S F" "reserved h S F" "limit h \<le> b" "b \<le> 27" "F b = ks @ [k]"
  shows "heap_ok (taken h b k q) (S \<union> blk b k) (F(b := ks))" "free_below (taken h b k q) (F(b := ks))"
    "same_data h (taken h b k q) S"
proof -
  have "heap_ok (raise_max h q) S F" using assms(1) by (simp add: raise_max_ok)
  moreover have "limit (raise_max h q) \<le> b" using assms(3) by simp
  ultimately have "heap_ok ((flip_parent (raise_max h q) b k)\<lparr>mem := list_remove (mem (raise_max h q))
      (naddr (raise_max h q) b k)\<rparr>) (S \<union> blk b k) (F(b := ks @ []))"
    using assms(4,5) by (rule take_block)
  moreover have "(flip_parent (raise_max h q) b k)\<lparr>mem := list_remove (mem h) (naddr h b k)\<rparr> = taken h b k q"
    by (simp add: taken_def raise_max_def flip_parent_def flip_flag_def)
  ultimately show "heap_ok (taken h b k q) (S \<union> blk b k) (F(b := ks))"
    using naddr_cong [of "raise_max h q" h] by simp
  have "free_below (raise_max h q) F" using reserved_raise [OF assms(2), of q] by (simp add: reserved_iff)
  then show "free_below (taken h b k q) (F(b := ks))"
    using assms(5) by (auto simp: free_below_def taken_def raise_max_def limit_def)
  show "same_data h (taken h b k q) S"
    using assms(2,5) by (intro take_same_data [OF assms(1,3,4), of ks k "[]"]) (auto simp: taken_def unat_max reserved_iff)
qed

lemma use_block_eq:
  assumes "layout h" "heap_end h = max_ptr h" "b \<le> 27" "k < 2 ^ b"
    and "q = naddr h b k + (if (of_nat b :: u32) < of_nat ob then of_nat (bsize b) div 2 + sizeof_list else of_nat (bsize b))"
  shows "use_block (h\<lparr>mem := list_remove (mem h) (naddr h b k)\<rparr>) (naddr h b k) (of_nat b) (of_nat ob) request =
    and_then (split_loop (taken h b k q) (node b k) (of_nat b) (of_nat ob))
      (\<lambda>h3. Inr (naddr h b k + 8, h3\<lparr>mem := (mem h3)(naddr h b k := request)\<rparr>))"
proof -
  let ?h0 = "h\<lparr>mem := list_remove (mem h) (naddr h b k)\<rparr>"
  let ?h1 = "raise_max ?h0 q"
  have index: "node_for_ptr ?h1 (naddr h b k) (of_nat b) = node b k"
    using node_for_ptr_eq [of ?h1 b k] assms(1,3,4) layout_cong [of ?h1 h] naddr_cong [of ?h1 h] by simp
  have flip: "(if node b k \<noteq> 0 then flip_parent_is_split ?h1 (node b k) else Inr ?h1) = Inr (taken h b k q)"
    using flip_parent_is_split_eq [OF _ assms(3,4), of ?h1] node_eq_0 [OF assms(3,4)]
    by (simp add: flip_parent_def taken_def)
  have upd: "update_max_ptr ?h0 q = (1, ?h1)" using assms(2) by (intro update_max_ptr_eq) simp
  show ?thesis
    unfolding use_block_def Let_def push_bit_bsize [OF assms(3)] assms(5) [symmetric]
    by (simp only: upd prod.case one_neq_zero if_False index flip and_then_Inr HEADER_SIZE_def)
qed

text \<open>The header is written into the first word of the new block.\<close>

lemma header_granted:
  assumes ok: "heap_ok h S F" and ok3: "heap_ok h3 (S \<union> blk ob k) F'"
    and below: "free_below h3 F'" "\<And>x. x \<in> S \<union> blk ob k \<Longrightarrow> unat (base_ptr h) + x < unat (max_ptr h3)"
    and data: "same_data h h3 S" and k: "k < 2 ^ ob" "ob \<le> 27" "unused S ob k"
  shows "granted h S ob request (naddr h ob k + 8) (h3\<lparr>mem := (mem h3)(naddr h ob k := request)\<rparr>)"
proof -
  note d = heap_okD [OF ok]
  let ?h4 = "h3\<lparr>mem := (mem h3)(naddr h ob k := request)\<rparr>"
  have x: "k * bsize ob \<in> blk ob k" by (rule blk_start)
  have base3: "base_ptr h3 = base_ptr h" using data by (simp add: same_data_def)
  then have addr: "naddr h ob k = base_ptr h3 + of_nat (k * bsize ob)" by (simp add: naddr_def)
  have ok4: "heap_ok ?h4 (S \<union> blk ob k) F'"
    unfolding addr by (rule heap_ok_write [OF ok3]) (use x in blast)
  have res4: "reserved ?h4 (S \<union> blk ob k) F'"
    using below base3 by (simp add: reserved_iff free_below_def limit_def)
  have "base_ptr h + of_nat y \<noteq> naddr h ob k" if "y \<in> S" for y
  proof
    assume "base_ptr h + of_nat y = naddr h ob k"
    then have "unat (base_ptr h) + k * bsize ob = unat (base_ptr h) + y"
      using unat_naddr [OF d(1) k(2,1)] unat_base_plus [OF d(1) data_bound [OF ok that]] by simp
    then show False using that x k(3) by (auto simp: unused_def)
  qed
  moreover have "\<not> outside ?h4 (naddr h ob k)"
    using x below(2) [of "k * bsize ob"] unat_naddr [OF d(1) k(2,1)] base3 by (auto simp: outside_def)
  then have "confined h3 ?h4" using outside_mono [of ?h4 _ h3] by (auto simp: confined_def)
  then have "confined h ?h4"
    using data confined_trans [of h h3 ?h4] by (simp add: same_data_def)
  ultimately have "same_data h ?h4 S" using data by (simp add: same_data_def)
  then show ?thesis
    unfolding granted_def using k(1,3) ok4 res4 by (intro exI [of _ k] exI [of _ F']) simp
qed

lemma header_pointer_nonzero:
  assumes "layout h" "b \<le> 27" "k < 2 ^ b"
  shows "naddr h b k + 8 \<noteq> 0"
proof -
  have "unat (naddr h b k) + 16 \<le> unat (base_ptr h) + 2 ^ 31"
    using unat_naddr [OF assms] offset_bound [OF assms(2,3)] bsize_ge_16 [OF assms(2)] by simp
  then have "unat (naddr h b k + 8) = unat (naddr h b k) + 8"
    using assms(1) unat_plus_no_wrap [of "naddr h b k" 8] by (simp add: layout_def)
  then show ?thesis by auto
qed

lemma use_block_ok:
  assumes ok: "heap_ok h S F" and res: "reserved h S F" and b: "limit h \<le> b" "b \<le> ob" "ob \<le> 27"
    and k: "F b = ks @ [k]"
  shows "\<exists>p h'. use_block (h\<lparr>mem := list_remove (mem h) (naddr h b k)\<rparr>) (naddr h b k) (of_nat b) (of_nat ob) request
    = Inr (p, h') \<and> p \<noteq> 0 \<and> granted h S ob request p h'"
proof -
  note d = heap_okD [OF ok]
  have b27: "b \<le> 27" using b by simp
  have max: "k \<in> maximal (limit h) S b" using d(6) [OF b(1) b27] k by auto
  have kb: "k < 2 ^ b" using max by (rule maximal_bound)
  have kL: "k < 2 ^ (b - limit h)" and unused_k: "unused S b k" using max by (simp_all add: maximal_def)
  define q where "q = naddr h b k + (if (of_nat b :: u32) < of_nat ob then of_nat (bsize b) div 2 + sizeof_list else of_nat (bsize b))"
  note p = bytes_needed [OF d(1) b(2,3) kb, folded q_def]
  let ?h2 = "taken h b k q" and ?S = "S \<union> blk b k" and ?k = "k * 2 ^ (ob - b)"
  note taken = taken_ok [OF ok res b(1) b27 k, of q]
  have room: "unat (base_ptr ?h2) + k * bsize b + bsize (b + 1) + 8 \<le> unat (max_ptr ?h2)" if "b < ob"
    using that p by (simp add: unat_max)
  have start: "limit ?h2 \<le> b" "k < 2 ^ (b - limit ?h2)" "blk b k \<subseteq> ?S" using b(1) kL by auto
  obtain h3 F' where h3: "split_loop ?h2 (node b k) (of_nat b) (of_nat ob) = Inr h3"
    "heap_ok h3 ((?S - blk b k) \<union> blk ob ?k) F'" "free_below h3 F'"
    "max_ptr h3 = max_ptr ?h2" "same_data ?h2 h3 (?S - blk b k)"
    using split_loop_ok [OF taken(1,2) start(1) b(2,3) start(2,3) room] by blast
  have S_eq: "(?S - blk b k) \<union> blk ob ?k = S \<union> blk ob ?k" "?S - blk b k = S"
    using unused_k by (auto simp: unused_def)
  note desc = descendant [OF b(2,3), where k = k]
  have un: "unused S ob ?k"
    by (rule unused_inside [of S b k]) (use unused_k desc(1) b(3) in simp_all)
  have "x < k * bsize b + (if b < ob then bsize (b + 1) + 8 else bsize b)" if "x \<in> blk ob ?k" for x
  proof -
    have "x < k * bsize b + bsize ob" using that desc(2) by (simp add: blk_def)
    moreover have "bsize ob \<le> bsize (b + 1)" if "b < ob"
      using that b(3) unfolding bsize_def by (intro power_increasing) auto
    ultimately show ?thesis using b(2) by (cases "b < ob") auto
  qed
  then have below: "unat (base_ptr h) + x < unat (max_ptr h3)" if "x \<in> S \<union> blk ob ?k" for x
    using that res p h3(4) by (fastforce simp: reserved_def unat_max)
  have "same_data h h3 S" using taken(3) h3(5) S_eq(2) same_data_trans by simp
  from header_granted [OF ok h3(2) [unfolded S_eq(1)] h3(3) below this desc(4) [OF kb] b(3) un]
  have "granted h S ob request (naddr h b k + 8) (h3\<lparr>mem := (mem h3)(naddr h b k := request)\<rparr>)"
    unfolding desc(3) .
  moreover have "heap_end h = max_ptr h" using res by (simp add: reserved_def)
  from use_block_eq [OF d(1) this b27 kb q_def]
  have "use_block (h\<lparr>mem := list_remove (mem h) (naddr h b k)\<rparr>) (naddr h b k) (of_nat b) (of_nat ob) request =
      Inr (naddr h b k + 8, h3\<lparr>mem := (mem h3)(naddr h b k := request)\<rparr>)"
    unfolding h3(1) and_then_Inr .
  ultimately show ?thesis using header_pointer_nonzero [OF d(1) b27 kb] by blast
qed

section \<open>The loop of malloc\<close>

definition no_room :: "heap \<Rightarrow> nat set \<Rightarrow> nat \<Rightarrow> heap \<Rightarrow> bool" where
  "no_room h S ob h' \<longleftrightarrow> (\<forall>k < 2 ^ ob. \<not> unused S ob k) \<and>
     (\<exists>F'. heap_ok h' S F' \<and> reserved h' S F') \<and> same_data h h' S"

lemma no_room_after: "no_room h' S ob h'' \<Longrightarrow> same_data h h' S \<Longrightarrow> no_room h S ob h''"
  by (auto simp: no_room_def dest: same_data_trans)

text \<open>An unused node has a maximal unused ancestor.\<close>

lemma unused_has_maximal:
  assumes "unused S b k" "k < 2 ^ b" "b \<le> 31"
  shows "\<exists>c \<le> b. maximal 0 S c \<noteq> {}"
  using assms
proof (induction b arbitrary: k)
  case 0
  then have "k \<in> maximal 0 S 0" by (simp add: maximal_def)
  then show ?case by auto
next
  case (Suc b)
  show ?case
  proof (cases "unused S b (k div 2)")
    case True
    then have "\<exists>c \<le> b. maximal 0 S c \<noteq> {}" using Suc.prems parent_bound [of "Suc b" k] by (intro Suc.IH) auto
    then show ?thesis using le_SucI by blast
  next
    case False
    then have "k \<in> maximal 0 S (Suc b)" using Suc.prems by (simp add: maximal_def)
    then show ?thesis by auto
  qed
qed

lemma pop_result:
  assumes "heap_ok h S F" "limit h \<le> b" "b \<le> 27"
  shows "list_pop (mem h) (bucket_head h (of_nat b)) =
    (if F b = [] then (0, mem h) else (naddr h b (last (F b)), list_remove (mem h) (naddr h b (last (F b)))))"
proof -
  note d = heap_okD [OF assms(1)]
  have "b \<in> {limit h..27}" using assms by simp
  from free_lists_pop [OF d(1) d(5) this] show ?thesis by (simp only: head_def)
qed

lemma popped_nonzero:
  assumes "heap_ok h S F" "limit h \<le> b" "b \<le> 27" "F b \<noteq> []"
  shows "naddr h b (last (F b)) \<noteq> 0"
proof -
  note d = heap_okD [OF assms(1)]
  have "last (F b) < 2 ^ b" using assms d(6) [OF assms(2,3)] maximal_bound by (metis last_in_set)
  then show ?thesis using d(1) assms(3) by (intro naddr_nonzero)
qed

lemma use_popped:
  assumes "heap_ok h S F" "reserved h S F" "limit h \<le> b" "b \<le> ob" "ob \<le> 27" "F b \<noteq> []"
  shows "\<exists>p h'. use_block (h\<lparr>mem := list_remove (mem h) (naddr h b (last (F b)))\<rparr>) (naddr h b (last (F b)))
    (of_nat b) (of_nat ob) request = Inr (p, h') \<and> p \<noteq> 0 \<and> granted h S ob request p h'"
  using assms by (intro use_block_ok [where F = F and ks = "butlast (F b)"]) simp_all

text \<open>One iteration of the loop, where the list of the bucket has a block.\<close>

lemma malloc_loop_pops:
  assumes "lower_bucket_limit h (of_nat b) = Inr (1, h1)" "same_data h h1 S" "heap_ok h1 S F" "reserved h1 S F"
    and "limit h1 \<le> b" "b \<le> ob" "ob \<le> 27" "F b \<noteq> []"
  obtains p h' where "malloc_loop h (of_nat b) (of_nat ob) request = Inr (p, h')" "p \<noteq> 0" "granted h S ob request p h'"
proof -
  have b27: "b \<le> 27" using assms(6,7) by simp
  have word: "(of_nat b :: u32) + 1 \<noteq> 0" using unat_offset [of "b + 1"] b27 by (auto simp: word_eq_unat add.commute)
  note pop = pop_result [OF assms(3,5) b27]
  obtain p h' where p: "use_block (h1\<lparr>mem := list_remove (mem h1) (naddr h1 b (last (F b)))\<rparr>)
      (naddr h1 b (last (F b))) (of_nat b) (of_nat ob) request = Inr (p, h')" "p \<noteq> 0" "granted h1 S ob request p h'"
    using use_popped [OF assms(3-8)] by blast
  have "malloc_loop h (of_nat b) (of_nat ob) request = Inr (p, h')"
    using assms(1,8) pop p(1) popped_nonzero [OF assms(3,5) b27 assms(8)] word
    by (subst malloc_loop.simps) (simp add: Let_def)
  then show thesis using that p(2) granted_after [OF p(3) assms(2)] by blast
qed

text \<open>One iteration where the list is empty and the limit is below: the next larger blocks are tried.\<close>

lemma malloc_loop_next:
  assumes "lower_bucket_limit h (of_nat (Suc b)) = Inr (1, h1)" "heap_ok h1 S F" "limit h1 < Suc b" "Suc b \<le> 27"
    and "F (Suc b) = []" "malloc_loop h1 (of_nat b) (of_nat ob) request = r"
  shows "malloc_loop h (of_nat (Suc b)) (of_nat ob) request = r"
proof -
  let ?b = "Suc b"
  have word: "(of_nat ?b :: u32) + 1 \<noteq> 0" "(of_nat ?b :: u32) \<noteq> 0" "(of_nat ?b :: u32) - 1 = of_nat b"
    using unat_offset [of ?b] unat_offset [of "?b + 1"] assms(4) by (auto simp: word_eq_unat)
  have "of_nat ?b \<noteq> bucket_limit h1"
    using assms(3) level_word [OF assms(4)] by (auto simp: word_eq_unat limit_def)
  moreover have "list_pop (mem h1) (bucket_head h1 (of_nat ?b)) = (0, mem h1)"
    using pop_result [OF assms(2) _ assms(4)] assms(3,5) by simp
  ultimately show ?thesis
    using assms(1,6) word by (subst malloc_loop.simps) (simp add: Let_def del: of_nat_Suc)
qed

text \<open>Where the limit is reached the tree grows by a level, and the right half of its new root is free.\<close>

lemma malloc_loop_grows:
  assumes "lower_bucket_limit h (of_nat (Suc b)) = Inr (1, h1)" "same_data h h1 S" "heap_ok h1 S F" "reserved h1 S F"
    and "limit h1 = Suc b" "Suc b \<le> ob" "ob \<le> 27" "F (Suc b) = []"
  obtains p h' where "malloc_loop h (of_nat (Suc b)) (of_nat ob) request = Inr (p, h')" "p \<noteq> 0"
    "granted h S ob request p h'"
proof -
  let ?b = "Suc b"
  have b27: "?b \<le> 27" "limit h1 \<le> ?b" using assms(5-7) by simp_all
  have word: "(of_nat ?b :: u32) + 1 \<noteq> 0" "(of_nat ?b :: u32) \<noteq> 0" "(of_nat ?b :: u32) - 1 = of_nat b"
    using unat_offset [of ?b] unat_offset [of "?b + 1"] b27 by (auto simp: word_eq_unat)
  have "maximal ?b S ?b = {}" using heap_okD(6) [OF assms(3) b27(2,1)] assms(5,8) by simp
  then have S: "S \<noteq> {}" by (auto simp: maximal_def)
  obtain h3 F3 where h3: "lower_bucket_limit h1 (of_nat b) = Inr (1, h3)" "heap_ok h3 S F3" "reserved h3 S F3"
    "limit h3 = b" "same_data h1 h3 S"
    using lower_bucket_limit_ok [OF assms(3,4), of b] b27(1) assms(5) by auto
  have "S \<subseteq> {..<bsize ?b}" using heap_okD(3) [OF assms(3)] assms(5) by simp
  then have "maximal (?b - 1) S ?b = (if ?b = ?b - 1 then {} else if ?b = ?b then {1} else maximal ?b S ?b)"
    using S b27(1) by (intro grow_maximal) simp_all
  moreover have "set (F3 ?b) = maximal b S ?b" using heap_okD(6) [OF h3(2), of ?b] h3(4) b27(1) by simp
  ultimately have "set (F3 ?b) = {1}" by simp
  then have ne: "F3 ?b \<noteq> []" by (metis insert_not_empty list.set(1))
  have lim3: "limit h3 \<le> ?b" using h3(4) by simp
  have pop3: "list_pop (mem h3) (bucket_head h3 (of_nat ?b)) =
      (naddr h3 ?b (last (F3 ?b)), list_remove (mem h3) (naddr h3 ?b (last (F3 ?b))))"
    using pop_result [OF h3(2) lim3 b27(1)] ne by simp
  obtain p h' where p: "use_block (h3\<lparr>mem := list_remove (mem h3) (naddr h3 ?b (last (F3 ?b)))\<rparr>)
      (naddr h3 ?b (last (F3 ?b))) (of_nat ?b) (of_nat ob) request = Inr (p, h')" "p \<noteq> 0" "granted h3 S ob request p h'"
    using use_popped [OF h3(2,3) lim3 assms(6,7) ne] by blast
  have pop: "list_pop (mem h1) (bucket_head h1 (of_nat ?b)) = (0, mem h1)"
    using pop_result [OF assms(3) b27(2,1)] assms(8) by simp
  have guard: "(of_nat ?b \<noteq> bucket_limit h1 \<or> (of_nat ?b :: u32) = 0) = False" "((of_nat ?b :: u32) + 1 \<noteq> 0) = True"
    using word(1,2) limit_word [of h1] assms(5) by simp_all
  have same: "h1\<lparr>mem := mem h1\<rparr> = h1" by simp
  have "malloc_loop h (of_nat ?b) (of_nat ob) request = Inr (p, h')"
    by (subst malloc_loop.simps)
      (simp only: guard if_True assms(1) and_then_Inr prod.case one_neq_zero if_False Let_def pop same
        word(3) h3(1) pop3 p(1) simp_thms)
  then show thesis using that p(2) granted_after [OF granted_after [OF p(3) h3(5)] assms(2)] by blast
qed

text \<open>The last iteration without a block.\<close>

lemma no_room_at_root:
  assumes "heap_ok h S F" "reserved h S F" "limit h = 0" "ob \<le> 27" "F 0 = []"
    and "\<And>c. 0 < c \<Longrightarrow> c \<le> ob \<Longrightarrow> maximal 0 S c = {}"
  shows "no_room h S ob h"
proof -
  have "maximal 0 S c = {}" if "c \<le> ob" for c
    using heap_okD(6) [OF assms(1), of 0] assms(3,5) assms(6) [of c] that by (cases "c = 0") simp_all
  then show ?thesis using assms(1,2) unused_has_maximal [of S ob] assms(4) by (fastforce simp: no_room_def)
qed

lemma malloc_loop_ok:
  assumes "heap_ok h S F" "reserved h S F" "b \<le> ob" "ob \<le> 27" "b < ob \<Longrightarrow> limit h \<le> b"
    and "\<And>c. b < c \<Longrightarrow> c \<le> ob \<Longrightarrow> maximal (limit h) S c = {}"
  shows "\<exists>p h'. malloc_loop h (of_nat b) (of_nat ob) request = Inr (p, h') \<and>
    (if p = 0 then no_room h S ob h' else granted h S ob request p h')"
  using assms
proof (induction b arbitrary: h F)
  case 0
  obtain h1 F1 where h1: "lower_bucket_limit h (of_nat 0) = Inr (1, h1)" "heap_ok h1 S F1" "reserved h1 S F1"
    "limit h1 = 0" "same_data h h1 S"
    using lower_bucket_limit_ok [OF 0(1,2), of 0] by auto
  show ?case
  proof (cases "F1 0 = []")
    case True
    have "limit h = 0" if "0 < ob" using 0(5) that by simp
    then have "no_room h1 S ob h1" using h1(4) 0(4,6) True by (intro no_room_at_root [OF h1(2,3)]) auto
    from no_room_after [OF this h1(5)] have "no_room h S ob h1" .
    moreover have "malloc_loop h (of_nat 0) (of_nat ob) request = Inr (0, h1)"
      using h1(1,4) pop_result [OF h1(2), of 0] True
      by (subst malloc_loop.simps) (simp add: Let_def malloc_loop.simps [of _ "- 1"])
    ultimately show ?thesis by auto
  next
    case False
    show ?thesis
      by (rule malloc_loop_pops [OF h1(1,5,2,3) _ 0(3,4) False, of request]) (use h1(4) in auto)
  qed
next
  case (Suc b)
  let ?b = "Suc b"
  have b27: "?b \<le> 27" using Suc.prems by simp
  obtain h1 F1 where h1: "lower_bucket_limit h (of_nat ?b) = Inr (1, h1)" "heap_ok h1 S F1" "reserved h1 S F1"
    "limit h1 = min (limit h) ?b" "same_data h h1 S"
    using lower_bucket_limit_ok [OF Suc.prems(1,2) b27] by auto
  then have lim: "limit h1 \<le> ?b" by simp
  consider "F1 ?b \<noteq> []" | "F1 ?b = []" "limit h1 = ?b" | "F1 ?b = []" "limit h1 < ?b" using lim by linarith
  then show ?case
  proof cases
    case 1
    show ?thesis by (rule malloc_loop_pops [OF h1(1,5,2,3) lim Suc.prems(3,4) 1, of request]) auto
  next
    case 2
    show ?thesis by (rule malloc_loop_grows [OF h1(1,5,2,3) 2(2) Suc.prems(3,4) 2(1), of request]) auto
  next
    case 3
    have "maximal (limit h1) S c = {}" if "b < c" "c \<le> ob" for c
    proof (cases "c = ?b")
      case False
      then have "limit h1 = limit h" "?b < c" using Suc.prems(5) h1(4) that by simp_all
      then show ?thesis using Suc.prems(6) that by simp
    qed (use heap_okD(6) [OF h1(2) lim b27] 3(1) in simp)
    then obtain p h' where p: "malloc_loop h1 (of_nat b) (of_nat ob) request = Inr (p, h')"
      "if p = 0 then no_room h1 S ob h' else granted h1 S ob request p h'"
      using Suc.IH [OF h1(2,3)] Suc.prems(3,4) 3(2) by auto
    have "malloc_loop h (of_nat ?b) (of_nat ob) request = Inr (p, h')"
      by (rule malloc_loop_next [OF h1(1,2) 3(2) b27 3(1) p(1)])
    then show ?thesis using p(2) granted_after [OF _ h1(5)] no_room_after [OF _ h1(5)] by (auto split: if_splits)
  qed
qed

section \<open>The loop of free\<close>

definition sibling :: "nat \<Rightarrow> nat" where
  "sibling k = (if even k then k + 1 else k - 1)"

lemma sibling_facts: "sibling k \<noteq> k" "sibling k div 2 = k div 2"
  by (cases k; auto simp: sibling_def)+

lemma sibling_bound: "0 < n \<Longrightarrow> k < 2 ^ n \<Longrightarrow> sibling k < 2 ^ n"
proof -
  assume "0 < n" "k < 2 ^ n"
  then have "sibling k div 2 < 2 ^ (n - 1)" using parent_bound [of n k] sibling_facts(2) [of k] by simp
  then have "sibling k < 2 ^ (n - 1) * 2" by (simp add: div_less_iff_less_mult)
  then show ?thesis using \<open>0 < n\<close> by (simp flip: power_Suc2)
qed

lemma parent_block:
  assumes "0 < b" "b \<le> 31"
  shows "blk (b - 1) (k div 2) = blk b k \<union> blk b (sibling k)"
proof -
  have "bsize (b - 1) = bsize b * 2" using assms bsize_double by simp
  then have "x div bsize (b - 1) = x div bsize b div 2" for x by (simp add: div_mult2_eq)
  moreover have "n div 2 = k div 2 \<longleftrightarrow> n = k \<or> n = sibling k" for n
    using sibling_facts(2) [of k] by (cases "even k") (auto simp: sibling_def elim!: evenE oddE)
  ultimately show ?thesis by (auto simp: mem_blk)
qed

lemma flipped_flag:
  assumes ok: "heap_ok h S F" and b: "limit h \<le> b" "b \<le> 27" "0 < b" and k: "k < 2 ^ b" "blk b k \<subseteq> S"
  shows "flag (flip_parent h b k) (idx (b - 1) (k div 2)) \<longleftrightarrow> \<not> unused S b (sibling k)"
proof -
  have used: "\<not> unused S b k" using k(2) blk_start [of k b] by (auto simp: unused_def)
  have b1: "b - 1 < 27" "b - 1 + 1 = b" using b by auto
  have "split_flag (limit h) S (b - 1) (k div 2) \<longleftrightarrow> unused S b (2 * (k div 2)) \<noteq> unused S b (2 * (k div 2) + 1)"
    using b by (simp add: split_flag_def)
  also have "\<dots> \<longleftrightarrow> unused S b (sibling k)"
    using used by (cases "even k") (auto simp: sibling_def elim!: evenE oddE)
  finally have "flag h (idx (b - 1) (k div 2)) \<longleftrightarrow> unused S b (sibling k)"
    using heap_okD(4) [OF ok] b1(1) parent_bound [OF b(3) k(1)] by (simp add: flags_ok_def)
  then show ?thesis
    using flag_flip_parent [OF b(2) k(1) b1(1) parent_bound [OF b(3) k(1)], of h] b1(2) by simp
qed

definition pushed :: "heap \<Rightarrow> nat \<Rightarrow> nat \<Rightarrow> heap" where
  "pushed h c j = h\<lparr>mem := list_push (mem h) (head h c) (naddr h c j)\<rparr>"

lemma pushed_fields [simp]:
  "limit (pushed h c j) = limit h" "max_ptr (pushed h c j) = max_ptr h" "heap_end (pushed h c j) = heap_end h"
  "base_ptr (pushed h c j) = base_ptr h"
  by (simp_all add: pushed_def limit_def)

lemma free_below_give:
  assumes "free_below h F" "b \<le> 27" "unat (base_ptr h) + k * bsize b + 8 \<le> unat (max_ptr h)"
    and "limit h' = limit h" "base_ptr h' = base_ptr h" "max_ptr h' = max_ptr h" "heap_end h' = heap_end h"
  shows "free_below h' (F(b := F b @ [k]))"
  using assms by (auto simp: free_below_def)

text \<open>The last round: the node ends up in the list of its level.\<close>

lemma free_give:
  assumes ok: "heap_ok h S F" and below: "free_below h F" and b: "limit h \<le> b" "b \<le> 27"
    and k: "k < 2 ^ (b - limit h)" "blk b k \<subseteq> S" "unat (base_ptr h) + k * bsize b + 8 \<le> unat (max_ptr h)"
    and stop: "b = limit h \<or> \<not> unused S b (sibling k)"
  shows "heap_ok (pushed (flip_parent h b k) b k) (S - blk b k) (F(b := F b @ [k]))"
    "free_below (pushed (flip_parent h b k) b k) (F(b := F b @ [k]))"
    "same_data h (pushed (flip_parent h b k) b k) (S - blk b k)"
proof -
  have eq: "pushed (flip_parent h b k) b k = (flip_parent h b k)\<lparr>mem := list_push (mem h) (head h b) (naddr h b k)\<rparr>"
    using naddr_cong [of "flip_parent h b k" h] head_cong [of "flip_parent h b k" h] by (simp add: pushed_def)
  have "b = limit h \<or> \<not> unused (S - blk b k) (b - 1) (k div 2)"
    using stop b sibling_used [of S b k] by (cases "b = limit h") (auto simp: sibling_def)
  then show "heap_ok (pushed (flip_parent h b k) b k) (S - blk b k) (F(b := F b @ [k]))"
    unfolding eq by (intro give_block [OF ok b k(1,2)])
  have kb: "k < 2 ^ b"
  proof -
    have "(2 :: nat) ^ (b - limit h) \<le> 2 ^ b" by (rule power_increasing) auto
    then show ?thesis using k(1) by linarith
  qed
  then show "same_data h (pushed (flip_parent h b k) b k) (S - blk b k)"
    unfolding eq using below k(3) by (intro give_same_data [OF ok b]) simp_all
  show "free_below (pushed (flip_parent h b k) b k) (F(b := F b @ [k]))"
    by (rule free_below_give [OF below b(2) k(3)]) simp_all
qed

text \<open>The heap after a round that takes the buddy of the node off its list.\<close>

definition merged :: "heap \<Rightarrow> nat \<Rightarrow> nat \<Rightarrow> heap" where
  "merged h b k = (flip_parent h b k)\<lparr>mem := list_remove (mem h) (naddr h b (sibling k))\<rparr>"

lemma merged_fields [simp]:
  "limit (merged h b k) = limit h" "max_ptr (merged h b k) = max_ptr h" "base_ptr (merged h b k) = base_ptr h"
  by (simp_all add: merged_def limit_def)

lemma in_level: "k < 2 ^ (b - l) \<Longrightarrow> k < (2 :: nat) ^ b"
proof -
  assume "k < 2 ^ (b - l)"
  moreover have "(2 :: nat) ^ (b - l) \<le> 2 ^ b" by (rule power_increasing) auto
  ultimately show ?thesis by linarith
qed

lemma free_loop_round:
  assumes ok: "heap_ok h S F" and b: "limit h \<le> Suc b" "Suc b \<le> 27"
    and k: "k < 2 ^ (Suc b - limit h)" "blk (Suc b) k \<subseteq> S"
  shows "free_loop h (node (Suc b) k) (of_nat (Suc b)) =
    (if Suc b = limit h \<or> \<not> unused S (Suc b) (sibling k)
     then Inr (node (Suc b) k, of_nat (Suc b), flip_parent h (Suc b) k)
     else free_loop (merged h (Suc b) k) (node b (k div 2)) (of_nat b))"
proof -
  let ?b = "Suc b" and ?s = "sibling k"
  let ?h1 = "flip_parent h ?b k"
  have b0: "0 < ?b" by simp
  have kb: "k < 2 ^ ?b" using k(1) by (rule in_level)
  have not_root: "(node ?b k \<noteq> 0) = True" using node_eq_0 [OF b(2) kb] by simp
  have flip: "flip_parent_is_split h (node ?b k) = Inr ?h1"
    using flip_parent_is_split_eq [OF b0 b(2) kb, of h] by (simp add: flip_parent_def)
  obtain w where w: "parent_is_split ?h1 (node ?b k) = Inr w" "w \<noteq> 0 \<longleftrightarrow> \<not> unused S ?b ?s"
    using parent_is_split_eq [OF b0 b(2) kb, of ?h1] flipped_flag [OF ok b b0 kb k(2)] by auto
  have at_limit: "of_nat ?b = bucket_limit h \<longleftrightarrow> ?b = limit h"
    using level_word [OF b(2)] by (auto simp: word_eq_unat limit_def)
  have stop: "(w \<noteq> 0 \<or> of_nat ?b = bucket_limit h) = (?b = limit h \<or> \<not> unused S ?b ?s)"
    using w(2) at_limit by blast
  have buddy: "ptr_for_node ?h1 (((node ?b k - 1) XOR 1) + 1) (of_nat ?b) = naddr h ?b ?s"
    using node_sibling [OF b0 b(2) kb] ptr_for_node_eq [OF b(2), of ?h1 ?s]
      naddr_cong [of ?h1 h] by (simp only: sibling_def flip_parent_fields)
  have up: "(node ?b k - 1) div 2 = node b (k div 2)" "(of_nat ?b :: u32) - 1 = of_nat b"
    using node_parent [OF b0 b(2) kb] by simp_all
  show ?thesis
    by (subst free_loop.simps)
      (simp only: not_root if_True flip and_then_Inr w(1) stop buddy up flip_parent_fields merged_def)
qed

lemma merged_ok:
  assumes ok: "heap_ok h S F" and below: "free_below h F" and b: "limit h \<le> b" "Suc b \<le> 27"
    and k: "k < 2 ^ (Suc b - limit h)" "blk (Suc b) k \<subseteq> S"
    and un: "unused S (Suc b) (sibling k)"
  shows "\<exists>F'. heap_ok (merged h (Suc b) k) (S \<union> blk (Suc b) (sibling k)) F' \<and> free_below (merged h (Suc b) k) F'"
    "same_data h (merged h (Suc b) k) S"
proof -
  let ?b = "Suc b" and ?s = "sibling k"
  have lim: "limit h \<le> ?b" using b(1) by simp
  have bound: "?s < 2 ^ (?b - limit h)" using b(1) k(1) by (intro sibling_bound) auto
  have "k * bsize ?b \<in> blk b (k div 2)" "k * bsize ?b \<in> S"
    using parent_block [of ?b k] b(2) k(2) blk_start [of k ?b] by auto
  then have "\<not> unused S b (?s div 2)" by (auto simp: unused_def sibling_facts)
  then have "?s \<in> maximal (limit h) S ?b" using bound un by (simp add: maximal_def)
  then have "?s \<in> set (F ?b)" using heap_okD(6) [OF ok lim b(2)] by simp
  then obtain ks js where F: "F ?b = ks @ ?s # js" by (meson split_list)
  have same_flip: "flip_parent h ?b ?s = flip_parent h ?b k" by (simp add: flip_parent_def sibling_facts)
  have "heap_ok (merged h ?b k) (S \<union> blk ?b ?s) (F(?b := ks @ js))"
    using take_block [OF ok lim b(2) F] by (simp add: same_flip merged_def)
  moreover have "heap_end (merged h ?b k) = heap_end h" by (simp add: merged_def)
  then have "free_below (merged h ?b k) (F(?b := ks @ js))" using below F by (auto simp: free_below_def)
  ultimately show "\<exists>F'. heap_ok (merged h ?b k) (S \<union> blk ?b ?s) F' \<and> free_below (merged h ?b k) F'" by blast
  show "same_data h (merged h ?b k) S"
    by (rule take_same_data [OF ok lim b(2) F below]) (simp_all add: merged_def)
qed

lemma free_loop_ok:
  assumes "heap_ok h S F" "free_below h F" "limit h \<le> b" "b \<le> 27" "k < 2 ^ (b - limit h)" "blk b k \<subseteq> S"
    and "unat (base_ptr h) + k * bsize b + 8 \<le> unat (max_ptr h)"
  shows "\<exists>c j h1 F'. free_loop h (node b k) (of_nat b) = Inr (node c j, of_nat c, h1) \<and> c \<le> 27 \<and>
    heap_ok (pushed h1 c j) (S - blk b k) F' \<and> free_below (pushed h1 c j) F' \<and> max_ptr h1 = max_ptr h \<and>
    same_data h (pushed h1 c j) (S - blk b k)"
  using assms
proof (induction b arbitrary: h S F k)
  case 0
  have "k = 0" using 0 by simp
  then have "node 0 k = 0" by (simp add: node_def idx_def)
  then have "free_loop h (node 0 k) (of_nat 0) = Inr (node 0 k, of_nat 0, h)"
    by (subst free_loop.simps) simp
  moreover have flip: "flip_parent h 0 k = h" by (simp add: flip_parent_def)
  have "(0 :: nat) = limit h \<or> \<not> unused S 0 (sibling k)" using 0(3) by simp
  note free_give [OF 0(1-7) this, unfolded flip]
  ultimately show ?case using 0(4) by blast
next
  case (Suc b)
  let ?b = "Suc b" and ?s = "sibling k"
  note round = free_loop_round [OF Suc.prems(1,3,4,5,6)]
  show ?case
  proof (cases "?b = limit h \<or> \<not> unused S ?b ?s")
    case True
    have "free_loop h (node ?b k) (of_nat ?b) = Inr (node ?b k, of_nat ?b, flip_parent h ?b k)"
      unfolding round if_P [OF True] ..
    moreover have "max_ptr (flip_parent h ?b k) = max_ptr h" by simp
    ultimately show ?thesis using free_give [OF Suc.prems(1-7) True] Suc.prems(4) by blast
  next
    case False
    then have lim: "limit h \<le> b" and un: "unused S ?b ?s" using Suc.prems(3) by auto
    obtain F' where m: "heap_ok (merged h ?b k) (S \<union> blk ?b ?s) F'" "free_below (merged h ?b k) F'"
      "same_data h (merged h ?b k) S"
      using merged_ok [OF Suc.prems(1,2) lim Suc.prems(4-6) un] by blast
    have "blk b (k div 2) = blk ?b k \<union> blk ?b ?s" using parent_block [of ?b k] Suc.prems(4) by simp
    then have sub: "blk b (k div 2) \<subseteq> S \<union> blk ?b ?s" and diff: "S \<union> blk ?b ?s - blk b (k div 2) = S - blk ?b k"
      using Suc.prems(6) un by (auto simp: unused_def)
    have "bsize b = 2 * bsize ?b" using Suc.prems(4) bsize_half [of b] by simp
    then have "k div 2 * bsize b = 2 * (k div 2) * bsize ?b" by simp
    also have "\<dots> \<le> k * bsize ?b" by (intro mult_le_mono1) simp
    finally have cell: "unat (base_ptr (merged h ?b k)) + k div 2 * bsize b + 8 \<le> unat (max_ptr (merged h ?b k))"
      using Suc.prems(7) by simp
    have half: "k div 2 < 2 ^ (b - limit (merged h ?b k))"
      using parent_bound [of "?b - limit h" k] Suc.prems(5) lim by (simp add: Suc_diff_le)
    have "limit (merged h ?b k) \<le> b" "b \<le> 27" using lim Suc.prems(4) by simp_all
    from Suc.IH [OF m(1,2) this half sub cell] show ?thesis
      using same_data_trans [OF same_data_subset [OF m(3)]] unfolding round if_not_P [OF False] diff merged_fields
      by (meson Diff_subset)
  qed
qed

end
