(* ===== verification/Heap.thy ===== *)
theory Heap
  imports Buddy_Correct
begin

text \<open>
  \<^verbatim>\<open>malloc\<close> and \<^verbatim>\<open>free\<close> as their callers see them: a set of live blocks, pairwise disjoint, inside of the
  2 GiB above the start of the heap. \<open>heap_inv h live\<close> relates a heap to its live blocks; it holds for
  a heap before the first call, and \<^verbatim>\<open>malloc\<close>, \<^verbatim>\<open>free\<close> and writes into live blocks keep it.
\<close>

section \<open>The bucket of a request\<close>

text \<open>The level \<open>b\<close> whose blocks are the smallest ones that hold \<open>n\<close> bytes.\<close>

definition fits :: "nat \<Rightarrow> nat \<Rightarrow> bool" where
  "fits b n \<longleftrightarrow> b \<le> 27 \<and> n \<le> bsize b \<and> (b = 27 \<or> bsize (b + 1) < n)"

lemma fits_unique:
  assumes "fits b n" "fits c n"
  shows "b = c"
proof -
  have "\<not> b < c" if "fits b n" "fits c n" for b c
  proof
    assume "b < c"
    then have "bsize c \<le> bsize (b + 1)" unfolding bsize_def by (intro power_increasing) auto
    then show False using that \<open>b < c\<close> by (simp add: fits_def)
  qed
  from this [OF assms] this [OF assms(2,1)] show ?thesis by simp
qed

lemma bucket_loop_ok:
  assumes "b \<le> 27" "unat r \<le> 2 ^ 31" "b = 27 \<or> bsize (b + 1) < unat r"
  shows "\<exists>c. bucket_loop r (of_nat b) (of_nat (bsize b)) = Some (of_nat c) \<and> fits c (unat r)"
  using assms
proof (induction b)
  case 0
  have "bsize 0 = 2 ^ 31" by (simp add: bsize_def)
  then have "\<not> of_nat (bsize 0) < r" using 0(2) by (simp add: word_less_nat_alt unat_of_nat take_bit_nat_eq_self)
  then show ?case
    using 0 \<open>bsize 0 = 2 ^ 31\<close> by (subst bucket_loop.simps) (auto simp: fits_def intro!: exI [of _ 0])
next
  case (Suc b)
  have size: "bsize (Suc b) < 2 ^ 31"
    using Suc.prems(1) power_strict_increasing [of "31 - Suc b" 31 "2 :: nat"] by (simp add: bsize_def)
  then have less: "of_nat (bsize (Suc b)) < r \<longleftrightarrow> bsize (Suc b) < unat r"
    by (simp add: word_less_nat_alt unat_offset)
  show ?case
  proof (cases "bsize (Suc b) < unat r")
    case True
    have "of_nat (bsize (Suc b)) * 2 = (of_nat (bsize b) :: u32)"
      using bsize_half [of b] Suc.prems(1) by simp
    moreover obtain c where "bucket_loop r (of_nat b) (of_nat (bsize b)) = Some (of_nat c)" "fits c (unat r)"
      using Suc.IH Suc.prems True by auto
    ultimately show ?thesis using True less by (subst bucket_loop.simps) auto
  next
    case False
    then show ?thesis
      using less Suc.prems by (subst bucket_loop.simps) (auto simp: fits_def intro!: exI [of _ "Suc b"])
  qed
qed

lemma bucket_for_request_ok:
  assumes "unat r \<le> 2 ^ 31"
  shows "\<exists>b. bucket_for_request r = Some (of_nat b) \<and> fits b (unat r)"
  using bucket_loop_ok [of 27 r] assms
  by (simp add: bucket_for_request_def BUCKET_COUNT_def MAX_ALLOC_LOG2_def MIN_ALLOC_LOG2_def MIN_ALLOC_def
      bsize_def push_bit_eq_mult)

section \<open>The invariant of the callers\<close>

definition space :: "(nat \<times> nat) set \<Rightarrow> nat set" where
  "space live = (\<Union>(b, k) \<in> live. blk b k)"

text \<open>The static state before the first call of \<^verbatim>\<open>malloc\<close>.\<close>

definition fresh_heap :: "heap \<Rightarrow> bool" where
  "fresh_heap h \<longleftrightarrow> base_ptr h = 0 \<and> node_is_split h = (\<lambda>_. 0) \<and>
     unat (heap_end h) + 2 ^ 31 < 2 ^ 32 \<and> unat (buckets h) + 8 * 28 \<le> unat (heap_end h)"

text \<open>
  A live block \<open>(b, k)\<close> is the node \<open>k\<close> of level \<open>b\<close>; its first word is the size that was asked for,
  and the level is the one of that size.
\<close>

definition live_ok :: "heap \<Rightarrow> (nat \<times> nat) set \<Rightarrow> bool" where
  "live_ok h live \<longleftrightarrow>
     (\<forall>b k. (b, k) \<in> live \<longrightarrow> k < 2 ^ b \<and> fits b (unat (mem h (naddr h b k) + 8))) \<and>
     (\<forall>b k c j. (b, k) \<in> live \<and> (c, j) \<in> live \<and> (b, k) \<noteq> (c, j) \<longrightarrow> blk b k \<inter> blk c j = {})"

definition heap_inv :: "heap \<Rightarrow> (nat \<times> nat) set \<Rightarrow> bool" where
  "heap_inv h live \<longleftrightarrow>
     (if base_ptr h = 0 then fresh_heap h \<and> live = {}
      else live_ok h live \<and> (\<exists>F. heap_ok h (space live) F \<and> reserved h (space live) F))"

definition user_ptr :: "heap \<Rightarrow> nat \<Rightarrow> nat \<Rightarrow> u32" where
  "user_ptr h b k = naddr h b k + 8"

definition started :: "heap \<Rightarrow> heap" where
  "started h = h\<lparr>base_ptr := heap_end h, max_ptr := heap_end h, bucket_limit := 27\<rparr>"

lemma set_up_eq:
  assumes "fresh_heap h"
  shows "set_up h = (raise_max (started h) (heap_end h + 8))
    \<lparr>mem := list_push (list_init (mem h) (head (started h) 27)) (head (started h) 27) (naddr (started h) 27 0)\<rparr>"
proof -
  let ?h = "h\<lparr>base_ptr := heap_end h, max_ptr := heap_end h, bucket_limit := 27\<rparr>"
  have sbrk: "sbrk (heap_end h) 0 = (heap_end h, heap_end h)" by (simp add: sbrk_def)
  have count: "BUCKET_COUNT - 1 = 27" by (simp add: BUCKET_COUNT_def MAX_ALLOC_LOG2_def MIN_ALLOC_LOG2_def)
  have hd: "bucket_head (raise_max ?h (heap_end h + 8)) 27 = head ?h 27" by (simp add: head_def bucket_head_def)
  show ?thesis
    using assms
    by (simp add: set_up_def sbrk count Let_def fresh_heap_def update_max_ptr_eq sizeof_list_def hd naddr_def started_def)
qed

lemma set_up_ok:
  assumes "fresh_heap h"
  shows "heap_ok (set_up h) {} ((\<lambda>_. [])(27 := [0]))" "reserved (set_up h) {} ((\<lambda>_. [])(27 := [0]))"
    "base_ptr (set_up h) = heap_end h" "buckets (set_up h) = buckets h"
proof -
  let ?h = "started h"
  let ?m = "list_push (list_init (mem h) (head ?h 27)) (head ?h 27) (naddr ?h 27 0)"
  note eq = set_up_eq [OF assms]
  have lay: "layout ?h" using assms by (simp add: fresh_heap_def layout_def started_def)
  have "free_lists ?h (mem h) {} (\<lambda>_. [])" by (simp add: free_lists_def)
  from free_lists_init [OF lay this, of 27]
  have "free_lists ?h (list_init (mem h) (head ?h 27)) {27} ((\<lambda>_. [])(27 := []))" by simp
  from free_lists_push [OF lay this, of 27 0]
  have "free_lists ?h ?m {27} ((\<lambda>_. [])(27 := [0]))" by (simp add: fun_upd_def cong: if_cong)
  then have "free_lists (set_up h) (mem (set_up h)) {27..27} ((\<lambda>_. [])(27 := [0]))"
    using free_lists_cong [of "set_up h" ?h] by (simp add: eq)
  moreover have lim: "limit (set_up h) = 27" by (simp add: eq limit_def started_def)
  moreover have "flag (set_up h) i = False" for i
    using assms by (simp add: eq flag_def fresh_heap_def raise_max_def started_def)
  then have "flags_ok (set_up h) 27 {}" by (simp add: flags_ok_def split_flag_empty)
  moreover have "layout (set_up h)" using lay layout_cong [of "set_up h" ?h] by (simp add: eq)
  ultimately show "heap_ok (set_up h) {} ((\<lambda>_. [])(27 := [0]))"
    by (simp add: heap_ok_def maximal_empty)
  have "unat (heap_end h + 8) = unat (heap_end h) + 8"
    using assms unat_plus_no_wrap [of "heap_end h" 8] by (simp add: fresh_heap_def)
  then show "reserved (set_up h) {} ((\<lambda>_. [])(27 := [0]))"
    by (simp add: reserved_def lim) (simp add: eq unat_max started_def)
  show "base_ptr (set_up h) = heap_end h" "buckets (set_up h) = buckets h" by (simp_all add: eq started_def)
qed

text \<open>The words of the allocator: the list heads, and the memory from the start of the heap to the break.\<close>

definition own_word :: "heap \<Rightarrow> u32 \<Rightarrow> bool" where
  "own_word h a \<longleftrightarrow> a \<in> words (head h ` {..27}) \<or> unat (base_ptr h) \<le> unat a \<and> unat a < unat (heap_end h)"

lemma outside_own_word: "heap_end h = max_ptr h \<Longrightarrow> outside h a \<longleftrightarrow> \<not> own_word h a"
  by (auto simp: outside_def own_word_def)

lemma set_up_data:
  assumes "fresh_heap h"
  shows "unat (heap_end h) \<le> unat (heap_end (set_up h))"
    "outside (set_up h) a \<Longrightarrow> mem (set_up h) a = mem h a"
proof -
  note eq = set_up_eq [OF assms] and ok = set_up_ok [OF assms]
  show "unat (heap_end h) \<le> unat (heap_end (set_up h))" by (simp add: eq unat_max started_def)
  assume a: "outside (set_up h) a"
  have "layout (started h)" using assms by (simp add: fresh_heap_def layout_def started_def)
  moreover have "unat (heap_end h + 8) = unat (heap_end h) + 8"
    using assms unat_plus_no_wrap [of "heap_end h" 8] by (simp add: fresh_heap_def)
  then have "unat (base_ptr (started h)) + 0 * bsize 27 + 8 \<le> unat (max_ptr (set_up h))"
    by (simp add: eq unat_max started_def)
  ultimately have "a \<notin> words {naddr (started h) 27 0}"
    using a by (intro node_not_outside [of "started h" 27 0 "set_up h"]) (simp_all add: eq)
  moreover have "a \<notin> words {head (started h) 27}"
    using a by (rule head_not_outside) (simp_all add: eq)
  ultimately have "a \<notin> words {head (started h) 27, naddr (started h) 27 0}" by (auto simp: words_def)
  then show "mem (set_up h) a = mem h a" by (simp add: eq list_push_init_frame)
qed

lemma base_nonzero: "layout h \<Longrightarrow> base_ptr h \<noteq> 0"
  by (auto simp: layout_def)

lemma space_insert: "space (insert (b, k) live) = space live \<union> blk b k"
  by (auto simp: space_def)

lemma space_remove:
  assumes "live_ok h live" "(b, k) \<in> live"
  shows "space (live - {(b, k)}) = space live - blk b k"
proof -
  have "blk c j \<inter> blk b k = {}" if "(c, j) \<in> live - {(b, k)}" for c j
    using assms that by (fastforce simp: live_ok_def)
  then show ?thesis using assms(2) by (fastforce simp: space_def)
qed

lemma live_ok_subset: "live_ok h live \<Longrightarrow> live' \<subseteq> live \<Longrightarrow> live_ok h live'"
  unfolding live_ok_def by (meson subsetD)

text \<open>The heap the loop of \<^verbatim>\<open>malloc\<close> starts from.\<close>

lemma set_up_inv:
  assumes "heap_inv h live"
  shows "live_ok (set_up h) live" "\<exists>F. heap_ok (set_up h) (space live) F \<and> reserved (set_up h) (space live) F"
    "base_ptr h \<noteq> 0 \<Longrightarrow> set_up h = h"
proof -
  show eq: "set_up h = h" if "base_ptr h \<noteq> 0" using that by (simp add: set_up_def)
  show "live_ok (set_up h) live" "\<exists>F. heap_ok (set_up h) (space live) F \<and> reserved (set_up h) (space live) F"
    using assms set_up_ok [of h] eq
    by (cases "base_ptr h = 0"; auto simp: heap_inv_def live_ok_def space_def)+
qed

lemma live_ok_same:
  assumes "live_ok h live" "same_data h h' (space live)"
  shows "live_ok h' live"
proof -
  have "mem h' (naddr h' b k) = mem h (naddr h b k)" if "(b, k) \<in> live" for b k
  proof -
    have "k * bsize b \<in> space live" using that blk_start [of k b] by (auto simp: space_def)
    then have "mem h' (base_ptr h + of_nat (k * bsize b)) = mem h (base_ptr h + of_nat (k * bsize b))"
      using assms(2) unfolding same_data_def by blast
    then show ?thesis using assms(2) by (simp add: same_data_def naddr_def del: of_nat_mult)
  qed
  then show ?thesis using assms(1) by (simp add: live_ok_def)
qed

lemma heap_invI: "heap_ok h (space live) F \<Longrightarrow> reserved h (space live) F \<Longrightarrow> live_ok h live \<Longrightarrow> heap_inv h live"
  using base_nonzero [of h] heap_okD(1) [of h "space live" F] by (auto simp: heap_inv_def)

text \<open>The result of \<^verbatim>\<open>malloc\<close> by the size of the request, the sum taken in 32 bits.\<close>

text \<open>The call that sets the heap up finds no live block; so no live block changes.\<close>

lemma set_up_keeps_contents:
  assumes "heap_inv h live" "same_data (set_up h) h' (space live)"
  shows "\<forall>x \<in> space live. mem h' (base_ptr h + of_nat x) = mem h (base_ptr h + of_nat x)"
proof (cases "base_ptr h = 0")
  case True
  then have "space live = {}" using assms(1) by (simp add: heap_inv_def space_def)
  then show ?thesis by simp
next
  case False
  then show ?thesis using assms(2) set_up_inv(3) [OF assms(1)] by (simp add: same_data_def)
qed

lemma granted_result:
  assumes "granted h (space live) b request p h'" "fits b (unat (request + 8))" "live_ok h' live"
    and same: "same_data h h' (space live)"
  shows "\<exists>k < 2 ^ b. p = user_ptr h' b k \<and> blk b k \<inter> space live = {} \<and>
    mem h' (naddr h' b k) = request \<and> heap_inv h' (insert (b, k) live)"
proof -
  obtain k F' where k: "k < 2 ^ b" "p = naddr h b k + 8" "unused (space live) b k"
    "heap_ok h' (space live \<union> blk b k) F'" "reserved h' (space live \<union> blk b k) F'" "mem h' (naddr h b k) = request"
    using assms(1) by (auto simp: granted_def)
  have addr: "naddr h' = naddr h" using same by (intro naddr_cong) (simp add: same_data_def)
  have "blk b k \<inter> blk c j = {}" if "(c, j) \<in> live" for c j
    using k(3) that by (auto simp: unused_def space_def)
  then have "live_ok h' (insert (b, k) live)"
    using assms(3) k(1,6) assms(2) addr unfolding live_ok_def by (simp add: Int_commute) blast
  then have "heap_inv h' (insert (b, k) live)" using k(4,5) by (intro heap_invI) (simp_all add: space_insert)
  then show ?thesis using k addr by (auto simp: user_ptr_def unused_def)
qed

lemma malloc_result:
  assumes "heap_inv h live" "unat (request + 8) \<le> 2 ^ 31" "fits b (unat (request + 8))"
  shows "\<exists>p h'. malloc h request = Some (Inr (p, h')) \<and> base_ptr h' = base_ptr (set_up h) \<and>
    buckets h' = buckets (set_up h) \<and> confined (set_up h) h' \<and>
    (\<forall>x \<in> space live. mem h' (base_ptr h + of_nat x) = mem h (base_ptr h + of_nat x)) \<and>
    (if p = 0 then heap_inv h' live \<and> (\<forall>k < 2 ^ b. blk b k \<inter> space live \<noteq> {})
     else \<exists>k < 2 ^ b. p = user_ptr h' b k \<and> blk b k \<inter> space live = {} \<and>
       mem h' (naddr h' b k) = request \<and> heap_inv h' (insert (b, k) live))"
proof -
  let ?h = "set_up h"
  obtain F where F: "heap_ok ?h (space live) F" "reserved ?h (space live) F" using set_up_inv(2) [OF assms(1)] by blast
  obtain c where c: "bucket_for_request (request + 8) = Some (of_nat c)" "fits c (unat (request + 8))"
    using bucket_for_request_ok [OF assms(2)] by blast
  then have cb: "c = b" using fits_unique assms(3) by blast
  have b27: "b \<le> 27" using assms(3) by (simp add: fits_def)
  obtain p h' where p: "malloc_loop ?h (of_nat b) (of_nat b) request = Inr (p, h')"
    "if p = 0 then no_room ?h (space live) b h' else granted ?h (space live) b request p h'"
    using malloc_loop_ok [OF F le_refl b27, of request] by auto
  have "\<not> MAX_ALLOC < request + HEADER_SIZE"
    using assms(2) by (simp add: MAX_ALLOC_def MAX_ALLOC_LOG2_def HEADER_SIZE_def word_less_nat_alt push_bit_eq_mult)
  then have run: "malloc h request = Some (Inr (p, h'))"
    using c(1) cb p(1) by (simp add: malloc_def HEADER_SIZE_def Let_def)
  have same: "same_data ?h h' (space live)" using p(2) by (auto simp: no_room_def granted_def split: if_splits)
  have live': "live_ok h' live" using set_up_inv(1) [OF assms(1)] same by (rule live_ok_same)
  have "if p = 0 then heap_inv h' live \<and> (\<forall>k < 2 ^ b. blk b k \<inter> space live \<noteq> {})
     else \<exists>k < 2 ^ b. p = user_ptr h' b k \<and> blk b k \<inter> space live = {} \<and>
       mem h' (naddr h' b k) = request \<and> heap_inv h' (insert (b, k) live)"
  proof (cases "p = 0")
    case True
    then show ?thesis using p(2) live' heap_invI by (auto simp: no_room_def unused_def)
  next
    case False
    then show ?thesis using granted_result [OF _ assms(3) live' same] p(2) by simp
  qed
  then show ?thesis using run set_up_keeps_contents [OF assms(1) same] same by (auto simp: same_data_def)
qed

lemma small_request: "unat request + 8 \<le> 2 ^ 31 \<Longrightarrow> unat (request + 8 :: u32) = unat request + 8"
  using unat_plus_no_wrap [of request 8] by simp

lemma used_block_level:
  assumes "heap_ok h S F" "b \<le> 27" "blk b k \<subseteq> S"
  shows "limit h \<le> b" "k < 2 ^ (b - limit h)"
proof -
  note d = heap_okD [OF assms(1)]
  have in_root: "x < bsize (limit h)" if "x \<in> blk b k" for x using assms(3) d(3) that by auto
  obtain c where "bsize b = Suc c" using bsize_pos(1) [of b] by (cases "bsize b") auto
  then have "k * bsize b + bsize b - 1 \<in> blk b k" by (simp add: blk_def)
  then have le: "k * bsize b + bsize b \<le> bsize (limit h)" using in_root by fastforce
  show "limit h \<le> b"
  proof (rule ccontr)
    assume "\<not> limit h \<le> b"
    then have "bsize (limit h) < bsize b"
      unfolding bsize_def using d(2) by (intro power_strict_increasing) auto
    then show False using le by simp
  qed
  then have "bsize (limit h) = bsize b * 2 ^ (b - limit h)" using assms(2) by (intro bsize_split) auto
  then have "(k + 1) * bsize b \<le> 2 ^ (b - limit h) * bsize b" using le by (simp add: mult.commute)
  then show "k < 2 ^ (b - limit h)" by (simp only: mult_le_cancel2 bsize_pos) simp
qed

lemma bucket_of_fitting:
  assumes "fits b (unat n)"
  shows "bucket_for_request n = Some (of_nat b)"
proof -
  have "bsize b \<le> 2 ^ 31" unfolding bsize_def by (rule power_increasing) auto
  then have "unat n \<le> 2 ^ 31" using assms by (simp add: fits_def)
  then obtain c where c: "bucket_for_request n = Some (of_nat c)" "fits c (unat n)"
    using bucket_for_request_ok by blast
  then show ?thesis using fits_unique [OF c(2) assms] by simp
qed

lemma free_result:
  assumes "heap_inv h live" "(b, k) \<in> live"
  shows "\<exists>h'. free h (user_ptr h b k) = Some (Inr h') \<and> base_ptr h' = base_ptr h \<and>
    heap_inv h' (live - {(b, k)}) \<and> buckets h' = buckets h \<and> confined h h' \<and> max_ptr h' = max_ptr h \<and>
    (\<forall>x \<in> space (live - {(b, k)}). mem h' (base_ptr h + of_nat x) = mem h (base_ptr h + of_nat x))"
proof -
  let ?S = "space live"
  obtain F where ok: "heap_ok h ?S F" and res: "reserved h ?S F" and live: "live_ok h live"
    using assms by (auto simp: heap_inv_def split: if_splits)
  note d = heap_okD [OF ok]
  have k: "k < 2 ^ b" "fits b (unat (mem h (naddr h b k) + 8))" using live assms(2) by (auto simp: live_ok_def)
  then have b27: "b \<le> 27" by (simp add: fits_def)
  have sub: "blk b k \<subseteq> ?S" using assms(2) by (auto simp: space_def)
  have x8: "k * bsize b + 8 \<in> ?S" using sub bsize_ge_16 [OF b27] by (force simp: blk_def)
  then have cell: "unat (base_ptr h) + k * bsize b + 8 \<le> unat (max_ptr h)"
    using res by (fastforce simp: reserved_def)
  have root: "limit h \<le> b" "k < 2 ^ (b - limit h)" by (rule used_block_level [OF ok b27 sub])+
  have nonzero: "user_ptr h b k \<noteq> 0"
    unfolding user_ptr_def by (rule header_pointer_nonzero [OF d(1) b27 k(1)])
  have header: "user_ptr h b k - HEADER_SIZE = naddr h b k" by (simp add: user_ptr_def HEADER_SIZE_def)
  have bucket: "bucket_for_request (mem h (naddr h b k) + HEADER_SIZE) = Some (of_nat b)"
    unfolding HEADER_SIZE_def by (rule bucket_of_fitting [OF k(2)])
  have below: "free_below h F" using res by (simp add: reserved_iff)
  obtain c j h1 F' where loop: "free_loop h (node b k) (of_nat b) = Inr (node c j, of_nat c, h1)" "c \<le> 27"
    "heap_ok (pushed h1 c j) (?S - blk b k) F'" "free_below (pushed h1 c j) F'" "max_ptr h1 = max_ptr h"
    "same_data h (pushed h1 c j) (?S - blk b k)"
    using free_loop_ok [OF ok below root(1) b27 root(2) sub cell] by blast
  have "free h (user_ptr h b k) = Some (Inr (pushed h1 c j))"
    using nonzero loop(1) ptr_for_node_eq [OF loop(2), of h1 j]
    by (simp add: free_def header bucket node_for_ptr_eq [OF d(1) b27 k(1)] pushed_def head_def Let_def)
  moreover have space: "space (live - {(b, k)}) = ?S - blk b k" using live assms(2) by (rule space_remove)
  have same: "same_data h (pushed h1 c j) (space (live - {(b, k)}))" unfolding space by (rule loop(6))
  have "live_ok h (live - {(b, k)})" using live by (rule live_ok_subset) simp
  then have live': "live_ok (pushed h1 c j) (live - {(b, k)})" using same by (rule live_ok_same)
  have "\<forall>x \<in> ?S - blk b k. unat (base_ptr (pushed h1 c j)) + x < unat (max_ptr (pushed h1 c j))"
    using loop(5,6) res by (simp add: reserved_iff same_data_def)
  then have "reserved (pushed h1 c j) (space (live - {(b, k)})) F'"
    unfolding space reserved_iff using loop(4) by simp
  with loop(3) live' have "heap_inv (pushed h1 c j) (live - {(b, k)})"
    unfolding space [symmetric] by (intro heap_invI)
  ultimately show ?thesis using same loop(5) by (intro exI [of _ "pushed h1 c j"]) (simp add: same_data_def)
qed

lemma fits_exists:
  assumes "n \<le> 2 ^ 31"
  shows "\<exists>b. fits b n"
proof -
  have "unat (of_nat n :: u32) = n" using assms by (simp add: unat_of_nat take_bit_nat_eq_self)
  then show ?thesis using bucket_for_request_ok [of "of_nat n"] assms by auto
qed

lemma null_iff_full:
  assumes "p \<noteq> 0 \<Longrightarrow> \<exists>k < 2 ^ b. blk b k \<inter> S = {}" "p = 0 \<Longrightarrow> \<forall>k < 2 ^ b. blk b k \<inter> S \<noteq> {}"
  shows "p = 0 \<longleftrightarrow> (\<forall>k < 2 ^ b. blk b k \<inter> S \<noteq> {})"
  using assms by blast

section \<open>Live blocks in memory\<close>

lemma live_facts:
  assumes "heap_inv h live" "(b, k) \<in> live"
  shows "layout h" "base_ptr h \<noteq> 0" "b \<le> 27" "k < 2 ^ b" "blk b k \<subseteq> space live"
    "\<And>x. x \<in> blk b k \<Longrightarrow> unat (base_ptr h) + x < unat (heap_end h)"
proof -
  obtain F where ok: "heap_ok h (space live) F" and res: "reserved h (space live) F" and live: "live_ok h live"
    and base: "base_ptr h \<noteq> 0"
    using assms by (auto simp: heap_inv_def split: if_splits)
  then show "layout h" "base_ptr h \<noteq> 0" using heap_okD(1) by auto
  show "b \<le> 27" "k < 2 ^ b" using live assms(2) by (auto simp: live_ok_def fits_def)
  show sub: "blk b k \<subseteq> space live" using assms(2) by (auto simp: space_def)
  show "unat (base_ptr h) + x < unat (heap_end h)" if "x \<in> blk b k" for x
    using sub res that by (auto simp: reserved_def)
qed

lemma user_ptr_unat:
  assumes "heap_inv h live" "(b, k) \<in> live"
  shows "unat (user_ptr h b k) = unat (base_ptr h) + k * bsize b + 8"
proof -
  note live = live_facts [OF assms]
  have addr: "unat (naddr h b k) + 16 \<le> unat (base_ptr h) + 2 ^ 31"
    using unat_naddr [OF live(1,3,4)] offset_bound [OF live(3,4)] bsize_ge_16 [OF live(3)] by simp
  then have "unat (user_ptr h b k) = unat (naddr h b k) + 8"
    unfolding user_ptr_def using live(1) unat_plus_no_wrap [of "naddr h b k" 8] by (simp add: layout_def)
  then show ?thesis using unat_naddr [OF live(1,3,4)] by simp
qed

lemma user_ptr_inj:
  assumes "heap_inv h live"
  shows "inj_on (\<lambda>(b, k). user_ptr h b k) live"
proof (rule inj_onI, clarify)
  fix b k c j assume in_live: "(b, k) \<in> live" "(c, j) \<in> live" and eq: "user_ptr h b k = user_ptr h c j"
  have "k * bsize b = j * bsize c"
    using user_ptr_unat [OF assms in_live(1)] user_ptr_unat [OF assms in_live(2)] eq by simp
  then have "k * bsize b \<in> blk b k \<inter> blk c j" using blk_start [of k b] blk_start [of j c] by simp
  moreover have "live_ok h live" using assms in_live by (auto simp: heap_inv_def split: if_splits)
  ultimately have "(b, k) = (c, j)" using in_live unfolding live_ok_def by blast
  then show "b = c \<and> k = j" by simp
qed

lemma header_word:
  assumes "(b, k) \<in> live" "base_ptr h' = base_ptr h"
    and "\<forall>x \<in> space live. mem h' (base_ptr h + of_nat x) = mem h (base_ptr h + of_nat x)"
  shows "mem h' (naddr h' b k) = mem h (naddr h b k)"
proof -
  have "k * bsize b \<in> space live" using assms(1) blk_start [of k b] by (auto simp: space_def)
  then show ?thesis using assms(2,3) by (simp add: naddr_def del: of_nat_mult)
qed

lemma user_ptr_cong: "base_ptr h' = base_ptr h \<Longrightarrow> user_ptr h' = user_ptr h"
  by (simp add: user_ptr_def naddr_def fun_eq_iff)

text \<open>The size that was asked for, which \<^verbatim>\<open>malloc\<close> leaves in the header.\<close>

definition size_at :: "heap \<Rightarrow> u32 \<Rightarrow> nat" where
  "size_at h p = unat (mem h (p - HEADER_SIZE))"

lemma size_at_user_ptr: "size_at h (user_ptr h b k) = unat (mem h (naddr h b k))"
  by (simp add: size_at_def user_ptr_def HEADER_SIZE_def)

end
