(* ===== verification/Heap_Runs.thy ===== *)
theory Heap_Runs
  imports Heap
begin

text \<open>
  The properties of \<^verbatim>\<open>malloc\<close> and \<^verbatim>\<open>free\<close>: what one call does to the live blocks, and the runs of a client
  (\<open>heap_run\<close>), in which every call returns and the blocks never overlap.
\<close>

section \<open>Runs\<close>

text \<open>
  A client that obeys the rules, as a step relation: from a heap before its first call, it calls
  \<^verbatim>\<open>malloc\<close> with any size up to 2 GiB, frees the pointers it holds, and writes to words of the bytes it
  asked for. \<open>ptrs\<close> are the pointers it holds; the size of a block is the one in its
  header.
\<close>

inductive heap_run :: "heap \<Rightarrow> u32 set \<Rightarrow> bool" where
  start: "fresh_heap h \<Longrightarrow> heap_run h {}"
| malloc: "heap_run h ptrs \<Longrightarrow> unat request + 8 \<le> 2 ^ 31 \<Longrightarrow> malloc h request = Some (Inr (p, h')) \<Longrightarrow>
    heap_run h' (if p = 0 then ptrs else insert p ptrs)"
| free: "heap_run h ptrs \<Longrightarrow> p \<in> ptrs \<Longrightarrow> free h p = Some (Inr h') \<Longrightarrow> heap_run h' (ptrs - {p})"
| write_word: "heap_run h ptrs \<Longrightarrow> p \<in> ptrs \<Longrightarrow> n + 4 \<le> size_at h p \<Longrightarrow>
    heap_run (h\<lparr>mem := (mem h)(p + of_nat n := v)\<rparr>) ptrs"

text \<open>What a run keeps: the pointers are those of live blocks, whose headers hold their sizes.\<close>

definition run_inv :: "heap \<Rightarrow> u32 set \<Rightarrow> (nat \<times> nat) set \<Rightarrow> bool" where
  "run_inv h ptrs live \<longleftrightarrow> heap_inv h live \<and> ptrs = (\<lambda>(b, k). user_ptr h b k) ` live \<and>
     (\<forall>(b, k) \<in> live. unat (mem h (naddr h b k)) + 8 \<le> bsize b)"

lemma run_invI:
  assumes "heap_inv h live" "ptrs = (\<lambda>(b, k). user_ptr h b k) ` live"
    and "\<And>b k. (b, k) \<in> live \<Longrightarrow> unat (mem h (naddr h b k)) + 8 \<le> bsize b"
  shows "run_inv h ptrs live"
  using assms by (auto simp: run_inv_def)

lemma run_invD:
  assumes "run_inv h ptrs live"
  shows "heap_inv h live" "ptrs = (\<lambda>(b, k). user_ptr h b k) ` live"
    "\<And>b k. (b, k) \<in> live \<Longrightarrow> unat (mem h (naddr h b k)) + 8 \<le> bsize b"
  using assms by (auto simp: run_inv_def)

text \<open>The blocks of the pointers \<open>ptrs\<close> keep their sizes and their contents.\<close>

definition keeps :: "heap \<Rightarrow> heap \<Rightarrow> u32 set \<Rightarrow> bool" where
  "keeps h h' ptrs \<longleftrightarrow> (\<forall>q \<in> ptrs. size_at h' q = size_at h q \<and>
     (\<forall>i < size_at h q. mem h' (q + of_nat i) = mem h (q + of_nat i)))"

lemma keepsI:
  assumes "run_inv h ptrs live" "live' \<subseteq> live" "ptrs' \<subseteq> (\<lambda>(b, k). user_ptr h b k) ` live'"
    and base: "\<And>c j. (c, j) \<in> live' \<Longrightarrow> base_ptr h' = base_ptr h"
    and data: "\<forall>x \<in> space live'. mem h' (base_ptr h + of_nat x) = mem h (base_ptr h + of_nat x)"
  shows "keeps h h' ptrs'"
  unfolding keeps_def
proof
  fix q assume "q \<in> ptrs'"
  then obtain b k where bk: "(b, k) \<in> live'" "q = user_ptr h b k" using assms(3) by auto
  have q': "q = user_ptr h' b k" using bk user_ptr_cong [OF base [OF bk(1)]] by simp
  have size: "size_at h' q = size_at h q"
    using header_word [OF bk(1) base [OF bk(1)] data] size_at_user_ptr [of h' b k, folded q']
      size_at_user_ptr [of h b k, folded bk(2)] by simp
  have "mem h' (q + of_nat i) = mem h (q + of_nat i)" if i: "i < size_at h q" for i
  proof -
    have "size_at h q + 8 \<le> bsize b"
      using run_invD(3) [OF assms(1), of b k] bk assms(2) size_at_user_ptr [of h b k] by auto
    then have "k * bsize b + 8 + i \<in> blk b k" using i by (auto simp: blk_def)
    then have "k * bsize b + 8 + i \<in> space live'" using bk(1) by (auto simp: space_def)
    moreover have "q + of_nat i = base_ptr h + of_nat (k * bsize b + 8 + i)"
      using bk(2) by (simp add: user_ptr_def naddr_def)
    ultimately show ?thesis using data by metis
  qed
  with size show "size_at h' q = size_at h q \<and> (\<forall>i < size_at h q. mem h' (q + of_nat i) = mem h (q + of_nat i))"
    by blast
qed

lemma run_malloc:
  assumes "run_inv h ptrs live" "unat request + 8 \<le> 2 ^ 31"
  shows "\<exists>p h' live'. malloc h request = Some (Inr (p, h')) \<and>
    run_inv h' (if p = 0 then ptrs else insert p ptrs) live' \<and> (live = {} \<longrightarrow> p \<noteq> 0) \<and>
    (p \<noteq> 0 \<longrightarrow> p \<notin> ptrs \<and> size_at h' p = unat request) \<and> keeps h h' ptrs"
proof -
  note inv = run_invD(1) [OF assms(1)] and ptrs = run_invD(2) [OF assms(1)] and sizes = run_invD(3) [OF assms(1)]
  obtain b where b: "fits b (unat (request + 8))"
    using fits_exists [OF assms(2)] small_request [OF assms(2)] by auto
  obtain p h' where r: "malloc h request = Some (Inr (p, h'))" "base_ptr h' = base_ptr (set_up h)"
    "\<forall>x \<in> space live. mem h' (base_ptr h + of_nat x) = mem h (base_ptr h + of_nat x)"
    "if p = 0 then heap_inv h' live \<and> (\<forall>k < 2 ^ b. blk b k \<inter> space live \<noteq> {})
     else \<exists>k < 2 ^ b. p = user_ptr h' b k \<and> blk b k \<inter> space live = {} \<and>
       mem h' (naddr h' b k) = request \<and> heap_inv h' (insert (b, k) live)"
    using malloc_result [OF inv _ b] assms(2) small_request [OF assms(2)] by auto
  have base: "base_ptr h' = base_ptr h" if "(c, j) \<in> live" for c j
    using r(2) set_up_inv(3) [OF inv] live_facts(2) [OF inv that] by simp
  have ptrs': "ptrs = (\<lambda>(b, k). user_ptr h' b k) ` live"
    unfolding ptrs using base user_ptr_cong [of h' h] by (intro image_cong) auto
  have sizes': "unat (mem h' (naddr h' c j)) + 8 \<le> bsize c" if "(c, j) \<in> live" for c j
    using header_word [OF that base [OF that] r(3)] sizes that by auto
  have kept: "keeps h h' ptrs" by (rule keepsI [OF assms(1) subset_refl _ base r(3)]) (simp add: ptrs)
  show ?thesis
  proof (cases "p = 0")
    case True
    then have "run_inv h' ptrs live" using r(4) ptrs' sizes' by (intro run_invI) auto
    moreover have "live \<noteq> {}"
    proof
      assume "live = {}"
      moreover have "blk b 0 \<inter> space live \<noteq> {}" using r(4) True by simp
      ultimately show False by (simp add: space_def)
    qed
    ultimately show ?thesis using True r(1) kept by auto
  next
    case False
    then obtain k where k: "p = user_ptr h' b k" "mem h' (naddr h' b k) = request" "heap_inv h' (insert (b, k) live)"
      "blk b k \<inter> space live = {}"
      using r(4) by auto
    have "unat request + 8 \<le> bsize b" using b small_request [OF assms(2)] by (simp add: fits_def)
    then have "run_inv h' (insert p ptrs) (insert (b, k) live)"
      using k ptrs' sizes' by (intro run_invI) auto
    moreover have "p \<notin> ptrs"
    proof
      assume "p \<in> ptrs"
      then obtain c j where cj: "(c, j) \<in> live" "p = user_ptr h' c j" using ptrs' by auto
      then have "(b, k) \<in> live"
        using inj_onD [OF user_ptr_inj [OF k(3)], of "(b, k)" "(c, j)"] k(1) by auto
      then show False using k(4) blk_start [of k b] by (auto simp: space_def)
    qed
    ultimately show ?thesis using False r(1) kept k(1,2) size_at_user_ptr [of h' b k] by auto
  qed
qed

lemma run_free:
  assumes "run_inv h ptrs live" "p \<in> ptrs"
  shows "\<exists>h' live'. free h p = Some (Inr h') \<and> run_inv h' (ptrs - {p}) live' \<and> keeps h h' (ptrs - {p})"
proof -
  note inv = run_invD(1) [OF assms(1)] and ptrs = run_invD(2) [OF assms(1)] and sizes = run_invD(3) [OF assms(1)]
  obtain b k where bk: "(b, k) \<in> live" "p = user_ptr h b k" using assms(2) ptrs by auto
  obtain h' where r: "free h p = Some (Inr h')" "base_ptr h' = base_ptr h" "heap_inv h' (live - {(b, k)})"
    "\<forall>x \<in> space (live - {(b, k)}). mem h' (base_ptr h + of_nat x) = mem h (base_ptr h + of_nat x)"
    using free_result [OF inv bk(1)] bk(2) by auto
  have rest: "ptrs - {p} = (\<lambda>(b, k). user_ptr h b k) ` (live - {(b, k)})"
    using inj_on_image_set_diff [OF user_ptr_inj [OF inv], of live "{(b, k)}"] bk unfolding ptrs by simp
  then have "ptrs - {p} = (\<lambda>(b, k). user_ptr h' b k) ` (live - {(b, k)})"
    using user_ptr_cong [OF r(2)] by simp
  moreover have "unat (mem h' (naddr h' c j)) + 8 \<le> bsize c" if "(c, j) \<in> live - {(b, k)}" for c j
    using header_word [OF that r(2,4)] sizes that by auto
  ultimately have "run_inv h' (ptrs - {p}) (live - {(b, k)})"
    using r(3) by (intro run_invI)
  moreover have "keeps h h' (ptrs - {p})"
    by (rule keepsI [OF assms(1) _ _ r(2,4)]) (use rest in auto)
  ultimately show ?thesis using r(1) by blast
qed

lemma inv_write:
  assumes "heap_inv h live" "(b, k) \<in> live" "n + 12 \<le> bsize b"
    and h': "h' = h\<lparr>mem := (mem h)(user_ptr h b k + of_nat n := v)\<rparr>"
  shows "heap_inv h' live" "(c, j) \<in> live \<Longrightarrow> mem h' (naddr h' c j) = mem h (naddr h c j)"
proof -
  let ?h = "h\<lparr>mem := (mem h)(user_ptr h b k + of_nat n := v)\<rparr>"
  obtain F where ok: "heap_ok h (space live) F" and res: "reserved h (space live) F" and live: "live_ok h live"
    using assms by (auto simp: heap_inv_def split: if_splits)
  note bk = live_facts [OF assms(1,2)]
  let ?x = "k * bsize b + 8 + n"
  have x: "?x \<in> blk b k" using assms(3) by (simp add: blk_def)
  have addr: "user_ptr h b k + of_nat n = base_ptr h + of_nat ?x"
    by (simp add: user_ptr_def naddr_def)
  have bound: "?x < 2 ^ 31" using assms(3) offset_bound [OF bk(3,4)] by simp
  have header: "mem ?h (naddr ?h c j) = mem h (naddr h c j)" if c: "(c, j) \<in> live" for c j
  proof -
    note cj = live_facts [OF assms(1) c]
    have "j * bsize c \<noteq> ?x"
    proof
      assume eq: "j * bsize c = ?x"
      then have "?x \<in> blk b k \<inter> blk c j" using x blk_start [of j c] by simp
      then have "(b, k) = (c, j)" using live assms(2) c unfolding live_ok_def by blast
      then show False using eq by simp
    qed
    then have "unat (naddr h c j) \<noteq> unat (base_ptr h + of_nat ?x)"
      using unat_naddr [OF cj(1,3,4)] unat_base_plus [OF bk(1) bound] by simp
    then have "naddr h c j \<noteq> user_ptr h b k + of_nat n" unfolding addr by auto
    moreover have "naddr ?h = naddr h" by (rule naddr_cong) simp
    ultimately show ?thesis by simp
  qed
  then show "(c, j) \<in> live \<Longrightarrow> mem h' (naddr h' c j) = mem h (naddr h c j)" unfolding h' .
  have "heap_ok ?h (space live) F" unfolding addr using ok bk(5) x by (intro heap_ok_write) auto
  moreover have "reserved ?h (space live) F" using res by (simp add: reserved_def limit_def)
  moreover have "live_ok ?h live" using live header unfolding live_ok_def by auto
  ultimately show "heap_inv h' live" unfolding h' by (rule heap_invI)
qed

lemma run_write:
  assumes "run_inv h ptrs live" "p \<in> ptrs" "n + 4 \<le> size_at h p"
  shows "run_inv (h\<lparr>mem := (mem h)(p + of_nat n := v)\<rparr>) ptrs live"
proof -
  let ?h = "h\<lparr>mem := (mem h)(p + of_nat n := v)\<rparr>"
  note inv = run_invD(1) [OF assms(1)] and ptrs = run_invD(2) [OF assms(1)] and sizes = run_invD(3) [OF assms(1)]
  obtain b k where bk: "(b, k) \<in> live" "p = user_ptr h b k" using assms(2) ptrs by auto
  then have "n + 12 \<le> bsize b" using sizes [OF bk(1)] assms(3) by (simp add: size_at_user_ptr)
  note w = inv_write [OF inv bk(1) this, of ?h v, unfolded bk(2) [symmetric], OF refl]
  have "ptrs = (\<lambda>(b, k). user_ptr ?h b k) ` live" using ptrs user_ptr_cong [of ?h h] by simp
  moreover have "unat (mem ?h (naddr ?h c j)) + 8 \<le> bsize c" if "(c, j) \<in> live" for c j
    unfolding w(2) [OF that] by (rule sizes [OF that])
  ultimately show ?thesis using w(1) by (intro run_invI)
qed

lemma run_inv_start: "fresh_heap h \<Longrightarrow> run_inv h {} {}"
  by (rule run_invI) (simp_all add: heap_inv_def, simp add: fresh_heap_def)

lemma run_inv_reachable:
  assumes "heap_run h ptrs"
  shows "\<exists>live. run_inv h ptrs live"
  using assms
proof induction
  case (start h)
  then show ?case using run_inv_start by blast
next
  case (malloc h ptrs request p h')
  then obtain live where "run_inv h ptrs live" by blast
  from run_malloc [OF this malloc.hyps(2)] malloc.hyps(3) show ?case by auto
next
  case (free h ptrs p h')
  then obtain live where "run_inv h ptrs live" by blast
  from run_free [OF this free.hyps(2)] free.hyps(3) show ?case by auto
next
  case (write_word h ptrs p n v)
  then show ?case using run_write by blast
qed

lemma run_ptr: "run_inv h ptrs live \<Longrightarrow> p \<in> ptrs \<Longrightarrow> \<exists>b k. (b, k) \<in> live \<and> p = user_ptr h b k"
  by (auto simp: run_inv_def)

text \<open>The bytes of a block, its header included, lie in the block of its node.\<close>

lemma block_bytes:
  assumes "run_inv h ptrs live" "(b, k) \<in> live" "p = user_ptr h b k" "unat p \<le> x + 8" "x < unat p + size_at h p"
  shows "unat (base_ptr h) \<le> x" "x - unat (base_ptr h) \<in> blk b k"
proof -
  note p = user_ptr_unat [OF run_invD(1) [OF assms(1)] assms(2), folded assms(3)]
  have "size_at h p + 8 \<le> bsize b"
    using run_invD(3) [OF assms(1,2)] assms(3) by (simp add: size_at_user_ptr)
  then show "unat (base_ptr h) \<le> x" "x - unat (base_ptr h) \<in> blk b k"
    using assms(4,5) p by (auto simp: blk_def)
qed

lemma blocks_separate:
  assumes run: "run_inv h ptrs live" and "p \<in> ptrs" "q \<in> ptrs" "p \<noteq> q"
  shows "{unat p - 8..<unat p + size_at h p} \<inter> {unat q - 8..<unat q + size_at h q} = {}"
proof -
  note inv = run_invD(1) [OF run]
  obtain b k where bk: "(b, k) \<in> live" "p = user_ptr h b k" using run_ptr [OF run assms(2)] by blast
  obtain c j where cj: "(c, j) \<in> live" "q = user_ptr h c j" using run_ptr [OF run assms(3)] by blast
  have "(b, k) \<noteq> (c, j)" using assms(4) bk(2) cj(2) by auto
  moreover have "live_ok h live" using inv bk(1) by (auto simp: heap_inv_def split: if_splits)
  ultimately have apart: "blk b k \<inter> blk c j = {}" using bk(1) cj(1) unfolding live_ok_def by blast
  have False if x: "x \<in> {unat p - 8..<unat p + size_at h p} \<inter> {unat q - 8..<unat q + size_at h q}" for x
  proof -
    have x: "unat p \<le> x + 8" "x < unat p + size_at h p" "unat q \<le> x + 8" "x < unat q + size_at h q"
      using x by auto
    show False using block_bytes(2) [OF run bk x(1,2)] block_bytes(2) [OF run cj x(3,4)] apart by blast
  qed
  then show ?thesis by blast
qed

lemma write_sizes:
  assumes "run_inv h ptrs live" "p \<in> ptrs" "n + 4 \<le> size_at h p" "q \<in> ptrs"
  shows "size_at (h\<lparr>mem := (mem h)(p + of_nat n := v)\<rparr>) q = size_at h q"
proof -
  let ?h = "h\<lparr>mem := (mem h)(p + of_nat n := v)\<rparr>"
  obtain b k where bk: "(b, k) \<in> live" "p = user_ptr h b k" using run_ptr [OF assms(1,2)] by blast
  then have n: "n + 12 \<le> bsize b"
    using run_invD(3) [OF assms(1) bk(1)] assms(3) by (simp add: size_at_user_ptr)
  obtain c j where cj: "(c, j) \<in> live" "q = user_ptr h c j" using run_ptr [OF assms(1,4)] by blast
  have "mem ?h (naddr ?h c j) = mem h (naddr h c j)"
    by (rule inv_write(2) [OF run_invD(1) [OF assms(1)] bk(1) n _ cj(1)]) (simp add: bk(2))
  moreover have "user_ptr ?h = user_ptr h" by (rule user_ptr_cong) simp
  ultimately show ?thesis using size_at_user_ptr [of ?h c j] size_at_user_ptr [of h c j] cj(2) by simp
qed

text \<open>A heap for the examples, with its list heads at 1 MiB.\<close>

definition example_heap :: heap where
  "example_heap = \<lparr>mem = (\<lambda>_. 0), node_is_split = (\<lambda>_. 0), buckets = 0x100000, bucket_limit = 0,
     base_ptr = 0, max_ptr = 0, heap_end = heap_start\<rparr>"

lemma example_fresh: "fresh_heap example_heap"
  by (simp add: fresh_heap_def example_heap_def heap_start_def)

lemma example_inv: "heap_inv example_heap {}"
  using run_invD(1) [OF run_inv_start [OF example_fresh]] .

lemma example_malloc:
  assumes "unat request + 8 \<le> 2 ^ 31"
  shows "\<exists>p h live. malloc example_heap request = Some (Inr (p, h)) \<and> p \<noteq> 0 \<and> run_inv h {p} live"
  using run_malloc [OF run_inv_start [OF example_fresh] assms] by auto

section \<open>The calls\<close>

text \<open>
  C1. \<^verbatim>\<open>malloc\<close> returns for every request up to 2 GiB less the header. It answers NULL exactly if each of the
  \<open>2 ^ b\<close> blocks of the smallest size that holds the request and its header meets a live block, and leaves the live
  blocks as they are. Otherwise it answers the address behind the header of a block of that size, disjoint
  from all live blocks, which is live afterwards and whose header holds the request. The contents of the
  live blocks do not change.
\<close>

theorem malloc_grants_smallest_block:
  assumes "heap_inv h live" "unat request + 8 \<le> 2 ^ 31"
  shows "\<exists>b p h'. fits b (unat request + 8) \<and> malloc h request = Some (Inr (p, h')) \<and>
    (\<forall>x \<in> space live. mem h' (base_ptr h + of_nat x) = mem h (base_ptr h + of_nat x)) \<and>
    (p = 0 \<longleftrightarrow> (\<forall>k < 2 ^ b. blk b k \<inter> space live \<noteq> {})) \<and>
    (if p = 0 then heap_inv h' live
     else \<exists>k < 2 ^ b. p = user_ptr h' b k \<and> blk b k \<inter> space live = {} \<and> size_at h' p = unat request \<and>
       heap_inv h' (insert (b, k) live))"
proof -
  obtain b where b: "fits b (unat request + 8)" using fits_exists [OF assms(2)] by blast
  obtain p h' where r: "malloc h request = Some (Inr (p, h'))"
    "\<forall>x \<in> space live. mem h' (base_ptr h + of_nat x) = mem h (base_ptr h + of_nat x)"
    "if p = 0 then heap_inv h' live \<and> (\<forall>k < 2 ^ b. blk b k \<inter> space live \<noteq> {})
     else \<exists>k < 2 ^ b. p = user_ptr h' b k \<and> blk b k \<inter> space live = {} \<and>
       mem h' (naddr h' b k) = request \<and> heap_inv h' (insert (b, k) live)"
    using malloc_result [OF assms(1), of request b] assms(2) b small_request [OF assms(2)] by auto
  have "p = 0 \<longleftrightarrow> (\<forall>k < 2 ^ b. blk b k \<inter> space live \<noteq> {})"
    by (rule null_iff_full) (use r(3) in auto)
  moreover have "if p = 0 then heap_inv h' live
     else \<exists>k < 2 ^ b. p = user_ptr h' b k \<and> blk b k \<inter> space live = {} \<and> size_at h' p = unat request \<and>
       heap_inv h' (insert (b, k) live)"
    using r(3) by (cases "p = 0") (auto simp: size_at_user_ptr)
  ultimately show ?thesis using b r(1,2) by blast
qed

theorem malloc_grants_smallest_block_witness:
  "\<exists>b p h. fits b (unat (100 :: u32) + 8) \<and> malloc example_heap 100 = Some (Inr (p, h)) \<and> p \<noteq> 0"
proof -
  have "unat (100 :: u32) + 8 \<le> 2 ^ 31" by simp
  from malloc_grants_smallest_block [OF example_inv this] obtain b p h
    where "fits b (unat (100 :: u32) + 8)" "malloc example_heap 100 = Some (Inr (p, h))"
      "p = 0 \<longleftrightarrow> (\<forall>k < 2 ^ b. blk b k \<inter> space {} \<noteq> {})" by blast
  moreover have "\<not> (\<forall>k < 2 ^ b. blk b k \<inter> space {} \<noteq> {})" by (auto simp: space_def intro!: exI [of _ 0])
  ultimately show ?thesis by blast
qed

text \<open>
  C2. \<^verbatim>\<open>free\<close> of the pointer of a live block returns; afterwards the other blocks are live and that one is
  not, and their contents have not changed.
\<close>

theorem free_releases_block:
  assumes "heap_inv h live" "(b, k) \<in> live"
  shows "\<exists>h'. free h (user_ptr h b k) = Some (Inr h') \<and> heap_inv h' (live - {(b, k)}) \<and>
    (\<forall>x \<in> space (live - {(b, k)}). mem h' (base_ptr h + of_nat x) = mem h (base_ptr h + of_nat x)) \<and>
    (\<forall>(c, j) \<in> live - {(b, k)}. user_ptr h' c j = user_ptr h c j)"
proof -
  obtain h' where r: "free h (user_ptr h b k) = Some (Inr h')" "base_ptr h' = base_ptr h"
    "heap_inv h' (live - {(b, k)})"
    "\<forall>x \<in> space (live - {(b, k)}). mem h' (base_ptr h + of_nat x) = mem h (base_ptr h + of_nat x)"
    using free_result [OF assms] by blast
  have "user_ptr h' = user_ptr h" using r(2) by (rule user_ptr_cong)
  then show ?thesis using r by (intro exI [of _ h']) simp
qed

theorem free_releases_block_witness:
  "\<exists>p h h'. malloc example_heap 100 = Some (Inr (p, h)) \<and> p \<noteq> 0 \<and> free h p = Some (Inr h') \<and> heap_inv h' {}"
proof -
  have "unat (100 :: u32) + 8 \<le> 2 ^ 31" by simp
  from example_malloc [OF this] obtain p h live where p: "malloc example_heap 100 = Some (Inr (p, h))" "p \<noteq> 0"
    and run: "run_inv h {p} live" by blast
  note inv = run_invD(1) [OF run]
  obtain b k where bk: "(b, k) \<in> live" "p = user_ptr h b k" using run_ptr [OF run] by blast
  have "x = (b, k)" if x: "x \<in> live" for x
  proof -
    have "(\<lambda>(b, k). user_ptr h b k) x \<in> {p}" using run_invD(2) [OF run] x by blast
    then have "(\<lambda>(b, k). user_ptr h b k) x = (\<lambda>(b, k). user_ptr h b k) (b, k)" using bk(2) by simp
    then show ?thesis using inj_onD [OF user_ptr_inj [OF inv] _ x bk(1)] by blast
  qed
  then have "live - {(b, k)} = {}" by blast
  then show ?thesis using p free_releases_block [OF inv bk(1)] bk(2) by metis
qed

section \<open>The runs of a client\<close>

text \<open>
  C3. In every run of a client, each pointer it holds points to as many bytes as it asked for, between the
  start of the heap and the break, 8-byte aligned in the heap, and no two blocks, headers included, overlap.
\<close>

theorem heap_run_blocks_separate:
  assumes "heap_run h ptrs" "p \<in> ptrs"
  shows "unat (base_ptr h) + 8 \<le> unat p \<and> unat p + size_at h p \<le> unat (heap_end h) \<and>
    8 dvd unat p - unat (base_ptr h) \<and>
    (\<forall>q \<in> ptrs - {p}. {unat p - 8..<unat p + size_at h p} \<inter> {unat q - 8..<unat q + size_at h q} = {})"
proof -
  obtain live where run: "run_inv h ptrs live" using run_inv_reachable [OF assms(1)] by blast
  note inv = run_invD(1) [OF run]
  obtain b k where bk: "(b, k) \<in> live" "p = user_ptr h b k" using run_ptr [OF run assms(2)] by blast
  note live = live_facts [OF inv bk(1)] and p = user_ptr_unat [OF inv bk(1), folded bk(2)]
  have "size_at h p + unat p - 1 - unat (base_ptr h) \<in> blk b k"
    using block_bytes(2) [OF run bk, of "size_at h p + unat p - 1"] p by simp
  from live(6) [OF this] have break: "unat p + size_at h p \<le> unat (heap_end h)" using p by simp
  have "bsize b = 8 * (2 * 2 ^ (27 - b))" using bsize_16 [OF live(3)] by simp
  then have "8 dvd k * bsize b + 8" by simp
  then have aligned: "8 dvd unat p - unat (base_ptr h)" using p by (simp add: add.assoc)
  have "{unat p - 8..<unat p + size_at h p} \<inter> {unat q - 8..<unat q + size_at h q} = {}" if "q \<in> ptrs - {p}" for q
    using blocks_separate [OF run assms(2)] that by blast
  then show ?thesis using p break aligned by simp
qed

theorem heap_run_blocks_separate_witness:
  "\<exists>p h. malloc example_heap 100 = Some (Inr (p, h)) \<and> heap_run h {p} \<and> unat (base_ptr h) + 8 \<le> unat p"
proof -
  have small: "unat (100 :: u32) + 8 \<le> 2 ^ 31" by simp
  from example_malloc [OF this] obtain p h where p: "malloc example_heap 100 = Some (Inr (p, h))" "p \<noteq> 0" by blast
  have "heap_run h {p}"
    using heap_run.malloc [OF heap_run.start [OF example_fresh] small p(1)] p(2) by simp
  then show ?thesis using p heap_run_blocks_separate [of h "{p}" p] by auto
qed

text \<open>
  C5. In every run of a client, \<^verbatim>\<open>malloc\<close> with a request up to 2 GiB less the header returns without touching
  a bit outside of its array, and so does \<^verbatim>\<open>free\<close> of each pointer the client holds. A client that holds no
  pointer always gets a block, whatever it allocated and freed before: all free blocks have been merged.
\<close>

theorem heap_run_calls_return:
  assumes "heap_run h ptrs"
  shows "(\<forall>request. unat request + 8 \<le> 2 ^ 31 \<longrightarrow>
      (\<exists>p h'. malloc h request = Some (Inr (p, h')) \<and> (ptrs = {} \<longrightarrow> p \<noteq> 0))) \<and>
    (\<forall>p \<in> ptrs. \<exists>h'. free h p = Some (Inr h'))"
proof -
  obtain live where run: "run_inv h ptrs live" using run_inv_reachable [OF assms] by blast
  have "live = {}" if "ptrs = {}" using run_invD(2) [OF run] that by simp
  then show ?thesis using run_malloc [OF run] run_free [OF run] by blast
qed

theorem heap_run_calls_return_witness:
  "heap_run example_heap {} \<and> (\<exists>p h. malloc example_heap 0x7FFFFFF8 = Some (Inr (p, h)) \<and> p \<noteq> 0)"
proof -
  have run: "heap_run example_heap {}" using example_fresh by (rule heap_run.start)
  have "unat (0x7FFFFFF8 :: u32) + 8 \<le> 2 ^ 31" by simp
  then show ?thesis using heap_run_calls_return [OF run] run by blast
qed

section \<open>Sizes that wrap\<close>

text \<open>
  The size of the header is added to the request in 32 bits before the comparison with \<^verbatim>\<open>MAX_ALLOC\<close>. A
  request just below 4 GiB passes the comparison: on a heap with no live block \<^verbatim>\<open>malloc\<close> answers a non-null
  pointer to a block of 16 bytes. Requests between 2 GiB and those get NULL and change nothing.
\<close>

theorem malloc_wraps_huge_request:
  assumes "heap_inv h {}"
  shows "(2 ^ 32 - 8 \<le> unat request \<longrightarrow>
      (\<exists>p h' k. malloc h request = Some (Inr (p, h')) \<and> p \<noteq> 0 \<and> p = user_ptr h' 27 k \<and> bsize 27 = 16 \<and>
        heap_inv h' {(27, k)})) \<and>
    (2 ^ 31 < unat request + 8 \<and> unat request < 2 ^ 32 - 8 \<longrightarrow> malloc h request = Some (Inr (0, h)))"
proof (intro conjI impI)
  assume "2 ^ 32 - 8 \<le> unat request"
  then have "unat (request + 8) = unat request + 8 - 2 ^ 32"
    using unat_bound [of request] by (simp add: unat_word_ariths(1) le_mod_geq)
  then have small: "unat (request + 8) < 8" using unat_bound [of request] by simp
  then have "fits 27 (unat (request + 8))" by (simp add: fits_def bsize_def)
  then show "\<exists>p h' k. malloc h request = Some (Inr (p, h')) \<and> p \<noteq> 0 \<and> p = user_ptr h' 27 k \<and> bsize 27 = 16 \<and>
        heap_inv h' {(27, k)}"
    using malloc_result [OF assms, of request 27] small by (fastforce simp: space_def bsize_def split: if_splits)
next
  assume "2 ^ 31 < unat request + 8 \<and> unat request < 2 ^ 32 - 8"
  then have "2 ^ 31 < unat (request + 8)" using unat_plus_no_wrap [of request 8] by simp
  then show "malloc h request = Some (Inr (0, h))"
    by (simp add: malloc_def MAX_ALLOC_def MAX_ALLOC_LOG2_def HEADER_SIZE_def word_less_nat_alt push_bit_eq_mult)
qed

theorem malloc_wraps_huge_request_witness:
  "\<exists>p h k. malloc example_heap 0xFFFFFFFF = Some (Inr (p, h)) \<and> p \<noteq> 0 \<and> heap_inv h {(27, k)}"
  using malloc_wraps_huge_request [OF example_inv, of "0xFFFFFFFF"] by auto

end
