(* ===== verification/Heap_Bounds.thy ===== *)
theory Heap_Bounds
  imports Heap_Runs
begin

text \<open>
  What the allocator does not touch: \<^verbatim>\<open>malloc\<close> and \<^verbatim>\<open>free\<close> write the array of list heads and the memory
  between the start of the heap and the break, and nothing else. A break that \<^verbatim>\<open>malloc\<close> raises is raised
  before the memory below it is written.
\<close>

section \<open>The break\<close>

lemma break_is_max:
  assumes "heap_inv h live" "base_ptr h \<noteq> 0"
  shows "heap_end h = max_ptr h"
  using assms by (auto simp: heap_inv_def reserved_def split: if_splits)

lemma set_up_confined:
  assumes "heap_inv h live"
  shows "base_ptr (set_up h) = (if base_ptr h = 0 then heap_end h else base_ptr h)" "buckets (set_up h) = buckets h"
    "unat (heap_end h) \<le> unat (heap_end (set_up h))" "heap_end (set_up h) = max_ptr (set_up h)"
    "outside (set_up h) a \<Longrightarrow> mem (set_up h) a = mem h a"
proof -
  have fresh: "fresh_heap h" if "base_ptr h = 0" using assms that by (simp add: heap_inv_def)
  show "base_ptr (set_up h) = (if base_ptr h = 0 then heap_end h else base_ptr h)" "buckets (set_up h) = buckets h"
    "unat (heap_end h) \<le> unat (heap_end (set_up h))" "heap_end (set_up h) = max_ptr (set_up h)"
    "outside (set_up h) a \<Longrightarrow> mem (set_up h) a = mem h a"
    using set_up_inv(2,3) [OF assms] set_up_ok(3,4) [OF fresh] set_up_data [OF fresh]
    by (cases "base_ptr h = 0"; auto simp: reserved_def)+
qed

text \<open>A request that is too large changes nothing.\<close>

lemma malloc_too_large:
  assumes "2 ^ 31 < unat (request + 8)"
  shows "malloc h request = Some (Inr (0, h))"
  using assms
  by (simp add: malloc_def MAX_ALLOC_def MAX_ALLOC_LOG2_def HEADER_SIZE_def word_less_nat_alt push_bit_eq_mult)

definition changes_own_words :: "heap \<Rightarrow> heap \<Rightarrow> bool" where
  "changes_own_words h h' \<longleftrightarrow> buckets h' = buckets h \<and> unat (heap_end h) \<le> unat (heap_end h') \<and>
     (\<forall>a. \<not> own_word h' a \<longrightarrow> mem h' a = mem h a)"

lemma malloc_changes_own_words:
  assumes "heap_inv h live" "unat (request + 8) \<le> 2 ^ 31"
  obtains p h' where "malloc h request = Some (Inr (p, h'))" "changes_own_words h h'"
    "base_ptr h' = (if base_ptr h = 0 then heap_end h else base_ptr h)"
proof -
  note start = set_up_confined [OF assms(1)]
  obtain b where "fits b (unat (request + 8))" using fits_exists [OF assms(2)] by blast
  from malloc_result [OF assms(1,2) this] obtain p h' live' where
    r: "malloc h request = Some (Inr (p, h'))" "base_ptr h' = base_ptr (set_up h)" "buckets h' = buckets (set_up h)"
      "confined (set_up h) h'" "heap_inv h' live'"
    by (auto split: if_splits)
  have "base_ptr h' \<noteq> 0"
    using set_up_inv(2) [OF assms(1)] base_nonzero heap_okD(1) unfolding r(2) by blast
  with r(5) have max: "heap_end h' = max_ptr h'" by (rule break_is_max)
  have "mem h' a = mem h a" if "\<not> own_word h' a" for a
  proof -
    have "outside h' a" using that outside_own_word [OF max] by simp
    moreover from this have "outside (set_up h) a"
      using r(4) by (rule_tac outside_mono [OF _ r(2,3)]) (simp_all add: confined_def)
    ultimately show ?thesis using r(4) start(5) by (simp add: confined_def)
  qed
  moreover have "unat (heap_end h) \<le> unat (heap_end h')"
    using start(3,4) r(4) unfolding max confined_def by simp
  ultimately have "changes_own_words h h'" using r(3) start(2) by (simp add: changes_own_words_def)
  then show thesis using that r(1,2) start(1) by simp
qed

lemma free_changes_own_words:
  assumes "heap_inv h live" "(b, k) \<in> live"
  obtains h' where "free h (user_ptr h b k) = Some (Inr h')" "changes_own_words h h'"
    "base_ptr h' = base_ptr h" "heap_end h' = heap_end h"
proof -
  from free_result [OF assms] obtain h' where
    r: "free h (user_ptr h b k) = Some (Inr h')" "base_ptr h' = base_ptr h" "heap_inv h' (live - {(b, k)})"
      "buckets h' = buckets h" "confined h h'" "max_ptr h' = max_ptr h" by blast
  have base: "base_ptr h \<noteq> 0" using assms by (auto simp: heap_inv_def)
  then have max: "heap_end h' = max_ptr h'" "heap_end h = max_ptr h"
    using break_is_max [OF r(3)] break_is_max [OF assms(1)] r(2) by simp_all
  then have "changes_own_words h h'"
    using r(4-6) outside_own_word [OF max(1)] by (simp add: changes_own_words_def confined_def)
  then show thesis using that r(1,2,6) max by simp
qed

section \<open>Properties\<close>

text \<open>
  C4. In every run of a client, \<^verbatim>\<open>malloc\<close> with any 32-bit request and \<^verbatim>\<open>free\<close> of each pointer the client holds
  change only words of the allocator: those of the list heads and those from the start of the heap up to the
  break. \<^verbatim>\<open>malloc\<close> never lowers the break, \<^verbatim>\<open>free\<close> does not move it; the heap starts where the break was at
  the first call. The words that the client may write to are words of the heap, too.
\<close>

theorem heap_calls_change_own_words:
  assumes "heap_run h ptrs"
  shows "(\<forall>request. \<exists>p h'. malloc h request = Some (Inr (p, h')) \<and> changes_own_words h h' \<and>
      (h' = h \<or> base_ptr h' = (if base_ptr h = 0 then heap_end h else base_ptr h))) \<and>
    (\<forall>p \<in> ptrs. (\<exists>h'. free h p = Some (Inr h') \<and> changes_own_words h h' \<and> base_ptr h' = base_ptr h \<and>
        heap_end h' = heap_end h) \<and>
      (\<forall>n. n + 4 \<le> size_at h p \<longrightarrow> own_word h (p + of_nat n)))"
proof (intro conjI allI ballI impI)
  obtain live where run: "run_inv h ptrs live" using run_inv_reachable [OF assms] by blast
  note inv = run_invD(1) [OF run]
  show "\<exists>p h'. malloc h request = Some (Inr (p, h')) \<and> changes_own_words h h' \<and>
      (h' = h \<or> base_ptr h' = (if base_ptr h = 0 then heap_end h else base_ptr h))" for request
  proof (cases "unat (request + 8) \<le> 2 ^ 31")
    case True
    from malloc_changes_own_words [OF inv this] show ?thesis by metis
  next
    case False
    then show ?thesis by (simp add: malloc_too_large changes_own_words_def)
  qed
  fix p assume p: "p \<in> ptrs"
  obtain b k where bk: "(b, k) \<in> live" "p = user_ptr h b k" using run_ptr [OF run p] by blast
  from free_changes_own_words [OF inv bk(1)]
  show "\<exists>h'. free h p = Some (Inr h') \<and> changes_own_words h h' \<and> base_ptr h' = base_ptr h \<and> heap_end h' = heap_end h"
    unfolding bk(2) by metis
  fix n assume n: "n + 4 \<le> size_at h p"
  note live = live_facts [OF inv bk(1)] and u = user_ptr_unat [OF inv bk(1), folded bk(2)]
  have "unat p + n - unat (base_ptr h) \<in> blk b k" "unat (base_ptr h) \<le> unat p + n"
    using block_bytes [OF run bk, of "unat p + n"] n by simp_all
  from live(6) [OF this(1)] this(2) have bounds: "unat p + n < unat (heap_end h)" "unat (base_ptr h) \<le> unat p + n"
    by simp_all
  then have "unat (p + of_nat n) = unat p + n"
    using unat_bound [of "heap_end h"] by (simp add: unat_word_ariths unat_of_nat)
  then show "own_word h (p + of_nat n)" using bounds by (simp add: own_word_def)
qed

theorem heap_calls_change_own_words_witness:
  "\<exists>p h q h1 h2. malloc example_heap 100 = Some (Inr (p, h)) \<and> p \<noteq> 0 \<and> heap_run h {p} \<and>
    malloc h 4000 = Some (Inr (q, h1)) \<and> changes_own_words h h1 \<and>
    free h p = Some (Inr h2) \<and> changes_own_words h h2 \<and> heap_end h2 = heap_end h"
proof -
  have small: "unat (100 :: u32) + 8 \<le> 2 ^ 31" by simp
  from example_malloc [OF small] obtain p h where p: "malloc example_heap 100 = Some (Inr (p, h))" "p \<noteq> 0" by blast
  have run: "heap_run h {p}"
    using heap_run.malloc [OF heap_run.start [OF example_fresh] small p(1)] p(2) by simp
  show ?thesis using heap_calls_change_own_words [OF run] p run by blast
qed

end
