(* ===== verification/Allocator.thy ===== *)
theory Allocator
  imports Heap_Runs
begin

text \<open>
  The interface between \<^verbatim>\<open>malloc\<close> and \<^verbatim>\<open>free\<close> and the code that calls them: a client holds pointers to
  blocks of known sizes that never overlap, it may write into them, and a call changes neither the size
  nor the contents of the blocks that it holds. The lemmas of the locale \<open>allocator\<close> are what a data
  structure needs that is made of records in such blocks; the heap is an interpretation of it.
\<close>

locale allocator =
  fixes holds :: "'h \<Rightarrow> u32 set \<Rightarrow> bool"
    and contents :: "'h \<Rightarrow> word_memory"
    and size_of :: "'h \<Rightarrow> u32 \<Rightarrow> nat"
    and put :: "'h \<Rightarrow> u32 \<Rightarrow> u32 \<Rightarrow> 'h"
    and alloc :: "'h \<Rightarrow> u32 \<Rightarrow> (u32 \<times> 'h) result option"
    and release :: "'h \<Rightarrow> u32 \<Rightarrow> 'h result option"
  assumes in_range: "holds h P \<Longrightarrow> p \<in> P \<Longrightarrow> p \<noteq> 0 \<and> unat p + size_of h p < 2 ^ 32"
    and separate: "holds h P \<Longrightarrow> p \<in> P \<Longrightarrow> q \<in> P \<Longrightarrow> p \<noteq> q \<Longrightarrow>
      {unat p..<unat p + size_of h p} \<inter> {unat q..<unat q + size_of h q} = {}"
    and put_holds: "holds h P \<Longrightarrow> p \<in> P \<Longrightarrow> n + 4 \<le> size_of h p \<Longrightarrow> holds (put h (p + of_nat n) v) P"
    and put_size: "holds h P \<Longrightarrow> p \<in> P \<Longrightarrow> n + 4 \<le> size_of h p \<Longrightarrow> q \<in> P \<Longrightarrow>
      size_of (put h (p + of_nat n) v) q = size_of h q"
    and put_contents: "contents (put h a v) = (contents h)(a := v)"
    and alloc_result: "holds h P \<Longrightarrow> unat request + 8 \<le> 2 ^ 31 \<Longrightarrow>
      \<exists>p h'. alloc h request = Some (Inr (p, h')) \<and> holds h' (if p = 0 then P else insert p P) \<and>
        (p \<noteq> 0 \<longrightarrow> p \<notin> P \<and> size_of h' p = unat request) \<and>
        (\<forall>q \<in> P. size_of h' q = size_of h q \<and>
          (\<forall>i < size_of h q. contents h' (q + of_nat i) = contents h (q + of_nat i)))"
    and release_result: "holds h P \<Longrightarrow> p \<in> P \<Longrightarrow>
      \<exists>h'. release h p = Some (Inr h') \<and> holds h' (P - {p}) \<and>
        (\<forall>q \<in> P - {p}. size_of h' q = size_of h q \<and>
          (\<forall>i < size_of h q. contents h' (q + of_nat i) = contents h (q + of_nat i)))"
begin

text \<open>The records of a set of pointers: all of them are held, with \<open>n\<close> bytes each.\<close>

definition records :: "'h \<Rightarrow> nat \<Rightarrow> u32 set \<Rightarrow> bool" where
  "records h n Q \<longleftrightarrow> (\<exists>P. holds h P \<and> Q \<subseteq> P) \<and> (\<forall>q \<in> Q. size_of h q = n)"

lemma byte_address:
  assumes "holds h P" "p \<in> P" "i < size_of h p"
  shows "unat (p + of_nat i) = unat p + i"
proof -
  have "unat p + size_of h p < 2 ^ 32" using in_range [OF assms(1,2)] by simp
  moreover from this have "unat (of_nat i :: u32) = i"
    using assms(3) by (simp add: unat_of_nat take_bit_nat_eq_self)
  ultimately show ?thesis using unat_plus_no_wrap [of p "of_nat i"] assms(3) by simp
qed

lemma bytes_differ:
  assumes "holds h P" "p \<in> P" "q \<in> P" "i < size_of h p" "j < size_of h q"
  shows "p + of_nat i = q + of_nat j \<longleftrightarrow> p = q \<and> i = j"
proof
  assume eq: "p + of_nat i = q + of_nat j"
  then have u: "unat p + i = unat q + j"
    using byte_address [OF assms(1,2,4)] byte_address [OF assms(1,3,5)] by simp
  have "p = q"
  proof (rule ccontr)
    assume "p \<noteq> q"
    then have "{unat p..<unat p + size_of h p} \<inter> {unat q..<unat q + size_of h q} = {}"
      by (rule separate [OF assms(1-3)])
    moreover have "unat p + i \<in> {unat p..<unat p + size_of h p}" using assms(4) by simp
    moreover have "unat p + i \<in> {unat q..<unat q + size_of h q}" using assms(5) unfolding u by simp
    ultimately show False by blast
  qed
  then show "p = q \<and> i = j" using u by simp
qed simp

lemma fields_differ:
  assumes "records h n Q" "p \<in> Q" "q \<in> Q" "i < n" "j < n"
  shows "p + of_nat i = q + of_nat j \<longleftrightarrow> p = q \<and> i = j"
proof -
  obtain P where P: "holds h P" "p \<in> P" "q \<in> P" using assms(1-3) by (auto simp: records_def)
  have "i < size_of h p" "j < size_of h q" using assms by (simp_all add: records_def)
  with P show ?thesis by (rule bytes_differ)
qed

lemma records_apart:
  assumes "records h n Q" "4 < n"
  shows "apart Q"
  using fields_differ [OF assms(1) _ _ assms(2), of _ _ 0] assms(2) by (auto simp: apart_def)

lemma records_nonzero: "records h n Q \<Longrightarrow> 0 \<notin> Q"
  using in_range by (fastforce simp: records_def)

lemma records_subset: "records h n Q \<Longrightarrow> Q' \<subseteq> Q \<Longrightarrow> records h n Q'"
  unfolding records_def by blast

text \<open>A field of a record is written.\<close>

lemma put_field:
  assumes "holds h P" "records h n Q" "Q \<subseteq> P" "p \<in> Q" "i + 4 \<le> n"
  shows "holds (put h (p + of_nat i) v) P" "records (put h (p + of_nat i) v) n Q"
    "contents (put h (p + of_nat i) v) = (contents h)(p + of_nat i := v)"
    "q \<in> P \<Longrightarrow> size_of (put h (p + of_nat i) v) q = size_of h q"
proof -
  have p: "p \<in> P" "i + 4 \<le> size_of h p" using assms by (auto simp: records_def)
  show h': "holds (put h (p + of_nat i) v) P" by (rule put_holds [OF assms(1) p])
  show size: "size_of (put h (p + of_nat i) v) q = size_of h q" if "q \<in> P" for q
    by (rule put_size [OF assms(1) p that])
  show "records (put h (p + of_nat i) v) n Q"
    using h' assms(2,3) size unfolding records_def by auto
  show "contents (put h (p + of_nat i) v) = (contents h)(p + of_nat i := v)" by (rule put_contents)
qed

text \<open>Several fields, one after the other.\<close>

lemma put_fields:
  assumes "holds h P" "records h n Q" "Q \<subseteq> P" "\<forall>(p, i, v) \<in> set ws. p \<in> Q \<and> i + 4 \<le> n"
  shows "holds (fold (\<lambda>(p, i, v) h. put h (p + of_nat i) v) ws h) P \<and>
    records (fold (\<lambda>(p, i, v) h. put h (p + of_nat i) v) ws h) n Q \<and>
    (\<forall>q \<in> P. size_of (fold (\<lambda>(p, i, v) h. put h (p + of_nat i) v) ws h) q = size_of h q) \<and>
    (\<forall>q \<in> P - Q. \<forall>j < size_of h q.
      contents (fold (\<lambda>(p, i, v) h. put h (p + of_nat i) v) ws h) (q + of_nat j) = contents h (q + of_nat j))"
  using assms
proof (induction ws arbitrary: h)
  case (Cons w ws)
  obtain p i v where w: "w = (p, i, v)" by (cases w)
  then have "p \<in> Q" "i + 4 \<le> n" using Cons.prems(4) by auto
  note put = put_field [OF Cons.prems(1-3) this, where v = v]
  let ?h = "put h (p + of_nat i) v"
  let ?h' = "fold (\<lambda>(p, i, v) h. put h (p + of_nat i) v) ws ?h"
  have "\<forall>(p, i, v) \<in> set ws. p \<in> Q \<and> i + 4 \<le> n" using Cons.prems(4) by simp
  note IH = Cons.IH [OF put(1,2) Cons.prems(3) this]
  have "contents ?h' (q + of_nat j) = contents h (q + of_nat j)" if q: "q \<in> P - Q" "j < size_of h q" for q j
  proof -
    have "p \<in> P" "i < size_of h p" "p \<noteq> q"
      using \<open>p \<in> Q\<close> \<open>i + 4 \<le> n\<close> Cons.prems(2,3) q(1) by (auto simp: records_def)
    then have "q + of_nat j \<noteq> p + of_nat i" using bytes_differ [OF Cons.prems(1)] q by blast
    moreover have "contents ?h' (q + of_nat j) = contents ?h (q + of_nat j)"
      using IH q put(4) [of q] by simp
    ultimately show ?thesis using put(3) by simp
  qed
  then show ?case using IH put(4) w by auto
qed simp

end

section \<open>The heap is an allocator\<close>

lemma run_bounds:
  assumes "heap_run h ptrs" "p \<in> ptrs"
  shows "p \<noteq> 0" "unat p + size_at h p < 2 ^ 32"
proof -
  obtain live where run: "run_inv h ptrs live" using run_inv_reachable [OF assms(1)] by blast
  note inv = run_invD(1) [OF run]
  obtain b k where bk: "(b, k) \<in> live" "p = user_ptr h b k" using run_ptr [OF run assms(2)] by blast
  note live = live_facts [OF inv bk(1)] and p = user_ptr_unat [OF inv bk(1), folded bk(2)]
  show "p \<noteq> 0" using p by auto
  have "size_at h p + unat p - 1 - unat (base_ptr h) \<in> blk b k"
    using block_bytes(2) [OF run bk, of "size_at h p + unat p - 1"] p by simp
  from live(6) [OF this] show "unat p + size_at h p < 2 ^ 32"
    using p unat_bound [of "heap_end h"] by simp
qed

lemma run_separate:
  assumes "heap_run h ptrs" "p \<in> ptrs" "q \<in> ptrs" "p \<noteq> q"
  shows "{unat p..<unat p + size_at h p} \<inter> {unat q..<unat q + size_at h q} = {}"
proof -
  obtain live where run: "run_inv h ptrs live" using run_inv_reachable [OF assms(1)] by blast
  then show ?thesis using blocks_separate [OF run assms(2,3,4)] by fastforce
qed

lemma run_sizes:
  assumes "heap_run h ptrs" "p \<in> ptrs" "n + 4 \<le> size_at h p" "q \<in> ptrs"
  shows "size_at (h\<lparr>mem := (mem h)(p + of_nat n := v)\<rparr>) q = size_at h q"
proof -
  obtain live where run: "run_inv h ptrs live" using run_inv_reachable [OF assms(1)] by blast
  show ?thesis by (rule write_sizes [OF run assms(2-4)])
qed

interpretation heap_blocks: allocator heap_run mem size_at "\<lambda>h a v. h\<lparr>mem := (mem h)(a := v)\<rparr>" malloc free
proof (unfold_locales, goal_cases)
  case (1 h P p)
  then show ?case using run_bounds by blast
next
  case (2 h P p q)
  then show ?case by (rule run_separate)
next
  case (3 h P p n v)
  then show ?case by (rule heap_run.write_word)
next
  case (4 h P p n q v)
  then show ?case by (rule run_sizes)
next
  case (5 h a v)
  then show ?case by simp
next
  case (6 h P n)
  obtain live where "run_inv h P live" using run_inv_reachable [OF 6(1)] by blast
  from run_malloc [OF this 6(2)] heap_run.malloc [OF 6(1,2)] show ?case unfolding keeps_def by blast
next
  case (7 h P p)
  obtain live where "run_inv h P live" using run_inv_reachable [OF 7(1)] by blast
  from run_free [OF this 7(2)] heap_run.free [OF 7(1,2)] show ?case unfolding keeps_def by blast
qed

end
