(* ===== verification/Linked_List.thy ===== *)
theory Linked_List
  imports Allocator
begin

text \<open>
  \<^verbatim>\<open>collections/linked_list.c\<close>: circular doubly-linked lists whose items are blocks of \<^verbatim>\<open>malloc\<close>. An item at
  address \<open>p\<close> has its \<^verbatim>\<open>prev\<close> pointer at \<open>p\<close>, its \<^verbatim>\<open>next\<close> pointer at \<open>p + 4\<close> and the payload pointer at
  \<open>p + 8\<close>. The state is the heap and the messages printed so far; the pointer to the first item is an
  argument and, where the code changes it through its address, a result.
\<close>

section \<open>The routines\<close>

record collection =
  store :: heap
  messages :: "message list"

definition sizeof_item :: u32 where
  "sizeof_item = 12"

definition say :: "string \<Rightarrow> u32 list \<Rightarrow> collection \<Rightarrow> collection" where
  "say fmt args s = s\<lparr>messages := messages s @ [(fmt @ [CHR 0x0A], args)]\<rparr>"

text \<open>The writes that make a single item, and those that link a new item in at the end.\<close>

definition first_item :: "word_memory \<Rightarrow> u32 \<Rightarrow> u32 \<Rightarrow> word_memory" where
  "first_item m ptr payload = m(ptr + 4 := ptr, ptr := ptr, ptr + 8 := payload)"

definition link_item :: "word_memory \<Rightarrow> u32 \<Rightarrow> u32 \<Rightarrow> u32 \<Rightarrow> word_memory" where
  "link_item m list new payload =
     (let m1 = m(new + 4 := list); m2 = m1(new := m1 list); m3 = m2(m2 list + 4 := new);
          m4 = m3(list := new)
      in m4(new + 8 := payload))"

definition add_to_list :: "collection \<Rightarrow> u32 \<Rightarrow> u32 \<Rightarrow> (int \<times> u32 \<times> collection) result option" where
  "add_to_list s list payload =
     and_run (malloc (store s) sizeof_item) (\<lambda>(ptr, h).
     if ptr = 0 then Some (Inr (-1, list, s\<lparr>store := h\<rparr>))
     else
       let s1 = say ''Inserting 0x%x'' [ptr] (s\<lparr>store := h\<rparr>) in
       if list = 0 then Some (Inr (0, ptr, s1\<lparr>store := h\<lparr>mem := first_item (mem h) ptr payload\<rparr>\<rparr>))
       else Some (Inr (0, list, s1\<lparr>store := h\<lparr>mem := link_item (mem h) list ptr payload\<rparr>\<rparr>)))"

definition release_item :: "u32 \<Rightarrow> collection \<Rightarrow> collection result option" where
  "release_item ptr s =
     (let s1 = say ''Deleting 0x%x'' [ptr] s in
      and_run (free (store s1) ptr) (\<lambda>h. Some (Inr (s1\<lparr>store := h\<rparr>))))"

definition write_word :: "u32 \<Rightarrow> u32 \<Rightarrow> collection \<Rightarrow> collection" where
  "write_word a v s = s\<lparr>store := (store s)\<lparr>mem := (mem (store s))(a := v)\<rparr>\<rparr>"

partial_function (option) delete_loop :: "collection \<Rightarrow> u32 \<Rightarrow> (u32 \<times> collection) result option" where
  "delete_loop s ptr =
     (if mem (store s) (ptr + 4) \<noteq> 0 then
        let ptr' = mem (store s) (ptr + 4) in
        and_run (release_item (mem (store s) ptr') s) (\<lambda>s1. delete_loop (write_word ptr' 0 s1) ptr')
      else Some (Inr (ptr, s)))"

definition delete_list :: "collection \<Rightarrow> u32 \<Rightarrow> (u32 \<times> collection) result option" where
  "delete_list s list =
     (if list = 0 then Some (Inr (list, s))
      else if mem (store s) (list + 4) = list then
        and_run (release_item list s) (\<lambda>s1. Some (Inr (0, s1)))
      else
        let s1 = write_word (mem (store s) list + 4) 0 s; s2 = write_word list 0 s1 in
        and_run (delete_loop s2 list) (\<lambda>(ptr, s3).
        and_run (release_item ptr s3) (\<lambda>s4. Some (Inr (0, s4)))))"

partial_function (option) length_loop :: "word_memory \<Rightarrow> u32 \<Rightarrow> u32 \<Rightarrow> int \<Rightarrow> int option" where
  "length_loop m list ptr n = (if ptr \<noteq> list then length_loop m list (m (ptr + 4)) (n + 1) else Some n)"

definition length_of_list :: "word_memory \<Rightarrow> u32 \<Rightarrow> int option" where
  "length_of_list m list = (if list = 0 then Some 0 else length_loop m list (m (list + 4)) 1)"

text \<open>The function of the caller may change the state; the pointer to the next item is read after its call.\<close>

partial_function (option) iterate_loop ::
    "(u32 \<Rightarrow> collection \<Rightarrow> collection) \<Rightarrow> u32 \<Rightarrow> u32 \<Rightarrow> collection \<Rightarrow> collection option" where
  "iterate_loop f list ptr s =
     (if ptr \<noteq> list then let s' = f ptr s in iterate_loop f list (mem (store s') (ptr + 4)) s' else Some s)"

definition iterate_over_list ::
    "u32 \<Rightarrow> (u32 \<Rightarrow> collection \<Rightarrow> collection) \<Rightarrow> collection \<Rightarrow> collection option" where
  "iterate_over_list list f s =
     (if list = 0 then Some s
      else let ptr = mem (store s) (list + 4) in iterate_loop f list ptr (f list s))"

section \<open>Lists in the heap\<close>

text \<open>The items \<open>ps\<close> of a list with the payloads \<open>vs\<close>.\<close>

definition linked_items :: "word_memory \<Rightarrow> u32 \<Rightarrow> u32 list \<Rightarrow> u32 list \<Rightarrow> bool" where
  "linked_items m list ps vs \<longleftrightarrow>
     (case ps of [] \<Rightarrow> list = 0 | p # qs \<Rightarrow> list = p \<and> ring m p qs) \<and> map (\<lambda>p. m (p + 8)) ps = vs"

definition is_list :: "heap \<Rightarrow> u32 \<Rightarrow> u32 list \<Rightarrow> u32 list \<Rightarrow> bool" where
  "is_list h list ps vs \<longleftrightarrow> distinct ps \<and> heap_blocks.records h 12 (set ps) \<and> linked_items (mem h) list ps vs"

text \<open>The three words of an item.\<close>

definition item_words :: "u32 list \<Rightarrow> u32 set" where
  "item_words ps = (\<Union>p \<in> set ps. {p, p + 4, p + 8})"

lemma linked_items_cong:
  assumes "linked_items m list ps vs" "\<And>a. a \<in> item_words ps \<Longrightarrow> m' a = m a"
  shows "linked_items m' list ps vs"
proof -
  have same: "m' p = m p \<and> m' (p + 4) = m (p + 4) \<and> m' (p + 8) = m (p + 8)" if "p \<in> set ps" for p
    using assms(2) [of p] assms(2) [of "p + 4"] assms(2) [of "p + 8"] that unfolding item_words_def by blast
  have "map (\<lambda>p. m (p + 8)) ps = vs" using assms(1) by (simp add: linked_items_def)
  moreover have "map (\<lambda>p. m' (p + 8)) ps = map (\<lambda>p. m (p + 8)) ps" using same by (intro map_cong) auto
  ultimately have payloads: "map (\<lambda>p. m' (p + 8)) ps = vs" by simp
  show ?thesis
  proof (cases ps)
    case Nil
    then show ?thesis using assms(1) payloads by (simp add: linked_items_def)
  next
    case (Cons p qs)
    then have "ring m p qs" "list = p" using assms(1) by (simp_all add: linked_items_def)
    moreover have "m' (b + 4) = m (b + 4) \<and> m' b = m b" if "b \<in> set (p # qs)" for b
      using same that Cons by blast
    ultimately have "ring m' p qs" by (metis ring_frame)
    then show ?thesis using payloads Cons \<open>list = p\<close> by (simp add: linked_items_def)
  qed
qed

lemma item_field: "q + 4 = q + of_nat 4" "q + 8 = q + of_nat 8" "q = q + of_nat 0" for q :: u32
  by simp_all

lemma keeps_items:
  assumes "keeps h h' P" "heap_blocks.records h 12 (set ps)" "set ps \<subseteq> P" "a \<in> item_words ps"
  shows "mem h' a = mem h a"
proof -
  obtain p i where "p \<in> set ps" "i < 12" "a = p + of_nat i"
  proof -
    obtain p where "p \<in> set ps" "a = p \<or> a = p + 4 \<or> a = p + 8"
      using assms(4) by (auto simp: item_words_def)
    then show ?thesis using that [of p 0] that [of p 4] that [of p 8] by auto
  qed
  then show ?thesis using assms(1-3) unfolding keeps_def heap_blocks.records_def by auto
qed

lemma is_list_same:
  assumes "is_list h list ps vs" "keeps h h' P" "set ps \<subseteq> P" "heap_run h' P'" "set ps \<subseteq> P'"
  shows "is_list h' list ps vs"
proof -
  have old: "heap_blocks.records h 12 (set ps)" "linked_items (mem h) list ps vs" "distinct ps"
    using assms(1) by (auto simp: is_list_def)
  have "linked_items (mem h') list ps vs"
    using old(2) keeps_items [OF assms(2) old(1) assms(3)] by (rule linked_items_cong)
  moreover have "size_at h' q = 12" if "q \<in> set ps" for q
    using old(1) assms(2,3) that unfolding heap_blocks.records_def keeps_def by auto
  then have "heap_blocks.records h' 12 (set ps)"
    using assms(4,5) unfolding heap_blocks.records_def by blast
  ultimately show ?thesis using old(3) by (simp add: is_list_def)
qed

section \<open>Adding an item\<close>

lemma items_apart:
  assumes "heap_blocks.records h 12 Q" "a \<in> Q" "b \<in> Q"
  shows "a + 4 \<noteq> b" "a + 8 \<noteq> b" "a + 8 \<noteq> b + 4" "a + 4 = b + 4 \<longleftrightarrow> a = b" "a + 8 = b + 8 \<longleftrightarrow> a = b"
proof -
  show "a + 4 \<noteq> b" using heap_blocks.fields_differ [OF assms, of 4 0] by simp
  show "a + 8 \<noteq> b" using heap_blocks.fields_differ [OF assms, of 8 0] by simp
  have "a + of_nat 8 \<noteq> b + of_nat 4" using heap_blocks.fields_differ [OF assms, of 8 4] by auto
  then show "a + 8 \<noteq> b + 4" by simp
qed simp_all

text \<open>The writes as writes to fields of items.\<close>

lemma link_item_eq:
  assumes "heap_blocks.records h 12 Q" "list \<in> Q" "new \<in> Q" "list \<noteq> new"
  shows "link_item m list new v = m(new + 4 := list, new := m list, m list + 4 := new, list := new, new + 8 := v)"
  using items_apart [OF assms(1,3,2)] assms(4) by (simp add: link_item_def)

lemma link_item_ring:
  assumes rec: "heap_blocks.records h 12 (insert new (set (list # qs)))" and new: "new \<notin> set (list # qs)"
    and ring: "ring m list qs" and dist: "distinct (list # qs)"
  shows "ring (link_item m list new v) list (qs @ [new])"
proof -
  let ?Q = "insert new (set (list # qs))"
  have ap: "apart ?Q" using heap_blocks.records_apart [OF rec] by simp
  have "ring (m(new := m list, new + 4 := list, m list + 4 := new, list := new)) list (qs @ [new])"
    by (rule ring_add_last [OF ring dist new ap])
  moreover have "m(new := m list, new + 4 := list) = m(new + 4 := list, new := m list)"
    by (rule fun_upd_twist) simp
  ultimately have "ring (m(new + 4 := list, new := m list, m list + 4 := new, list := new)) list (qs @ [new])" by simp
  then have "ring ((m(new + 4 := list, new := m list, m list + 4 := new, list := new))(new + 8 := v)) list (qs @ [new])"
  proof (rule ring_write)
    fix b assume "b \<in> set (list # qs @ [new])"
    then have "b \<in> ?Q" by auto
    then show "new + 8 \<noteq> b \<and> new + 8 \<noteq> b + 4" using items_apart [OF rec, of new b] by simp
  qed
  moreover have "link_item m list new v = m(new + 4 := list, new := m list, m list + 4 := new, list := new, new + 8 := v)"
    using new by (intro link_item_eq [OF rec]) auto
  ultimately show ?thesis by simp
qed

lemma link_item_payloads:
  assumes rec: "heap_blocks.records h 12 (insert new (set (list # qs)))" and new: "new \<notin> set (list # qs)"
    and ring: "ring m list qs"
  shows "map (\<lambda>p. link_item m list new v (p + 8)) (list # qs @ [new]) = map (\<lambda>p. m (p + 8)) (list # qs) @ [v]"
proof -
  let ?Q = "insert new (set (list # qs))"
  have eq: "link_item m list new v = m(new + 4 := list, new := m list, m list + 4 := new, list := new, new + 8 := v)"
    using new by (intro link_item_eq [OF rec]) auto
  have "m list = last (list # qs)" using ring unfolding ring_def by (rule chain_prev_end)
  then have prev: "m list \<in> ?Q" using last_in_set [of "list # qs"] by auto
  have "link_item m list new v (p + 8) = m (p + 8)" if "p \<in> set (list # qs)" for p
  proof -
    have p: "p \<in> ?Q" "p \<noteq> new" using that new by auto
    note pq = items_apart [OF rec p(1)]
    show ?thesis
      unfolding eq using pq(2,3,5) [of new] pq(2) [of list] pq(3) [OF prev] p(2) by simp
  qed
  then show ?thesis by (simp add: eq)
qed

text \<open>Writes to fields of items keep a run, and the blocks that are no items.\<close>

definition writes :: "(u32 \<times> nat \<times> u32) list \<Rightarrow> heap \<Rightarrow> heap" where
  "writes ws h = fold (\<lambda>(p, i, v) h. h\<lparr>mem := (mem h)(p + of_nat i := v)\<rparr>) ws h"

lemma writes_simps [simp]:
  "writes [] h = h" "writes ((p, i, v) # ws) h = writes ws (h\<lparr>mem := (mem h)(p + of_nat i := v)\<rparr>)"
  by (simp_all add: writes_def)

lemma writes_ok:
  assumes "heap_run h P" "heap_blocks.records h 12 Q" "Q \<subseteq> P" "\<forall>(p, i, v) \<in> set ws. p \<in> Q \<and> i + 4 \<le> 12"
  shows "heap_run (writes ws h) P" "heap_blocks.records (writes ws h) 12 Q" "keeps h (writes ws h) (P - Q)"
proof -
  have "heap_run (writes ws h) P \<and> heap_blocks.records (writes ws h) 12 Q \<and>
    (\<forall>q \<in> P. size_at (writes ws h) q = size_at h q) \<and>
    (\<forall>q \<in> P - Q. \<forall>j < size_at h q. mem (writes ws h) (q + of_nat j) = mem h (q + of_nat j))"
    unfolding writes_def using assms by (rule heap_blocks.put_fields)
  then show "heap_run (writes ws h) P" "heap_blocks.records (writes ws h) 12 Q" "keeps h (writes ws h) (P - Q)"
    by (auto simp: keeps_def)
qed

lemma first_item_writes:
  "h\<lparr>mem := first_item (mem h) ptr v\<rparr> = writes [(ptr, 4, ptr), (ptr, 0, ptr), (ptr, 8, v)] h"
  by (simp add: first_item_def)

lemma link_item_writes:
  assumes "heap_blocks.records h 12 Q" "list \<in> Q" "new \<in> Q" "list \<noteq> new"
  shows "h\<lparr>mem := link_item (mem h) list new v\<rparr> =
    writes [(new, 4, list), (new, 0, mem h list), (mem h list, 4, new), (list, 0, new), (new, 8, v)] h"
  using link_item_eq [OF assms, of "mem h" v] by simp

lemma keeps_trans: "keeps h h' P \<Longrightarrow> keeps h' h'' P \<Longrightarrow> keeps h h'' P"
  by (simp add: keeps_def)

lemma keeps_subset: "keeps h h' P \<Longrightarrow> P' \<subseteq> P \<Longrightarrow> keeps h h' P'"
  by (auto simp: keeps_def)

lemma say_fields [simp]:
  "store (say fmt args s) = store s" "messages (say fmt args s) = messages s @ [(fmt @ [CHR 0x0A], args)]"
  by (simp_all add: say_def)

text \<open>The two ways a new item is added, after a successful \<^verbatim>\<open>malloc\<close>.\<close>

lemma add_item_ok:
  assumes run: "heap_run h (insert new P)" and list: "is_list h list ps vs" and sub: "set ps \<subseteq> P"
    and new: "new \<noteq> 0" "new \<notin> P" "size_at h new = 12"
    and h': "h' = h\<lparr>mem := (if list = 0 then first_item (mem h) new v else link_item (mem h) list new v)\<rparr>"
  shows "heap_run h' (insert new P) \<and> is_list h' (if list = 0 then new else list) (ps @ [new]) (vs @ [v]) \<and>
    keeps h h' (P - set ps)"
proof -
  have old: "heap_blocks.records h 12 (set ps)" "linked_items (mem h) list ps vs" "distinct ps"
    using list by (auto simp: is_list_def)
  let ?Q = "insert new (set ps)"
  have rec: "heap_blocks.records h 12 ?Q"
    using old(1) run sub new(3) unfolding heap_blocks.records_def by auto
  have Q: "?Q \<subseteq> insert new P" "new \<notin> set ps" using sub new(2) by auto
  have list0: "list = 0 \<longleftrightarrow> ps = []"
    using old(2) heap_blocks.records_nonzero [OF old(1)] by (auto simp: linked_items_def split: list.splits)
  obtain ws where ws: "h' = writes ws h" "\<forall>(p, i, v) \<in> set ws. p \<in> ?Q \<and> i + 4 \<le> 12"
    and linked: "linked_items (mem h') (if list = 0 then new else list) (ps @ [new]) (vs @ [v])"
  proof (cases "list = 0")
    case True
    then have "h' = writes [(new, 4, new), (new, 0, new), (new, 8, v)] h"
      using h' first_item_writes [of h new v] by simp
    moreover have "new \<noteq> new + 8" "new + 4 \<noteq> new + 8" by simp_all
    then have "linked_items (mem h') new [new] [v]"
      using True h' by (simp add: linked_items_def first_item_def ring_def linked_def)
    ultimately show ?thesis
      using that [of "[(new, 4, new), (new, 0, new), (new, 8, v)]"] True list0 old(2) by (simp add: linked_items_def)
  next
    case False
    then obtain qs where ps: "ps = list # qs" "ring (mem h) list qs"
      using old(2) by (auto simp: linked_items_def split: list.splits)
    have prev: "mem h list \<in> ?Q"
      using chain_prev_end [OF ps(2) [unfolded ring_def]] last_in_set [of "list # qs"] ps(1) by auto
    have ne: "list \<noteq> new" using Q(2) ps(1) by auto
    let ?ws = "[(new, 4, list), (new, 0, mem h list), (mem h list, 4, new), (list, 0, new), (new, 8, v)] :: (u32 \<times> nat \<times> u32) list"
    have "h' = writes ?ws h"
      using h' False link_item_writes [OF rec _ _ ne, of v] ps(1) by simp
    moreover have "\<forall>(p, i, v) \<in> set ?ws. p \<in> ?Q \<and> i + 4 \<le> 12" using prev ps(1) by simp
    moreover have ring': "ring (mem h') list (qs @ [new])"
      using link_item_ring [OF _ _ ps(2), of h new v] rec Q(2) old(3) ps(1) h' False by simp
    moreover have "map (\<lambda>p. mem h (p + 8)) (list # qs) = vs" using old(2) ps(1) by (simp add: linked_items_def)
    then have payloads: "map (\<lambda>p. mem h' (p + 8)) (list # qs @ [new]) = vs @ [v]"
      using link_item_payloads [OF _ _ ps(2), of h new v] rec Q(2) ps(1) h' False by simp
    have "linked_items (mem h') list (list # qs @ [new]) (vs @ [v])"
      unfolding linked_items_def list.case using ring' payloads by blast
    ultimately show ?thesis using that [of ?ws] False ps(1) by simp
  qed
  have "heap_run h' (insert new P)" "heap_blocks.records h' 12 ?Q" "keeps h h' (insert new P - ?Q)"
    using writes_ok [OF run rec Q(1) ws(2)] ws(1) by simp_all
  moreover from this have "keeps h h' (P - set ps)" by (rule_tac keeps_subset) (use new(2) in auto)
  ultimately show ?thesis using linked old(3) Q(2) by (simp add: is_list_def)
qed

text \<open>An item and the header of its block take one of the \<open>2 ^ 26\<close> blocks of 32 bytes.\<close>

lemma item_room:
  assumes "run_inv h P live" "malloc h sizeof_item = Some (Inr (p, h'))"
  shows "p = 0 \<longleftrightarrow> (\<forall>k < 2 ^ 26. blk 26 k \<inter> space live \<noteq> {})"
proof -
  have "fits 26 (unat (sizeof_item + 8))" by (simp add: fits_def bsize_def sizeof_item_def)
  moreover have "unat (sizeof_item + 8) \<le> 2 ^ 31" by (simp add: sizeof_item_def)
  ultimately have "if p = 0 then \<forall>k < 2 ^ 26. blk 26 k \<inter> space live \<noteq> {} else \<exists>k < 2 ^ 26. blk 26 k \<inter> space live = {}"
    using malloc_result [OF run_invD(1) [OF assms(1)], of sizeof_item 26] assms(2) by (auto split: if_splits)
  then show ?thesis by (intro null_iff_full) (auto split: if_splits)
qed

lemma add_result:
  assumes run: "heap_run (store s) P" and list: "is_list (store s) list ps vs" and sub: "set ps \<subseteq> P"
  shows "\<exists>p h r list' s'. malloc (store s) sizeof_item = Some (Inr (p, h)) \<and>
    (\<forall>live. run_inv (store s) P live \<longrightarrow> (p = 0 \<longleftrightarrow> (\<forall>k < 2 ^ 26. blk 26 k \<inter> space live \<noteq> {}))) \<and>
    add_to_list s list v = Some (Inr (r, list', s')) \<and>
    (if p = 0
     then r = -1 \<and> list' = list \<and> heap_run (store s') P \<and> is_list (store s') list ps vs \<and>
       keeps (store s) (store s') P \<and> messages s' = messages s
     else r = 0 \<and> p \<notin> P \<and> heap_run (store s') (insert p P) \<and> is_list (store s') list' (ps @ [p]) (vs @ [v]) \<and>
       keeps (store s) (store s') (P - set ps) \<and> messages s' = messages s @ [(''Inserting 0x%x'' @ [CHR 0x0A], [p])])"
proof -
  have "unat sizeof_item + 8 \<le> 2 ^ 31" by (simp add: sizeof_item_def)
  from heap_blocks.alloc_result [OF run this] obtain p h where alloc: "malloc (store s) sizeof_item = Some (Inr (p, h))"
    "heap_run h (if p = 0 then P else insert p P)" "p \<noteq> 0 \<longrightarrow> p \<notin> P \<and> size_at h p = unat sizeof_item"
    and kept: "keeps (store s) h P" unfolding keeps_def by blast
  note room = item_room [OF _ alloc(1)]
  show ?thesis
  proof (cases "p = 0")
    case True
    then have "is_list h list ps vs" using is_list_same [OF list kept sub, of P] alloc(2) sub by simp
    then show ?thesis using True alloc kept room by (auto simp: add_to_list_def)
  next
    case False
    then have run': "heap_run h (insert p P)" and new: "p \<notin> P" "size_at h p = 12"
      using alloc(2,3) by (simp_all add: sizeof_item_def)
    have "is_list h list ps vs" using is_list_same [OF list kept sub run'] sub by auto
    note add = add_item_ok [OF run' this sub False new refl, of v]
    let ?h = "h\<lparr>mem := if list = 0 then first_item (mem h) p v else link_item (mem h) list p v\<rparr>"
    let ?s = "(say ''Inserting 0x%x'' [p] (s\<lparr>store := h\<rparr>))\<lparr>store := ?h\<rparr>"
    have "add_to_list s list v = Some (Inr (0, if list = 0 then p else list, ?s))"
      using False alloc(1) by (simp add: add_to_list_def)
    moreover have "keeps (store s) ?h (P - set ps)"
      using keeps_trans [OF keeps_subset [OF kept]] add by auto
    ultimately show ?thesis using add new(1) False alloc(1) room
      by (intro exI [of _ p] exI [of _ h] exI [of _ "0 :: int"] exI [of _ "if list = 0 then p else list"] exI [of _ ?s])
        (simp add: say_def)
  qed
qed

section \<open>Length and iteration\<close>

text \<open>The rest of the items before the loops come back to the first one.\<close>

lemma length_loop_chain:
  assumes "chain m p qs list" "list \<notin> set qs"
  shows "length_loop m list (m (p + 4)) n = Some (n + int (length qs))"
  using assms
proof (induction qs arbitrary: p n)
  case Nil
  then show ?case by (subst length_loop.simps) (simp add: linked_def)
next
  case (Cons q qs)
  then have "m (p + 4) = q" "chain m q qs list" "q \<noteq> list" "list \<notin> set qs" by (auto simp: linked_def)
  then show ?case using Cons.IH [of q "n + 1"] by (subst length_loop.simps) simp
qed

lemma iterate_loop_chain:
  assumes "chain (mem (store s)) p qs list" "list \<notin> set qs"
    and "\<And>q s. store (f q s) = store s"
  shows "iterate_loop f list (mem (store s) (p + 4)) s = Some (fold f qs s)"
  using assms(1,2)
proof (induction qs arbitrary: p s)
  case Nil
  then show ?case by (subst iterate_loop.simps) (simp add: linked_def)
next
  case (Cons q qs)
  then have q: "mem (store s) (p + 4) = q" "chain (mem (store s)) q qs list" "q \<noteq> list" "list \<notin> set qs"
    by (auto simp: linked_def)
  then have "iterate_loop f list (mem (store (f q s)) (q + 4)) (f q s) = Some (fold f qs (f q s))"
    using Cons.IH [of "f q s" q] assms(3) by simp
  then show ?case using q by (subst iterate_loop.simps) (simp add: Let_def)
qed

lemma walk_result:
  assumes "is_list (store s) list ps vs" "\<And>p s. store (f p s) = store s"
  shows "length_of_list (mem (store s)) list = Some (int (length vs)) \<and> iterate_over_list list f s = Some (fold f ps s)"
proof (cases ps)
  case Nil
  then show ?thesis using assms(1) by (simp add: is_list_def linked_items_def length_of_list_def iterate_over_list_def)
next
  case (Cons p qs)
  have rec: "heap_blocks.records (store s) 12 (set ps)" using assms(1) by (simp add: is_list_def)
  have items: "list = p" "chain (mem (store s)) p qs p" "p \<notin> set qs" "length vs = Suc (length qs)"
    using assms(1) Cons by (auto simp: is_list_def linked_items_def ring_def)
  have p0: "p \<noteq> 0" using heap_blocks.records_nonzero [OF rec] Cons by auto
  have "length_of_list (mem (store s)) list = Some (int (length vs))"
    using length_loop_chain [OF items(2,3), of 1] items(1,4) p0 by (simp add: length_of_list_def)
  moreover have "iterate_loop f p (mem (store (f p s)) (p + 4)) (f p s) = Some (fold f qs (f p s))"
    using items(2,3) assms(2) by (intro iterate_loop_chain) simp_all
  then have "iterate_over_list list f s = Some (fold f ps s)"
    using items(1) p0 assms(2) Cons by (simp add: iterate_over_list_def)
  ultimately show ?thesis by simp
qed

section \<open>Deleting\<close>

text \<open>The list that \<^verbatim>\<open>delete_list\<close> has cut open: the last item has a null pointer to the next one.\<close>

fun open_chain :: "word_memory \<Rightarrow> u32 \<Rightarrow> u32 list \<Rightarrow> bool" where
  "open_chain m a [] \<longleftrightarrow> m (a + 4) = 0"
| "open_chain m a (x # xs) \<longleftrightarrow> linked m a x \<and> open_chain m x xs"

lemma open_chain_snoc: "open_chain m a (xs @ [z]) \<longleftrightarrow> chain m a xs z \<and> m (z + 4) = 0"
  by (induction xs arbitrary: a) auto

lemma open_chain_cong:
  assumes "open_chain m a xs" "m' (a + 4) = m (a + 4)" "\<And>b. b \<in> set xs \<Longrightarrow> m' b = m b \<and> m' (b + 4) = m (b + 4)"
  shows "open_chain m' a xs"
  using assms by (induction xs arbitrary: a) (auto simp: linked_def)

definition deleting :: "u32 \<Rightarrow> message" where
  "deleting p = (''Deleting 0x%x'' @ [CHR 0x0A], [p])"

lemma release_item_ok:
  assumes "heap_run (store s) P" "p \<in> P"
  shows "\<exists>s'. release_item p s = Some (Inr s') \<and> heap_run (store s') (P - {p}) \<and>
    keeps (store s) (store s') (P - {p}) \<and> messages s' = messages s @ [deleting p]"
proof -
  from heap_blocks.release_result [OF assms] obtain h where "free (store s) p = Some (Inr h)" "heap_run h (P - {p})"
    "keeps (store s) h (P - {p})" unfolding keeps_def by blast
  then show ?thesis by (simp add: release_item_def deleting_def Let_def)
qed

lemma records_kept:
  assumes "heap_blocks.records h 12 Q" "keeps h h' P" "heap_run h' P'" "Q' \<subseteq> Q" "Q' \<subseteq> P" "Q' \<subseteq> P'"
  shows "heap_blocks.records h' 12 Q'"
proof -
  have "size_at h' q = 12" if "q \<in> Q'" for q
  proof -
    have "q \<in> P" "size_at h q = 12" using assms(1,4,5) that by (auto simp: heap_blocks.records_def)
    then show ?thesis using assms(2) by (simp add: keeps_def)
  qed
  then show ?thesis using assms(3,6) unfolding heap_blocks.records_def by blast
qed

lemma item_words_mem: "q \<in> set ps \<Longrightarrow> q \<in> item_words ps \<and> q + 4 \<in> item_words ps"
  by (auto simp: item_words_def)

lemma delete_loop_ok:
  assumes "heap_run (store s) P" "heap_blocks.records (store s) 12 (set (p # qs))" "set (p # qs) \<subseteq> P"
    "distinct (p # qs)" "open_chain (mem (store s)) p qs"
  shows "\<exists>s'. delete_loop s p = Some (Inr (last (p # qs), s')) \<and> heap_run (store s') (P - set (butlast (p # qs))) \<and>
    keeps (store s) (store s') (P - set (p # qs)) \<and> messages s' = messages s @ map deleting (butlast (p # qs))"
  using assms
proof (induction qs arbitrary: p s P)
  case Nil
  then show ?case by (subst delete_loop.simps) (simp add: keeps_def)
next
  case (Cons q rs)
  let ?m = "mem (store s)"
  have q: "?m (p + 4) = q" "?m q = p" and rest: "open_chain ?m q rs" using Cons.prems(5) by (simp_all add: linked_def)
  have "q \<noteq> 0" using heap_blocks.records_nonzero [OF Cons.prems(2)] by auto
  have p: "p \<in> P" using Cons.prems(3) by simp
  obtain s1 where s1: "release_item p s = Some (Inr s1)" "heap_run (store s1) (P - {p})"
    "keeps (store s) (store s1) (P - {p})" "messages s1 = messages s @ [deleting p]"
    using release_item_ok [OF Cons.prems(1) p] by blast
  let ?s = "write_word q 0 s1"
  have sub: "set (q # rs) \<subseteq> P - {p}" using Cons.prems(3,4) by auto
  have rec1: "heap_blocks.records (store s1) 12 (set (q # rs))"
    by (rule records_kept [OF Cons.prems(2) s1(3,2) _ sub sub]) auto
  have ws: "store ?s = writes [(q, 0, 0)] (store s1)" by (simp add: write_word_def)
  have "\<forall>(p, i, v) \<in> set [(q, 0 :: nat, 0 :: u32)]. p \<in> set (q # rs) \<and> i + 4 \<le> 12" by simp
  note w = writes_ok [OF s1(2) rec1 sub this, folded ws]
  have "heap_blocks.records (store s) 12 (set (q # rs))"
    using heap_blocks.records_subset [OF Cons.prems(2)] by auto
  then have m1: "mem (store s1) a = ?m a" if "a \<in> item_words (q # rs)" for a
    using keeps_items [OF s1(3) _ sub that] by simp
  have "open_chain (mem (store s1)) q rs"
    by (rule open_chain_cong [OF rest]) (use m1 item_words_mem [of _ "q # rs"] in auto)
  then have chain: "open_chain (mem (store ?s)) q rs"
  proof (rule open_chain_cong)
    show "mem (store ?s) (q + 4) = mem (store s1) (q + 4)" by (simp add: write_word_def)
    show "mem (store ?s) b = mem (store s1) b \<and> mem (store ?s) (b + 4) = mem (store s1) (b + 4)"
      if "b \<in> set rs" for b
      using that items_apart(1) [OF rec1, of b q] Cons.prems(4) by (auto simp: write_word_def)
  qed
  have "distinct (q # rs)" using Cons.prems(4) by simp
  from Cons.IH [OF w(1,2) sub this chain] obtain s' where s': "delete_loop ?s q = Some (Inr (last (q # rs), s'))"
    "heap_run (store s') (P - {p} - set (butlast (q # rs)))" "keeps (store ?s) (store s') (P - {p} - set (q # rs))"
    "messages s' = messages ?s @ map deleting (butlast (q # rs))" by blast
  have "delete_loop s p = Some (Inr (last (p # q # rs), s'))"
    using q \<open>q \<noteq> 0\<close> s1(1) s'(1) by (subst delete_loop.simps) (simp add: Let_def)
  moreover have "P - {p} - set (butlast (q # rs)) = P - set (butlast (p # q # rs))" by auto
  moreover have "keeps (store s) (store s') (P - set (p # q # rs))"
  proof -
    have "P - set (p # q # rs) = P - {p} - set (q # rs)" by auto
    then show ?thesis
      using keeps_trans [OF keeps_trans [OF keeps_subset [OF s1(3)] w(3)] s'(3)] by auto
  qed
  moreover have "messages s' = messages s @ map deleting (butlast (p # q # rs))"
    using s'(4) s1(4) by (simp add: write_word_def)
  ultimately show ?case using s'(2) by auto
qed

lemma open_after_cut:
  assumes rec: "heap_blocks.records h 12 (set (p # ms @ [z]))" and dist: "distinct (p # ms @ [z])"
    and ring: "ring m p (ms @ [z])"
  shows "open_chain (m(m p + 4 := 0, p := 0)) p (ms @ [z])"
proof -
  let ?Q = "set (p # ms @ [z])"
  have z: "m p = z" using ring unfolding ring_def by (rule chain_prev_end [THEN trans]) simp
  have chain: "chain m p ms z" using ring by (simp add: ring_def chain_append)
  have "chain (m(z + 4 := 0, p := 0)) p ms z"
  proof (rule chain_frame [OF chain])
    fix b assume b: "b \<in> set (p # ms)"
    then have "b \<in> ?Q" "b \<noteq> z" using dist by auto
    then show "(m(z + 4 := 0, p := 0)) (b + 4) = m (b + 4)"
      using items_apart(1) [OF rec, of b p] by simp
  next
    fix b assume b: "b \<in> set (ms @ [z])"
    then have "b \<in> ?Q" "b \<noteq> p" using dist by auto
    then show "(m(z + 4 := 0, p := 0)) b = m b" using items_apart(1) [OF rec, of z b] by auto
  qed
  moreover have "z + 4 \<noteq> p" using items_apart(1) [OF rec, of z p] by simp
  ultimately show ?thesis by (simp add: open_chain_snoc z)
qed

lemma delete_result:
  assumes run: "heap_run (store s) P" and list: "is_list (store s) list ps vs" and sub: "set ps \<subseteq> P"
  shows "\<exists>s'. delete_list s list = Some (Inr (0, s')) \<and> heap_run (store s') (P - set ps) \<and>
    keeps (store s) (store s') (P - set ps) \<and> messages s' = messages s @ map deleting ps"
proof (cases ps)
  case Nil
  then show ?thesis using list run by (simp add: is_list_def linked_items_def delete_list_def keeps_def)
next
  case (Cons p qs)
  have rec: "heap_blocks.records (store s) 12 (set (p # qs))" and dist: "distinct (p # qs)"
    and ring: "ring (mem (store s)) p qs" and p: "list = p"
    using list Cons by (auto simp: is_list_def linked_items_def)
  have p0: "p \<noteq> 0" using heap_blocks.records_nonzero [OF rec] by auto
  show ?thesis
  proof (cases qs rule: rev_cases)
    case Nil
    then have "mem (store s) (p + 4) = p" using ring by (simp add: ring_def linked_def)
    moreover have "p \<in> P" using sub Cons by simp
    ultimately show ?thesis
      using release_item_ok [OF run, of p] p p0 Cons Nil by (auto simp: delete_list_def)
  next
    case (snoc ms z)
    let ?h = "(store s)\<lparr>mem := (mem (store s))(mem (store s) p + 4 := 0, p := 0)\<rparr>"
    let ?s = "s\<lparr>store := ?h\<rparr>"
    have "mem (store s) (p + 4) = hd (qs @ [p])" using ring unfolding ring_def by (rule chain_next_start)
    then have many: "mem (store s) (p + 4) \<noteq> p" using dist snoc by (cases ms) auto
    have z: "mem (store s) p = z" using ring snoc unfolding ring_def by (simp add: chain_append linked_def)
    then have ws: "?h = writes [(z, 4, 0), (p, 0, 0)] (store s)" by simp
    have "\<forall>(p', i, v) \<in> set [(z, 4 :: nat, 0 :: u32), (p, 0, 0)]. p' \<in> set (p # qs) \<and> i + 4 \<le> 12"
      using snoc by simp
    note w = writes_ok [OF run rec _ this, folded ws, OF sub [unfolded Cons]]
    have chain: "open_chain (mem (store ?s)) p qs"
      using open_after_cut [of "store s" p ms z "mem (store s)"] rec dist ring snoc by simp
    obtain s1 where s1: "delete_loop ?s p = Some (Inr (last (p # qs), s1))"
      "heap_run (store s1) (P - set (butlast (p # qs)))" "keeps ?h (store s1) (P - set (p # qs))"
      "messages s1 = messages s @ map deleting (butlast (p # qs))"
      using delete_loop_ok [of ?s P p qs] w(1,2) sub Cons dist chain by auto
    have split: "set (p # qs) = insert z (set (butlast (p # qs)))" "z \<notin> set (butlast (p # qs))"
      "map deleting (p # qs) = map deleting (butlast (p # qs)) @ [deleting z]"
      using snoc dist by (auto simp: butlast_append)
    have "z \<in> P - set (butlast (p # qs))" using sub Cons split by auto
    from release_item_ok [OF s1(2) this] obtain s' where s': "release_item z s1 = Some (Inr s')"
      "heap_run (store s') (P - set (butlast (p # qs)) - {z})"
      "keeps (store s1) (store s') (P - set (butlast (p # qs)) - {z})"
      "messages s' = messages s1 @ [deleting z]" by blast
    have cut: "write_word p 0 (write_word (mem (store s) p + 4) 0 s) = ?s" by (simp add: write_word_def)
    have rest: "P - set (butlast (p # qs)) - {z} = P - set (p # qs)" using split(1) by auto
    have "last (p # qs) = z" using snoc by simp
    then have "delete_list s list = Some (Inr (0, s'))"
      using p p0 many s1(1) s'(1) cut by (simp add: delete_list_def Let_def)
    moreover have "keeps (store s) (store s') (P - set (p # qs))"
      using keeps_trans [OF keeps_trans [OF w(3) s1(3)]] s'(3) unfolding rest by blast
    ultimately show ?thesis using s'(2,4) s1(4) split(3) rest Cons by auto
  qed
qed

section \<open>The lists of a client\<close>

lemma is_list_empty: "is_list h 0 [] [] \<longleftrightarrow> (\<exists>P. heap_run h P)"
  by (auto simp: is_list_def linked_items_def heap_blocks.records_def)

lemma example_list:
  "\<exists>s list p. add_to_list \<lparr>store = example_heap, messages = []\<rparr> 0 7 = Some (Inr (0, list, s)) \<and>
    heap_run (store s) {p} \<and> is_list (store s) list [p] [7]"
proof -
  let ?s = "\<lparr>store = example_heap, messages = []\<rparr>"
  have run: "heap_run (store ?s) {}" using heap_run.start [OF example_fresh] by simp
  then have "is_list (store ?s) 0 [] []" using is_list_empty by blast
  moreover have "unat sizeof_item + 8 \<le> 2 ^ 31" by (simp add: sizeof_item_def)
  from example_malloc [OF this] obtain p h where "malloc (store ?s) sizeof_item = Some (Inr (p, h))" "p \<noteq> 0" by auto
  ultimately show ?thesis using add_result [OF run, of 0 "[]" "[]" 7] by auto
qed

text \<open>
  C11. \<^verbatim>\<open>add_to_list\<close> of a list in a run of the heap returns. It answers -1 exactly if \<^verbatim>\<open>malloc\<close> answers NULL for
  an item, that is, if each of the blocks of 32 bytes meets a live block of the run; the pointer to the list, the blocks that
  are held, their contents and the messages are then as before. Otherwise it answers 0, the one block more that is
  held is the one that \<^verbatim>\<open>malloc\<close> has answered, and the list is the old one with the payload at its end; blocks
  that are no items of the list keep their contents.
\<close>

theorem add_to_list_appends:
  assumes "heap_run (store s) P" "is_list (store s) list ps vs" "set ps \<subseteq> P"
  shows "\<exists>p h r list' s'. malloc (store s) sizeof_item = Some (Inr (p, h)) \<and>
    (\<forall>live. run_inv (store s) P live \<longrightarrow> (p = 0 \<longleftrightarrow> (\<forall>k < 2 ^ 26. blk 26 k \<inter> space live \<noteq> {}))) \<and>
    add_to_list s list v = Some (Inr (r, list', s')) \<and>
    (if p = 0
     then r = -1 \<and> list' = list \<and> heap_run (store s') P \<and> is_list (store s') list ps vs \<and>
       keeps (store s) (store s') P \<and> messages s' = messages s
     else r = 0 \<and> p \<notin> P \<and> heap_run (store s') (insert p P) \<and> is_list (store s') list' (ps @ [p]) (vs @ [v]) \<and>
       keeps (store s) (store s') (P - set ps) \<and> messages s' = messages s @ [(''Inserting 0x%x'' @ [CHR 0x0A], [p])])"
  using assms by (rule add_result)

text \<open>An item is added to the empty list on the heap of the examples, and then another one.\<close>

theorem add_to_list_appends_witness:
  "\<exists>list s p. add_to_list \<lparr>store = example_heap, messages = []\<rparr> 0 7 = Some (Inr (0, list, s)) \<and>
    is_list (store s) list [p] [7] \<and> messages s = [(''Inserting 0x%x'' @ [CHR 0x0A], [p])] \<and>
    (\<exists>r list' s'. add_to_list s list 8 = Some (Inr (r, list', s')) \<and>
      (r = 0 \<and> (\<exists>q. is_list (store s') list' [p, q] [7, 8]) \<or> r = -1 \<and> is_list (store s') list [p] [7]))"
proof -
  let ?s = "\<lparr>store = example_heap, messages = []\<rparr>"
  have run: "heap_run (store ?s) {}" using heap_run.start [OF example_fresh] by simp
  have "is_list (store ?s) 0 [] []" using run is_list_empty by blast
  moreover have "unat sizeof_item + 8 \<le> 2 ^ 31" by (simp add: sizeof_item_def)
  from example_malloc [OF this] obtain p h where "malloc (store ?s) sizeof_item = Some (Inr (p, h))" "p \<noteq> 0" by auto
  ultimately obtain list s where s: "add_to_list ?s 0 7 = Some (Inr (0, list, s))" "heap_run (store s) {p}"
    "is_list (store s) list [p] [7]" "messages s = [(''Inserting 0x%x'' @ [CHR 0x0A], [p])]"
    using add_to_list_appends [OF run, of 0 "[]" "[]" 7] by auto
  from add_to_list_appends [OF s(2,3), of 8] obtain r list' s' where "add_to_list s list 8 = Some (Inr (r, list', s'))"
    "r = 0 \<and> (\<exists>q. is_list (store s') list' [p, q] [7, 8]) \<or> r = -1 \<and> is_list (store s') list [p] [7]"
    by (auto split: if_splits)
  with s show ?thesis by blast
qed

text \<open>
  C12. \<^verbatim>\<open>delete_list\<close> of a list in a run of the heap returns. It frees each of the items exactly once, first to
  last, leaves all other blocks as they are, and sets the pointer of the caller to NULL.
\<close>

theorem delete_list_frees_items:
  assumes "heap_run (store s) P" "is_list (store s) list ps vs" "set ps \<subseteq> P"
  shows "\<exists>s'. delete_list s list = Some (Inr (0, s')) \<and> heap_run (store s') (P - set ps) \<and>
    keeps (store s) (store s') (P - set ps) \<and> messages s' = messages s @ map deleting ps"
  using assms by (rule delete_result)

theorem delete_list_frees_items_witness:
  "\<exists>s list p s'. is_list (store s) list [p] [7] \<and> delete_list s list = Some (Inr (0, s')) \<and> heap_run (store s') {}"
proof -
  obtain s :: collection and list p where s: "heap_run (store s) {p}" "is_list (store s) list [p] [7]" using example_list by blast
  from delete_list_frees_items [OF this] obtain s' where
    "delete_list s list = Some (Inr (0, s'))" "heap_run (store s') ({p} - {p})" by auto
  then show ?thesis using s(2) by auto
qed

text \<open>
  On a list with the items \<open>ps\<close>, \<^verbatim>\<open>length\<close> returns their number, and \<^verbatim>\<open>iterate_over_list\<close> with a function that
  does not change the heap returns after it has called the function once for each item, first to last.
\<close>

theorem list_walks_return:
  assumes "is_list (store s) list ps vs" "\<And>p s. store (f p s) = store s"
  shows "length_of_list (mem (store s)) list = Some (int (length vs)) \<and> iterate_over_list list f s = Some (fold f ps s)"
  using assms by (rule walk_result)

theorem list_walks_return_witness:
  "\<exists>s list p. is_list (store s) list [p] [7] \<and> length_of_list (mem (store s)) list = Some 1 \<and>
    iterate_over_list list (\<lambda>p. say ''item'' [p]) s = Some (say ''item'' [p] s)"
proof -
  obtain s :: collection and list p where s: "is_list (store s) list [p] [7]" using example_list by blast
  have "length_of_list (mem (store s)) list = Some (int (length [7 :: u32])) \<and>
    iterate_over_list list (\<lambda>p. say ''item'' [p]) s = Some (fold (\<lambda>p. say ''item'' [p]) [p] s)"
    by (rule list_walks_return [OF s]) simp
  then show ?thesis using s by auto
qed

end
