(* ===== verification/Kernel_Tests.thy ===== *)
theory Kernel_Tests
  imports Linked_List "HOL-Library.Sublist"
begin

text \<open>
  The remaining routines of \<^verbatim>\<open>kernel.c\<close>: \<^verbatim>\<open>linked_list_test\<close> with \<^verbatim>\<open>output_list_item\<close>, and \<^verbatim>\<open>factorial\<close>. The local
  variables whose addresses are the payloads of the list lie on the stack, apart from the heap: they are
  a function from their addresses to their values.
\<close>

section \<open>The routines\<close>

definition output_list_item :: "(u32 \<Rightarrow> u32) \<Rightarrow> u32 \<Rightarrow> collection \<Rightarrow> collection" where
  "output_list_item stack_vars item s = say ''item %d'' [stack_vars (mem (store s) (item + 8))] s"

definition try_to_add :: "u32 \<Rightarrow> u32 \<Rightarrow> collection \<Rightarrow> (u32 \<times> collection) result option" where
  "try_to_add payload list s =
     and_run (add_to_list s list payload) (\<lambda>(r, list', s').
     Some (Inr (list', if r < 0 then say ''add failed!'' [] s' else s')))"

text \<open>The calls with the addresses of the variables, one after the other.\<close>

fun add_all :: "u32 list \<Rightarrow> u32 \<Rightarrow> collection \<Rightarrow> (u32 \<times> collection) result option" where
  "add_all [] list s = Some (Inr (list, s))"
| "add_all (v # vs) list s = and_run (try_to_add v list s) (\<lambda>(list', s'). add_all vs list' s')"

definition linked_list_test ::
    "(u32 \<Rightarrow> u32) \<Rightarrow> u32 \<Rightarrow> u32 \<Rightarrow> u32 \<Rightarrow> u32 \<Rightarrow> collection \<Rightarrow> collection result option" where
  "linked_list_test stack_vars a b c d s =
     (let vars = stack_vars(a := 1, b := 2, c := 3, d := 4) in
      and_run (add_all [a, b, c, d] 0 s) (\<lambda>(list, s1).
      Option.bind (iterate_over_list list (output_list_item vars) s1) (\<lambda>s2.
      and_run (delete_list s2 list) (\<lambda>(_, s3). Some (Inr s3)))))"

text \<open>\<^verbatim>\<open>int\<close> and \<^verbatim>\<open>long\<close> have 32 bits; the product is the wrapped one.\<close>

function factorial :: "u32 \<Rightarrow> u32" where
  "factorial n = (if n = 0 then 1 else n * factorial (n - 1))"
  by pat_completeness auto
termination
proof (relation "measure unat", goal_cases)
  case (2 n)
  then show ?case using unat_pred [of n] unat_pos [of n] by simp
qed simp

declare factorial.simps [simp del]

section \<open>What they do\<close>

lemma factorial_wraps: "n < 2 ^ 32 \<Longrightarrow> factorial (of_nat n) = of_nat (fact n)"
proof (induction n)
  case (Suc n)
  then have "unat (of_nat (Suc n) :: u32) = Suc n" by (simp add: unat_of_nat take_bit_nat_eq_self del: of_nat_Suc)
  then have "(of_nat (Suc n) :: u32) \<noteq> 0" by (metis unat_0 nat.distinct(1))
  then show ?case using Suc by (subst factorial.simps) (simp add: algebra_simps)
qed (simp add: factorial.simps)

text \<open>From 13 on the answer is not the factorial.\<close>

lemma factorial_13: "factorial 13 = 1932053504" "fact 13 = (6227020800 :: nat)"
  using factorial_wraps [of 13] by (simp_all add: fact_numeral)

definition add_failed :: message where
  "add_failed = (''add failed!'' @ [CHR 0x0A], [])"

definition inserting :: "u32 \<Rightarrow> message" where
  "inserting p = (''Inserting 0x%x'' @ [CHR 0x0A], [p])"

lemma try_to_add_result:
  assumes "heap_run (store s) (P \<union> set ps)" "is_list (store s) list ps ws" "P \<inter> set ps = {}"
  obtains (added) list' s' p where "try_to_add v list s = Some (Inr (list', s'))" "p \<notin> P \<union> set ps"
      "heap_run (store s') (P \<union> set (ps @ [p]))" "is_list (store s') list' (ps @ [p]) (ws @ [v])"
      "keeps (store s) (store s') P" "messages s' = messages s @ [inserting p]"
    | (failed) s' where "try_to_add v list s = Some (Inr (list, s'))" "heap_run (store s') (P \<union> set ps)"
      "is_list (store s') list ps ws" "keeps (store s) (store s') P" "messages s' = messages s @ [add_failed]"
proof -
  have P: "P \<union> set ps - set ps = P" using assms(3) by blast
  obtain p r list' s' where r: "add_to_list s list v = Some (Inr (r, list', s'))"
    "if p = 0
     then r = -1 \<and> list' = list \<and> heap_run (store s') (P \<union> set ps) \<and> is_list (store s') list ps ws \<and>
       keeps (store s) (store s') (P \<union> set ps) \<and> messages s' = messages s
     else r = 0 \<and> p \<notin> P \<union> set ps \<and> heap_run (store s') (insert p (P \<union> set ps)) \<and>
       is_list (store s') list' (ps @ [p]) (ws @ [v]) \<and> keeps (store s) (store s') P \<and> messages s' = messages s @ [inserting p]"
    using add_result [OF assms(1,2) Un_upper2, of v] unfolding P inserting_def by blast
  show thesis
  proof (cases "p = 0")
    case False
    with r have "try_to_add v list s = Some (Inr (list', s'))" by (simp add: try_to_add_def)
    with False r(2) show thesis by (intro added [of list' s' p]) simp_all
  next
    case True
    then have rest: "list' = list" "heap_run (store s') (P \<union> set ps)" "is_list (store s') list ps ws"
      "keeps (store s) (store s') (P \<union> set ps)" "messages s' = messages s" using r(2) by simp_all
    have "try_to_add v list s = Some (Inr (list, say ''add failed!'' [] s'))"
      using r True by (simp add: try_to_add_def)
    then show thesis
      using rest keeps_subset [OF rest(4) Un_upper1] by (intro failed [of "say ''add failed!'' [] s'"]) (simp_all add: add_failed_def)
  qed
qed

lemma add_all_result:
  assumes "heap_run (store s) (P \<union> set ps)" "is_list (store s) list ps ws" "P \<inter> set ps = {}"
  shows "\<exists>list' s' qs us log. add_all vs list s = Some (Inr (list', s')) \<and> heap_run (store s') (P \<union> set (ps @ qs)) \<and>
    is_list (store s') list' (ps @ qs) (ws @ us) \<and> P \<inter> set (ps @ qs) = {} \<and> subseq us vs \<and>
    keeps (store s) (store s') P \<and> messages s' = messages s @ log \<and>
    length (filter (\<lambda>m. m = add_failed) log) + length us = length vs"
  using assms
proof (induction vs arbitrary: list s ps ws)
  case Nil
  then show ?case
    by (intro exI [of _ list] exI [of _ s] exI [of _ "[]"]) (simp add: keeps_def)
next
  case (Cons v vs)
  from Cons.prems show ?case
  proof (cases rule: try_to_add_result [where v = v])
    case (added list' s' p)
    have disj: "P \<inter> set (ps @ [p]) = {}" using added(2) Cons.prems(3) by auto
    from Cons.IH [OF added(3,4) disj] obtain list'' s'' qs us log where IH:
      "add_all vs list' s' = Some (Inr (list'', s''))" "heap_run (store s'') (P \<union> set ((ps @ [p]) @ qs))"
      "is_list (store s'') list'' ((ps @ [p]) @ qs) ((ws @ [v]) @ us)" "P \<inter> set ((ps @ [p]) @ qs) = {}" "subseq us vs"
      "keeps (store s') (store s'') P" "messages s'' = messages s' @ log"
      "length (filter (\<lambda>m. m = add_failed) log) + length us = length vs" by blast
    have "keeps (store s) (store s'') P" by (rule keeps_trans [OF added(5) IH(6)])
    then show ?thesis
      using added(1,6) IH
      by (intro exI [of _ list''] exI [of _ s''] exI [of _ "p # qs"] exI [of _ "v # us"] exI [of _ "inserting p # log"])
        (simp add: inserting_def add_failed_def)
  next
    case (failed s')
    from Cons.IH [OF failed(2,3) Cons.prems(3)] obtain list'' s'' qs us log where IH:
      "add_all vs list s' = Some (Inr (list'', s''))" "heap_run (store s'') (P \<union> set (ps @ qs))"
      "is_list (store s'') list'' (ps @ qs) (ws @ us)" "P \<inter> set (ps @ qs) = {}" "subseq us vs"
      "keeps (store s') (store s'') P" "messages s'' = messages s' @ log"
      "length (filter (\<lambda>m. m = add_failed) log) + length us = length vs" by blast
    have "keeps (store s) (store s'') P" by (rule keeps_trans [OF failed(4) IH(6)])
    then show ?thesis
      using failed(1,5) IH
      by (intro exI [of _ list''] exI [of _ s''] exI [of _ qs] exI [of _ us] exI [of _ "add_failed # log"])
        (simp add: list_emb_Cons)
  qed
qed

definition item_message :: "u32 \<Rightarrow> message" where
  "item_message k = (''item %d'' @ [CHR 0x0A], [k])"

lemma fold_output:
  "store (fold (output_list_item vars) ps s) = store s"
  "messages (fold (output_list_item vars) ps s) =
    messages s @ map (\<lambda>p. item_message (vars (mem (store s) (p + 8)))) ps"
  by (induction ps arbitrary: s) (simp_all add: output_list_item_def item_message_def)

section \<open>Properties\<close>

text \<open>
  C13. In any run of the heap the self-test of the linked list returns: it prints the values of the
  variables that could be added, in their order, at most as many as calls without the failure message;
  it frees every item it has allocated; and all other blocks are as before.
\<close>

theorem linked_list_test_returns:
  assumes "heap_run (store s) P" "distinct [a, b, c, d]"
  shows "\<exists>s' log ks ps. linked_list_test stack_vars a b c d s = Some (Inr s') \<and> heap_run (store s') P \<and>
    keeps (store s) (store s') P \<and> messages s' = messages s @ log @ map item_message ks @ map deleting ps \<and>
    subseq ks [1, 2, 3, 4] \<and> length ps = length ks \<and> length (filter (\<lambda>m. m = add_failed) log) + length ks = 4"
proof -
  let ?vars = "stack_vars(a := 1, b := 2, c := 3, d := 4)"
  have "is_list (store s) 0 [] []" using is_list_empty assms(1) by blast
  with add_all_result [of s P "[]" 0 "[]" "[a, b, c, d]"] assms(1)
  obtain list s1 ps us log where s1: "add_all [a, b, c, d] 0 s = Some (Inr (list, s1))" "heap_run (store s1) (P \<union> set ps)"
    "is_list (store s1) list ps us" "P \<inter> set ps = {}" "subseq us [a, b, c, d]"
    "keeps (store s) (store s1) P" "messages s1 = messages s @ log"
    "length (filter (\<lambda>m. m = add_failed) log) + length us = 4" by auto
  let ?s2 = "fold (output_list_item ?vars) ps s1"
  have "store (output_list_item ?vars p t) = store t" for p t by (simp add: output_list_item_def)
  with walk_result [OF s1(3)] have walk: "iterate_over_list list (output_list_item ?vars) s1 = Some ?s2" by blast
  have us: "map (\<lambda>p. mem (store s1) (p + 8)) ps = us" using s1(3) by (simp add: is_list_def linked_items_def)
  have "map (\<lambda>p. item_message (?vars (mem (store s1) (p + 8)))) ps = map item_message (map ?vars us)"
    unfolding us [symmetric] by simp
  then have printed: "messages ?s2 = messages s @ log @ map item_message (map ?vars us)"
    unfolding fold_output(2) s1(7) by simp
  obtain s' where s': "delete_list ?s2 list = Some (Inr (0, s'))" "heap_run (store s') (P \<union> set ps - set ps)"
    "keeps (store ?s2) (store s') (P \<union> set ps - set ps)" "messages s' = messages ?s2 @ map deleting ps"
    using delete_result [of ?s2 "P \<union> set ps" list ps us] s1(2,3) unfolding fold_output(1) by blast
  have P: "P \<union> set ps - set ps = P" using s1(4) by blast
  have "subseq (map ?vars us) (map ?vars [a, b, c, d])" by (rule subseq_map [OF s1(5)])
  moreover have "map ?vars [a, b, c, d] = [1, 2, 3, 4]" using assms(2) by auto
  moreover have "linked_list_test stack_vars a b c d s = Some (Inr s')"
    using s1(1) walk s'(1) by (simp add: linked_list_test_def Let_def)
  moreover have "keeps (store s) (store s') P" using keeps_trans [OF s1(6)] s'(3) unfolding P fold_output(1) by blast
  moreover have "length ps = length us" unfolding us [symmetric] by simp
  ultimately show ?thesis
    using s'(2,4) s1(8) printed unfolding P
    by (intro exI [of _ s'] exI [of _ log] exI [of _ "map ?vars us"] exI [of _ ps]) simp
qed

theorem linked_list_test_returns_witness:
  "\<exists>s' ks. linked_list_test (\<lambda>_. 0) 16 12 8 4 \<lparr>store = example_heap, messages = []\<rparr> = Some (Inr s') \<and>
    heap_run (store s') {} \<and> subseq ks [1, 2, 3, 4 :: u32]"
proof -
  have "heap_run (store \<lparr>store = example_heap, messages = []\<rparr>) {}"
    using heap_run.start [OF example_fresh] by simp
  from linked_list_test_returns [OF this, of 16 12 8 4 "\<lambda>_. 0"] show ?thesis by fastforce
qed

end
