(* ===== verification/Ports.thy ===== *)
theory Ports
  imports Console_Correct
begin

text \<open>
  The port instructions of \<^verbatim>\<open>common.c\<close> (\<^verbatim>\<open>outb\<close> to \<^verbatim>\<open>inl\<close>). What is behind the ports is hardware: a \<open>bus\<close> says
  how it reacts to an access, \<open>'d\<close> is its state. A read may change it as well as a write. The state of a
  routine that uses ports is the hardware, the bytes of main memory that it fills for the hardware, the
  screen, and the messages it has printed on it. A message is printed by \<^verbatim>\<open>k_printf\<close> (\<open>Console\<close>), so it moves
  the cursor and writes to the video memory; the list of messages only records the calls.
\<close>

record 'd bus =
  write8 :: "u16 \<Rightarrow> u8 \<Rightarrow> 'd \<Rightarrow> 'd"
  write16 :: "u16 \<Rightarrow> u16 \<Rightarrow> 'd \<Rightarrow> 'd"
  write32 :: "u16 \<Rightarrow> u32 \<Rightarrow> 'd \<Rightarrow> 'd"
  read8 :: "u16 \<Rightarrow> 'd \<Rightarrow> u8 \<times> 'd"
  read16 :: "u16 \<Rightarrow> 'd \<Rightarrow> u16 \<times> 'd"
  read32 :: "u16 \<Rightarrow> 'd \<Rightarrow> u32 \<times> 'd"

record 'd pc =
  device :: 'd
  ram :: "u32 \<Rightarrow> u8"
  screen :: console
  output_log :: "message list"

definition outb :: "'d bus \<Rightarrow> u8 \<Rightarrow> u16 \<Rightarrow> 'd pc \<Rightarrow> 'd pc" where
  "outb bus v port s = s\<lparr>device := write8 bus port v (device s)\<rparr>"

definition outw :: "'d bus \<Rightarrow> u16 \<Rightarrow> u16 \<Rightarrow> 'd pc \<Rightarrow> 'd pc" where
  "outw bus v port s = s\<lparr>device := write16 bus port v (device s)\<rparr>"

definition outl :: "'d bus \<Rightarrow> u32 \<Rightarrow> u16 \<Rightarrow> 'd pc \<Rightarrow> 'd pc" where
  "outl bus v port s = s\<lparr>device := write32 bus port v (device s)\<rparr>"

definition inb :: "'d bus \<Rightarrow> u16 \<Rightarrow> 'd pc \<Rightarrow> u8 \<times> 'd pc" where
  "inb bus port s = (let (v, d) = read8 bus port (device s) in (v, s\<lparr>device := d\<rparr>))"

definition inw :: "'d bus \<Rightarrow> u16 \<Rightarrow> 'd pc \<Rightarrow> u16 \<times> 'd pc" where
  "inw bus port s = (let (v, d) = read16 bus port (device s) in (v, s\<lparr>device := d\<rparr>))"

definition inl :: "'d bus \<Rightarrow> u16 \<Rightarrow> 'd pc \<Rightarrow> u32 \<times> 'd pc" where
  "inl bus port s = (let (v, d) = read32 bus port (device s) in (v, s\<lparr>device := d\<rparr>))"

text \<open>
  \<^verbatim>\<open>k_printf(fmt, args)\<close> without \<^verbatim>\<open>%s\<close>. Its conversion buffer is uninitialised in the code; \<^verbatim>\<open>k_itoa\<close>
  writes a string and its terminator before the buffer is read.
\<close>

definition print :: "string \<Rightarrow> u32 list \<Rightarrow> 'd pc \<Rightarrow> 'd pc result" where
  "print fmt args s =
     and_then (print_format (\<lambda>_. []) (replicate 20 0) fmt args (screen s)) (\<lambda>c.
     Inr (s\<lparr>screen := c, output_log := output_log s @ [(fmt, args)]\<rparr>))"

definition newline_char :: string where
  "newline_char = [CHR 0x0A]"

text \<open>Every access of a routine, with the answers given by a function of the accesses so far.\<close>

datatype access =
    Out8 u16 u8 | Out16 u16 u16 | Out32 u16 u32 | In8 u16 | In16 u16 | In32 u16

definition recorder :: "(access list \<Rightarrow> u32) \<Rightarrow> access list bus" where
  "recorder reply = \<lparr>write8 = (\<lambda>p v d. d @ [Out8 p v]), write16 = (\<lambda>p v d. d @ [Out16 p v]),
     write32 = (\<lambda>p v d. d @ [Out32 p v]),
     read8 = (\<lambda>p d. (ucast (reply (d @ [In8 p])), d @ [In8 p])),
     read16 = (\<lambda>p d. (ucast (reply (d @ [In16 p])), d @ [In16 p])),
     read32 = (\<lambda>p d. (reply (d @ [In32 p]), d @ [In32 p]))\<rparr>"

lemmas port_defs = outb_def outw_def outl_def inb_def inw_def inl_def

lemma recorder_simps [simp]:
  "write8 (recorder r) p v8 d = d @ [Out8 p v8]" "write16 (recorder r) p v16 d = d @ [Out16 p v16]"
  "write32 (recorder r) p v32 d = d @ [Out32 p v32]" "read8 (recorder r) p d = (ucast (r (d @ [In8 p])), d @ [In8 p])"
  "read16 (recorder r) p d = (ucast (r (d @ [In16 p])), d @ [In16 p])"
  "read32 (recorder r) p d = (r (d @ [In32 p]), d @ [In32 p])"
  by (simp_all add: recorder_def)

lemma port_quiet [simp]:
  "screen (outb bus v8 p s) = screen s" "screen (outw bus v16 p s) = screen s" "screen (outl bus v32 p s) = screen s"
  "screen (snd (inb bus p s)) = screen s" "screen (snd (inl bus p s)) = screen s"
  "output_log (outb bus v8 p s) = output_log s" "output_log (outw bus v16 p s) = output_log s"
  "output_log (outl bus v32 p s) = output_log s"
  "output_log (snd (inb bus p s)) = output_log s" "output_log (snd (inl bus p s)) = output_log s"
  by (simp_all add: port_defs split_beta)

section \<open>Messages on the screen\<close>

definition message_text :: "message \<Rightarrow> u32 list option" where
  "message_text m = render (\<lambda>_. []) (bytes_of (fst m)) (snd m)"

text \<open>The texts of the messages, one behind the other, bring the screen from \<open>c\<close> to \<open>c'\<close>.\<close>

definition shows_messages :: "console \<Rightarrow> message list \<Rightarrow> console \<Rightarrow> bool" where
  "shows_messages c ms c' \<longleftrightarrow>
     (\<exists>texts. map message_text ms = map Some texts \<and> shows_text c (concat texts) c')"

definition prints :: "'d pc \<Rightarrow> message list \<Rightarrow> 'd pc \<Rightarrow> bool" where
  "prints s ms s' \<longleftrightarrow> output_log s' = output_log s @ ms \<and> shows_messages (screen s) ms (screen s')"

lemma prints_cursor: "prints s ms s' \<Longrightarrow> cursor_ok (screen s')"
  by (auto simp: prints_def shows_messages_def shows_text_def)

lemma prints_Nil: "cursor_ok (screen s) \<Longrightarrow> prints s [] s"
  by (simp add: prints_def shows_messages_def shows_text_Nil)

lemma prints_trans:
  assumes "prints s ms t" "prints t ns u"
  shows "prints s (ms @ ns) u"
proof -
  obtain xs ys where "map message_text ms = map Some xs" "shows_text (screen s) (concat xs) (screen t)"
    "map message_text ns = map Some ys" "shows_text (screen t) (concat ys) (screen u)"
    using assms by (auto simp: prints_def shows_messages_def)
  then have "map message_text (ms @ ns) = map Some (xs @ ys)" "shows_text (screen s) (concat (xs @ ys)) (screen u)"
    using shows_text_trans by auto
  then have "shows_messages (screen s) (ms @ ns) (screen u)" unfolding shows_messages_def by blast
  then show ?thesis using assms by (simp add: prints_def)
qed

lemma prints_quiet:
  "prints s ms t \<Longrightarrow> screen u = screen t \<Longrightarrow> output_log u = output_log t \<Longrightarrow> prints s ms u"
  by (simp add: prints_def)

lemma prints_from:
  "prints s ms t \<Longrightarrow> screen r = screen s \<Longrightarrow> output_log r = output_log s \<Longrightarrow> prints r ms t"
  by (simp add: prints_def)

text \<open>With the cursor on the screen and as many arguments as directives \<^verbatim>\<open>k_printf\<close> has no fault; \<open>after_print\<close> is its effect.\<close>

definition renders :: "string \<Rightarrow> nat \<Rightarrow> bool" where
  "renders fmt n \<longleftrightarrow> directives (bytes_of fmt) = Some n \<and> 0 \<notin> set (bytes_of fmt)"

definition after_print :: "string \<Rightarrow> u32 list \<Rightarrow> 'd pc \<Rightarrow> 'd pc" where
  "after_print fmt args s = (case print fmt args s of Inl _ \<Rightarrow> s | Inr s' \<Rightarrow> s')"

lemma after_print_keeps [simp]: "device (after_print fmt args s) = device s" "ram (after_print fmt args s) = ram s"
  by (auto simp: after_print_def print_def and_then_def split: sum.splits)

lemma print_after:
  assumes "cursor_ok (screen s)" "renders fmt (length args)"
  shows "print fmt args s = Inr (after_print fmt args s)" "prints s [(fmt, args)] (after_print fmt args s)"
proof -
  obtain codes where codes: "render (\<lambda>_. []) (bytes_of fmt) args = Some codes"
    using render_directives assms(2) unfolding renders_def by blast
  obtain c where c: "print_format (\<lambda>_. []) (replicate 20 0) fmt args (screen s) = Inr c" "shows_text (screen s) codes c"
    using print_format_shows [OF assms(1) codes, of "replicate 20 0"] assms(2) by (auto simp: renders_def)
  then show "print fmt args s = Inr (after_print fmt args s)" by (simp add: after_print_def print_def)
  have "map message_text [(fmt, args)] = map Some [codes]" using codes by (simp add: message_text_def)
  then show "prints s [(fmt, args)] (after_print fmt args s)"
    using c unfolding prints_def shows_messages_def
    by (intro conjI exI [of _ "[codes]"]) (simp_all add: after_print_def print_def)
qed

text \<open>Some messages.\<close>

definition printing :: "'d pc \<Rightarrow> 'd pc \<Rightarrow> bool" where
  "printing s s' \<longleftrightarrow> (\<exists>ms. prints s ms s')"

lemma printing_length: "printing s s' \<Longrightarrow> length (video (screen s')) = length (video (screen s))"
  by (auto simp: printing_def prints_def shows_messages_def dest: shows_text_length)

lemma printing_refl: "cursor_ok (screen s) \<Longrightarrow> printing s s"
  using prints_Nil by (auto simp: printing_def)

lemma printing_cursor [simp]: "printing s s' \<Longrightarrow> cursor_ok (screen s')"
  by (auto simp: printing_def prints_cursor)

lemma printing_trans: "printing s t \<Longrightarrow> printing t u \<Longrightarrow> printing s u"
  using prints_trans by (fastforce simp: printing_def)

lemma printing_quiet: "printing s t \<Longrightarrow> screen u = screen t \<Longrightarrow> output_log u = output_log t \<Longrightarrow> printing s u"
  using prints_quiet by (fastforce simp: printing_def)

lemma printing_after: "cursor_ok (screen s) \<Longrightarrow> renders fmt (length args) \<Longrightarrow> printing s (after_print fmt args s)"
  using print_after(2) by (fastforce simp: printing_def)

lemma cursor_after [simp]:
  "cursor_ok (screen s) \<Longrightarrow> renders fmt (length args) \<Longrightarrow> cursor_ok (screen (after_print fmt args s))"
  using printing_after printing_cursor by blast

text \<open>\<open>runs s state r\<close>: the routine with the result \<open>r\<close> has no fault, and since \<open>s\<close> only messages were printed.\<close>

definition runs :: "'d pc \<Rightarrow> ('a \<Rightarrow> 'd pc) \<Rightarrow> 'a result \<Rightarrow> bool" where
  "runs s state r \<longleftrightarrow> (\<exists>x. r = Inr x \<and> printing s (state x))"

lemma runs_Inr [simp]: "runs s state (Inr x) \<longleftrightarrow> printing s (state x)"
  by (simp add: runs_def)

lemma runs_then:
  assumes "runs s state r" "\<And>x. r = Inr x \<Longrightarrow> printing s (state x) \<Longrightarrow> runs s state' (k x)"
  shows "runs s state' (and_then r k)"
  using assms by (auto simp: runs_def)

lemma runs_if:
  "(b \<Longrightarrow> runs s state r) \<Longrightarrow> (\<not> b \<Longrightarrow> runs s state r') \<Longrightarrow> runs s state (if b then r else r')"
  by simp

lemma runs_print:
  assumes "printing s t" "renders fmt (length args)"
  shows "runs s (\<lambda>u. u) (print fmt args t)"
  using assms print_after(1) printing_after printing_trans unfolding runs_def by (metis printing_cursor)

lemma print_keeps:
  assumes "print fmt args s = Inr s'"
  shows "device s' = device s \<and> ram s' = ram s"
  using assms by (auto simp: print_def and_then_eq_Inr)

lemma printing_port [simp]:
  "printing s (outb bus v8 p t) = printing s t" "printing s (outw bus v16 p t) = printing s t"
  "printing s (outl bus v32 p t) = printing s t" "printing s (snd (inb bus p t)) = printing s t"
  "printing s (snd (inl bus p t)) = printing s t" "printing s (t\<lparr>ram := m\<rparr>) = printing s t"
  by (simp_all add: printing_def prints_def)

end
