(* ===== verification/PCI.thy ===== *)
theory PCI
  imports Ports
begin

text \<open>
  \<^verbatim>\<open>pci/pci.c\<close>: the configuration space of the PCI bus, the EEPROM of the network card, the enumeration
  of the bus and the start of an RTL8139 card. Each routine takes the bus (\<open>Ports\<close>) and passes the
  state on; ports are 16 bits wide and a wider port number is cut. The waiting loops of the code with an
  empty body have no effect. A routine that prints or accesses an array can fault (\<open>result\<close>), one that waits
  for the card may not return (\<open>result option\<close>). The addresses of the local buffers \<^verbatim>\<open>rx_buffer\<close> and \<^verbatim>\<open>tx_buffer\<close>, which are
  handed to the card, are arguments.
\<close>

section \<open>Configuration space\<close>

definition PCI_ENABLE_BIT :: u32 where "PCI_ENABLE_BIT = 0x80000000"
definition PCI_CONFIG_ADDRESS :: u16 where "PCI_CONFIG_ADDRESS = 0xCF8"
definition PCI_CONFIG_DATA :: u16 where "PCI_CONFIG_DATA = 0xCFC"

definition register_index :: "u8 \<Rightarrow> u8 \<Rightarrow> u8 \<Rightarrow> u32 \<Rightarrow> u32" where
  "register_index bus_no dev func reg =
     PCI_ENABLE_BIT OR push_bit 16 (ucast bus_no) OR push_bit 11 (ucast dev) OR push_bit 8 (ucast func) OR reg"

definition r_pci_32 :: "'d bus \<Rightarrow> u8 \<Rightarrow> u8 \<Rightarrow> u8 \<Rightarrow> u8 \<Rightarrow> 'd pc \<Rightarrow> u32 \<times> 'd pc" where
  "r_pci_32 bus bus_no dev func pcireg s =
     (let index = register_index bus_no dev func (push_bit 2 (ucast pcireg));
          s1 = outl bus index PCI_CONFIG_ADDRESS s
      in inl bus PCI_CONFIG_DATA s1)"

definition pciConfigReadWord :: "'d bus \<Rightarrow> u8 \<Rightarrow> u8 \<Rightarrow> u8 \<Rightarrow> u8 \<Rightarrow> 'd pc \<Rightarrow> u16 \<times> 'd pc" where
  "pciConfigReadWord bus bus_no slot func offset s =
     (let address = push_bit 16 (ucast bus_no) OR push_bit 11 (ucast slot) OR push_bit 8 (ucast func) OR
            (ucast offset AND 0xFC) OR 0x80000000;
          s1 = outl bus address 0xCF8 s;
          (v, s2) = inl bus 0xCFC s1
      in (ucast (drop_bit (unat ((offset AND 2) * 8)) v AND 0xFFFF), s2))"

definition pcibios_read_config_byte ::
    "'d bus \<Rightarrow> u32 \<Rightarrow> u32 \<Rightarrow> u32 \<Rightarrow> u32 \<Rightarrow> 'd pc \<Rightarrow> u8 \<times> 'd pc" where
  "pcibios_read_config_byte bus bus_no dev device_fn reg_no s =
     (let index = PCI_ENABLE_BIT OR push_bit 16 bus_no OR push_bit 11 dev OR push_bit 8 device_fn OR
            (reg_no AND NOT 3);
          s1 = outl bus index 0xCF8 s
      in inb bus (ucast (0xCFC + (reg_no AND 3))) s1)"

text \<open>\<^verbatim>\<open>w_pci_32\<close> and \<^verbatim>\<open>w_pci_8\<close> are declared with a result but have no return statement.\<close>

definition w_pci_32 :: "'d bus \<Rightarrow> u8 \<Rightarrow> u8 \<Rightarrow> u8 \<Rightarrow> u8 \<Rightarrow> u32 \<Rightarrow> 'd pc \<Rightarrow> 'd pc" where
  "w_pci_32 bus bus_no dev func pcireg v s =
     (let index = register_index bus_no dev func (push_bit 2 (ucast pcireg));
          s1 = outl bus index PCI_CONFIG_ADDRESS s
      in outl bus v PCI_CONFIG_DATA s1)"

definition w_pci_8 :: "'d bus \<Rightarrow> u8 \<Rightarrow> u8 \<Rightarrow> u8 \<Rightarrow> u8 \<Rightarrow> u8 \<Rightarrow> 'd pc \<Rightarrow> 'd pc" where
  "w_pci_8 bus bus_no dev func pcireg v s =
     (let index = register_index bus_no dev func (ucast pcireg AND NOT 3);
          s1 = outl bus index PCI_CONFIG_ADDRESS s
      in outb bus v PCI_CONFIG_DATA s1)"

definition pcibios_write_config_dword :: "'d bus \<Rightarrow> u8 \<Rightarrow> u8 \<Rightarrow> u8 \<Rightarrow> u8 \<Rightarrow> u32 \<Rightarrow> 'd pc \<Rightarrow> 'd pc" where
  "pcibios_write_config_dword bus bus_no dev func pcireg v s =
     (let index = register_index bus_no dev func (push_bit 2 (ucast pcireg));
          s1 = outl bus index PCI_CONFIG_ADDRESS s
      in outl bus v PCI_CONFIG_DATA s1)"

definition config_cmd :: "u8 \<Rightarrow> u32 \<Rightarrow> u32 \<Rightarrow> u32" where
  "config_cmd bus_no devfn reg_no =
     0x80000000 OR push_bit 16 (ucast bus_no) OR push_bit 8 devfn OR (reg_no AND NOT 3)"

definition pcibios_write_config_byte :: "'d bus \<Rightarrow> u8 \<Rightarrow> u32 \<Rightarrow> u32 \<Rightarrow> u8 \<Rightarrow> 'd pc \<Rightarrow> 'd pc" where
  "pcibios_write_config_byte bus bus_no devfn reg_no v s =
     (let s1 = outl bus (config_cmd bus_no devfn reg_no) 0xCF8 s in
      outb bus v (ucast (0xCFC + (reg_no AND 3))) s1)"

text \<open>The words are widened to 64 bits; \<^verbatim>\<open>outl\<close> takes the low 32 bits.\<close>

definition word_address :: "u16 \<Rightarrow> u16 \<Rightarrow> u16 \<Rightarrow> u16 \<Rightarrow> u64" where
  "word_address bus_no slot func offset =
     push_bit 16 (ucast bus_no) OR push_bit 11 (ucast slot) OR push_bit 8 (ucast func) OR
     (ucast offset AND 0xFC) OR ucast PCI_ENABLE_BIT"

definition pci_read_word :: "'d bus \<Rightarrow> u16 \<Rightarrow> u16 \<Rightarrow> u16 \<Rightarrow> u16 \<Rightarrow> 'd pc \<Rightarrow> u16 \<times> 'd pc" where
  "pci_read_word bus bus_no slot func offset s =
     (let s1 = outl bus (ucast (word_address bus_no slot func offset)) PCI_CONFIG_ADDRESS s;
          (v, s2) = inl bus PCI_CONFIG_DATA s1
      in (ucast (drop_bit (unat ((offset AND 2) * 8)) v AND 0xFFFF), s2))"

definition pci_write_word :: "'d bus \<Rightarrow> u16 \<Rightarrow> u16 \<Rightarrow> u16 \<Rightarrow> u16 \<Rightarrow> u16 \<Rightarrow> 'd pc \<Rightarrow> u16 \<times> 'd pc" where
  "pci_write_word bus bus_no slot func offset data s =
     (let address = ucast (word_address bus_no slot func offset);
          s1 = outl bus address PCI_CONFIG_ADDRESS s;
          (tmp, s2) = inl bus PCI_CONFIG_DATA s1;
          shift = unat ((offset AND 0x2) * 8);
          tmp1 = tmp AND NOT (push_bit shift 0xFFFF);
          tmp2 = tmp1 OR push_bit shift (ucast data);
          s3 = outl bus address PCI_CONFIG_ADDRESS s2;
          s4 = outl bus tmp2 PCI_CONFIG_DATA s3
      in pci_read_word bus bus_no slot func offset s4)"

definition pciCheckVendor :: "'d bus \<Rightarrow> u8 \<Rightarrow> u8 \<Rightarrow> 'd pc \<Rightarrow> u16 \<times> 'd pc" where
  "pciCheckVendor bus bus_no slot s =
     (let (vendor, s1) = pciConfigReadWord bus bus_no slot 0 0 s in
      if vendor \<noteq> 0xFFFF then
        let (device_id, s2) = pciConfigReadWord bus bus_no slot 0 2 s1 in (vendor, s2)
      else (vendor, s1))"

section \<open>The EEPROM of the card\<close>

definition ChipCmd :: u32 where "ChipCmd = 0x37"
definition RxBuf :: u32 where "RxBuf = 0x30"
definition IntrMask :: u32 where "IntrMask = 0x3C"
definition TxConfig :: u32 where "TxConfig = 0x40"
definition RxConfig :: u32 where "RxConfig = 0x44"
definition Cfg9346 :: u32 where "Cfg9346 = 0x50"
definition Config1 :: u32 where "Config1 = 0x52"

definition EE_SHIFT_CLK :: u32 where "EE_SHIFT_CLK = 0x04"
definition EE_CS :: u32 where "EE_CS = 0x08"
definition EE_DATA_WRITE :: u32 where "EE_DATA_WRITE = 0x02"
definition EE_DATA_READ :: u32 where "EE_DATA_READ = 0x01"
definition EE_ENB :: u32 where "EE_ENB = 0x80 OR EE_CS"
definition EE_READ_CMD :: u32 where "EE_READ_CMD = push_bit 6 6"

definition eeprom_delay :: "'d bus \<Rightarrow> u32 \<Rightarrow> 'd pc \<Rightarrow> 'd pc" where
  "eeprom_delay bus ee_addr s = snd (inl bus (ucast ee_addr) s)"

text \<open>The bits \<open>n - 1\<close> down to 0 of the command.\<close>

fun shift_out :: "'d bus \<Rightarrow> u32 \<Rightarrow> u32 \<Rightarrow> nat \<Rightarrow> 'd pc \<Rightarrow> 'd pc" where
  "shift_out bus ee_addr read_cmd 0 s = s"
| "shift_out bus ee_addr read_cmd (Suc i) s =
     (let dataval = (if read_cmd AND push_bit i 1 \<noteq> 0 then EE_DATA_WRITE else 0);
          s1 = outb bus (ucast (EE_ENB OR dataval)) (ucast ee_addr) s;
          s2 = eeprom_delay bus ee_addr s1;
          s3 = outb bus (ucast (EE_ENB OR dataval OR EE_SHIFT_CLK)) (ucast ee_addr) s2;
          s4 = eeprom_delay bus ee_addr s3
      in shift_out bus ee_addr read_cmd i s4)"

fun shift_in :: "'d bus \<Rightarrow> u32 \<Rightarrow> nat \<Rightarrow> u32 \<Rightarrow> 'd pc \<Rightarrow> u32 \<times> 'd pc" where
  "shift_in bus ee_addr 0 retval s = (retval, s)"
| "shift_in bus ee_addr (Suc i) retval s =
     (let s1 = outb bus (ucast (EE_ENB OR EE_SHIFT_CLK)) (ucast ee_addr) s;
          s2 = eeprom_delay bus ee_addr s1;
          (v, s3) = inb bus (ucast ee_addr) s2;
          retval' = push_bit 1 retval OR (if ucast v AND EE_DATA_READ \<noteq> 0 then 1 else 0);
          s4 = outb bus (ucast EE_ENB) (ucast ee_addr) s3;
          s5 = eeprom_delay bus ee_addr s4
      in shift_in bus ee_addr i retval' s5)"

definition read_eeprom :: "'d bus \<Rightarrow> u32 \<Rightarrow> u32 \<Rightarrow> 'd pc \<Rightarrow> u32 \<times> 'd pc" where
  "read_eeprom bus ioaddr location s =
     (let ee_addr = ioaddr + Cfg9346;
          read_cmd = location OR EE_READ_CMD;
          s1 = outb bus (ucast (EE_ENB AND NOT EE_CS)) (ucast ee_addr) s;
          s2 = outb bus (ucast EE_ENB) (ucast ee_addr) s1;
          s3 = shift_out bus ee_addr read_cmd 11 s2;
          s4 = outb bus (ucast EE_ENB) (ucast ee_addr) s3;
          s5 = eeprom_delay bus ee_addr s4;
          (retval, s6) = shift_in bus ee_addr 16 0 s5
      in (retval, outb bus (ucast (NOT EE_CS)) (ucast ee_addr) s6))"

section \<open>Enumeration of the bus\<close>

text \<open>The variables of \<^verbatim>\<open>init_pcilist\<close> that the loops assign.\<close>

record nic =
  realtek8319Found :: int
  pci_bus :: u8
  pci_device :: u8
  pci_device_fn :: u8

definition probe :: "'d bus \<Rightarrow> u8 \<Rightarrow> u8 \<Rightarrow> u8 \<Rightarrow> nic \<times> 'd pc \<Rightarrow> (nic \<times> 'd pc) result" where
  "probe bus bus_no dev func st =
     (let (n, s) = st; (data, s1) = r_pci_32 bus bus_no dev func 0 s in
      if data \<noteq> 0xFFFFFFFF then
        let device_value = ucast (drop_bit 16 data) :: u16; vendor = ucast (data AND 0xFFFF) :: u16 in
        if vendor = 0x10EC \<and> device_value = 0x8139 then
          and_then (print ''RTL8139 found! bus: %d'' [ucast bus_no] s1) (\<lambda>s2.
          and_then (print '' device: %d'' [ucast dev] s2) (\<lambda>s3.
          and_then (print ('' func: %d '' @ newline_char) [ucast func] s3) (\<lambda>s4.
          Inr (\<lparr>realtek8319Found = 1, pci_bus = bus_no, pci_device = dev, pci_device_fn = func\<rparr>, s4))))
        else Inr (n\<lparr>realtek8319Found := 0\<rparr>, s1)
      else Inr (n, s1))"

function func_loop :: "'d bus \<Rightarrow> u8 \<Rightarrow> u8 \<Rightarrow> u8 \<Rightarrow> nic \<times> 'd pc \<Rightarrow> (nic \<times> 'd pc) result" where
  "func_loop bus bus_no dev func st =
     (if func < 8 then and_then (probe bus bus_no dev func st) (\<lambda>st'. func_loop bus bus_no dev (func + 1) st')
      else Inr st)"
  by pat_completeness auto
termination
proof (relation "measure (\<lambda>(_, _, _, f, _). 8 - unat f)", goal_cases)
  case (2 bus bus_no dev func st st')
  then have "unat (func + 1) = unat func + 1" by (simp add: word_less_nat_alt unat_plus_no_wrap)
  then show ?case using 2 by (simp add: word_less_nat_alt)
qed simp

function device_loop :: "'d bus \<Rightarrow> u8 \<Rightarrow> u8 \<Rightarrow> nic \<times> 'd pc \<Rightarrow> (nic \<times> 'd pc) result" where
  "device_loop bus bus_no dev st =
     (if dev < 32 then and_then (func_loop bus bus_no dev 0 st) (\<lambda>st'. device_loop bus bus_no (dev + 1) st')
      else Inr st)"
  by pat_completeness auto
termination
proof (relation "measure (\<lambda>(_, _, d, _). 32 - unat d)", goal_cases)
  case (2 bus bus_no dev st st')
  then have "unat (dev + 1) = unat dev + 1" by (simp add: word_less_nat_alt unat_plus_no_wrap)
  then show ?case using 2 by (simp add: word_less_nat_alt)
qed simp

function bus_loop :: "'d bus \<Rightarrow> u8 \<Rightarrow> nic \<times> 'd pc \<Rightarrow> (nic \<times> 'd pc) result" where
  "bus_loop bus bus_no st =
     (if bus_no \<noteq> 0xFF then and_then (device_loop bus bus_no 0 st) (\<lambda>st'. bus_loop bus (bus_no + 1) st')
      else Inr st)"
  by pat_completeness auto
termination
proof (relation "measure (\<lambda>(_, b, _). 255 - unat b)", goal_cases)
  case (2 bus bus_no st st')
  then have "unat bus_no \<noteq> 255" by (simp add: word_eq_unat)
  moreover have "unat bus_no < 256" using unat_bound [of bus_no] by simp
  ultimately show ?case by (simp add: unat_plus_no_wrap)
qed simp

declare func_loop.simps [simp del] device_loop.simps [simp del] bus_loop.simps [simp del]

section \<open>Starting the card\<close>

definition bus_mastering :: "'d bus \<Rightarrow> nic \<Rightarrow> 'd pc \<Rightarrow> 'd pc result" where
  "bus_mastering bus n s =
     (let b = ucast (pci_bus n); d = ucast (pci_device n); f = ucast (pci_device_fn n) in
      and_then (print (''BUS mastering ...'' @ newline_char) [] s) (\<lambda>s1.
      let (command, s2) = pci_read_word bus b d f 0x04 s1 in
      and_then (print (''BUS mastering command_register = %x'' @ newline_char) [ucast command] s2) (\<lambda>s3.
      let (_, s4) = pci_write_word bus b d f 0x04 (command OR 0x04) s3;
          (command', s5) = pci_read_word bus b d f 0x04 s4
      in print (''BUS mastering command_register = %x'' @ newline_char) [ucast command'] s5)))"

text \<open>The address of the card from the EEPROM: three words at 7, 8, 9, low byte first.\<close>

fun mac_words :: "'d bus \<Rightarrow> u32 \<Rightarrow> nat \<Rightarrow> nat \<Rightarrow> nat \<Rightarrow> u32 list \<Rightarrow> 'd pc \<Rightarrow> (u32 list \<times> 'd pc) result" where
  "mac_words bus ioaddr 0 i mac_address_index mac s = Inr (mac, s)"
| "mac_words bus ioaddr (Suc n) i mac_address_index mac s =
     (let (v, s1) = read_eeprom bus ioaddr (of_nat i + 7) s; data = ucast v :: u16 in
      and_then (wr mac mac_address_index (ucast (data AND 0xFF))) (\<lambda>mac1.
      and_then (wr mac1 (mac_address_index + 1) (ucast (drop_bit 8 data))) (\<lambda>mac2.
      mac_words bus ioaddr n (Suc i) (mac_address_index + 2) mac2 s1)))"

text \<open>Without an EEPROM the registers are read and their values dropped.\<close>

fun mac_registers :: "'d bus \<Rightarrow> u32 \<Rightarrow> nat \<Rightarrow> nat \<Rightarrow> 'd pc \<Rightarrow> 'd pc" where
  "mac_registers bus ioaddr 0 i s = s"
| "mac_registers bus ioaddr (Suc n) i s = mac_registers bus ioaddr n (Suc i) (snd (inb bus (ucast (ioaddr + of_nat i)) s))"

definition read_mac :: "'d bus \<Rightarrow> u32 \<Rightarrow> 'd pc \<Rightarrow> (u32 list \<times> 'd pc) result" where
  "read_mac bus ioaddr s =
     (let (v, s1) = read_eeprom bus ioaddr 0 s in
      if v \<noteq> 0xFFFF then mac_words bus ioaddr 3 0 0 (replicate 6 0) s1
      else Inr (replicate 6 0, mac_registers bus ioaddr 6 0 s1))"

fun print_mac_bytes :: "nat \<Rightarrow> nat \<Rightarrow> u32 list \<Rightarrow> 'd pc \<Rightarrow> 'd pc result" where
  "print_mac_bytes 0 i mac s = Inr s"
| "print_mac_bytes (Suc n) i mac s =
     and_then (rd mac i) (\<lambda>b. and_then (print ''%x:'' [b] s) (\<lambda>s1. print_mac_bytes n (Suc i) mac s1))"

definition print_mac :: "u32 list \<Rightarrow> 'd pc \<Rightarrow> 'd pc result" where
  "print_mac mac s =
     and_then (print ''MAC: '' [] s) (\<lambda>s1. and_then (print_mac_bytes 6 0 mac s1) (\<lambda>s2. print newline_char [] s2))"

partial_function (option) wait_reset :: "'d bus \<Rightarrow> u32 \<Rightarrow> 'd pc \<Rightarrow> 'd pc result option" where
  "wait_reset bus ioaddr s =
     (let (v, s1) = inb bus (ucast (ioaddr + ChipCmd)) s in
      if v AND 0x10 \<noteq> 0 then
        and_run (Some (print (''waiting for reset!'' @ newline_char) [] s1)) (\<lambda>s2. wait_reset bus ioaddr s2)
      else Some (Inr s1))"

definition software_reset :: "'d bus \<Rightarrow> u32 \<Rightarrow> 'd pc \<Rightarrow> 'd pc result option" where
  "software_reset bus ioaddr s =
     and_run (wait_reset bus ioaddr (outb bus 0x10 (ucast (ioaddr + ChipCmd)) s)) (\<lambda>s1.
     Some (print (''Reset done.'' @ newline_char) [] s1))"

text \<open>
  \<open>n\<close> writes from index \<open>i\<close> on into an array of bytes of \<open>elements\<close> elements at the address \<open>a\<close>.
\<close>

fun fill_bytes :: "u32 \<Rightarrow> nat \<Rightarrow> nat \<Rightarrow> nat \<Rightarrow> u8 \<Rightarrow> 'd pc \<Rightarrow> 'd pc result" where
  "fill_bytes a elements i 0 v s = Inr s"
| "fill_bytes a elements i (Suc n) v s =
     (if i < elements then fill_bytes a elements (Suc i) n v (s\<lparr>ram := (ram s)(a + of_nat i := v)\<rparr>)
      else Inl Out_of_bounds)"

definition enable_card :: "'d bus \<Rightarrow> u32 \<Rightarrow> u32 \<Rightarrow> 'd pc \<Rightarrow> 'd pc result" where
  "enable_card bus ioaddr rx_buffer s =
     (let s1 = outb bus 0x0C (ucast (ioaddr + ChipCmd)) s in
      and_then (print (''Enable receiver and transmitter done.'' @ newline_char) [] s1) (\<lambda>s2.
      let s3 = outl bus 0x03000700 (ucast (ioaddr + TxConfig)) s2;
          s4 = outl bus 0x0000070A (ucast (ioaddr + RxConfig)) s3
      in
      and_then (fill_bytes rx_buffer (8192 + 16) 0 (8192 + 16) 0 s4) (\<lambda>s5.
      let s6 = outl bus rx_buffer (ucast (ioaddr + RxBuf)) s5;
          s7 = outw bus 0x0005 (ucast (ioaddr + IntrMask)) s6
      in Inr (outl bus (0xF OR push_bit 7 1) (ucast (ioaddr + 0x44)) s7))))"

text \<open>
  In C the comparison binds tighter than \<^verbatim>\<open>&\<close>: the condition of the loop is
  \<^verbatim>\<open>transmit_ok & ((1 << 15) == 0)\<close>.
\<close>

partial_function (option) transmit_wait :: "'d bus \<Rightarrow> u32 \<Rightarrow> u32 \<Rightarrow> 'd pc \<Rightarrow> (u32 \<times> 'd pc) result option" where
  "transmit_wait bus port transmit_ok s =
     (if transmit_ok AND (if push_bit 15 1 = (0 :: u32) then 1 else 0) \<noteq> 0 then
        and_run (Some (print (''Waiting for transmit_ok ...'' @ newline_char) [] s)) (\<lambda>s1.
        transmit_wait bus port (fst (inl bus (ucast port) s1)) (snd (inl bus (ucast port) s1)))
      else Some (Inr (transmit_ok, s)))"

definition transmit :: "'d bus \<Rightarrow> u32 \<Rightarrow> u32 \<Rightarrow> 'd pc \<Rightarrow> 'd pc result option" where
  "transmit bus ioaddr tx_buffer s =
     (let len = 256 in
      and_run (Some (fill_bytes tx_buffer len 0 len 65 s)) (\<lambda>s1.
      and_run (Some (print (''Sending...'' @ newline_char) [] s1)) (\<lambda>s2.
      let TSAD_array = [0x20, 0x24, 0x28, 0x2C :: u8]; TSD_array = [0x10, 0x14, 0x18, 0x1C :: u8]; tx_cur = 0 in
      and_run (Some (rd TSAD_array tx_cur)) (\<lambda>tsad.
      let s3 = outl bus tx_buffer (ucast (ioaddr + ucast tsad)) s2; status = 0 OR (of_nat len AND 0x1FFF) in
      and_run (Some (rd TSD_array tx_cur)) (\<lambda>tsd.
      let s4 = outl bus status (ucast (ioaddr + ucast tsd)) s3;
          (v, s5) = inl bus (ucast (ioaddr + ucast tsd)) s4
      in
      and_run (transmit_wait bus (ioaddr + ucast tsd) v s5) (\<lambda>(transmit_ok, s6).
      and_run (Some (print (''Waiting for transmit_ok done. transmit_ok = %d'' @ newline_char) [transmit_ok] s6)) (\<lambda>s7.
      Some (print (''Sending done.'' @ newline_char) [] s7))))))))"

text \<open>What is done before the reset of the card: the messages on its interrupt and its ports, and its address.\<close>

definition prepare_card :: "'d bus \<Rightarrow> nic \<Rightarrow> 'd pc \<Rightarrow> (u32 \<times> 'd pc) result" where
  "prepare_card bus n s =
     (let (pci_irq_line, s1) = r_pci_32 bus (pci_bus n) (pci_device n) (pci_device_fn n) 0x0F s;
          irq = pci_irq_line AND 0xFF
      in
      and_then (print (''irq: 0x%x (%dd)'' @ newline_char) [irq, irq] s1) (\<lambda>s2.
      let (pci_ioaddr, s3) = r_pci_32 bus (pci_bus n) (pci_device n) (pci_device_fn n) 4 s2 in
      and_then (print (''pci_ioaddr: 0x%x '' @ newline_char) [pci_ioaddr] s3) (\<lambda>s4.
      let ioaddr = pci_ioaddr AND NOT 3 in
      and_then (print (''ioaddr: 0x%x '' @ newline_char) [ioaddr] s4) (\<lambda>s5.
      let s6 = outb bus 0x00 (ucast (ioaddr + Config1)) s5 in
      and_then (print (''starting chip done.'' @ newline_char) [] s6) (\<lambda>s7.
      and_then (bus_mastering bus n s7) (\<lambda>s8.
      and_then (read_mac bus ioaddr s8) (\<lambda>(mac_address, s9).
      and_then (print_mac mac_address s9) (\<lambda>s10. Inr (ioaddr, s10)))))))))"

definition start_card :: "'d bus \<Rightarrow> u32 \<Rightarrow> u32 \<Rightarrow> nic \<Rightarrow> 'd pc \<Rightarrow> 'd pc result option" where
  "start_card bus rx_buffer tx_buffer n s =
     and_run (Some (prepare_card bus n s)) (\<lambda>(ioaddr, s1).
     and_run (software_reset bus ioaddr s1) (\<lambda>s2.
     and_run (Some (enable_card bus ioaddr rx_buffer s2)) (\<lambda>s3.
     transmit bus ioaddr tx_buffer s3)))"

definition init_pcilist :: "'d bus \<Rightarrow> u32 \<Rightarrow> u32 \<Rightarrow> 'd pc \<Rightarrow> (int \<times> 'd pc) result option" where
  "init_pcilist bus rx_buffer tx_buffer s =
     and_run (Some (bus_loop bus 0
            (\<lparr>realtek8319Found = 0, pci_bus = 0, pci_device = 0, pci_device_fn = 0\<rparr>, s))) (\<lambda>(n, s1).
     if realtek8319Found n \<noteq> 0 then
       and_run (start_card bus rx_buffer tx_buffer n s1) (\<lambda>s2. Some (Inr (0, s2)))
     else Some (Inr (0, s1)))"

end
