(* ===== verification/PCI_Correct.thy ===== *)
theory PCI_Correct
  imports PCI
begin

text \<open>
  What the routines of \<^verbatim>\<open>pci/pci.c\<close> do. The enumeration and the accesses to the configuration space are
  stated for hardware that behaves as the configuration mechanism is documented (\<open>config_reads\<close>,
  \<open>config_writes\<close>: the word written to port \<^verbatim>\<open>0xCF8\<close> selects the register that port \<^verbatim>\<open>0xCFC\<close> reads and
  writes); the sequence of accesses to the EEPROM for any device at all. The lemmas \<open>..._runs\<close> show, for any
  hardware, that the driver has no fault and changes the screen by its messages only.
\<close>

section \<open>What the routines print\<close>

lemma driver_messages:
  "renders ''RTL8139 found! bus: %d'' (length [x])" "renders '' device: %d'' (length [x])"
  "renders ('' func: %d '' @ newline_char) (length [x])"
  "renders (''BUS mastering ...'' @ newline_char) (length [])"
  "renders (''BUS mastering command_register = %x'' @ newline_char) (length [x])"
  "renders ''MAC: '' (length [])" "renders ''%x:'' (length [x])" "renders newline_char (length [])"
  "renders (''waiting for reset!'' @ newline_char) (length [])" "renders (''Reset done.'' @ newline_char) (length [])"
  "renders (''Enable receiver and transmitter done.'' @ newline_char) (length [])"
  "renders (''Sending...'' @ newline_char) (length [])"
  "renders (''Waiting for transmit_ok done. transmit_ok = %d'' @ newline_char) (length [x])"
  "renders (''Sending done.'' @ newline_char) (length [])"
  "renders (''irq: 0x%x (%dd)'' @ newline_char) (length [x, y])"
  "renders (''pci_ioaddr: 0x%x '' @ newline_char) (length [x])" "renders (''ioaddr: 0x%x '' @ newline_char) (length [x])"
  "renders (''starting chip done.'' @ newline_char) (length [])"
  by (simp_all only: list.size add_0 One_nat_def add_Suc_right, code_simp+)

lemma printing_quiet_calls [simp]:
  "printing s (snd (r_pci_32 bus b d f reg t)) = printing s t"
  "printing s (snd (pci_read_word bus b16 d16 f16 off t)) = printing s t"
  "printing s (snd (pci_write_word bus b16 d16 f16 off v t)) = printing s t"
  by (simp_all add: r_pci_32_def pci_read_word_def pci_write_word_def Let_def split_beta)

lemma printing_eeprom [simp]: "printing s (snd (read_eeprom bus ioaddr location t)) = printing s t"
proof -
  have "printing s (shift_out bus a cmd n t) = printing s t" for a cmd n t
    by (induction n arbitrary: t) (simp_all add: Let_def eeprom_delay_def)
  moreover have "printing s (snd (shift_in bus a n r t)) = printing s t" for a n r t
    by (induction n arbitrary: r t) (simp_all add: Let_def split_beta eeprom_delay_def)
  ultimately show ?thesis by (simp add: read_eeprom_def Let_def split_beta eeprom_delay_def)
qed

lemma probe_runs: "printing s t \<Longrightarrow> runs s snd (probe bus b d f (n, t))"
  unfolding probe_def Let_def split_beta fst_conv snd_conv
  by (intro runs_if runs_then [where state = "\<lambda>u. u"] runs_print driver_messages) simp_all

lemma func_loop_runs: "printing s (snd st) \<Longrightarrow> runs s snd (func_loop bus b d f st)"
proof (induction bus b d f st rule: func_loop.induct)
  case (1 bus b d f st)
  have "runs s snd (probe bus b d f st)" using 1(2) probe_runs [of s "snd st" bus b d f "fst st"] by simp
  then show ?case by (subst func_loop.simps) (intro runs_if runs_then [OF _ 1(1)], simp_all add: 1(2))
qed

lemma device_loop_runs: "printing s (snd st) \<Longrightarrow> runs s snd (device_loop bus b d st)"
proof (induction bus b d st rule: device_loop.induct)
  case (1 bus b d st)
  show ?case
    by (subst device_loop.simps) (intro runs_if runs_then [OF func_loop_runs 1(1)], simp_all add: 1(2))
qed

lemma bus_loop_runs: "printing s (snd st) \<Longrightarrow> runs s snd (bus_loop bus b st)"
proof (induction bus b st rule: bus_loop.induct)
  case (1 bus b st)
  show ?case
    by (subst bus_loop.simps) (intro runs_if runs_then [OF device_loop_runs 1(1)], simp_all add: 1(2))
qed

section \<open>The configuration mechanism\<close>

definition config_reads :: "'d bus \<Rightarrow> ('d \<Rightarrow> u32 \<Rightarrow> u32) \<Rightarrow> ('d \<Rightarrow> u32) \<Rightarrow> bool" where
  "config_reads bus config latch \<longleftrightarrow>
     (\<forall>a d. latch (write32 bus PCI_CONFIG_ADDRESS a d) = a \<and> config (write32 bus PCI_CONFIG_ADDRESS a d) = config d) \<and>
     (\<forall>d. fst (read32 bus PCI_CONFIG_DATA d) = config d (latch d) \<and>
       config (snd (read32 bus PCI_CONFIG_DATA d)) = config d \<and> latch (snd (read32 bus PCI_CONFIG_DATA d)) = latch d)"

text \<open>\<open>react a old v\<close> is the value of register \<open>a\<close> after \<open>v\<close> has been written over \<open>old\<close>.\<close>

definition config_writes ::
    "'d bus \<Rightarrow> ('d \<Rightarrow> u32 \<Rightarrow> u32) \<Rightarrow> ('d \<Rightarrow> u32) \<Rightarrow> (u32 \<Rightarrow> u32 \<Rightarrow> u32 \<Rightarrow> u32) \<Rightarrow> bool" where
  "config_writes bus config latch react \<longleftrightarrow>
     (\<forall>v d. config (write32 bus PCI_CONFIG_DATA v d) = (config d)(latch d := react (latch d) (config d (latch d)) v) \<and>
       latch (write32 bus PCI_CONFIG_DATA v d) = latch d)"

text \<open>A card cage for the examples: the address that was written last and the registers.\<close>

definition example_bus :: "(u32 \<Rightarrow> u32 \<Rightarrow> u32 \<Rightarrow> u32) \<Rightarrow> (u32 \<times> (u32 \<Rightarrow> u32)) bus" where
  "example_bus react = \<lparr>write8 = (\<lambda>p v d. d), write16 = (\<lambda>p v d. d),
     write32 = (\<lambda>p v (a, c). if p = 0xCF8 then (v, c) else if p = 0xCFC then (a, c(a := react a (c a) v)) else (a, c)),
     read8 = (\<lambda>p d. (0, d)), read16 = (\<lambda>p d. (0, d)), read32 = (\<lambda>p (a, c). (c a, (a, c)))\<rparr>"

lemma example_bus_config: "config_reads (example_bus react) snd fst" "config_writes (example_bus react) snd fst react"
  by (auto simp: config_reads_def config_writes_def example_bus_def PCI_CONFIG_ADDRESS_def PCI_CONFIG_DATA_def)

lemma config_readsD:
  assumes "config_reads bus config latch"
  shows "latch (write32 bus PCI_CONFIG_ADDRESS a d) = a" "config (write32 bus PCI_CONFIG_ADDRESS a d) = config d"
    "fst (read32 bus PCI_CONFIG_DATA d) = config d (latch d)" "config (snd (read32 bus PCI_CONFIG_DATA d)) = config d"
    "latch (snd (read32 bus PCI_CONFIG_DATA d)) = latch d"
  using assms by (simp_all add: config_reads_def)

lemma config_writesD:
  assumes "config_writes bus config latch react"
  shows "config (write32 bus PCI_CONFIG_DATA v d) = (config d)(latch d := react (latch d) (config d (latch d)) v)"
    "latch (write32 bus PCI_CONFIG_DATA v d) = latch d"
  using assms by (simp_all add: config_writes_def)

lemma r_pci_32_reads:
  assumes "config_reads bus config latch"
  shows "fst (r_pci_32 bus b d f reg s) = config (device s) (register_index b d f (push_bit 2 (ucast reg)))"
    "config (device (snd (r_pci_32 bus b d f reg s))) = config (device s)"
    "output_log (snd (r_pci_32 bus b d f reg s)) = output_log s"
  using config_readsD [OF assms]
  by (simp_all add: r_pci_32_def port_defs Let_def split_beta)

section \<open>Enumeration\<close>

text \<open>The id of a function: vendor in the low half, device in the high half.\<close>

definition function_id :: "(u32 \<Rightarrow> u32) \<Rightarrow> u8 \<times> u8 \<times> u8 \<Rightarrow> u32" where
  "function_id c x = (case x of (b, d, f) \<Rightarrow> c (register_index b d f 0))"

definition RTL8139 :: u32 where
  "RTL8139 = 0x813910EC"

lemma rtl8139_halves:
  "ucast (data AND 0xFFFF :: u32) = (0x10EC :: u16) \<and> ucast (drop_bit 16 data) = (0x8139 :: u16) \<longleftrightarrow> data = RTL8139"
proof -
  have "ucast (data AND 0xFFFF :: u32) = (0x10EC :: u16) \<longleftrightarrow> unat data mod 65536 = 0x10EC"
    by (simp add: word_eq_unat mask_numerals(4) flip: take_bit_eq_mask)
       (simp add: unsigned_ucast_eq unsigned_take_bit_eq take_bit_nat_def)
  moreover have "ucast (drop_bit 16 data) = (0x8139 :: u16) \<longleftrightarrow> unat data div 65536 = 0x8139"
  proof -
    have "unat (drop_bit 16 data) = unat data div 65536" by (simp add: drop_bit_eq_div unat_div)
    moreover have "unat data div 65536 < 65536" using unat_bound [of data] by (simp add: less_mult_imp_div_less)
    ultimately show ?thesis by (simp add: word_eq_unat unsigned_ucast_eq take_bit_nat_eq_self)
  qed
  moreover have "unat data mod 65536 = 0x10EC \<and> unat data div 65536 = 0x8139 \<longleftrightarrow> unat data = 0x813910EC"
  proof
    assume parts: "unat data mod 65536 = 0x10EC \<and> unat data div 65536 = 0x8139"
    have "unat data div 65536 * 65536 + unat data mod 65536 = unat data" by (rule div_mult_mod_eq)
    then have "0x8139 * 65536 + 0x10EC = unat data" by (simp only: parts)
    then show "unat data = 0x813910EC" by simp
  qed simp
  moreover have "data = RTL8139 \<longleftrightarrow> unat data = 0x813910EC" by (simp add: RTL8139_def word_eq_unat)
  ultimately show ?thesis by (simp only:)
qed

text \<open>The effect of one probe on the variables, and the functions that are probed in their order.\<close>

definition probed :: "(u32 \<Rightarrow> u32) \<Rightarrow> u8 \<times> u8 \<times> u8 \<Rightarrow> nic \<Rightarrow> nic" where
  "probed c x n =
     (if function_id c x = 0xFFFFFFFF then n
      else if function_id c x = RTL8139 then
        (case x of (b, d, f) \<Rightarrow> \<lparr>realtek8319Found = 1, pci_bus = b, pci_device = d, pci_device_fn = f\<rparr>)
      else n\<lparr>realtek8319Found := 0\<rparr>)"

lemma probe_result:
  assumes "config_reads bus config latch" "probe bus b d f (n, s) = Inr (n', s')"
  shows "n' = probed (config (device s)) (b, d, f) n" "config (device s') = config (device s)"
proof -
  let ?x = "fst (r_pci_32 bus b d f 0 s)"
  have id: "?x = function_id (config (device s)) (b, d, f)"
    by (simp add: r_pci_32_reads [OF assms(1)] function_id_def)
  have dev: "config (device (snd (r_pci_32 bus b d f 0 s))) = config (device s)"
    by (rule r_pci_32_reads(2) [OF assms(1)])
  have halves: "ucast (?x AND 0xFFFF) = (0x10EC :: u16) \<and> ucast (drop_bit 16 ?x) = (0x8139 :: u16) \<longleftrightarrow> ?x = RTL8139"
    by (rule rtl8139_halves)
  show "n' = probed (config (device s)) (b, d, f) n"
    using assms(2) unfolding probe_def
    by (simp only: split_beta Let_def fst_conv snd_conv halves) (auto simp: id probed_def and_then_eq_Inr split: if_splits)
  show "config (device s') = config (device s)"
    using assms(2) dev unfolding probe_def
    by (simp only: split_beta Let_def fst_conv snd_conv halves)
       (auto simp: and_then_eq_Inr split: if_splits dest!: print_keeps)
qed

definition probe_at :: "'d bus \<Rightarrow> u8 \<times> u8 \<times> u8 \<Rightarrow> nic \<times> 'd pc \<Rightarrow> (nic \<times> 'd pc) result" where
  "probe_at bus x = (case x of (b, d, f) \<Rightarrow> probe bus b d f)"

fun probes :: "'d bus \<Rightarrow> (u8 \<times> u8 \<times> u8) list \<Rightarrow> nic \<times> 'd pc \<Rightarrow> (nic \<times> 'd pc) result" where
  "probes bus [] st = Inr st"
| "probes bus (x # xs) st = and_then (probe_at bus x st) (probes bus xs)"

lemma probes_append: "probes bus (xs @ ys) st = and_then (probes bus xs st) (probes bus ys)"
proof (induction xs arbitrary: st)
  case (Cons x xs)
  then show ?case by (cases "probe_at bus x st") simp_all
qed simp

definition functions_of :: "nat \<Rightarrow> nat \<Rightarrow> (u8 \<times> u8 \<times> u8) list" where
  "functions_of b d = map (\<lambda>f. (of_nat b, of_nat d, of_nat f)) [0..<8]"

definition devices_of :: "nat \<Rightarrow> (u8 \<times> u8 \<times> u8) list" where
  "devices_of b = concat (map (functions_of b) [0..<32])"

definition pci_functions :: "(u8 \<times> u8 \<times> u8) list" where
  "pci_functions = concat (map devices_of [0..<255])"

lemma upt_word:
  fixes w v :: u8
  assumes "w < v"
  shows "[unat w..<unat v] = unat w # [unat (w + 1)..<unat v]"
proof -
  have "unat w + unat (1 :: u8) < 2 ^ 8" using assms unat_bound [of v] by (simp add: word_less_nat_alt)
  then have "unat (w + 1) = unat w + 1" using unat_plus_no_wrap [of w 1] by simp
  then show ?thesis using assms by (simp add: word_less_nat_alt upt_conv_Cons)
qed

lemma func_loop_probes:
  "func_loop bus b d f st = probes bus (map (\<lambda>f. (b, d, of_nat f)) [unat f..<8]) st"
proof (induction bus b d f st rule: func_loop.induct)
  case (1 bus b d f st)
  show ?case
  proof (cases "f < 8")
    case True
    then show ?thesis using 1 upt_word [of f 8]
      by (subst func_loop.simps) (cases "probe bus b d f st"; simp add: probe_at_def)
  next
    case False
    then have "[unat f..<8] = []" by (simp add: word_less_nat_alt)
    then show ?thesis using False by (subst func_loop.simps) simp
  qed
qed

lemma device_loop_probes:
  "device_loop bus b d st = probes bus (concat (map (\<lambda>d. map (\<lambda>f. (b, of_nat d, of_nat f)) [0..<8]) [unat d..<32])) st"
proof (induction bus b d st rule: device_loop.induct)
  case (1 bus b d st)
  show ?case
  proof (cases "d < 32")
    case True
    have "probes bus (map (\<lambda>f. (b, d, of_nat f)) [0..<8]) st = func_loop bus b d 0 st"
      by (simp add: func_loop_probes)
    then show ?thesis using 1 upt_word [of d 32] True
      by (subst device_loop.simps) (cases "func_loop bus b d 0 st"; simp add: probes_append)
  next
    case False
    then have "[unat d..<32] = []" by (simp add: word_less_nat_alt)
    then show ?thesis using False by (subst device_loop.simps) simp
  qed
qed

lemma bus_loop_from:
  "bus_loop bus b st = probes bus (concat (map devices_of [unat b..<255])) st"
proof (induction bus b st rule: bus_loop.induct)
  case (1 bus b st)
  show ?case
  proof (cases "b = 0xFF")
    case False
    then have "b < 255" using unat_bound [of b] by (simp add: word_less_nat_alt word_eq_unat)
    moreover have "probes bus (devices_of (unat b)) st = device_loop bus b 0 st"
      by (simp add: device_loop_probes devices_of_def functions_of_def [abs_def])
    ultimately show ?thesis using 1 False upt_word [of b 255]
      by (subst bus_loop.simps) (cases "device_loop bus b 0 st"; simp add: probes_append)
  next
    case True
    then show ?thesis by (subst bus_loop.simps) simp
  qed
qed

lemma bus_loop_result:
  assumes "config_reads bus config latch" "bus_loop bus 0 (n, s) = Inr (n', s')"
  shows "n' = fold (probed (config (device s))) pci_functions n"
proof -
  have "fst st' = fold (probed (config (device s))) xs n" if "probes bus xs (n, s) = Inr st'" for xs st'
    using that
  proof (induction xs arbitrary: n s)
    case (Cons x xs)
    obtain b d f where x: "x = (b, d, f)" by (cases x)
    obtain n1 s1 where ns: "probe bus b d f (n, s) = Inr (n1, s1)" "probes bus xs (n1, s1) = Inr st'"
      using Cons.prems by (auto simp: x probe_at_def and_then_eq_Inr)
    from probe_result [OF assms(1) ns(1)] Cons.IH [OF ns(2)] show ?case by (simp add: x)
  qed auto
  from this [of pci_functions "(n', s')"] show ?thesis using assms(2) by (simp add: bus_loop_from pci_functions_def)
qed

text \<open>Only the last function that responds decides.\<close>

lemma probed_last:
  assumes "realtek8319Found n = 0"
  shows "let rs = filter (\<lambda>x. function_id c x \<noteq> 0xFFFFFFFF) xs; n' = fold (probed c) xs n in
    if rs \<noteq> [] \<and> function_id c (last rs) = RTL8139
    then realtek8319Found n' = 1 \<and> (pci_bus n', pci_device n', pci_device_fn n') = last rs
    else realtek8319Found n' = 0"
proof (induction xs rule: rev_induct)
  case Nil
  then show ?case using assms by simp
next
  case (snoc x xs)
  then show ?case by (auto simp: Let_def probed_def RTL8139_def split: prod.splits if_splits)
qed

section \<open>Words of the configuration space\<close>

definition half :: "nat \<Rightarrow> u32 \<Rightarrow> u16" where
  "half sh w = ucast (drop_bit sh w AND 0xFFFF)"

definition merged :: "nat \<Rightarrow> u32 \<Rightarrow> u16 \<Rightarrow> u32" where
  "merged sh old data = old AND NOT (push_bit sh 0xFFFF) OR push_bit sh (ucast data)"

lemma bit_half: "bit (half sh w) i \<longleftrightarrow> i < 16 \<and> bit w (sh + i)"
  by (auto simp: half_def field_bits dest: bit_imp_le_length)

lemma bit_merged:
  assumes "sh = 0 \<or> sh = 16" "i < 32"
  shows "bit (merged sh old data) i \<longleftrightarrow> (if sh \<le> i \<and> i < sh + 16 then bit data (i - sh) else bit old i)"
  using assms by (auto simp: merged_def field_bits dest: bit_imp_le_length)

lemma half_merged:
  assumes "sh = 0 \<or> sh = 16"
  shows "half sh (merged sh old data) = data" "half (16 - sh) (merged sh old data) = half (16 - sh) old"
proof -
  show "half sh (merged sh old data) = data"
    by (rule bit_word_eqI) (use assms in \<open>auto simp: bit_half bit_merged\<close>)
  show "half (16 - sh) (merged sh old data) = half (16 - sh) old"
    by (rule bit_word_eqI) (use assms in \<open>auto simp: bit_half bit_merged\<close>)
qed

definition word_shift :: "u16 \<Rightarrow> nat" where
  "word_shift offset = unat ((offset AND 2) * 8)"

lemma word_shift: "word_shift offset = 0 \<or> word_shift offset = 16"
proof -
  have "(offset AND 2) = 0 \<or> offset AND 2 = 2"
  proof (cases "bit offset 1")
    case True
    have "offset AND 2 = 2"
      by (rule bit_word_eqI) (use True in \<open>auto simp: bit_and_iff bit_2_iff\<close>)
    then show ?thesis by simp
  next
    case False
    then show ?thesis using and_single_eq_0 [of offset 1] by simp
  qed
  then show ?thesis by (auto simp: word_shift_def)
qed

definition config_word :: "u16 \<Rightarrow> u16 \<Rightarrow> u16 \<Rightarrow> u16 \<Rightarrow> u32" where
  "config_word b d f offset = ucast (word_address b d f offset)"

lemma pci_read_word_result:
  assumes "config_reads bus config latch"
  shows "fst (pci_read_word bus b d f offset s) = half (word_shift offset) (config (device s) (config_word b d f offset))"
    "config (device (snd (pci_read_word bus b d f offset s))) = config (device s)"
  using config_readsD [OF assms]
  by (simp_all add: pci_read_word_def port_defs Let_def split_beta half_def word_shift_def config_word_def)

lemma pci_write_word_result:
  assumes "config_reads bus config latch" "config_writes bus config latch react"
    and a_def: "a = config_word b d f offset"
    and c_def: "c = (config (device s))(a := react a (config (device s) a) (merged (word_shift offset) (config (device s) a) data))"
  shows "fst (pci_write_word bus b d f offset data s) = half (word_shift offset) (c a)"
    "config (device (snd (pci_write_word bus b d f offset data s))) = c"
proof -
  define s' where "s' = outl bus (merged (word_shift offset) (config (device s) a) data) PCI_CONFIG_DATA
    (outl bus a PCI_CONFIG_ADDRESS (snd (inl bus PCI_CONFIG_DATA (outl bus a PCI_CONFIG_ADDRESS s))))"
  note r = config_readsD [OF assms(1)] and w = config_writesD [OF assms(2)]
  have read: "fst (inl bus PCI_CONFIG_DATA (outl bus a PCI_CONFIG_ADDRESS s)) = config (device s) a"
    using r by (simp add: port_defs Let_def split_beta)
  have run: "pci_write_word bus b d f offset data s = pci_read_word bus b d f offset s'"
    unfolding pci_write_word_def s'_def
    using read by (simp add: Let_def split_beta merged_def word_shift_def a_def config_word_def)
  have "config (device s') = c"
    using r w unfolding s'_def c_def by (simp add: port_defs Let_def split_beta)
  then show "fst (pci_write_word bus b d f offset data s) = half (word_shift offset) (c a)"
    "config (device (snd (pci_write_word bus b d f offset data s))) = c"
    unfolding run using pci_read_word_result [OF assms(1)] by (simp_all add: a_def)
qed

section \<open>The EEPROM\<close>

text \<open>The accesses to the port of the EEPROM, and the bits that are sampled.\<close>

definition command_bit :: "u16 \<Rightarrow> bool \<Rightarrow> access list" where
  "command_bit p b = [Out8 p (if b then 0x8A else 0x88), In32 p, Out8 p (if b then 0x8E else 0x8C), In32 p]"

definition data_bit :: "u16 \<Rightarrow> access list" where
  "data_bit p = [Out8 p 0x8C, In32 p, In8 p, Out8 p 0x88, In32 p]"

fun command_bits :: "u16 \<Rightarrow> u32 \<Rightarrow> nat \<Rightarrow> access list" where
  "command_bits p cmd 0 = []"
| "command_bits p cmd (Suc i) = command_bit p (bit cmd i) @ command_bits p cmd i"

fun data_bits :: "u16 \<Rightarrow> nat \<Rightarrow> access list" where
  "data_bits p 0 = []"
| "data_bits p (Suc i) = data_bit p @ data_bits p i"

lemma ee_values:
  "(ucast (EE_ENB OR EE_DATA_WRITE) :: u8) = 0x8A" "(ucast (EE_ENB OR 0) :: u8) = 0x88"
  "(ucast (EE_ENB OR EE_DATA_WRITE OR EE_SHIFT_CLK) :: u8) = 0x8E" "(ucast (EE_ENB OR 0 OR EE_SHIFT_CLK) :: u8) = 0x8C"
  "(ucast (EE_ENB OR EE_SHIFT_CLK) :: u8) = 0x8C" "(ucast EE_ENB :: u8) = 0x88"
  "(ucast (EE_ENB AND NOT EE_CS) :: u8) = 0x80" "(ucast (NOT EE_CS) :: u8) = 0xF7"
  by (simp_all add: EE_ENB_def EE_DATA_WRITE_def EE_SHIFT_CLK_def EE_CS_def)

lemma shift_out_trace:
  "device (shift_out (recorder reply) a cmd n s) = device s @ command_bits (ucast a) cmd n"
proof (induction n arbitrary: s)
  case (Suc i)
  have "cmd AND push_bit i 1 \<noteq> 0 \<longleftrightarrow> bit cmd i"
    using and_single_eq_0 [of cmd i] by (simp add: push_bit_eq_mult)
  then show ?case
    by (simp add: Suc.IH Let_def eeprom_delay_def port_defs command_bit_def ee_values)
qed simp

text \<open>The accesses up to the reading of the bit with number \<open>j\<close>, after the accesses \<open>base\<close>.\<close>

definition sample :: "u16 \<Rightarrow> access list \<Rightarrow> nat \<Rightarrow> access list" where
  "sample p base j = base @ data_bits p j @ [Out8 p 0x8C, In32 p, In8 p]"

lemma sample_shift: "sample p (base @ data_bit p) j = sample p base (Suc j)"
  by (simp add: sample_def)

lemma sampled_bit: "(ucast (ucast (w :: u32) :: u8) AND EE_DATA_READ \<noteq> 0) = bit w 0"
proof -
  have "bit (ucast (ucast w :: u8) AND EE_DATA_READ) i \<longleftrightarrow> i = 0 \<and> bit w 0" for i
    by (auto simp: EE_DATA_READ_def bit_and_iff bit_1_iff bit_ucast_iff)
  then show ?thesis by (metis bit_0_eq bit_word_eqI bot_apply bot_bool_def)
qed

lemma shift_in_result:
  assumes "shift_in (recorder reply) a n r s = (v, s')"
  shows "device s' = device s @ data_bits (ucast a) n"
    "i < 32 \<Longrightarrow> bit v i \<longleftrightarrow> (if i < n then bit (reply (sample (ucast a) (device s) (n - 1 - i))) 0 else bit r (i - n))"
proof -
  have "device s' = device s @ data_bits (ucast a) n \<and>
    (\<forall>i < 32. bit v i \<longleftrightarrow> (if i < n then bit (reply (sample (ucast a) (device s) (n - 1 - i))) 0 else bit r (i - n)))"
    using assms
  proof (induction n arbitrary: r s)
    case (Suc n)
    let ?p = "ucast a :: u16"
    let ?b = "bit (reply (sample ?p (device s) 0)) 0"
    let ?r = "push_bit 1 r OR (if ?b then 1 else 0)"
    let ?s = "s\<lparr>device := device s @ data_bit ?p\<rparr>"
    have "shift_in (recorder reply) a n ?r ?s = (v, s')"
      using Suc.prems
      by (simp add: Let_def eeprom_delay_def port_defs ee_values sampled_bit sample_def data_bit_def split: if_splits)
    note IH = Suc.IH [OF this]
    have r: "bit ?r j \<longleftrightarrow> (if j = 0 then ?b else bit r (j - 1))" if "j < 32" for j
    proof -
      have "bit (push_bit 1 r) j \<longleftrightarrow> j \<noteq> 0 \<and> bit r (j - 1)"
        unfolding bit_push_bit_iff using that by auto
      then show ?thesis using that by (simp only: bit_or_iff) (auto simp: bit_1_iff)
    qed
    have "bit v i \<longleftrightarrow> (if i < Suc n then bit (reply (sample ?p (device s) (Suc n - 1 - i))) 0 else bit r (i - Suc n))"
      if i: "i < 32" for i
    proof -
      consider "i < n" | "i = n" | "n < i" by linarith
      then show ?thesis
      proof cases
        case 1
        then have "Suc (n - 1 - i) = n - i" by simp
        then show ?thesis using IH i 1 by (simp add: sample_shift)
      next
        case 2
        then show ?thesis using IH i r [of 0] by simp
      next
        case 3
        then show ?thesis using IH i r [of "i - n"] by simp
      qed
    qed
    then show ?case using IH by simp
  qed simp
  then show "device s' = device s @ data_bits (ucast a) n"
    "i < 32 \<Longrightarrow> bit v i \<longleftrightarrow> (if i < n then bit (reply (sample (ucast a) (device s) (n - 1 - i))) 0 else bit r (i - n))"
    by blast+
qed

text \<open>The accesses before the first bit of the answer.\<close>

definition eeprom_command :: "u16 \<Rightarrow> u32 \<Rightarrow> access list" where
  "eeprom_command p location =
     [Out8 p 0x80, Out8 p 0x88] @ command_bits p (location OR EE_READ_CMD) 11 @ [Out8 p 0x88, In32 p]"

lemma read_eeprom_result:
  assumes "read_eeprom (recorder reply) ioaddr location s = (v, s')" "p = ucast (ioaddr + 0x50)"
  shows "device s' = device s @ eeprom_command p location @ data_bits p 16 @ [Out8 p 0xF7]"
    "i < 32 \<Longrightarrow> bit v i \<longleftrightarrow> i < 16 \<and> bit (reply (sample p (device s @ eeprom_command p location) (15 - i))) 0"
proof -
  let ?a = "ioaddr + Cfg9346"
  let ?s = "eeprom_delay (recorder reply) ?a (outb (recorder reply) (ucast EE_ENB) (ucast ?a)
    (shift_out (recorder reply) ?a (location OR EE_READ_CMD) 11
      (outb (recorder reply) (ucast EE_ENB) (ucast ?a) (outb (recorder reply) (ucast (EE_ENB AND NOT EE_CS)) (ucast ?a) s))))"
  have p: "ucast ?a = p" by (simp add: assms(2) Cfg9346_def)
  have dev: "device ?s = device s @ eeprom_command p location"
    by (simp only: eeprom_delay_def outb_def inl_def Let_def split_beta snd_conv)
       (simp add: shift_out_trace ee_values p eeprom_command_def)
  obtain w s1 where run: "shift_in (recorder reply) ?a 16 0 ?s = (w, s1)" by fastforce
  have "v = w" "s' = outb (recorder reply) (ucast (NOT EE_CS)) (ucast ?a) s1"
    using assms(1) unfolding read_eeprom_def Let_def by (simp_all add: run)
  then show "device s' = device s @ eeprom_command p location @ data_bits p 16 @ [Out8 p 0xF7]"
    "i < 32 \<Longrightarrow> bit v i \<longleftrightarrow> i < 16 \<and> bit (reply (sample p (device s @ eeprom_command p location) (15 - i))) 0"
    using shift_in_result [OF run] dev by (auto simp: outb_def ee_values p)
qed

section \<open>Waiting for the card\<close>

text \<open>One poll of the command register, and what it answers.\<close>

definition poll :: "'d bus \<Rightarrow> u32 \<Rightarrow> 'd \<Rightarrow> 'd" where
  "poll bus ioaddr d = snd (read8 bus (ucast (ioaddr + ChipCmd)) d)"

definition resetting :: "'d bus \<Rightarrow> u32 \<Rightarrow> 'd \<Rightarrow> bool" where
  "resetting bus ioaddr d \<longleftrightarrow> fst (read8 bus (ucast (ioaddr + ChipCmd)) d) AND 0x10 \<noteq> 0"

definition reset_message :: message where
  "reset_message = (''waiting for reset!'' @ newline_char, [])"

lemma funpow_shift: "(f ^^ k) (f x) = (f ^^ Suc k) x"
  by (simp add: funpow_swap1)

text \<open>A poll that finds the bit set prints a message and is followed by another one.\<close>

lemma wait_reset_step:
  assumes "cursor_ok (screen s)"
  obtains t where "wait_reset bus ioaddr s =
      (if resetting bus ioaddr (device s) then wait_reset bus ioaddr t else Some (Inr (snd (inb bus (ucast (ioaddr + ChipCmd)) s))))"
    "device t = poll bus ioaddr (device s)" "ram t = ram s" "prints s [reset_message] t"
proof -
  let ?s1 = "snd (inb bus (ucast (ioaddr + ChipCmd)) s)"
  let ?t = "after_print (''waiting for reset!'' @ newline_char) [] ?s1"
  have print: "print (''waiting for reset!'' @ newline_char) [] ?s1 = Inr ?t"
    and prints: "prints ?s1 [reset_message] ?t"
    unfolding reset_message_def using assms by (auto intro!: print_after driver_messages simp del: append.simps)
  have dev: "device ?s1 = poll bus ioaddr (device s)" "ram ?s1 = ram s"
    "fst (inb bus (ucast (ioaddr + ChipCmd)) s) AND 0x10 \<noteq> 0 \<longleftrightarrow> resetting bus ioaddr (device s)"
    by (simp_all add: inb_def poll_def resetting_def split_beta)
  show thesis
  proof (rule that)
    show "wait_reset bus ioaddr s =
        (if resetting bus ioaddr (device s) then wait_reset bus ioaddr ?t else Some (Inr ?s1))"
      by (subst wait_reset.simps) (simp only: Let_def split_beta print dev(3) and_run_simps)
    show "prints s [reset_message] ?t" by (rule prints_from [OF prints]) simp_all
  qed (simp_all only: after_print_keeps dev)
qed

lemma wait_reset_returns:
  assumes "cursor_ok (screen s)" "\<not> resetting bus ioaddr ((poll bus ioaddr ^^ k) (device s))"
    and "\<And>j. j < k \<Longrightarrow> resetting bus ioaddr ((poll bus ioaddr ^^ j) (device s))"
  shows "\<exists>s'. wait_reset bus ioaddr s = Some (Inr s') \<and> device s' = (poll bus ioaddr ^^ Suc k) (device s) \<and>
    ram s' = ram s \<and> prints s (replicate k reset_message) s'"
  using assms
proof (induction k arbitrary: s)
  case 0
  obtain t where "wait_reset bus ioaddr s =
      (if resetting bus ioaddr (device s) then wait_reset bus ioaddr t else Some (Inr (snd (inb bus (ucast (ioaddr + ChipCmd)) s))))"
    by (rule wait_reset_step [OF "0.prems"(1), of bus ioaddr])
  then have "wait_reset bus ioaddr s = Some (Inr (snd (inb bus (ucast (ioaddr + ChipCmd)) s)))"
    using "0.prems"(2) by simp
  moreover have "prints s [] (snd (inb bus (ucast (ioaddr + ChipCmd)) s))"
    by (rule prints_quiet [OF prints_Nil [OF "0.prems"(1)]]) simp_all
  ultimately show ?case by (simp add: inb_def poll_def split_beta)
next
  case (Suc k)
  obtain t where t: "wait_reset bus ioaddr s =
      (if resetting bus ioaddr (device s) then wait_reset bus ioaddr t else Some (Inr (snd (inb bus (ucast (ioaddr + ChipCmd)) s))))"
    "device t = poll bus ioaddr (device s)" "ram t = ram s" "prints s [reset_message] t"
    by (rule wait_reset_step [OF Suc.prems(1), of bus ioaddr])
  have "resetting bus ioaddr (device s)" using Suc.prems(3) [of 0] by simp
  moreover obtain s' where s': "wait_reset bus ioaddr t = Some (Inr s')" "device s' = (poll bus ioaddr ^^ Suc k) (device t)"
    "ram s' = ram t" "prints t (replicate k reset_message) s'"
  proof (rule exE [OF Suc.IH [of t]])
    show "cursor_ok (screen t)" using t(4) by (rule prints_cursor)
    show "\<not> resetting bus ioaddr ((poll bus ioaddr ^^ k) (device t))"
      using Suc.prems(2) by (simp add: t(2) funpow_shift)
    show "resetting bus ioaddr ((poll bus ioaddr ^^ j) (device t))" if "j < k" for j
      using Suc.prems(3) [of "Suc j"] that by (simp add: t(2) funpow_shift)
  qed blast
  ultimately show ?case
    using t prints_trans [OF t(4) s'(4)] by (simp add: funpow_shift)
qed

lemma wait_reset_returned:
  assumes "wait_reset bus ioaddr s = Some r" "cursor_ok (screen s)"
  shows "\<exists>k. \<not> resetting bus ioaddr ((poll bus ioaddr ^^ k) (device s))"
proof -
  have "cursor_ok (screen s) \<longrightarrow> (\<exists>k. \<not> resetting bus ioaddr ((poll bus ioaddr ^^ k) (device s)))"
  proof (rule wait_reset.raw_induct [rotated, OF assms(1)])
    fix loop :: "'d bus \<Rightarrow> u32 \<Rightarrow> 'd pc \<Rightarrow> 'd pc result option" and bus ioaddr s r
    assume IH: "\<And>bus ioaddr s r. loop bus ioaddr s = Some r \<Longrightarrow>
        cursor_ok (screen s) \<longrightarrow> (\<exists>k. \<not> resetting bus ioaddr ((poll bus ioaddr ^^ k) (device s)))"
      and eq: "(let (v, s1) = inb bus (ucast (ioaddr + ChipCmd)) s in
        if v AND 0x10 \<noteq> 0 then
          and_run (Some (print (''waiting for reset!'' @ newline_char) [] s1)) (\<lambda>s2. loop bus ioaddr s2)
        else Some (Inr s1)) = Some r"
    show "cursor_ok (screen s) \<longrightarrow> (\<exists>k. \<not> resetting bus ioaddr ((poll bus ioaddr ^^ k) (device s)))"
    proof
      assume ok: "cursor_ok (screen s)"
      let ?s1 = "snd (inb bus (ucast (ioaddr + ChipCmd)) s)"
      let ?t = "after_print (''waiting for reset!'' @ newline_char) [] ?s1"
      have ok1: "cursor_ok (screen ?s1)" using ok by simp
      have print: "print (''waiting for reset!'' @ newline_char) [] ?s1 = Inr ?t"
        by (rule print_after(1) [OF ok1 driver_messages(9)])
      have dev: "device ?s1 = poll bus ioaddr (device s)"
        "fst (inb bus (ucast (ioaddr + ChipCmd)) s) AND 0x10 \<noteq> 0 \<longleftrightarrow> resetting bus ioaddr (device s)"
        by (simp_all add: inb_def poll_def resetting_def split_beta)
      show "\<exists>k. \<not> resetting bus ioaddr ((poll bus ioaddr ^^ k) (device s))"
      proof (cases "resetting bus ioaddr (device s)")
        case True
        then have "loop bus ioaddr ?t = Some r"
          using eq by (simp only: Let_def split_beta print dev(2) and_run_simps if_True)
        moreover have "cursor_ok (screen ?t)" by (rule cursor_after [OF ok1 driver_messages(9)])
        ultimately obtain k where "\<not> resetting bus ioaddr ((poll bus ioaddr ^^ k) (device ?t))" using IH by blast
        then have "\<not> resetting bus ioaddr ((poll bus ioaddr ^^ Suc k) (device s))"
          by (simp only: after_print_keeps dev funpow_shift not_False_eq_True)
        then show ?thesis by blast
      next
        case False
        then show ?thesis by (intro exI [of _ 0]) simp
      qed
    qed
  qed
  then show ?thesis using assms(2) by blast
qed

text \<open>The condition of the loop that should wait for the end of the transmission is always false.\<close>

lemma transmit_does_not_wait: "transmit_wait bus port v s = Some (Inr (v, s))"
  by (subst transmit_wait.simps) simp

text \<open>Without an EEPROM the address of the card stays 0, whatever its registers hold.\<close>

lemma read_mac_without_eeprom:
  "fst (read_eeprom bus ioaddr 0 s) = 0xFFFF \<Longrightarrow> \<exists>s'. read_mac bus ioaddr s = Inr (replicate 6 0, s')"
  by (simp add: read_mac_def Let_def split_beta)

section \<open>The driver\<close>

text \<open>
  The reset of the card returns exactly if a poll finds the reset bit clear; it has then polled up to the
  first such poll and printed a message for each of the others.
\<close>

lemma software_reset_result:
  fixes bus :: "'d bus" and ioaddr :: u32 and s :: "'d pc"
  assumes "cursor_ok (screen s)"
  defines "d0 \<equiv> write8 bus (ucast (ioaddr + ChipCmd)) 0x10 (device s)"
  shows "if \<exists>k. \<not> resetting bus ioaddr ((poll bus ioaddr ^^ k) d0)
    then let k = LEAST k. \<not> resetting bus ioaddr ((poll bus ioaddr ^^ k) d0) in
      \<exists>s'. software_reset bus ioaddr s = Some (Inr s') \<and> device s' = (poll bus ioaddr ^^ Suc k) d0 \<and> ram s' = ram s \<and>
        prints s (replicate k reset_message @ [(''Reset done.'' @ newline_char, [])]) s'
    else software_reset bus ioaddr s = None"
proof -
  let ?s = "outb bus 0x10 (ucast (ioaddr + ChipCmd)) s"
  let ?busy = "\<lambda>k. resetting bus ioaddr ((poll bus ioaddr ^^ k) d0)"
  have ok: "cursor_ok (screen ?s)" using assms(1) by simp
  have dev: "device ?s = d0" "ram ?s = ram s" by (simp_all add: d0_def outb_def)
  show ?thesis
  proof (cases "\<exists>k. \<not> ?busy k")
    case True
    let ?k = "LEAST k. \<not> ?busy k"
    have "\<not> ?busy ?k" using True by (rule LeastI_ex)
    moreover have "?busy j" if "j < ?k" for j using not_less_Least [OF that] by simp
    ultimately obtain t where t: "wait_reset bus ioaddr ?s = Some (Inr t)" "device t = (poll bus ioaddr ^^ Suc ?k) d0"
      "ram t = ram s" "prints ?s (replicate ?k reset_message) t"
      using wait_reset_returns [OF ok, of bus ioaddr ?k] unfolding dev by blast
    note p = print_after [OF prints_cursor [OF t(4)] driver_messages(10)]
    let ?s' = "after_print (''Reset done.'' @ newline_char) [] t"
    have "software_reset bus ioaddr s = Some (Inr ?s')"
      by (simp only: software_reset_def t(1) and_run_simps p(1))
    moreover have "prints s (replicate ?k reset_message @ [(''Reset done.'' @ newline_char, [])]) ?s'"
      by (rule prints_from [OF prints_trans [OF t(4) p(2)]]) simp_all
    moreover have "device ?s' = (poll bus ioaddr ^^ Suc ?k) d0" "ram ?s' = ram s"
      by (simp_all only: after_print_keeps t)
    ultimately show ?thesis using True by (simp only: if_True Let_def) blast
  next
    case False
    then have "wait_reset bus ioaddr ?s = None"
      using wait_reset_returned [OF _ ok, of bus ioaddr] unfolding dev by (metis not_None_eq)
    then show ?thesis using False by (simp add: software_reset_def)
  qed
qed

lemma software_reset_runs:
  assumes "printing s t" "software_reset bus ioaddr t = Some r"
  shows "runs s (\<lambda>u. u) r"
proof -
  obtain t' ms where "r = Inr t'" "prints t ms t'"
    using software_reset_result [OF printing_cursor [OF assms(1)], of bus ioaddr] assms(2)
    by (auto simp: Let_def split: if_splits)
  then show ?thesis using printing_trans [OF assms(1)] by (auto simp: printing_def)
qed

lemma fill_bytes_runs:
  "printing s t \<Longrightarrow> i + n \<le> elements \<Longrightarrow> runs s (\<lambda>u. u) (fill_bytes a elements i n v t)"
  by (induction n arbitrary: i t) simp_all

lemma mac_words_runs:
  "printing s t \<Longrightarrow> j + 2 * n \<le> length mac \<Longrightarrow>
    \<exists>mac' t'. mac_words bus ioaddr n i j mac t = Inr (mac', t') \<and> length mac' = length mac \<and> printing s t'"
proof (induction n arbitrary: i j mac t)
  case (Suc n)
  let ?r = "read_eeprom bus ioaddr (of_nat i + 7) t"
  let ?mac = "\<lambda>lo hi. mac[j := lo, Suc j := hi]"
  have "\<exists>mac' t'. mac_words bus ioaddr n (Suc i) (j + 2) (?mac lo hi) (snd ?r) = Inr (mac', t') \<and>
      length mac' = length (?mac lo hi) \<and> printing s t'" for lo hi
    using Suc.prems by (intro Suc.IH) simp_all
  then show ?case using Suc.prems by (simp add: Let_def split_beta)
qed simp

lemma read_mac_runs:
  assumes "printing s t"
  obtains mac t' where "read_mac bus ioaddr t = Inr (mac, t')" "length mac = 6" "printing s t'"
proof (cases "fst (read_eeprom bus ioaddr 0 t) = 0xFFFF")
  case True
  have "printing s (mac_registers bus ioaddr n i u)" if "printing s u" for n i u
    using that by (induction n arbitrary: i u) simp_all
  then show thesis using True assms that by (simp add: read_mac_def split_beta)
next
  case False
  obtain mac t' where "mac_words bus ioaddr 3 0 0 (replicate 6 0) (snd (read_eeprom bus ioaddr 0 t)) = Inr (mac, t')"
    "length mac = 6" "printing s t'"
    using mac_words_runs [of s "snd (read_eeprom bus ioaddr 0 t)" 0 3 "replicate 6 0" bus ioaddr 0] assms by auto
  then show thesis using False that by (simp add: read_mac_def split_beta)
qed

lemma print_mac_bytes_runs:
  "printing s t \<Longrightarrow> i + n \<le> length mac \<Longrightarrow> runs s (\<lambda>u. u) (print_mac_bytes n i mac t)"
proof (induction n arbitrary: i t)
  case (Suc n)
  have "runs s (\<lambda>u. u) (and_then (print ''%x:'' [mac ! i] t) (\<lambda>t1. print_mac_bytes n (Suc i) mac t1))"
    by (rule runs_then [OF runs_print [OF Suc.prems(1) driver_messages(7)]]) (rule Suc.IH, use Suc.prems in simp_all)
  then show ?case using Suc.prems(2) by simp
qed simp

lemma print_mac_runs:
  assumes "printing s t" "length mac = 6"
  shows "runs s (\<lambda>u. u) (print_mac mac t)"
  unfolding print_mac_def
  by (intro runs_then [where state = "\<lambda>u. u"] runs_print driver_messages print_mac_bytes_runs) (use assms in simp_all)

lemma bus_mastering_runs: "printing s t \<Longrightarrow> runs s (\<lambda>u. u) (bus_mastering bus n t)"
  unfolding bus_mastering_def Let_def split_beta
  by (intro runs_then [where state = "\<lambda>u. u"] runs_print driver_messages) simp_all

lemma prepare_card_runs:
  assumes "printing s t"
  shows "runs s snd (prepare_card bus n t)"
proof -
  have mac: "runs s snd (and_then (read_mac bus ioaddr u) (\<lambda>(mac, v). and_then (print_mac mac v) (\<lambda>w. Inr (ioaddr, w))))"
    if "printing s u" for ioaddr u
  proof -
    obtain m v where "read_mac bus ioaddr u = Inr (m, v)" "length m = 6" "printing s v"
      using read_mac_runs [OF \<open>printing s u\<close>, of bus ioaddr] by blast
    then show ?thesis by (auto intro: runs_then [OF print_mac_runs])
  qed
  show ?thesis
    unfolding prepare_card_def Let_def case_prod_beta
    by (intro runs_then [where state = "\<lambda>u. u"] runs_print driver_messages bus_mastering_runs mac [unfolded case_prod_beta])
       (use assms in simp_all)
qed

lemma enable_card_runs: "printing s t \<Longrightarrow> runs s (\<lambda>u. u) (enable_card bus ioaddr rx t)"
  unfolding enable_card_def Let_def
  by (intro runs_then [where state = "\<lambda>u. u"] runs_print driver_messages fill_bytes_runs) simp_all

lemma and_run_runs:
  assumes "and_run (Some r) k = Some r'" "runs s state r"
    and "\<And>x r'. r = Inr x \<Longrightarrow> printing s (state x) \<Longrightarrow> k x = Some r' \<Longrightarrow> runs s state' r'"
  shows "runs s state' r'"
  using assms by (cases r) (auto simp: runs_def)

lemma transmit_runs:
  assumes "printing s t" "transmit bus ioaddr tx t = Some r"
  shows "runs s (\<lambda>u. u) r"
proof -
  obtain t1 where t1: "fill_bytes tx 256 0 256 65 t = Inr t1" "printing s t1"
    using fill_bytes_runs [OF assms(1), of 0 256 256 tx 65] by (auto simp: runs_def)
  obtain t2 where t2: "print (''Sending...'' @ newline_char) [] t1 = Inr t2" "printing s t2"
    using runs_print [OF t1(2) driver_messages(12)] by (auto simp only: runs_def)
  have arrays: "rd [0x20, 0x24, 0x28, 0x2C :: u8] 0 = Inr 0x20" "rd [0x10, 0x14, 0x18, 0x1C :: u8] 0 = Inr 0x10" by simp_all
  let ?port = "ucast (ioaddr + ucast (0x10 :: u8)) :: u16"
  let ?io = "inl bus ?port (outl bus (0 OR (of_nat 256 AND 0x1FFF)) ?port
    (outl bus tx (ucast (ioaddr + ucast (0x20 :: u8))) t2))"
  have io: "printing s (snd ?io)" using t2(2) by simp
  obtain t3 where t3: "print (''Waiting for transmit_ok done. transmit_ok = %d'' @ newline_char) [fst ?io] (snd ?io) = Inr t3"
    "printing s t3" using runs_print [OF io driver_messages(13)] by (auto simp only: runs_def)
  have "transmit bus ioaddr tx t = Some (print (''Sending done.'' @ newline_char) [] t3)"
    by (simp only: transmit_def Let_def t1(1) t2(1) t3(1) arrays and_run_simps transmit_does_not_wait split_beta fst_conv snd_conv)
  then show ?thesis using assms(2) runs_print [OF t3(2) driver_messages(14)] by (simp only: option.inject)
qed

lemma start_card_runs:
  assumes "printing s t" "start_card bus rx tx n t = Some r"
  shows "runs s (\<lambda>u. u) r"
proof (rule and_run_runs [OF assms(2) [unfolded start_card_def] prepare_card_runs [OF assms(1)]], goal_cases)
  case (1 x r)
  obtain q where q: "software_reset bus (fst x) (snd x) = Some q" "runs s (\<lambda>u. u) q"
    using 1(2,3) software_reset_runs [OF 1(2)] by (cases "software_reset bus (fst x) (snd x)") (auto simp: split_beta)
  show ?case
  proof (rule and_run_runs [OF 1(3) [unfolded split_beta q(1)] q(2)], goal_cases)
    case (1 y r)
    show ?case by (rule and_run_runs [OF 1(3) enable_card_runs [OF 1(2)]]) (rule transmit_runs)
  qed
qed

text \<open>The driver has no fault, whatever the hardware does; it changes the screen only by its messages.\<close>

lemma init_pcilist_runs:
  assumes "cursor_ok (screen s)" "init_pcilist bus rx tx s = Some r"
  shows "runs s snd r"
proof -
  have s: "printing s (snd (n, s))" for n :: nic using printing_refl [OF assms(1)] by simp
  show ?thesis
  proof (rule and_run_runs [OF assms(2) [unfolded init_pcilist_def] bus_loop_runs [OF s]], goal_cases)
    case (1 x r)
    show ?case
    proof (cases "realtek8319Found (fst x) = 0")
      case True
      then show ?thesis using 1 by (auto simp: split_beta)
    next
      case False
      then obtain q where "start_card bus rx tx (fst x) (snd x) = Some q"
        "and_run (Some q) (\<lambda>s2. Some (Inr (0, s2))) = Some r"
        using 1(3) by (cases "start_card bus rx tx (fst x) (snd x)") (auto simp: split_beta)
      with start_card_runs [OF 1(2) this(1)] show ?thesis by (auto simp: runs_def)
    qed
  qed
qed

section \<open>Properties\<close>

definition no_nic :: nic where
  "no_nic = \<lparr>realtek8319Found = 0, pci_bus = 0, pci_device = 0, pci_device_fn = 0\<rparr>"

lemma pci_functions_set: "(b, d, f) \<in> set pci_functions \<longleftrightarrow> b \<noteq> 0xFF \<and> d < 32 \<and> f < 8"
proof -
  have num: "(\<exists>i < n. w = of_nat i) \<longleftrightarrow> unat w < n" if "n \<le> 256" for w :: u8 and n
  proof
    show "\<exists>i < n. w = of_nat i" if "unat w < n" using that by (intro exI [of _ "unat w"]) simp
    show "unat w < n" if "\<exists>i < n. w = of_nat i"
      using that \<open>n \<le> 256\<close> by (auto simp: unat_of_nat take_bit_nat_eq_self)
  qed
  have "(b, d, f) \<in> set pci_functions \<longleftrightarrow> (\<exists>i < 255. b = of_nat i) \<and> (\<exists>i < 32. d = of_nat i) \<and> (\<exists>i < 8. f = of_nat i)"
    unfolding pci_functions_def devices_of_def functions_of_def by (simp add: atLeast0LessThan) blast
  also have "\<dots> \<longleftrightarrow> unat b < 255 \<and> unat d < 32 \<and> unat f < 8" by (simp only: num)
  also have "\<dots> \<longleftrightarrow> b \<noteq> 0xFF \<and> d < 32 \<and> f < 8"
    using unat_bound [of b] by (auto simp: word_less_nat_alt word_eq_unat)
  finally show ?thesis .
qed

text \<open>
  C15. Enumeration of the bus, on hardware with the documented configuration mechanism and with the cursor on the
  screen: \<^verbatim>\<open>init_pcilist\<close> probes each of the 8 functions of the 32 devices of every bus but the last, in this order,
  without a fault, and prints nothing but messages. It is the last function that
  responds, and no other one, that decides: if that is an RTL8139 its address is recorded and the card is
  started, and otherwise the routine returns without starting a card, even if it has found one before.
\<close>

theorem enumeration_last_function_decides:
  assumes "config_reads bus config latch" "cursor_ok (screen s)"
  shows "let rs = filter (\<lambda>x. function_id (config (device s)) x \<noteq> 0xFFFFFFFF) pci_functions in
    (\<forall>b d f. (b, d, f) \<in> set pci_functions \<longleftrightarrow> b \<noteq> 0xFF \<and> d < 32 \<and> f < 8) \<and>
    (\<exists>n s1. bus_loop bus 0 (no_nic, s) = Inr (n, s1) \<and> printing s s1 \<and>
      (if rs \<noteq> [] \<and> function_id (config (device s)) (last rs) = RTL8139
       then (pci_bus n, pci_device n, pci_device_fn n) = last rs \<and>
         init_pcilist bus rx tx s = and_run (start_card bus rx tx n s1) (\<lambda>s2. Some (Inr (0, s2)))
       else init_pcilist bus rx tx s = Some (Inr (0, s1))))"
proof -
  have "printing s (snd (no_nic, s))" using printing_refl [OF assms(2)] by simp
  from bus_loop_runs [OF this, of bus 0] obtain n s1 where ns: "bus_loop bus 0 (no_nic, s) = Inr (n, s1)" "printing s s1"
    by (auto simp: runs_def)
  have n: "fold (probed (config (device s))) pci_functions no_nic = n" by (rule bus_loop_result [OF assms(1) ns(1), symmetric])
  have init: "init_pcilist bus rx tx s = (if realtek8319Found n \<noteq> 0
      then and_run (start_card bus rx tx n s1) (\<lambda>s2. Some (Inr (0, s2))) else Some (Inr (0, s1)))"
    using ns(1) by (simp add: init_pcilist_def no_nic_def)
  show ?thesis
    using probed_last [of no_nic "config (device s)" pci_functions] pci_functions_set ns
    unfolding n Let_def init by (auto simp: no_nic_def split: if_splits)
qed

text \<open>A machine with a blank screen, for the witnesses.\<close>

definition example_pc :: "'d \<Rightarrow> 'd pc" where
  "example_pc d = \<lparr>device = d, ram = (\<lambda>_. 0),
     screen = \<lparr>video = replicate 4000 0, xpos = 0, ypos = 0, vga_index = 0\<rparr>, output_log = []\<rparr>"

lemma example_pc_simps [simp]: "cursor_ok (screen (example_pc d))" "device (example_pc d) = d" "output_log (example_pc d) = []"
  by (simp_all add: example_pc_def cursor_ok_def COLUMNS_def LINES_def)

theorem enumeration_last_function_decides_witness:
  "\<exists>s1. init_pcilist (example_bus (\<lambda>a old v. v)) 0 0 (example_pc (0, \<lambda>_. 0xFFFFFFFF)) = Some (Inr (0, s1))"
  using enumeration_last_function_decides [OF example_bus_config(1) [where react = "\<lambda>a old v. v"],
      where s = "example_pc (0, \<lambda>_. 0xFFFFFFFF)" and rx = 0 and tx = 0]
  by (auto simp: function_id_def Let_def)

text \<open>
  C17. \<^verbatim>\<open>pci_write_word\<close> on registers that keep what is written to them: it answers the word it was given, that
  word is in its half of the register, and the other half and all other registers are as before.
\<close>

theorem pci_write_word_reads_back:
  assumes "config_reads bus config latch" "config_writes bus config latch (\<lambda>a old v. v)"
  shows "let a = config_word b d f offset; sh = word_shift offset; c = config (device s);
      (r, s') = pci_write_word bus b d f offset data s; c' = config (device s') in
    r = data \<and> half sh (c' a) = data \<and> half (16 - sh) (c' a) = half (16 - sh) (c a) \<and> c' = c(a := c' a)"
  using pci_write_word_result [OF assms refl refl, where b = b and d = d and f = f and offset = offset and s = s and data = data] half_merged [OF word_shift]
  by (simp add: Let_def split_beta)

theorem pci_write_word_reads_back_witness:
  "fst (pci_write_word (example_bus (\<lambda>a old v. v)) 0 3 0 6 0xAAAA
      (example_pc (0, \<lambda>_. 0x11112222))) = 0xAAAA"
  using pci_write_word_reads_back [OF example_bus_config, where b = 0 and d = 3 and f = 0 and offset = 6 and data = "0xAAAA"
      and s = "example_pc (0, \<lambda>_. 0x11112222)"]
  by (simp add: Let_def split_beta)

text \<open>
  Turning bus mastering on writes the whole register at offset 4 and so the status word above the command word. On
  a function whose status bits \<open>rw1c\<close> are cleared by writing 1 to them, as the PCI specification has it, the command
  word is the old one with bit 2 set, and every pending one of these status bits is lost.
\<close>

theorem bus_mastering_clears_status:
  assumes "config_reads bus config latch" "config_writes bus config latch react"
    and "a = config_word (ucast (pci_bus n)) (ucast (pci_device n)) (ucast (pci_device_fn n)) 4"
    and "\<And>old v. half 0 (react a old v) = half 0 v \<and> half 16 (react a old v) = half 16 old AND NOT (half 16 v AND rw1c)"
    and "cursor_ok (screen s)"
  shows "\<exists>s'. bus_mastering bus n s = Inr s' \<and> printing s s' \<and>
    (let c = config (device s); c' = config (device s') in
      half 0 (c' a) = half 0 (c a) OR 4 \<and> half 16 (c' a) = half 16 (c a) AND NOT rw1c \<and> c' = c(a := c' a))"
proof -
  let ?b = "ucast (pci_bus n)" and ?d = "ucast (pci_device n)" and ?f = "ucast (pci_device_fn n)"
  have sh: "word_shift 4 = 0" by (simp add: word_shift_def)
  note read = pci_read_word_result [OF assms(1), of ?b ?d ?f 4]
  note wr = pci_write_word_result(2) [OF assms(1,2) refl refl, of ?b ?d ?f 4]
  obtain s' where s': "bus_mastering bus n s = Inr s'" "printing s s'"
    using bus_mastering_runs [OF printing_refl [OF assms(5)], of bus n] by (auto simp: runs_def)
  then have "config (device s') =
    (config (device s))(a := react a (config (device s) a) (merged 0 (config (device s) a) (half 0 (config (device s) a) OR 4)))"
    unfolding bus_mastering_def Let_def split_beta
    by (auto simp: and_then_eq_Inr read wr sh assms(3) dest!: print_keeps simp del: append.simps)
  moreover have "half 0 (merged 0 old data) = data" "half 16 (merged 0 old data) = half 16 old" for old data
    using half_merged [of 0 old data] by simp_all
  moreover have "x AND NOT (x AND y) = x AND NOT y" for x y :: u16
    by (rule bit_word_eqI) (auto simp: bit_and_iff bit_not_iff bit_or_iff)
  ultimately show ?thesis using s' by (simp add: Let_def assms(4))
qed

definition status_react :: "u32 \<Rightarrow> u32 \<Rightarrow> u32 \<Rightarrow> u32" where
  "status_react a old v = merged 16 v (half 16 old AND NOT (half 16 v AND 0xF900))"

theorem bus_mastering_clears_status_witness:
  "\<exists>s'. bus_mastering (example_bus status_react)
      \<lparr>realtek8319Found = 1, pci_bus = 0, pci_device = 3, pci_device_fn = 0\<rparr>
      (example_pc (0, \<lambda>_. 0xA0000003)) = Inr s' \<and> half 16 (snd (device s') (config_word 0 3 0 4)) = 0"
proof -
  have "half 0 (status_react a old v) = half 0 v \<and> half 16 (status_react a old v) = half 16 old AND NOT (half 16 v AND 0xF900)"
    for a old v
    using half_merged [of 16 v] by (simp add: status_react_def)
  from bus_mastering_clears_status [where react = status_react
        and n = "\<lparr>realtek8319Found = 1, pci_bus = 0, pci_device = 3, pci_device_fn = 0\<rparr>"
        and s = "example_pc (0, \<lambda>_. 0xA0000003)", OF example_bus_config refl this example_pc_simps(1)]
  show ?thesis by (auto simp: Let_def half_def)
qed

text \<open>
  C16. \<^verbatim>\<open>read_eeprom\<close>, whatever the device answers: after selecting the EEPROM it shifts out the 11 bits of the read
  command, highest first, each with a low and a high clock, then clocks 16 bits in and deselects it. Bit \<open>i\<close> of the
  answer is the lowest bit of what the device gave in the \<open>(15 - i)\<close>-th of these reads, and the bits above 15 are 0.
\<close>

theorem read_eeprom_protocol:
  "let p = ucast (ioaddr + 0x50); (v, s') = read_eeprom (recorder reply) ioaddr location s in
    device s' = device s @ eeprom_command p location @ data_bits p 16 @ [Out8 p 0xF7] \<and>
    (\<forall>i. bit v i \<longleftrightarrow> i < 16 \<and> bit (reply (sample p (device s @ eeprom_command p location) (15 - i))) 0)"
proof -
  let ?p = "ucast (ioaddr + 0x50) :: u16"
  obtain v s' where run: "read_eeprom (recorder reply) ioaddr location s = (v, s')" by fastforce
  note r = read_eeprom_result [OF run refl]
  have "bit v i \<longleftrightarrow> i < 16 \<and> bit (reply (sample ?p (device s @ eeprom_command ?p location) (15 - i))) 0" for i
  proof (cases "i < 32")
    case True
    then show ?thesis by (rule r(2))
  next
    case False
    then show ?thesis using bit_imp_le_length [of v i] by auto
  qed
  then show ?thesis using r(1) run by (simp add: Let_def)
qed

text \<open>
  C18. The software reset of the card returns exactly if some poll of the command register finds the reset bit clear; it
  has then polled up to the first such poll, and has printed on the screen one message for each of the earlier ones and
  then the message that the reset is done. It does nothing else to the card, the memory or the screen.
\<close>

theorem software_reset_returns_iff:
  assumes "cursor_ok (screen s)"
  shows "let d0 = write8 bus (ucast (ioaddr + ChipCmd)) 0x10 (device s);
      busy = (\<lambda>k. resetting bus ioaddr ((poll bus ioaddr ^^ k) d0)) in
    if \<exists>k. \<not> busy k
    then let k = LEAST k. \<not> busy k in
      \<exists>s'. software_reset bus ioaddr s = Some (Inr s') \<and> device s' = (poll bus ioaddr ^^ Suc k) d0 \<and> ram s' = ram s \<and>
        prints s (replicate k reset_message @ [(''Reset done.'' @ newline_char, [])]) s'
    else software_reset bus ioaddr s = None"
  unfolding Let_def by (rule software_reset_result [OF assms, unfolded Let_def])

text \<open>A card that has finished its reset when it is polled for the second time.\<close>

theorem software_reset_returns_iff_witness:
  "\<exists>s'. software_reset (recorder (\<lambda>d. if length d < 3 then 0x10 else 0)) 0xC000 (example_pc []) = Some (Inr s') \<and>
    device s' = [Out8 0xC037 0x10, In8 0xC037, In8 0xC037] \<and>
    output_log s' = [reset_message, (''Reset done.'' @ newline_char, [])]"
proof -
  let ?bus = "recorder (\<lambda>d. if length d < 3 then 0x10 else 0)"
  let ?d0 = "write8 ?bus (ucast (0xC000 + ChipCmd)) 0x10 (device (example_pc []))"
  have d0: "?d0 = [Out8 0xC037 0x10]" by (simp add: ChipCmd_def)
  have busy: "resetting ?bus 0xC000 ?d0" "\<not> resetting ?bus 0xC000 (poll ?bus 0xC000 ?d0)"
    by (simp_all add: resetting_def poll_def ChipCmd_def)
  have "(LEAST k. \<not> resetting ?bus 0xC000 ((poll ?bus 0xC000 ^^ k) ?d0)) = 1"
  proof (rule Least_equality)
    show "1 \<le> k" if "\<not> resetting ?bus 0xC000 ((poll ?bus 0xC000 ^^ k) ?d0)" for k
      using that busy(1) by (cases k) simp_all
  qed (simp only: One_nat_def funpow.simps o_apply id_apply busy(2) not_False_eq_True)
  moreover have "\<exists>k. \<not> resetting ?bus 0xC000 ((poll ?bus 0xC000 ^^ k) ?d0)"
    by (intro exI [of _ 1]) (simp only: One_nat_def funpow.simps o_apply id_apply busy(2) not_False_eq_True)
  ultimately obtain s' where "software_reset ?bus 0xC000 (example_pc []) = Some (Inr s')"
    "device s' = (poll ?bus 0xC000 ^^ Suc 1) ?d0"
    "prints (example_pc []) (replicate 1 reset_message @ [(''Reset done.'' @ newline_char, [])]) s'"
    using software_reset_returns_iff [where s = "example_pc []" and bus = ?bus and ioaddr = "0xC000", OF example_pc_simps(1)] by (auto simp only: Let_def if_True)
  moreover have "(poll ?bus 0xC000 ^^ Suc 1) ?d0 = [Out8 0xC037 0x10, In8 0xC037, In8 0xC037]"
    unfolding d0 by (simp add: poll_def ChipCmd_def)
  ultimately show ?thesis by (auto simp: prints_def simp del: append.simps)
qed

end
