(* ===== verification/Kernel.thy ===== *)
theory Kernel
  imports Memory_Map Bitmap Descriptor_Tables PCI_Correct
begin

text \<open>
  \<^verbatim>\<open>main\<close> of \<^verbatim>\<open>kernel.c\<close>: the start of the kernel, composed of the components it calls. The state is
  the record of their states; what the linker, the boot loader and the hardware choose is the record
  \<open>environment\<close>. The messages of \<^verbatim>\<open>main\<close> and of the card's driver go to the same screen and list of
  messages (\<open>Ports\<close>). The routine does not return where the walk over the memory map or the reset of the
  network card does not.
\<close>

section \<open>The routine\<close>

record 'd environment =
  port_bus :: "'d bus"
  gdt_address :: u32
  idt_address :: u32
  isr_stubs :: "nat \<Rightarrow> u32"
  rx_address :: u32
  tx_address :: u32
  boot_memory :: memory

record 'd kernel =
  tables :: descriptor_tables
  areas :: placement
  placement_memory_address :: u64
  frames :: "u32 list"
  hardware :: "'d pc"

definition MULTIBOOT_BOOTLOADER_MAGIC :: u32 where
  "MULTIBOOT_BOOTLOADER_MAGIC = 0x2BADB002"

definition RESERVED_MEMORY_IN_BYTES :: u64 where
  "RESERVED_MEMORY_IN_BYTES = 40 * 1024 * 1024"

text \<open>The structure at the address the boot loader passes.\<close>

definition load_multiboot_info :: "memory \<Rightarrow> u32 \<Rightarrow> multiboot_info" where
  "load_multiboot_info m a =
     \<lparr>mbi_flags = m a, mem_lower = m (a + 4), mem_upper = m (a + 8), boot_device = m (a + 12),
      cmdline = m (a + 16), mods_count = m (a + 20), mods_addr = m (a + 24),
      elf_sec = \<lparr>elf_num = m (a + 28), elf_size = m (a + 32), elf_addr = m (a + 36), elf_shndx = m (a + 40)\<rparr>,
      mmap_length = m (a + 44), mmap_addr = m (a + 48)\<rparr>"

definition complain :: "string \<Rightarrow> 'd kernel \<Rightarrow> 'd kernel result" where
  "complain msg k =
     and_then (print (msg @ newline_char) [] (hardware k)) (\<lambda>pc. Inr (k\<lparr>hardware := pc\<rparr>))"

text \<open>From the descriptor tables to the cleared screen; \<^verbatim>\<open>terminal_buffer\<close> is the video memory.\<close>

definition start_machine :: "'d environment \<Rightarrow> 'd kernel \<Rightarrow> 'd kernel result" where
  "start_machine env k =
     and_then (init_descriptor_tables (gdt_address env) (idt_address env) (isr_stubs env) (tables k)) (\<lambda>t.
     and_then (clear_placement_memory_array (areas k)) (\<lambda>a.
     and_then (k_cls (screen (hardware k))) (\<lambda>c.
     Inr (k\<lparr>tables := t, areas := a, hardware := (hardware k)\<lparr>screen := c\<lparr>vga_index := 0\<rparr>\<rparr>\<rparr>))))"

text \<open>The bitmap of frames and the enumeration of the PCI bus, the last steps.\<close>

definition set_up_frames :: "'d environment \<Rightarrow> 'd kernel \<Rightarrow> 'd kernel result option" where
  "set_up_frames env k =
     and_run (Some (reset_bitmap (frames k) BITMAP_ELEMENT_COUNT)) (\<lambda>b.
     and_run (Some (use_frames_in_bytes b BITMAP_ELEMENT_COUNT
         (ucast (RESERVED_MEMORY_IN_BYTES + PLACEMENT_MEMORY_SIZE_IN_BYTES)))) (\<lambda>(failed, b').
     let k' = k\<lparr>frames := b'\<rparr> in
     if failed \<noteq> 0 then Some (complain ''Setting up the bitmap failed!'' k')
     else
       and_run (init_pcilist (port_bus env) (rx_address env) (tx_address env) (hardware k')) (\<lambda>(_, pc).
       Some (Inr (k'\<lparr>hardware := pc\<rparr>)))))"

definition set_up_memory :: "'d environment \<Rightarrow> 'd kernel \<Rightarrow> 'd kernel result option" where
  "set_up_memory env k =
     and_run (Some (allocate_area_cover (areas k) 0 RESERVED_MEMORY_IN_BYTES)) (\<lambda>(_, a1).
     and_run (Some (allocate a1 PLACEMENT_MEMORY_SIZE_IN_BYTES)) (\<lambda>(start, a2).
     let k' = k\<lparr>areas := a2, placement_memory_address := start\<rparr> in
     if start = 0 then Some (complain ''Setting up placement memory failed!'' k')
     else set_up_frames env k'))"

definition main :: "'d environment \<Rightarrow> u32 \<Rightarrow> u32 \<Rightarrow> 'd kernel \<Rightarrow> 'd kernel result option" where
  "main env magic addr k =
     and_run (Some (start_machine env k)) (\<lambda>k1.
     if magic = MULTIBOOT_BOOTLOADER_MAGIC then
       and_run (process_multiboot_memory_map (boot_memory env) (areas k1)
           (load_multiboot_info (boot_memory env) addr)) (\<lambda>(failed, a).
       let k2 = k1\<lparr>areas := a\<rparr> in
       if failed \<noteq> 0 then Some (complain ''Processing placement memory failed!'' k2)
       else set_up_memory env k2)
     else set_up_memory env k1)"

section \<open>The steps on a machine of the right shape\<close>

text \<open>The arrays have the sizes of their declarations.\<close>

definition kernel_shape :: "'d kernel \<Rightarrow> bool" where
  "kernel_shape k \<longleftrightarrow> length (gdt_entries (tables k)) = 5 \<and> length (free_memory_areas (areas k)) = 10 \<and>
     length (video (screen (hardware k))) = 4000 \<and> length (frames k) = 1601"

text \<open>The hardware with the screen cleared: the 24 lines are blank, the cursor is in the first cell.\<close>

definition cleared :: "'d pc \<Rightarrow> 'd pc" where
  "cleared s = s\<lparr>screen := \<lparr>video = replicate 3840 0 @ drop 3840 (video (screen s)), xpos = 0, ypos = 0, vga_index = 0\<rparr>\<rparr>"

lemma cleared_simps [simp]: "device (cleared s) = device s" "output_log (cleared s) = output_log s"
  by (simp_all add: cleared_def)

lemma cleared_screen:
  assumes "length (video (screen s)) = 4000"
  shows "cursor_ok (screen (cleared s))" "length (video (screen (cleared s))) = 4000"
  using assms by (simp_all add: cleared_def cursor_ok_def COLUMNS_def LINES_def)

lemma cls_loop_eq:
  "3840 \<le> length v \<Longrightarrow> i \<le> 3840 \<Longrightarrow>
    cls_loop v i = Inr (take i v @ replicate (3840 - i) 0 @ drop 3840 v)"
proof (induction "3840 - i" arbitrary: i v)
  case 0
  then show ?case by (subst cls_loop.simps) (simp add: COLUMNS_def LINES_def)
next
  case (Suc d)
  then have i: "i < 3840" "d = 3840 - Suc i" by auto
  have "cls_loop v i = cls_loop (v[i := 0]) (Suc i)"
    using i Suc.prems by (subst cls_loop.simps) (simp add: COLUMNS_def LINES_def)
  also have "\<dots> = Inr (take (Suc i) (v[i := 0]) @ replicate (3840 - Suc i) 0 @ drop 3840 (v[i := 0]))"
    using Suc.hyps(1) [OF i(2)] Suc.prems i(1) by simp
  also have "take (Suc i) (v[i := 0]) = take i v @ [0]"
    using i Suc.prems by (simp add: take_Suc_conv_app_nth)
  finally show ?case using i by (simp add: replicate_app_Cons_same Suc_diff_le flip: replicate_Suc)
qed

lemma init_idt_returns: "\<exists>t. init_idt idt_addr isr s = Inr t \<and> gdt_entries t = gdt_entries s"
proof -
  let ?s = "s\<lparr>idt_ptr := \<lparr>ptr_limit = ucast (sizeof_idt_entry * 256 - 1), ptr_base = idt_addr\<rparr>,
    idt_entries := replicate 256 zero_idt_entry\<rparr>"
  have "length (idt_entries ?s) = 256" by simp
  from isr_gates_eq [OF this, of 0 isr] obtain entries where
    "init_idt idt_addr isr s = Inr (?s\<lparr>idt_entries := entries\<rparr>)"
    unfolding init_idt_def Let_def by blast
  then show ?thesis by simp
qed

lemma start_machine_eq:
  assumes "kernel_shape k"
  obtains t where "start_machine env k = Inr (k\<lparr>tables := t, areas := table [], hardware := cleared (hardware k)\<rparr>)"
    "init_descriptor_tables (gdt_address env) (idt_address env) (isr_stubs env) (tables k) = Inr t"
    "length (gdt_entries t) = 5"
proof -
  have shape: "length (gdt_entries (tables k)) = 5" "length (free_memory_areas (areas k)) = 10"
    "length (video (screen (hardware k))) = 4000"
    using assms by (simp_all add: kernel_shape_def)
  let ?t1 = "\<lambda>g. (tables k)\<lparr>gdt_ptr := \<lparr>ptr_limit = 39, ptr_base = gdt_address env\<rparr>, gdt_entries := g\<rparr>"
  obtain g where g: "init_gdt (gdt_address env) (tables k) = Inr (?t1 g)" "length g = 5"
    using init_gdt_eq [OF shape(1), of "gdt_address env"] by auto
  obtain t where "init_idt (idt_address env) (isr_stubs env) (?t1 g) = Inr t" "gdt_entries t = gdt_entries (?t1 g)"
    using init_idt_returns by blast
  with g have t: "init_descriptor_tables (gdt_address env) (idt_address env) (isr_stubs env) (tables k) = Inr t" "length (gdt_entries t) = 5"
    by (simp_all add: init_descriptor_tables_def)
  have "k_cls (screen (hardware k)) = Inr ((screen (hardware k))
      \<lparr>video := replicate 3840 0 @ drop 3840 (video (screen (hardware k))), xpos := 0, ypos := 0\<rparr>)"
    using cls_loop_eq [of "video (screen (hardware k))" 0] shape(3) by (simp add: k_cls_def)
  then have eq: "start_machine env k = Inr (k\<lparr>tables := t, areas := table [], hardware := cleared (hardware k)\<rparr>)"
    using t(1) clear_table [OF shape(2)] by (simp add: start_machine_def cleared_def)
  show thesis by (rule that [OF eq t(1)]) (use t(2) in simp_all)
qed

text \<open>The failure messages of \<^verbatim>\<open>main\<close>.\<close>

definition failures :: "string set" where
  "failures = {''Processing placement memory failed!'', ''Setting up placement memory failed!'',
     ''Setting up the bitmap failed!''}"

lemma failures_plain:
  assumes "msg \<in> failures"
  shows "renders (msg @ newline_char) (length [])" "37 \<notin> set (bytes_of (msg @ newline_char))"
proof -
  have plain: "renders (''Processing placement memory failed!'' @ newline_char) 0"
    "renders (''Setting up placement memory failed!'' @ newline_char) 0"
    "renders (''Setting up the bitmap failed!'' @ newline_char) 0"
    "37 \<notin> set (bytes_of (''Processing placement memory failed!'' @ newline_char))"
    "37 \<notin> set (bytes_of (''Setting up placement memory failed!'' @ newline_char))"
    "37 \<notin> set (bytes_of (''Setting up the bitmap failed!'' @ newline_char))" by code_simp+
  show "renders (msg @ newline_char) (length [])" "37 \<notin> set (bytes_of (msg @ newline_char))"
    using assms plain unfolding failures_def list.size by (auto simp del: append.simps)
qed

lemma complain_prints:
  assumes "cursor_ok (screen s)" "msg \<in> failures"
  obtains pc where "print (msg @ newline_char) [] s = Inr pc" "prints s [(msg @ newline_char, [])] pc"
    "shows_text (screen s) (map char_code (bytes_of (msg @ newline_char))) (screen pc)"
proof -
  note p = print_after [OF assms(1) failures_plain(1) [OF assms(2)]]
  from p(2) have "shows_text (screen s) (map char_code (bytes_of (msg @ newline_char))) (screen (after_print (msg @ newline_char) [] s))"
    by (simp add: prints_def shows_messages_def message_text_def render_plain [OF failures_plain(2) [OF assms(2)]] del: append.simps) auto
  then show thesis using p that by blast
qed

lemma insert_areas_index:
  "insert_areas s as = Inr (r, s') \<Longrightarrow> free_memory_area_index s' \<le> free_memory_area_index s + length as"
proof (induction as arbitrary: s)
  case Nil
  then show ?case by simp
next
  case (Cons a as)
  then obtain r1 s1 where s1: "insert_area s (area_start a) (area_size a) = Inr (r1, s1)"
    "(if r1 \<noteq> 0 then Inr (- 2, s1) else insert_areas s1 as) = Inr (r, s')"
    by (auto simp: and_then_eq_Inr)
  note insert_area_index [OF s1(1)]
  moreover have "free_memory_area_index s' \<le> free_memory_area_index s1 + length as"
    using s1(2) Cons.IH [of s1] by (cases "r1 = 0") auto
  ultimately show ?case by simp
qed

lemma card_ranges:
  assumes "\<forall>a \<in> set as. card (area_range a) \<le> n"
  shows "card (ranges as) \<le> length as * n"
  using assms
proof (induction as)
  case (Cons a as)
  then have "card (ranges (a # as)) \<le> n + length as * n"
    using card_Un_le [of "area_range a" "ranges as"] by simp
  then show ?case by simp
qed simp

lemma ranges_finite: "finite (ranges as)"
  by (simp add: ranges_def area_range_def)

text \<open>Cutting off everything below an address never splits an area.\<close>

lemma cut_below_length: "length (concat (map (cut_area 0 e) as)) \<le> length as"
proof (induction as)
  case (Cons a as)
  have "length (cut_area 0 e a) \<le> 1" by (simp add: cut_area_def Let_def)
  with Cons show ?case by simp
qed simp

text \<open>
  The reserved memory is taken out, and the placement memory out of what is left: at most nine areas
  with 45 MiB among them have one of 5 MiB.
\<close>

lemma reserve_memory:
  assumes "placement_wf s" "free_memory_area_index s \<le> 9" "45 * 2 ^ 20 \<le> card (free_set s \<inter> {40 * 2 ^ 20..})"
  obtains s1 p s2 where "allocate_area_cover s 0 RESERVED_MEMORY_IN_BYTES = Inr (0, s1)"
    "allocate s1 PLACEMENT_MEMORY_SIZE_IN_BYTES = Inr (p, s2)" "40 * 2 ^ 20 \<le> unat p"
    "{unat p..<unat p + 5 * 2 ^ 20} \<subseteq> free_set s" "placement_wf s2"
    "free_set s2 = free_set s \<inter> {40 * 2 ^ 20..} - {unat p..<unat p + 5 * 2 ^ 20}"
proof -
  let ?e = "RESERVED_MEMORY_IN_BYTES - 1" and ?n = PLACEMENT_MEMORY_SIZE_IN_BYTES
  have e: "unat ?e = 40 * 2 ^ 20 - 1" and n: "unat ?n = 5 * 2 ^ 20" "?n \<noteq> 0"
    by (simp_all add: RESERVED_MEMORY_IN_BYTES_def PLACEMENT_MEMORY_SIZE_IN_BYTES_def)
  obtain as where s: "s = table as" "length as \<le> 10" "areas_ok as"
    using assms(1) by (rule placement_wf_cases)
  let ?bs = "concat (map (cut_area 0 ?e) as)"
  have "unat (0 :: u64) \<le> unat ?e" by simp
  from cut_all_correct [OF s(3) this]
  have bs: "areas_ok ?bs" "ranges ?bs = ranges as - {0..40 * 2 ^ 20 - 1}" unfolding e by simp_all
  moreover have "ranges as - {0..40 * 2 ^ 20 - 1} = ranges as \<inter> {40 * 2 ^ 20..}" by auto
  ultimately have rest: "ranges ?bs = free_set s \<inter> {40 * 2 ^ 20..}" using s(1) by simp
  have len: "length ?bs \<le> 9" using cut_below_length [of ?e as] assms(2) s(1) by simp
  have cover: "allocate_area_cover s 0 RESERVED_MEMORY_IN_BYTES = Inr (0, table ?bs)"
    using cover_table [OF s(3), of RESERVED_MEMORY_IN_BYTES 0] assms(2) s(1)
    by (simp add: RESERVED_MEMORY_IN_BYTES_def)
  have "\<exists>a \<in> set ?bs. ?n \<le> area_size a"
  proof (rule ccontr)
    assume "\<not> ?thesis"
    then have "\<forall>a \<in> set ?bs. unat (area_size a) < 5 * 2 ^ 20"
      unfolding word_le_nat_alt n(1) by (meson not_le)
    then have "\<forall>a \<in> set ?bs. card (area_range a) \<le> 5 * 2 ^ 20 - 1"
      unfolding area_range_def area_end_def by fastforce
    from card_ranges [OF this] have "card (ranges ?bs) \<le> 9 * (5 * 2 ^ 20 - 1)"
      using len by (meson le_trans mult_le_mono1)
    then show False using assms(3) rest by simp
  qed
  moreover have wf: "placement_wf (table ?bs)" using len bs(1) by (simp add: placement_wf_table)
  moreover note len
  ultimately show thesis
  proof (cases rule: allocate_cases [OF wf n(2)])
    case 1
    then show thesis using \<open>\<exists>a \<in> set ?bs. ?n \<le> area_size a\<close> by (auto simp: not_less [symmetric])
  next
    case (2 a s2)
    have blk: "block (area_start a) ?n = {unat (area_start a)..<unat (area_start a) + 5 * 2 ^ 20}"
      unfolding block_def n(1) ..
    have inside: "{unat (area_start a)..<unat (area_start a) + 5 * 2 ^ 20} \<subseteq> free_set s \<inter> {40 * 2 ^ 20..}"
      using 2(7) blk rest by simp
    then have "unat (area_start a) \<in> {40 * 2 ^ 20..}" by (rule subsetD [THEN IntD2]) simp
    then show thesis using that [OF cover 2(1)] inside 2(5,6) blk rest by simp
  next
    case 3
    then show thesis using len by simp
  qed
qed

lemma set_up_frames_result:
  assumes "length (frames k) = 1601"
    and "init_pcilist (port_bus env) (rx_address env) (tx_address env) (hardware k) = Some (Inr (r, pc))"
  obtains b where "set_up_frames env k = Some (Inr (k\<lparr>frames := b, hardware := pc\<rparr>))" "used_frames b = {..<11520}"
proof -
  let ?n = "RESERVED_MEMORY_IN_BYTES + PLACEMENT_MEMORY_SIZE_IN_BYTES"
  have n: "unat (ucast ?n :: u32) = 45 * 2 ^ 20"
    by (simp add: RESERVED_MEMORY_IN_BYTES_def PLACEMENT_MEMORY_SIZE_IN_BYTES_def)
  have reset: "reset_bitmap (frames k) BITMAP_ELEMENT_COUNT = Inr (replicate 1601 0)"
    using reset_loop_eq [of 1601 "frames k" 0] assms(1) by (simp add: reset_bitmap_def BITMAP_ELEMENT_COUNT_eq)
  have wf: "bitmap_wf BITMAP_ELEMENT_COUNT (replicate 1601 0)" by (simp add: bitmap_wf_def BITMAP_ELEMENT_COUNT_eq)
  have "used_frames (replicate 1601 0) = {}"
    using frame_used_replicate_0 [of _ 1601] by (auto simp: used_frames_def)
  with use_frames_in_bytes_result [OF wf, of "ucast ?n"] n
  obtain b where "use_frames_in_bytes (replicate 1601 0) BITMAP_ELEMENT_COUNT (ucast ?n) = Inr (0, b)"
    "used_frames b = {..<11520}" by (auto simp: BITMAP_ELEMENT_COUNT_eq)
  then show thesis using that [of b] reset assms(2) by (simp add: set_up_frames_def)
qed

lemma fold_probed_not_found:
  assumes "\<forall>x \<in> set xs. function_id c x \<noteq> RTL8139" "realtek8319Found n = 0"
  shows "realtek8319Found (fold (probed c) xs n) = 0"
  using assms by (induction xs arbitrary: n) (simp_all add: probed_def)

lemma init_pcilist_without_card:
  assumes "config_reads bus config latch" "\<forall>x \<in> set pci_functions. function_id (config (device s)) x \<noteq> RTL8139"
    and "cursor_ok (screen s)"
  shows "\<exists>pc. init_pcilist bus rx_buffer tx_buffer s = Some (Inr (0, pc))"
proof -
  let ?n = "\<lparr>realtek8319Found = 0, pci_bus = 0, pci_device = 0, pci_device_fn = 0\<rparr>"
  have "printing s (snd (?n, s))" using printing_refl [OF assms(3)] by simp
  from bus_loop_runs [OF this, of bus 0] obtain n s1 where ns: "bus_loop bus 0 (?n, s) = Inr (n, s1)"
    by (auto simp: runs_def)
  have "realtek8319Found n = 0"
    unfolding bus_loop_result [OF assms(1) ns] by (rule fold_probed_not_found [OF assms(2)]) simp
  then show ?thesis using ns by (simp add: init_pcilist_def)
qed

text \<open>A machine with RAM from 1 MiB to 128 MiB and an empty PCI bus, for the witnesses.\<close>

definition example_environment :: "(u32 \<times> (u32 \<Rightarrow> u32)) environment" where
  "example_environment = \<lparr>port_bus = example_bus (\<lambda>_ old v. v), gdt_address = 0, idt_address = 0,
     isr_stubs = (\<lambda>_. 0), rx_address = 0, tx_address = 0,
     boot_memory = (\<lambda>_. 0)(0 := 0x40, 44 := 24, 48 := 0x9000, 0x9000 := 20, 0x9004 := 0x100000,
       0x900C := 0x7F00000, 0x9014 := 1)\<rparr>"

definition example_kernel :: "(u32 \<times> (u32 \<Rightarrow> u32)) kernel" where
  "example_kernel =
     \<lparr>tables = \<lparr>gdt_entries = replicate 5 (encode_gdt 0 0 0 0), gdt_ptr = \<lparr>ptr_limit = 0, ptr_base = 0\<rparr>,
        idt_entries = [], idt_ptr = \<lparr>ptr_limit = 0, ptr_base = 0\<rparr>\<rparr>,
      areas = table [],
      placement_memory_address = 0, frames = replicate 1601 0,
      hardware = \<lparr>device = (0, \<lambda>_. 0xFFFFFFFF), ram = (\<lambda>_. 0),
        screen = \<lparr>video = replicate 4000 65, xpos = 0, ypos = 0, vga_index = 0\<rparr>, output_log = []\<rparr>\<rparr>"

lemma example_kernel_shape: "kernel_shape example_kernel"
  by (simp add: kernel_shape_def example_kernel_def)

lemma example_no_card:
  "\<exists>pc. init_pcilist (port_bus example_environment) (rx_address example_environment)
     (tx_address example_environment) (cleared (hardware example_kernel)) = Some (Inr (0, pc))"
  using init_pcilist_without_card [OF example_bus_config(1), of "cleared (hardware example_kernel)"]
    cleared_screen(1) [of "hardware example_kernel"]
  by (simp add: example_environment_def example_kernel_def function_id_def RTL8139_def split_beta)

lemma main_result:
  fixes k :: "'d kernel"
  assumes "magic = MULTIBOOT_BOOTLOADER_MAGIC" "info = load_multiboot_info (boot_memory env) addr"
    and "CHECK_FLAG (mbi_flags info) 6"
    and "entries_at (boot_memory env) (mmap_addr info + mmap_length info) (mmap_addr info) es"
    and "as = map entry_area (filter available es)" "areas_ok as" "length as \<le> 9"
    and "45 * 2 ^ 20 \<le> card (ranges as \<inter> {40 * 2 ^ 20..})" "kernel_shape k"
    and "init_pcilist (port_bus env) (rx_address env) (tx_address env) (cleared (hardware k)) = Some (Inr (r, pc))"
  shows "\<exists>k' start. main env magic addr k = Some (Inr k') \<and> hardware k' = pc \<and>
    unat (placement_memory_address k') = start \<and> 40 * 2 ^ 20 \<le> start \<and> {start..<start + 5 * 2 ^ 20} \<subseteq> ranges as \<and>
    placement_wf (areas k') \<and> free_set (areas k') = ranges as \<inter> {40 * 2 ^ 20..} - {start..<start + 5 * 2 ^ 20} \<and>
    (\<exists>ms. prints (cleared (hardware k)) ms pc \<and>
      (ms = [] \<longrightarrow> take 3840 (video (screen pc)) = replicate 3840 0)) \<and> used_frames (frames k') = {..<11520} \<and>
    ((\<forall>a \<in> {start..<start + 5 * 2 ^ 20}. a div 4096 \<in> used_frames (frames k')) \<longleftrightarrow> start = 40 * 2 ^ 20)"
proof -
  obtain t where st: "start_machine env k = Inr (k\<lparr>tables := t, areas := table [], hardware := cleared (hardware k)\<rparr>)"
    using start_machine_eq [OF assms(9), of env] by metis
  obtain s where s: "insert_areas (table []) as = Inr (0, s)" "placement_wf s" "free_set s = ranges as"
    using insert_areas_sorted [of "table []" as] assms(6,7) by (auto simp: placement_wf_table)
  have "process_multiboot_memory_map (boot_memory env) (table []) info = Some (Inr (0, s))"
    using memory_map_loop_eq [OF assms(4)] s(1) assms(3,5) by (simp add: process_multiboot_memory_map_def)
  moreover have "free_memory_area_index s \<le> 9" using insert_areas_index [OF s(1)] assms(7) by simp
  then obtain s1 p s2 where r: "allocate_area_cover s 0 RESERVED_MEMORY_IN_BYTES = Inr (0, s1)"
    "allocate s1 PLACEMENT_MEMORY_SIZE_IN_BYTES = Inr (p, s2)" "40 * 2 ^ 20 \<le> unat p"
    "{unat p..<unat p + 5 * 2 ^ 20} \<subseteq> ranges as" "placement_wf s2"
    "free_set s2 = ranges as \<inter> {40 * 2 ^ 20..} - {unat p..<unat p + 5 * 2 ^ 20}"
    using reserve_memory [OF s(2)] assms(8) unfolding s(3) by metis
  moreover from r(3) have "p \<noteq> 0" by auto
  moreover let ?k = "k\<lparr>tables := t, hardware := cleared (hardware k), areas := s2, placement_memory_address := p\<rparr>"
  obtain b where b: "set_up_frames env ?k = Some (Inr (?k\<lparr>frames := b, hardware := pc\<rparr>))" "used_frames b = {..<11520}"
    by (rule set_up_frames_result [of ?k env]) (use assms(9,10) in \<open>simp_all add: kernel_shape_def\<close>)
  ultimately have "main env magic addr k = Some (Inr (?k\<lparr>frames := b, hardware := pc\<rparr>))"
    using st assms(1,2) by (simp add: main_def set_up_memory_def)
  moreover have "(\<forall>a \<in> {unat p..<unat p + 5 * 2 ^ 20}. a div 4096 \<in> {..<11520}) \<longleftrightarrow> unat p = 40 * 2 ^ 20"
  proof
    assume "\<forall>a \<in> {unat p..<unat p + 5 * 2 ^ 20}. a div 4096 \<in> {..<11520}"
    from bspec [OF this, of "unat p + 5 * 2 ^ 20 - 1"] have "(unat p + 5 * 2 ^ 20 - 1) div 4096 < 11520" by simp
    with r(3) show "unat p = 40 * 2 ^ 20" by simp
  qed auto
  moreover have "\<exists>ms. prints (cleared (hardware k)) ms pc \<and> (ms = [] \<longrightarrow> take 3840 (video (screen pc)) = replicate 3840 0)"
  proof -
    obtain ms where ms: "prints (cleared (hardware k)) ms pc"
      using init_pcilist_runs [OF cleared_screen(1) assms(10)] assms(9) by (auto simp: runs_def kernel_shape_def printing_def)
    moreover have "video (screen pc) = video (screen (cleared (hardware k)))" if "ms = []"
    proof -
      have "screen (cleared (hardware k)) = (screen pc)\<lparr>vga_index := vga_index (screen (cleared (hardware k)))\<rparr>"
        using ms that by (simp add: prints_def shows_messages_def shows_text_def)
      from arg_cong [OF this, of video] show ?thesis by simp
    qed
    moreover have "take 3840 (video (screen (cleared (hardware k)))) = replicate 3840 0" by (simp add: cleared_def)
    ultimately show ?thesis by metis
  qed
  ultimately show ?thesis
    using r(3-6) b(2) by (intro exI [of _ "?k\<lparr>frames := b, hardware := pc\<rparr>"] exI [of _ "unat p"]) simp
qed

section \<open>Properties\<close>



text \<open>
  C31. Without the magic number of a multiboot loader no memory is known to be free: \<^verbatim>\<open>main\<close> returns
  after the message that the placement memory cannot be set up, with no address free and the bitmap of
  frames as it was. With the magic number but without a memory map it returns after the message that
  the map cannot be processed. The message is all that is printed on the cleared screen.
\<close>

theorem main_reports_missing_memory:
  assumes "kernel_shape k" "info = load_multiboot_info (boot_memory env) addr"
    and "magic = MULTIBOOT_BOOTLOADER_MAGIC \<longrightarrow> \<not> CHECK_FLAG (mbi_flags info) 6"
    and "msg = (if magic = MULTIBOOT_BOOTLOADER_MAGIC then ''Processing placement memory failed!''
                else ''Setting up placement memory failed!'')"
  shows "\<exists>k'. main env magic addr k = Some (Inr k') \<and> free_set (areas k') = {} \<and> frames k' = frames k \<and>
    output_log (hardware k') = output_log (hardware k) @ [(msg @ newline_char, [])] \<and>
    shows_text (screen (cleared (hardware k))) (map char_code (bytes_of (msg @ newline_char))) (screen (hardware k'))"
proof -
  obtain t where st: "start_machine env k = Inr (k\<lparr>tables := t, areas := table [], hardware := cleared (hardware k)\<rparr>)"
    using start_machine_eq [OF assms(1), of env] by metis
  have msg: "msg \<in> failures" using assms(4) by (auto simp: failures_def)
  have "cursor_ok (screen (cleared (hardware k)))" using assms(1) by (intro cleared_screen) (simp add: kernel_shape_def)
  then obtain pc where pc: "print (msg @ newline_char) [] (cleared (hardware k)) = Inr pc"
    "prints (cleared (hardware k)) [(msg @ newline_char, [])] pc"
    "shows_text (screen (cleared (hardware k))) (map char_code (bytes_of (msg @ newline_char))) (screen pc)"
    using complain_prints [OF _ msg] by blast
  from pc(2) have log: "output_log pc = output_log (hardware k) @ [(msg @ newline_char, [])]"
    unfolding prints_def by (simp only: cleared_simps)
  let ?k = "k\<lparr>tables := t, areas := table [], hardware := cleared (hardware k)\<rparr>"
  show ?thesis
  proof (cases "magic = MULTIBOOT_BOOTLOADER_MAGIC")
    case True
    then have "main env magic addr k = Some (complain msg ?k)"
      using st assms(2-4) by (simp add: main_def process_multiboot_memory_map_def)
    then show ?thesis using pc(1,3) log by (simp add: complain_def del: append.simps)
  next
    case False
    then have "main env magic addr k = Some (complain msg
        (k\<lparr>tables := t, hardware := cleared (hardware k), areas := table [], placement_memory_address := 0\<rparr>))"
      using st assms(4) by (simp add: main_def set_up_memory_def allocate_area_cover_def allocate_def)
    then show ?thesis using pc(1,3) log by (simp add: complain_def del: append.simps)
  qed
qed

theorem main_reports_missing_memory_witness:
  "\<exists>k'. main example_environment 0 0 example_kernel = Some (Inr k') \<and>
    output_log (hardware k') = [(''Setting up placement memory failed!'' @ newline_char, [])] \<and>
    shows_text \<lparr>video = replicate 3840 0 @ replicate 160 65, xpos = 0, ypos = 0, vga_index = 0\<rparr>
      (map char_code (bytes_of (''Setting up placement memory failed!'' @ newline_char))) (screen (hardware k'))"
proof -
  have "screen (cleared (hardware example_kernel)) =
      \<lparr>video = replicate 3840 0 @ replicate 160 65, xpos = 0, ypos = 0, vga_index = 0\<rparr>"
    by (simp add: example_kernel_def cleared_def)
  moreover have "output_log (hardware example_kernel) = []" by (simp add: example_kernel_def)
  moreover have magic: "0 \<noteq> MULTIBOOT_BOOTLOADER_MAGIC" by (simp add: MULTIBOOT_BOOTLOADER_MAGIC_def)
  moreover have "''Setting up placement memory failed!'' = (if 0 = MULTIBOOT_BOOTLOADER_MAGIC
      then ''Processing placement memory failed!'' else ''Setting up placement memory failed!'')"
    by (simp only: magic if_False)
  moreover have "0 = MULTIBOOT_BOOTLOADER_MAGIC \<longrightarrow>
      \<not> CHECK_FLAG (mbi_flags (load_multiboot_info (boot_memory example_environment) 0)) 6"
    by (simp only: magic simp_thms)
  ultimately show ?thesis
    using main_reports_missing_memory [OF example_kernel_shape refl, where magic = 0] by (simp only: append_Nil) blast
qed

end
