(* ===== verification/Placement_Bounds.thy ===== *)
theory Placement_Bounds
  imports Memory_Map
begin

text \<open>
  Memory safety of the table of free areas: with a free slot left, every routine accesses the ten slots
  within their bounds and returns. Nothing is assumed about the contents of the table (the areas may
  overlap, come in any order, or wrap around the address space), only the numbers \<open>table_shape\<close> bounds.
\<close>

section \<open>The table of areas\<close>

definition table_shape :: "nat \<Rightarrow> placement \<Rightarrow> bool" where
  "table_shape n s \<longleftrightarrow> length (free_memory_areas s) = 10 \<and> free_memory_area_index s \<le> n"

lemma table_shapeI: "length (free_memory_areas s) = 10 \<Longrightarrow> free_memory_area_index s \<le> n \<Longrightarrow> table_shape n s"
  by (simp add: table_shape_def)

lemma table_shape_mono: "table_shape m s \<Longrightarrow> m \<le> n \<Longrightarrow> table_shape n s"
  by (simp add: table_shape_def)

lemma shift_left_returns:
  "n < length areas \<Longrightarrow> \<exists>areas'. shift_left areas j n = Inr areas' \<and> length areas' = length areas"
proof (induction areas j n rule: shift_left.induct)
  case (1 areas j n)
  show ?case
  proof (cases "j < n")
    case True
    then have "Suc j < length areas" using "1.prems" by simp
    with True "1.IH" [of "areas ! (j + 1)" "areas[j := areas ! (j + 1)]"] "1.prems"
    show ?thesis by (subst shift_left.simps) simp
  next
    case False
    then show ?thesis by (subst shift_left.simps) simp
  qed
qed

lemma insert_position_returns:
  "i \<le> n \<Longrightarrow> n < length areas \<Longrightarrow> \<exists>k \<le> n. insert_position areas start i n = Inr k"
proof (induction areas start i n rule: insert_position.induct)
  case (1 areas start i n)
  show ?case
  proof (cases "area_start (areas ! i) < start \<and> i < n")
    case True
    with "1.IH" [of "areas ! i"] "1.prems" show ?thesis by (subst insert_position.simps) simp
  next
    case False
    with "1.prems" show ?thesis by (subst insert_position.simps) auto
  qed
qed

lemma merge_predecessor_shape:
  assumes "table_shape 9 s" "0 < k" "k \<le> free_memory_area_index s"
  shows "\<exists>r s'. merge_predecessor s k a n = Inr (r, s') \<and> table_shape (Suc (free_memory_area_index s)) s'"
proof -
  have len: "length (free_memory_areas s) = 10" "free_memory_area_index s \<le> 9"
    using assms(1) by (simp_all add: table_shape_def)
  let ?p = "a\<lparr>area_size := area_size a + n\<rparr>"
  let ?areas = "(free_memory_areas s)[k - 1 := ?p]"
  let ?areas2 = "?areas[k - 1 := ?p\<lparr>area_size := area_size ?p + area_size (?areas ! k)\<rparr>]"
  obtain areas3 where a3: "shift_left ?areas2 k (free_memory_area_index s) = Inr areas3" "length areas3 = 10"
    using shift_left_returns [of "free_memory_area_index s" ?areas2 k] len by auto
  show ?thesis
  proof (cases "area_start (?areas ! k) = area_start ?p + area_size ?p - 1 + 1")
    case True
    then show ?thesis
      using a3 len assms(2,3) by (simp add: merge_predecessor_def Let_def table_shape_def)
  next
    case False
    then show ?thesis
      using len assms(2,3) by (simp add: merge_predecessor_def Let_def table_shape_def)
  qed
qed

lemma place_area_shape:
  assumes "table_shape 9 s" "k \<le> free_memory_area_index s"
  shows "\<exists>r s'. place_area s k start n = Inr (r, s') \<and> table_shape (Suc (free_memory_area_index s)) s'"
proof -
  have "length (free_memory_areas s) = 10" "free_memory_area_index s \<le> 9"
    using assms(1) by (simp_all add: table_shape_def)
  then show ?thesis
    using assms(2) by (simp add: place_area_def table_shape_def)
qed

lemma insert_area_shape:
  assumes "table_shape 9 s"
  shows "\<exists>r s'. insert_area s start n = Inr (r, s') \<and> table_shape (Suc (free_memory_area_index s)) s'"
proof -
  have len: "length (free_memory_areas s) = 10" "free_memory_area_index s \<le> 9"
    using assms by (simp_all add: table_shape_def)
  obtain k where k: "k \<le> free_memory_area_index s"
    "insert_position (free_memory_areas s) start 0 (free_memory_area_index s) = Inr k"
    using insert_position_returns [of 0 "free_memory_area_index s" "free_memory_areas s" start] len by auto
  have slot: "free_memory_area_index s \<noteq> MAX_MEMORY_AREAS_SIZE" using len(2) by (simp add: MAX_MEMORY_AREAS_SIZE_def)
  note place = place_area_shape [OF assms k(1), of start n]
  have same: "table_shape (Suc (free_memory_area_index s)) s" using len(1) by (simp add: table_shape_def)
  show ?thesis
  proof (cases "0 < k")
    case True
    note merge = merge_predecessor_shape [OF assms True k(1), of "free_memory_areas s ! (k - 1)" n]
    show ?thesis
      using True k len slot place merge same by (simp add: insert_area_def Let_def)
  next
    case False
    then show ?thesis using k len slot place same by (simp add: insert_area_def Let_def)
  qed
qed

lemma insert_areas_shape:
  "length (free_memory_areas s) = 10 \<Longrightarrow> free_memory_area_index s + length as \<le> 9 \<Longrightarrow>
    \<exists>r s'. insert_areas s as = Inr (r, s') \<and> table_shape 9 s'"
proof (induction as arbitrary: s)
  case Nil
  then show ?case by (simp add: table_shape_def)
next
  case (Cons a as)
  then have "table_shape 9 s" by (simp add: table_shape_def)
  from insert_area_shape [OF this] obtain r t where t: "insert_area s (area_start a) (area_size a) = Inr (r, t)"
    "table_shape (Suc (free_memory_area_index s)) t" by blast
  then have shape: "length (free_memory_areas t) = 10" "free_memory_area_index t + length as \<le> 9"
    using Cons.prems(2) by (simp_all add: table_shape_def)
  then have "table_shape 9 t" by (simp add: table_shape_def)
  with Cons.IH [OF shape] show ?case using t(1) by (cases "r = 0") simp_all
qed

section \<open>Taking areas out\<close>

lemma allocate_loop_shape:
  "table_shape 9 s \<Longrightarrow> \<exists>p s'. allocate_loop s n i = Inr (p, s') \<and> table_shape 9 s'"
proof (induction s n i rule: allocate_loop.induct)
  case (1 s n i)
  have len: "length (free_memory_areas s) = 10" "free_memory_area_index s \<le> 9"
    using "1.prems" by (simp_all add: table_shape_def)
  show ?case
  proof (cases "i < free_memory_area_index s")
    case True
    let ?a = "free_memory_areas s ! i"
    obtain areas' where "shift_left (free_memory_areas s) i (free_memory_area_index s) = Inr areas'" "length areas' = 10"
      using shift_left_returns [of "free_memory_area_index s" "free_memory_areas s" i] len by auto
    moreover have "area_size ?a \<noteq> n \<Longrightarrow> \<not> n < area_size ?a \<Longrightarrow>
        \<exists>p s'. allocate_loop s n (Suc i) = Inr (p, s') \<and> table_shape 9 s'"
      using "1.IH" [OF True, of ?a] "1.prems" True len by simp
    moreover have "free_memory_area_index s - Suc 0 \<le> 9" using len by simp
    ultimately show ?thesis
      using True len by (subst allocate_loop.simps) (simp add: Let_def table_shape_def)
  next
    case False
    then show ?thesis using "1.prems" by (subst allocate_loop.simps) simp
  qed
qed

lemma allocate_shape:
  "table_shape 9 s \<Longrightarrow> \<exists>p s'. allocate s n = Inr (p, s') \<and> table_shape 9 s'"
  using allocate_loop_shape [of s n 0] by (simp add: allocate_def)

text \<open>Covering from address 0 on never splits an area.\<close>

lemma cover_loop_shape:
  "table_shape 9 s \<Longrightarrow> start = 0 \<Longrightarrow> \<exists>r s'. cover_loop s start end i = Inr (r, s') \<and> table_shape 9 s'"
proof (induction s start "end" i rule: cover_loop.induct)
  case (1 s start "end" i)
  have len: "length (free_memory_areas s) = 10" "free_memory_area_index s \<le> 9"
    using "1.prems"(1) by (simp_all add: table_shape_def)
  show ?case
  proof (cases "i < free_memory_area_index s")
    case True
    let ?a = "free_memory_areas s ! i"
    let ?last = "area_start ?a + area_size ?a - 1"
    have rd: "rd (free_memory_areas s) i = Inr ?a" using True len by simp
    obtain areas' where shift: "shift_left (free_memory_areas s) i (free_memory_area_index s) = Inr areas'" "length areas' = 10"
      using shift_left_returns [of "free_memory_area_index s" "free_memory_areas s" i] len by auto
    consider (skip) "?last < start \<or> end < area_start ?a"
      | (remove) "\<not> (?last < start \<or> end < area_start ?a)" "?last \<le> end"
      | (cut) "\<not> (?last < start \<or> end < area_start ?a)" "end < ?last"
      using not_le by blast
    then show ?thesis
    proof cases
      case skip
      with "1.IH"(1) [OF True rd refl refl refl refl skip] "1.prems" show ?thesis
        using True rd by (subst cover_loop.simps) (simp add: Let_def)
    next
      case remove
      let ?s = "s\<lparr>free_memory_areas := areas', free_memory_area_index := free_memory_area_index s - 1\<rparr>"
      have "start \<le> area_start ?a \<and> ?last \<le> end" using remove(2) "1.prems"(2) by simp
      moreover have "table_shape 9 ?s" using shift(2) len(2) by (simp add: table_shape_def)
      ultimately show ?thesis
        using "1.IH"(2) [OF True rd refl refl refl refl remove(1) _ shift(1)] "1.prems"(2) True rd remove(1) shift(1)
        by (subst cover_loop.simps) (simp add: Let_def)
    next
      case cut
      let ?areas = "(free_memory_areas s)[i := \<lparr>area_start = end + 1, area_size = ?last - (end + 1) + 1\<rparr>]"
      have c: "start \<le> area_start ?a \<and> end < ?last" "\<not> (start \<le> area_start ?a \<and> ?last \<le> end)"
        using cut(2) "1.prems"(2) by auto
      moreover have "wr (free_memory_areas s) i \<lparr>area_start = end + 1, area_size = ?last - (end + 1) + 1\<rparr> = Inr ?areas"
        using True len by simp
      moreover have "table_shape 9 (s\<lparr>free_memory_areas := ?areas\<rparr>)" using len by (simp add: table_shape_def)
      ultimately show ?thesis
        using "1.IH"(3) [OF True rd refl refl refl refl cut(1) c(2,1), of ?areas] "1.prems"(2) True rd cut(1)
        by (subst cover_loop.simps) (simp add: Let_def)
    qed
  next
    case False
    then show ?thesis using "1.prems" by (subst cover_loop.simps) simp
  qed
qed

lemma cover_shape:
  "table_shape 9 s \<Longrightarrow> \<exists>r s'. allocate_area_cover s 0 n = Inr (r, s') \<and> table_shape 9 s'"
  using cover_loop_shape [of s 0 "0 + n - 1" 0] by (simp add: allocate_area_cover_def Let_def)

end
