(* ===== verification/Kernel_Bounds.thy ===== *)
theory Kernel_Bounds
  imports Kernel Placement_Bounds
begin

text \<open>
  Memory safety of the start of the kernel: \<^verbatim>\<open>main\<close> and what it calls, the driver and the output of its
  messages included, access their arrays within their bounds and keep their sizes, whatever the hardware does, as
  long as the walk over the memory map comes to an end and finds at most nine available entries.
\<close>

section \<open>The steps keep the shape\<close>

definition boot_shape :: "'d kernel \<Rightarrow> bool" where
  "boot_shape k \<longleftrightarrow> kernel_shape k \<and> free_memory_area_index (areas k) \<le> 9 \<and> cursor_ok (screen (hardware k))"

lemma set_up_frames_shape:
  assumes "boot_shape k"
  shows "(\<exists>k'. set_up_frames env k = Some (Inr k') \<and> boot_shape k') \<or>
    set_up_frames env k = None \<and> init_pcilist (port_bus env) (rx_address env) (tx_address env) (hardware k) = None"
proof -
  let ?n = "ucast (RESERVED_MEMORY_IN_BYTES + PLACEMENT_MEMORY_SIZE_IN_BYTES) :: u32"
  have shape: "kernel_shape k" "free_memory_area_index (areas k) \<le> 9" "cursor_ok (screen (hardware k))"
    using assms by (simp_all add: boot_shape_def)
  have n: "unat ?n = 45 * 2 ^ 20"
    by (simp add: RESERVED_MEMORY_IN_BYTES_def PLACEMENT_MEMORY_SIZE_IN_BYTES_def)
  have reset: "reset_bitmap (frames k) BITMAP_ELEMENT_COUNT = Inr (replicate 1601 0)"
    using reset_loop_eq [of 1601 "frames k" 0] shape(1)
    by (simp add: reset_bitmap_def BITMAP_ELEMENT_COUNT_eq kernel_shape_def)
  have wf: "bitmap_wf BITMAP_ELEMENT_COUNT (replicate 1601 0)" by (simp add: bitmap_wf_def BITMAP_ELEMENT_COUNT_eq)
  from use_frames_in_bytes_result [OF wf, of ?n] n
  obtain b where b: "use_frames_in_bytes (replicate 1601 0) BITMAP_ELEMENT_COUNT ?n = Inr (0, b)"
    "bitmap_wf BITMAP_ELEMENT_COUNT b" by (auto simp: BITMAP_ELEMENT_COUNT_eq)
  then have len: "length b = 1601" by (simp add: bitmap_wf_def BITMAP_ELEMENT_COUNT_eq)
  show ?thesis
  proof (cases "init_pcilist (port_bus env) (rx_address env) (tx_address env) (hardware k)")
    case None
    then show ?thesis using reset b(1) by (simp add: set_up_frames_def)
  next
    case (Some r)
    then obtain x pc where r: "r = Inr (x, pc)" "printing (hardware k) pc"
      using init_pcilist_runs [OF shape(3)] by (fastforce simp: runs_def)
    have "boot_shape (k\<lparr>frames := b, hardware := pc\<rparr>)"
      using shape len r(2) printing_length [OF r(2)] by (simp add: boot_shape_def kernel_shape_def)
    moreover have "set_up_frames env k = Some (Inr (k\<lparr>frames := b, hardware := pc\<rparr>))"
      using Some r(1) reset b(1) by (simp add: set_up_frames_def)
    ultimately show ?thesis by blast
  qed
qed

lemma boot_shape_complain:
  assumes "boot_shape k" "msg \<in> failures"
  shows "\<exists>k'. complain msg k = Inr k' \<and> boot_shape k'"
proof -
  have "cursor_ok (screen (hardware k))" using assms(1) by (simp add: boot_shape_def)
  then obtain pc where pc: "print (msg @ newline_char) [] (hardware k) = Inr pc" "printing (hardware k) pc"
    using complain_prints [OF _ assms(2)] unfolding printing_def by metis
  then have "complain msg k = Inr (k\<lparr>hardware := pc\<rparr>)" by (simp add: complain_def)
  moreover have "boot_shape (k\<lparr>hardware := pc\<rparr>)"
    using assms(1) pc(2) printing_length [OF pc(2)] by (simp add: boot_shape_def kernel_shape_def)
  ultimately show ?thesis by blast
qed

lemma boot_shape_areas:
  "boot_shape k \<Longrightarrow> table_shape 9 a \<Longrightarrow> boot_shape (k\<lparr>areas := a\<rparr>)"
  by (simp add: boot_shape_def kernel_shape_def table_shape_def)

lemma boot_shape_table: "boot_shape k \<Longrightarrow> table_shape 9 (areas k)"
  by (simp add: boot_shape_def kernel_shape_def table_shape_def)

lemma set_up_memory_shape:
  assumes "boot_shape k"
  shows "(\<exists>k'. set_up_memory env k = Some (Inr k') \<and> boot_shape k') \<or>
    set_up_memory env k = None \<and> init_pcilist (port_bus env) (rx_address env) (tx_address env) (hardware k) = None"
proof -
  obtain r s1 where s1: "allocate_area_cover (areas k) 0 RESERVED_MEMORY_IN_BYTES = Inr (r, s1)" "table_shape 9 s1"
    using cover_shape [OF boot_shape_table [OF assms]] by blast
  obtain p s2 where s2: "allocate s1 PLACEMENT_MEMORY_SIZE_IN_BYTES = Inr (p, s2)" "table_shape 9 s2"
    using allocate_shape [OF s1(2)] by blast
  let ?k = "k\<lparr>areas := s2, placement_memory_address := p\<rparr>"
  have shape: "boot_shape ?k"
    using assms s2(2) by (simp add: boot_shape_def kernel_shape_def table_shape_def)
  have step: "set_up_memory env k =
      (if p = 0 then Some (complain ''Setting up placement memory failed!'' ?k) else set_up_frames env ?k)"
    using s1(1) s2(1) by (simp add: set_up_memory_def Let_def)
  show ?thesis
    using set_up_frames_shape [OF shape, of env]
      boot_shape_complain [OF shape, of "''Setting up placement memory failed!''"] unfolding step failures_def by auto
qed

lemma main_in_bounds:
  fixes k :: "'d kernel"
  assumes "kernel_shape k" "info = load_multiboot_info (boot_memory env) addr"
    and "entries_at (boot_memory env) (mmap_addr info + mmap_length info) (mmap_addr info) es"
    and "length (filter available es) \<le> 9"
  shows "(\<exists>k'. main env magic addr k = Some (Inr k') \<and> kernel_shape k' \<and> cursor_ok (screen (hardware k')) \<and> free_memory_area_index (areas k') \<le> 9) \<or>
    main env magic addr k = None \<and>
      init_pcilist (port_bus env) (rx_address env) (tx_address env) (cleared (hardware k)) = None"
proof -
  let ?hw = "cleared (hardware k)"
  obtain t where st: "start_machine env k = Inr (k\<lparr>tables := t, areas := table [], hardware := ?hw\<rparr>)"
    "length (gdt_entries t) = 5"
    using start_machine_eq [OF assms(1), of env] by metis
  let ?k = "k\<lparr>tables := t, areas := table [], hardware := ?hw\<rparr>"
  have shape: "boot_shape ?k"
    using assms(1) st(2) cleared_screen [of "hardware k"] by (simp add: boot_shape_def kernel_shape_def)
  have ok: "(\<exists>k'. Q = Some (Inr k') \<and> kernel_shape k' \<and> cursor_ok (screen (hardware k')) \<and> free_memory_area_index (areas k') \<le> 9) \<or>
      Q = None \<and> init_pcilist (port_bus env) (rx_address env) (tx_address env) ?hw = None"
    if "(\<exists>k'. Q = Some (Inr k') \<and> boot_shape k') \<or>
      Q = None \<and> init_pcilist (port_bus env) (rx_address env) (tx_address env) ?hw = None"
    for Q :: "'d kernel result option"
    using that by (auto simp: boot_shape_def)
  show ?thesis
  proof (cases "magic = MULTIBOOT_BOOTLOADER_MAGIC")
    case True
    obtain r a where a: "process_multiboot_memory_map (boot_memory env) (table []) info = Some (Inr (r, a))" "table_shape 9 a"
    proof (cases "CHECK_FLAG (mbi_flags info) 6")
      case True
      have "\<exists>r a. insert_areas (table []) (map entry_area (filter available es)) = Inr (r, a) \<and> table_shape 9 a"
        by (rule insert_areas_shape) (use assms(4) in simp_all)
      then show thesis
        using True memory_map_loop_eq [OF assms(3), of "table []"] that by (auto simp: process_multiboot_memory_map_def)
    next
      case False
      have "table_shape 9 (table [])" by (simp add: table_shape_def)
      with False show thesis by (intro that) (simp_all add: process_multiboot_memory_map_def)
    qed
    let ?k2 = "?k\<lparr>areas := a\<rparr>"
    have k2: "boot_shape ?k2" by (rule boot_shape_areas [OF shape a(2)])
    have "main env magic addr k =
        (if r \<noteq> 0 then Some (complain ''Processing placement memory failed!'' ?k2) else set_up_memory env ?k2)"
      using True st(1) a(1) assms(2) by (simp add: main_def Let_def)
    with set_up_memory_shape [OF k2, of env] boot_shape_complain [OF k2, of "''Processing placement memory failed!''"]
    show ?thesis by (intro ok) (auto simp: failures_def)
  next
    case False
    then have "main env magic addr k = set_up_memory env ?k" using st(1) by (simp add: main_def)
    with set_up_memory_shape [OF shape, of env] show ?thesis by (intro ok) simp
  qed
qed

section \<open>Properties\<close>



end
