(* ===== verification/Paging_Setup.thy ===== *)
theory Paging_Setup
  imports Paging_Correct Interrupts
begin

text \<open>
  Turning paging on: \<^verbatim>\<open>allocate_frame_aligned\<close>, \<^verbatim>\<open>paging_setup\<close> and \<^verbatim>\<open>paging_tests\<close> of \<^verbatim>\<open>kernel.c\<close>. The state adds to
  the machine of the theory \<open>Paging\<close> the register \<^verbatim>\<open>cr0\<close>, the table of interrupt handlers and
  \<^verbatim>\<open>placement_memory_address\<close>. While paging is off the pointers of the code are physical addresses. The
  handlers run on the faulting address (\<^verbatim>\<open>cr2\<close>) and the machine.
\<close>

section \<open>The routines\<close>

type_synonym fault_state = "u32 \<times> machine"

record paging_unit =
  vm :: machine
  cr0 :: u32
  handlers :: "fault_state isr option list"
  placement_address :: u64

text \<open>
  The answer, the new placement address and the messages; a 64-bit argument of \<^verbatim>\<open>k_printf\<close> is two words.
\<close>

definition allocate_frame_aligned :: "u64 \<Rightarrow> u32 \<Rightarrow> u32 \<times> u64 \<times> message list" where
  "allocate_frame_aligned placement size_in_byte =
     (let p1 = (if placement AND 0xFFFFF000 \<noteq> 0 then (placement AND 0xFFFFF000) + 0x1000 else placement);
          tmp = ucast p1
      in (tmp, p1 + ucast size_in_byte,
          [(''Aligned: placement_memory_address: %d'' @ [CHR 0x0A], [ucast p1, ucast (drop_bit 32 p1)]),
           (''Aligned: size_in_byte: %d'' @ [CHR 0x0A], [size_in_byte]), (''tmp %d'' @ [CHR 0x0A], [tmp])]))"

text \<open>The four loops over the entries of the directory and of the page tables.\<close>

function reset_directory :: "(u32 \<Rightarrow> u32) \<Rightarrow> u32 \<Rightarrow> nat \<Rightarrow> (u32 \<Rightarrow> u32)" where
  "reset_directory m page_directory_ptr i =
     (if i < 1024 then reset_directory (m(page_directory_ptr + 4 * of_nat i := 0x00000002)) page_directory_ptr (Suc i)
      else m)"
  by pat_completeness auto
termination by (relation "measure (\<lambda>(m, p, i). 1024 - i)") auto

function identity_tables :: "(u32 \<Rightarrow> u32) \<Rightarrow> u32 \<Rightarrow> nat \<Rightarrow> nat \<Rightarrow> (u32 \<Rightarrow> u32)" where
  "identity_tables m page_tables_ptr i n =
     (if i < n then
        identity_tables (m(page_tables_ptr + 4 * of_nat i := (of_nat i * 0x1000) OR 3)) page_tables_ptr (Suc i) n
      else m)"
  by pat_completeness auto
termination by (relation "measure (\<lambda>(m, p, i, n). n - i)") auto

function recursive_tables :: "(u32 \<Rightarrow> u32) \<Rightarrow> u32 \<Rightarrow> u32 \<Rightarrow> nat \<Rightarrow> nat \<Rightarrow> (u32 \<Rightarrow> u32)" where
  "recursive_tables m page_tables_ptr tempA i n =
     (if i < n then
        let entry = page_tables_ptr + 4 * (of_nat i * 1024 + 1023); m1 = m(entry := tempA); m2 = m1(entry := m1 entry OR 1) in
        recursive_tables m2 page_tables_ptr (tempA + 4 * 1024) (Suc i) n
      else m)"
  by pat_completeness auto
termination by (relation "measure (\<lambda>(m, p, t, i, n). n - i)") auto

function insert_tables :: "(u32 \<Rightarrow> u32) \<Rightarrow> u32 \<Rightarrow> u32 \<Rightarrow> nat \<Rightarrow> nat \<Rightarrow> (u32 \<Rightarrow> u32)" where
  "insert_tables m page_directory_ptr temp i n =
     (if i < n then
        let entry = page_directory_ptr + 4 * of_nat i; m1 = m(entry := temp); m2 = m1(entry := m1 entry OR 3) in
        insert_tables m2 page_directory_ptr (temp + 4 * 1024) (Suc i) n
      else m)"
  by pat_completeness auto
termination by (relation "measure (\<lambda>(m, p, t, i, n). n - i)") auto

declare reset_directory.simps [simp del] identity_tables.simps [simp del] recursive_tables.simps [simp del]
  insert_tables.simps [simp del]

text \<open>The tables that \<^verbatim>\<open>paging_setup\<close> writes at \<open>paging_ptr\<close>.\<close>

definition write_tables :: "(u32 \<Rightarrow> u32) \<Rightarrow> u32 \<Rightarrow> u32 \<Rightarrow> (u32 \<Rightarrow> u32)" where
  "write_tables m paging_ptr page_table_count =
     (let page_directory_ptr = paging_ptr;
          m1 = reset_directory m page_directory_ptr 0;
          m2 = m1(page_directory_ptr + 4 * 1023 := page_directory_ptr);
          m3 = m2(page_directory_ptr + 4 * 1023 := m2 (page_directory_ptr + 4 * 1023) OR 1);
          page_tables_ptr = paging_ptr + 4 * 1024;
          m4 = identity_tables m3 page_tables_ptr 0 (unat (1024 * page_table_count));
          m5 = recursive_tables m4 page_tables_ptr page_tables_ptr 0 (unat page_table_count)
      in insert_tables m5 page_directory_ptr page_tables_ptr 0 (unat page_table_count))"

definition page_fault_isr :: "fault_state isr" where
  "page_fault_isr regs st = and_then (page_fault_interrupt_handler (fst st) (snd st)) (\<lambda>s'. Inr (fst st, s'))"

definition paging_setup :: "u32 \<Rightarrow> paging_unit \<Rightarrow> paging_unit result" where
  "paging_setup page_table_count s =
     (let page_directory_count = 1;
          size_in_byte = (page_directory_count + page_table_count) * 1024 * 4;
          (paging_ptr, placement, msgs) = allocate_frame_aligned (placement_address s) size_in_byte;
          m = write_tables (phys (vm s)) paging_ptr page_table_count
      in
      and_then (register_interrupt_handler (handlers s) 14 page_fault_isr) (\<lambda>hs.
      Inr (s\<lparr>vm := (vm s)\<lparr>phys := m, cr3 := paging_ptr, printed := printed (vm s) @ msgs\<rparr>,
             cr0 := cr0 s OR 0x80000000, handlers := hs, placement_address := placement\<rparr>)))"

section \<open>Accesses that may fault\<close>

text \<open>
  An access to an address that is not mapped raises interrupt 14 with the address in \<^verbatim>\<open>cr2\<close>, and is
  tried again after the handler has returned; \<open>regs\<close> are the registers that the interrupt stub saves.
  Where the handler does not map the page the access is tried forever.
\<close>

definition report_on_machine :: "fault_state \<Rightarrow> fault_state result" where
  "report_on_machine st =
     Inr (fst st, (snd st)\<lparr>printed := printed (snd st) @ [(''I do not understand - isr.c - isr_handler()'', [])]\<rparr>)"

definition raise_page_fault :: "registers \<Rightarrow> u32 \<Rightarrow> paging_unit \<Rightarrow> paging_unit result" where
  "raise_page_fault regs va s =
     and_then (isr_handler report_on_machine (handlers s) (regs\<lparr>int_no := 14\<rparr>) (va, vm s)) (\<lambda>st.
     Inr (s\<lparr>vm := snd st\<rparr>))"

partial_function (option) until_mapped :: "registers \<Rightarrow> u32 \<Rightarrow> paging_unit \<Rightarrow> paging_unit result option" where
  "until_mapped regs va s =
     (if translate (vm s) va = None
      then and_run (Some (raise_page_fault regs va s)) (\<lambda>s'. until_mapped regs va s')
      else Some (Inr s))"

definition load_word :: "registers \<Rightarrow> u32 \<Rightarrow> paging_unit \<Rightarrow> (u32 \<times> paging_unit) result option" where
  "load_word regs va s =
     and_run (until_mapped regs va s) (\<lambda>s1.
     and_run (Some (vread (vm s1) va)) (\<lambda>v. Some (Inr (v, s1))))"

definition store_word :: "registers \<Rightarrow> u32 \<Rightarrow> u32 \<Rightarrow> paging_unit \<Rightarrow> paging_unit result option" where
  "store_word regs va v s =
     and_run (until_mapped regs va s) (\<lambda>s1.
     and_run (Some (vwrite (vm s1) va v)) (\<lambda>m. Some (Inr (s1\<lparr>vm := m\<rparr>))))"

definition tell :: "string \<Rightarrow> u32 list \<Rightarrow> paging_unit \<Rightarrow> paging_unit" where
  "tell fmt args s = s\<lparr>vm := (vm s)\<lparr>printed := printed (vm s) @ [(fmt @ [CHR 0x0A], args)]\<rparr>\<rparr>"

definition paging_tests :: "registers \<Rightarrow> paging_unit \<Rightarrow> paging_unit result option" where
  "paging_tests regs s =
     (let virtual_address = 0xA0000000 in
      and_run (load_word regs 0 s) (\<lambda>(_, s1).
      and_run (store_word regs virtual_address 100 (tell ''PageFault?'' [] s1)) (\<lambda>s2.
      and_run (load_word regs virtual_address s2) (\<lambda>(v, s3).
      and_run (store_word regs (virtual_address + 0x1000) 101 (tell ''StoredValue: %d'' [v] s3)) (\<lambda>s4.
      and_run (load_word regs (virtual_address + 0x1000) s4) (\<lambda>(w, s5).
      Some (Inr (tell ''StoredValue: %d'' [w] s5))))))))"

section \<open>The words the loops write\<close>

text \<open>A loop that writes \<open>g i\<close> at \<open>f i\<close>, for distinct addresses.\<close>

definition put_words :: "(nat \<Rightarrow> u32) \<Rightarrow> (nat \<Rightarrow> u32) \<Rightarrow> nat list \<Rightarrow> (u32 \<Rightarrow> u32) \<Rightarrow> (u32 \<Rightarrow> u32)" where
  "put_words f g is m = fold (\<lambda>i m. m(f i := g i)) is m"

lemma put_words_Nil [simp]: "put_words f g [] m = m"
  and put_words_Cons: "put_words f g (i # is) m = put_words f g is (m(f i := g i))"
  by (simp_all add: put_words_def)

lemma put_words_out: "a \<notin> f ` set is \<Longrightarrow> put_words f g is m a = m a"
  by (induction "is" arbitrary: m) (auto simp: put_words_Cons)

lemma put_words_in:
  assumes "inj_on f (set is)" "distinct is" "i \<in> set is"
  shows "put_words f g is m (f i) = g i"
  using assms
proof (induction "is" arbitrary: m)
  case (Cons j js)
  show ?case
  proof (cases "i \<in> set js")
    case True
    then show ?thesis using Cons by (simp add: put_words_Cons)
  next
    case False
    then have "i = j" using Cons.prems(3) by simp
    moreover from this have "f j \<notin> f ` set js" using Cons.prems(1,2) by auto
    ultimately show ?thesis by (simp add: put_words_Cons put_words_out)
  qed
qed simp

lemma reset_directory_eq: "i \<le> 1024 \<Longrightarrow> reset_directory m p i = put_words (\<lambda>i. p + 4 * of_nat i) (\<lambda>_. 2) [i..<1024] m"
proof (induction "1024 - i" arbitrary: i m)
  case (Suc d)
  then have "i < 1024" "d = 1024 - Suc i" by simp_all
  with Suc.hyps(1) show ?case by (subst reset_directory.simps) (simp add: upt_conv_Cons put_words_Cons)
qed (simp add: reset_directory.simps)

lemma identity_tables_eq:
  "i \<le> n \<Longrightarrow> identity_tables m p i n = put_words (\<lambda>i. p + 4 * of_nat i) (\<lambda>i. (of_nat i * 0x1000) OR 3) [i..<n] m"
proof (induction "n - i" arbitrary: i m)
  case (Suc d)
  then have "i < n" "d = n - Suc i" by simp_all
  with Suc.hyps(1) show ?case by (subst identity_tables.simps) (simp add: upt_conv_Cons put_words_Cons)
qed (simp add: identity_tables.simps)

lemma recursive_tables_eq:
  "i \<le> n \<Longrightarrow> recursive_tables m p (t + of_nat i * 4096) i n =
    put_words (\<lambda>i. p + 4 * (of_nat i * 1024 + 1023)) (\<lambda>i. (t + of_nat i * 4096) OR 1) [i..<n] m"
proof (induction "n - i" arbitrary: i m)
  case (Suc d)
  then have i: "i < n" "d = n - Suc i" by simp_all
  have "t + of_nat i * 4096 + 4096 = t + of_nat (Suc i) * (4096 :: u32)" by (simp add: algebra_simps)
  note IH = Suc.hyps(1) [OF i(2), folded this]
  show ?case using i IH
    by (subst recursive_tables.simps) (simp add: upt_conv_Cons put_words_Cons Let_def)
qed (simp add: recursive_tables.simps)

lemma insert_tables_eq:
  "i \<le> n \<Longrightarrow> insert_tables m p (t + of_nat i * 4096) i n =
    put_words (\<lambda>i. p + 4 * of_nat i) (\<lambda>i. (t + of_nat i * 4096) OR 3) [i..<n] m"
proof (induction "n - i" arbitrary: i m)
  case (Suc d)
  then have i: "i < n" "d = n - Suc i" by simp_all
  have "t + of_nat i * 4096 + 4096 = t + of_nat (Suc i) * (4096 :: u32)" by (simp add: algebra_simps)
  note IH = Suc.hyps(1) [OF i(2), folded this]
  show ?case using i IH
    by (subst insert_tables.simps) (simp add: upt_conv_Cons put_words_Cons Let_def)
qed (simp add: insert_tables.simps)

lemma tables_from_start:
  "recursive_tables m p t 0 n = put_words (\<lambda>i. p + 4 * (of_nat i * 1024 + 1023)) (\<lambda>i. (t + of_nat i * 4096) OR 1) [0..<n] m"
  "insert_tables m p t 0 n = put_words (\<lambda>i. p + 4 * of_nat i) (\<lambda>i. (t + of_nat i * 4096) OR 3) [0..<n] m"
  using recursive_tables_eq [of 0 n m p t] insert_tables_eq [of 0 n m p t] by simp_all

text \<open>The tables as words of frames: the directory is frame \<open>f\<close>, the page tables are the frames behind it.\<close>

definition tables_written :: "nat \<Rightarrow> nat \<Rightarrow> (u32 \<Rightarrow> u32) \<Rightarrow> (u32 \<Rightarrow> u32)" where
  "tables_written f n m =
     put_words (word_addr f) (\<lambda>i. word_addr (f + 1 + i) 0 OR 3) [0..<n]
       (put_words (\<lambda>i. word_addr (f + 1 + i) 1023) (\<lambda>i. word_addr (f + 1 + i) 0 OR 1) [0..<n]
         (put_words (\<lambda>i. word_addr (f + 1 + i div 1024) (i mod 1024)) (\<lambda>i. word_addr i 0 OR 3) [0..<1024 * n]
           ((put_words (word_addr f) (\<lambda>_. 2) [0..<1024] m)(word_addr f 1023 := word_addr f 0 OR 1))))"

lemma word_addr_offset: "word_addr f 0 + 4 * of_nat i = word_addr f i"
  by (simp add: word_addr_def)

lemma table_offset: "word_addr f 0 + 4 * 1024 + 4 * of_nat i = word_addr (f + 1 + i div 1024) (i mod 1024)"
proof -
  have "4096 * (f + 1 + q) + 4 * r = 4096 * f + 4096 + 4 * i" if "q * 1024 + r = i" for q r
    unfolding that [symmetric] by (simp add: algebra_simps)
  note eq = this [OF div_mult_mod_eq]
  show ?thesis unfolding word_addr_def eq by simp
qed

lemma table_address: "word_addr f 0 + 4 * 1024 + of_nat i * 4096 = word_addr (f + 1 + i) 0"
  by (simp add: word_addr_def algebra_simps)

lemma write_tables_eq:
  assumes "unat n < 1024"
  shows "write_tables m (word_addr f 0) n = tables_written f (unat n) m"
proof -
  have n: "unat (1024 * n) = 1024 * unat n" using assms by (simp add: unat_word_ariths)
  have last: "word_addr f 0 + 4 * 1024 + 4 * (of_nat i * 1024 + 1023) = word_addr (f + 1 + i) 1023" for i
    by (simp add: word_addr_def algebra_simps)
  have entry: "word_addr f 0 + 4 * 1023 = word_addr f 1023" using word_addr_offset [of f 1023] by simp
  have id: "of_nat i * 0x1000 = word_addr i 0" for i by (simp add: word_addr_def)
  have rec: "recursive_tables m' (word_addr f 0 + 4 * 1024) (word_addr f 0 + 4 * 1024) 0 (unat n) =
      put_words (\<lambda>i. word_addr (f + 1 + i) 1023) (\<lambda>i. word_addr (f + 1 + i) 0 OR 1) [0..<unat n] m'" for m'
    unfolding tables_from_start table_address last ..
  have ins: "insert_tables m' (word_addr f 0) (word_addr f 0 + 4 * 1024) 0 (unat n) =
      put_words (word_addr f) (\<lambda>i. word_addr (f + 1 + i) 0 OR 3) [0..<unat n] m'" for m'
    unfolding tables_from_start table_address word_addr_offset ..
  show ?thesis
    unfolding write_tables_def tables_written_def Let_def rec ins n entry reset_directory_eq [OF le0]
      identity_tables_eq [OF le0] table_offset word_addr_offset id by simp
qed

lemma table_of_page: "i < 1024 * n \<Longrightarrow> i div 1024 < (n :: nat)"
  by (simp add: less_mult_imp_div_less mult.commute)

text \<open>The addresses that one of the loops writes differ.\<close>

lemma written_addresses_inj:
  assumes "f + 1 + n \<le> 2 ^ 20"
  shows "inj_on (word_addr f) {..<1024}"
    "inj_on (\<lambda>i. word_addr (f + 1 + i div 1024) (i mod 1024)) {..<1024 * n}"
    "inj_on (\<lambda>i. word_addr (f + 1 + i) 1023) {..<n}"
proof -
  have f: "f < 2 ^ 20" "\<And>j. j < n \<Longrightarrow> f + 1 + j < 2 ^ 20" using assms by auto
  show "inj_on (word_addr f) {..<1024}"
    using word_addr_inj [OF f(1) _ f(1)] by (auto intro: inj_onI)
  show "inj_on (\<lambda>i. word_addr (f + 1 + i div 1024) (i mod 1024)) {..<1024 * n}"
  proof (rule inj_onI)
    fix i j
    assume ij: "i \<in> {..<1024 * n}" "j \<in> {..<1024 * n}"
      "word_addr (f + 1 + i div 1024) (i mod 1024) = word_addr (f + 1 + j div 1024) (j mod 1024)"
    have "i div 1024 = j div 1024" "i mod 1024 = j mod 1024"
      using word_addr_inj [OF f(2) _ f(2), of "i div 1024" "i mod 1024" "j div 1024" "j mod 1024"]
        table_of_page [of i n] table_of_page [of j n] ij
      by auto
    then show "i = j" by (metis div_mult_mod_eq)
  qed
  show "inj_on (\<lambda>i. word_addr (f + 1 + i) 1023) {..<n}"
    using word_addr_inj [OF f(2) _ f(2)] by (auto intro!: inj_onI)
qed

lemma directory_words:
  assumes "f + 1 + n \<le> 2 ^ 20" "n < 1023" and d: "d < 1024"
  shows "tables_written f n m (word_addr f d) =
      (if d < n then word_addr (f + 1 + d) 0 OR 3 else if d = 1023 then word_addr f 0 OR 1 else 2)"
proof -
  let ?id = "\<lambda>i. word_addr (f + 1 + i div 1024) (i mod 1024)" and ?last = "\<lambda>i. word_addr (f + 1 + i) 1023"
  let ?m3 = "(put_words (word_addr f) (\<lambda>_. 2) [0..<1024] m)(word_addr f 1023 := word_addr f 0 OR 1)"
  have f: "f < 2 ^ 20" "\<And>j. j < n \<Longrightarrow> f + 1 + j < 2 ^ 20" using assms(1) by auto
  note inj_dir = written_addresses_inj(1) [OF assms(1)]
  show ?thesis
  proof (cases "d < n")
    case True
    have "inj_on (word_addr f) (set [0..<n])" using inj_on_subset [OF inj_dir] assms(2) by (auto simp: atLeast0LessThan)
    from put_words_in [OF this, of d] True show ?thesis by (simp add: tables_written_def)
  next
    case False
    have "word_addr f d \<noteq> word_addr f i" if "i < n" for i
      using word_addr_inj [OF f(1) d f(1), of i] that False assms(2) by auto
    moreover have "word_addr f d \<noteq> word_addr (f + 1 + j) i" if "j < n" "i < 1024" for j i
      using word_addr_inj [OF f(1) d f(2) [OF that(1)] that(2)] by simp
    ultimately have "word_addr f d \<notin> word_addr f ` set [0..<n]" "word_addr f d \<notin> ?last ` set [0..<n]"
      "word_addr f d \<notin> ?id ` set [0..<1024 * n]"
      using table_of_page by (simp_all add: image_iff)
    then have "tables_written f n m (word_addr f d) = ?m3 (word_addr f d)"
      by (simp add: tables_written_def put_words_out)
    also have "\<dots> = (if d = 1023 then word_addr f 0 OR 1 else 2)"
      using word_addr_inj [OF f(1) d f(1), of 1023] put_words_in [of "word_addr f" "[0..<1024]" d] inj_dir d
      by (simp add: atLeast0LessThan)
    finally show ?thesis using False by simp
  qed
qed

lemma table_words:
  assumes "f + 1 + n \<le> 2 ^ 20" "n < 1023" and ji: "j < n" "i < 1024"
  shows "tables_written f n m (word_addr (f + 1 + j) i) =
      (if i = 1023 then word_addr (f + 1 + j) 0 OR 1 else word_addr (1024 * j + i) 0 OR 3)"
proof -
  let ?id = "\<lambda>i. word_addr (f + 1 + i div 1024) (i mod 1024)" and ?last = "\<lambda>i. word_addr (f + 1 + i) 1023"
  let ?m3 = "(put_words (word_addr f) (\<lambda>_. 2) [0..<1024] m)(word_addr f 1023 := word_addr f 0 OR 1)"
  let ?m4 = "put_words ?id (\<lambda>i. word_addr i 0 OR 3) [0..<1024 * n] ?m3"
  let ?m5 = "put_words ?last (\<lambda>i. word_addr (f + 1 + i) 0 OR 1) [0..<n] ?m4"
  have f: "f < 2 ^ 20" "\<And>j. j < n \<Longrightarrow> f + 1 + j < 2 ^ 20" using assms(1) by auto
  note inj = written_addresses_inj(2,3) [OF assms(1)]
  have "word_addr (f + 1 + j) i \<noteq> word_addr f k" if "k < n" for k
    using word_addr_inj [OF f(2) [OF ji(1)] ji(2) f(1), of k] that assms(2) by simp
  then have "word_addr (f + 1 + j) i \<notin> word_addr f ` set [0..<n]" by (simp add: image_iff)
  then have top: "tables_written f n m (word_addr (f + 1 + j) i) = ?m5 (word_addr (f + 1 + j) i)"
    by (simp add: tables_written_def put_words_out)
  show ?thesis
  proof (cases "i = 1023")
    case True
    then show ?thesis using top put_words_in [of ?last "[0..<n]" j] inj(2) ji(1) by (simp add: atLeast0LessThan)
  next
    case False
    have "word_addr (f + 1 + j) i \<noteq> ?last k" if "k < n" for k
      using word_addr_inj [OF f(2) [OF ji(1)] ji(2) f(2) [OF that], of 1023] False by simp
    then have "word_addr (f + 1 + j) i \<notin> ?last ` set [0..<n]" by (simp add: image_iff)
    moreover have "1024 * j + i \<in> set [0..<1024 * n]" using ji by auto
    moreover have "word_addr (f + 1 + j) i = ?id (1024 * j + i)" using ji(2) by simp
    ultimately show ?thesis
      using top put_words_in [of ?id "[0..<1024 * n]" "1024 * j + i"] inj(1) False
      by (simp add: put_words_out atLeast0LessThan)
  qed
qed

lemmas tables_words = directory_words table_words

section \<open>The state after the set-up\<close>

lemma page_mask:
  assumes "unat (p :: u64) < 2 ^ 32"
  shows "p AND 0xFFFFF000 = push_bit 12 (drop_bit 12 p)"
proof (rule bit_word_eqI)
  fix n
  have eq: "(0xFFFFF000 :: u64) = push_bit 12 (mask 20)" by (simp add: push_bit_eq_mult mask_eq_exp_minus_1)
  have "p = take_bit 32 p" using assms by (simp add: word_eq_unat unsigned_take_bit_eq take_bit_nat_eq_self)
  then have "n < 32" if "bit p n" using that by (metis bit_take_bit_iff)
  then show "bit (p AND 0xFFFFF000) n = bit (push_bit 12 (drop_bit 12 p)) n"
    unfolding eq bit_and_iff bit_push_bit_iff bit_mask_iff bit_drop_bit_eq
    by (auto simp: not_le dest: bit_imp_le_length)
qed

lemma page_start:
  assumes "unat (p :: u64) < 2 ^ 32"
  shows "unat (p AND 0xFFFFF000) = 4096 * (unat p div 4096)"
proof -
  have d: "unat (drop_bit 12 p) = unat p div 4096" by (simp add: drop_bit_eq_div unat_div)
  have "unat p div 4096 < 2 ^ 20" using assms by (simp add: less_mult_imp_div_less)
  then have "unat (drop_bit 12 p * 4096) = unat p div 4096 * 4096"
    unfolding unat_word_ariths(2) d by simp
  then show ?thesis unfolding page_mask [OF assms] by (simp add: push_bit_eq_mult)
qed

lemma allocate_frame_aligned_result:
  assumes "4096 \<le> unat p" "unat p div 4096 + 1 < 2 ^ 20"
  shows "fst (allocate_frame_aligned p n) = word_addr (unat p div 4096 + 1) 0"
    "fst (snd (allocate_frame_aligned p n)) = of_nat (4096 * (unat p div 4096 + 1)) + ucast n"
proof -
  have p: "unat p < 2 ^ 32" using assms(2) by simp
  have low: "p AND 0xFFFFF000 = of_nat (4096 * (unat p div 4096))"
  proof -
    have "unat (of_nat (4096 * (unat p div 4096)) :: u64) = 4096 * (unat p div 4096)"
      unfolding unat_of_nat using p by simp
    then show ?thesis unfolding word_eq_unat page_start [OF p] by simp
  qed
  have "unat (p AND 0xFFFFF000) \<noteq> 0" using assms(1) unfolding page_start [OF p] by simp
  then have nonzero: "p AND 0xFFFFF000 \<noteq> 0" by auto
  have up: "(p AND 0xFFFFF000) + 0x1000 = of_nat (4096 * (unat p div 4096 + 1))" unfolding low by simp
  have small: "4096 * (unat p div 4096 + 1) < 2 ^ 32" using assms(2) by simp
  then have "unat (of_nat (4096 * (unat p div 4096 + 1)) :: u64) = 4096 * (unat p div 4096 + 1)"
    "unat (of_nat (4096 * (unat p div 4096 + 1)) :: u32) = 4096 * (unat p div 4096 + 1)"
    unfolding unat_of_nat by simp_all
  then have "ucast (of_nat (4096 * (unat p div 4096 + 1)) :: u64) = word_addr (unat p div 4096 + 1) 0"
    unfolding word_addr_def word_eq_unat unsigned_ucast_eq
    by (simp only: add_0_right mult_0_right) (rule take_bit_nat_eq_self, use small in simp)
  then show "fst (allocate_frame_aligned p n) = word_addr (unat p div 4096 + 1) 0"
    "fst (snd (allocate_frame_aligned p n)) = of_nat (4096 * (unat p div 4096 + 1)) + ucast n"
    using nonzero unfolding allocate_frame_aligned_def up by (simp_all add: Let_def)
qed

lemma paging_setup_result:
  assumes "4096 \<le> unat (placement_address s)" "f = unat (placement_address s) div 4096 + 1"
    and "f + 1 + unat n \<le> 2 ^ 20" "unat n < 1023" "length (handlers s) = 256"
  obtains s' msgs where "paging_setup n s = Inr s'"
    "vm s' = (vm s)\<lparr>phys := tables_written f (unat n) (phys (vm s)), cr3 := word_addr f 0, printed := printed (vm s) @ msgs\<rparr>"
    "cr0 s' = cr0 s OR 0x80000000" "length (handlers s') = 256" "handlers s' ! 14 = Some page_fault_isr"
    "unat (placement_address s') = 4096 * (f + 1 + unat n)"
proof -
  let ?size = "(1 + n) * 1024 * 4"
  have ptr: "fst (allocate_frame_aligned (placement_address s) ?size) = word_addr f 0"
    "fst (snd (allocate_frame_aligned (placement_address s) ?size)) = of_nat (4096 * f) + ucast ?size"
    using allocate_frame_aligned_result [OF assms(1), of ?size] assms(2,3) by simp_all
  have "unat (1 + n) = 1 + unat n" using assms(4) by (simp add: unat_plus_no_wrap)
  then have "unat ?size = 4096 * (1 + unat n)" using assms(4) by (simp add: unat_word_ariths)
  then have "unat (ucast ?size :: u64) = 4096 * (1 + unat n)" by (simp only: u32_in_u64)
  moreover have "unat (of_nat (4096 * f) :: u64) = 4096 * f" unfolding unat_of_nat using assms(3) by simp
  ultimately have "unat (of_nat (4096 * f) + ucast ?size :: u64) = 4096 * f + 4096 * (1 + unat n)"
    using unat_plus_no_wrap [of "of_nat (4096 * f) :: u64" "ucast ?size"] assms(3,4) by simp
  moreover have "register_interrupt_handler (handlers s) 14 page_fault_isr = Inr ((handlers s)[14 := Some page_fault_isr])"
    using assms(5) by (simp add: register_interrupt_handler_def)
  moreover have "write_tables (phys (vm s)) (word_addr f 0) n = tables_written f (unat n) (phys (vm s))"
    using assms(4) by (intro write_tables_eq) simp
  ultimately show thesis
    using ptr assms(5) that [of _ "snd (snd (allocate_frame_aligned (placement_address s) ?size))"]
    by (simp add: paging_setup_def Let_def split_beta)
qed

text \<open>The translation: identity, except for the last page of every 4 MiB, and the recursive window.\<close>

definition identity_map :: "nat \<Rightarrow> nat \<Rightarrow> u32 \<Rightarrow> nat option" where
  "identity_map f n va =
     (if pd_index va < n then Some (if pt_index va = 1023 then f + 1 + pd_index va else page va)
      else if pd_index va < 1023 then None
      else if pt_index va < n then Some (f + 1 + pt_index va)
      else if pt_index va = 1023 then Some f else None)"

lemma page_indices: "page va = 1024 * pd_index va + pt_index va"
  by (simp add: page_def pd_index_def pt_index_def div_mult2_eq [of "unat va" 4096 1024, simplified])

lemma tables_entry:
  assumes "k < 2 ^ 20" "b = 1 \<or> b = 3"
  shows "present (word_addr k 0 OR b)" "frame_of (word_addr k 0 OR b) = k"
proof -
  have "drop_bit 12 b = 0" "bit b 0" using assms(2) by (auto simp: drop_bit_eq_div)
  then show "present (word_addr k 0 OR b)" "frame_of (word_addr k 0 OR b) = k"
    using entry_with_bits [OF assms(1)] entry_present by simp_all
qed

lemma tables_pde:
  assumes "f + 1 + n \<le> 2 ^ 20" "n < 1023" "phys m = tables_written f n m0" "cr3 m = word_addr f 0"
  shows "dir m = f"
    "d < 1023 \<Longrightarrow> present (pde m d) \<longleftrightarrow> d < n" "d < n \<Longrightarrow> frame_of (pde m d) = f + 1 + d"
    "present (pde m 1023)" "frame_of (pde m 1023) = f"
proof -
  show dir: "dir m = f" using assms by (simp add: frame_of_word_addr)
  have pde: "pde m d = (if d < n then word_addr (f + 1 + d) 0 OR 3 else if d = 1023 then word_addr f 0 OR 1 else 2)"
    if "d < 1024" for d
    unfolding pde_def dir word_at_def assms(3) by (rule tables_words(1) [OF assms(1,2) that])
  have entry: "f + 1 + d < 2 ^ 20" if "d < n" for d using that assms(1) by simp
  have "\<not> present 2" by (simp add: present_def)
  then show "present (pde m d) \<longleftrightarrow> d < n" if "d < 1023"
    using pde [of d] that tables_entry(1) [OF entry, of d 3] by simp
  show "frame_of (pde m d) = f + 1 + d" if "d < n"
    using pde [of d] that assms(2) tables_entry(2) [OF entry [OF that], of 3] by simp
  show "present (pde m 1023)" "frame_of (pde m 1023) = f"
    using pde [of 1023] assms(1,2) tables_entry [of f 1] by simp_all
qed

lemma tables_translate:
  assumes "f + 1 + n \<le> 2 ^ 20" "n < 1023" "phys m = tables_written f n m0" "cr3 m = word_addr f 0"
  shows "translate m va = identity_map f n va"
proof -
  note pde = tables_pde [OF assms]
  let ?d = "pd_index va" and ?i = "pt_index va"
  note i = pt_index_bound [of va]
  consider "?d < n" | "n \<le> ?d" "?d < 1023" | "?d = 1023" using pd_index_bound [of va] by linarith
  then show ?thesis
  proof cases
    case 1
    let ?e = "word_at m (f + 1 + ?d) ?i"
    have "?e = (if ?i = 1023 then word_addr (f + 1 + ?d) 0 OR 1 else word_addr (1024 * ?d + ?i) 0 OR 3)"
      unfolding word_at_def assms(3) by (rule tables_words(2) [OF assms(1,2) 1 i])
    moreover have "page va < 2 ^ 20" using unat_bound [of va] by (simp add: page_def less_mult_imp_div_less)
    ultimately have "present ?e \<and> frame_of ?e = (if ?i = 1023 then f + 1 + ?d else page va)"
      using tables_entry [of "f + 1 + ?d" 1] tables_entry [of "page va" 3] 1 assms(1) by (simp add: page_indices)
    then show ?thesis using pde(2,3) 1 assms(2) by (simp add: translate_eq identity_map_def Let_def)
  next
    case 2
    then show ?thesis using pde(2) by (simp add: translate_eq identity_map_def)
  next
    case 3
    have "word_at m f ?i = pde m ?i" using pde(1) by (simp add: pde_def)
    moreover have "present (pde m ?i) \<longleftrightarrow> ?i < n \<or> ?i = 1023" using pde(2,4) i assms(2) by (cases "?i = 1023") auto
    ultimately show ?thesis
      using pde(3-5) 3 assms(2) by (auto simp: translate_eq identity_map_def Let_def)
  qed
qed

lemma tables_wf:
  assumes "f + 1 + n \<le> 2 ^ 20" "n < 1023" "phys m = tables_written f n m0" "cr3 m = word_addr f 0"
    and "bitmap_wf BITMAP_ELEMENT_COUNT (frames_bitmap m)" "{f..f + n} \<subseteq> used m"
  shows "paging_wf m"
proof -
  note pde = tables_pde [OF assms(1-4)]
  have "f + 1 + d \<in> used m" if "d < n" for d by (rule subsetD [OF assms(6)]) (use that in simp)
  moreover have "f \<in> used m" by (rule subsetD [OF assms(6)]) simp
  ultimately show ?thesis
    using pde assms(5) by (auto simp: paging_wf_def recursive_def)
qed

section \<open>Accesses with page faults\<close>

text \<open>The handler is registered, the tables are well-formed, and \<open>c\<close> frames are free.\<close>

definition ready :: "nat \<Rightarrow> paging_unit \<Rightarrow> bool" where
  "ready c s \<longleftrightarrow> paging_wf (vm s) \<and> length (handlers s) = 256 \<and> handlers s ! 14 = Some page_fault_isr \<and>
     c \<le> card (free_frames (vm s))"

lemma until_mapped_present: "translate (vm s) va \<noteq> None \<Longrightarrow> until_mapped regs va s = Some (Inr s)"
  by (subst until_mapped.simps) auto

lemma until_mapped_faults:
  assumes "ready (c + 2) s" "pd_index va < 1023" "translate (vm s) va = None"
  obtains m k where "until_mapped regs va s = Some (Inr (s\<lparr>vm := m\<rparr>))" "ready c (s\<lparr>vm := m\<rparr>)"
    "translate m va = Some k" "data_frame m k" "k < 2 ^ 20" "printed m = printed (vm s)"
    "k \<in> free_frames (vm s)" "free_frames m \<subseteq> free_frames (vm s) - {k}"
    "\<And>w. pd_index w < 1023 \<Longrightarrow> page w \<noteq> page va \<Longrightarrow> translate m w = translate (vm s) w"
proof -
  have wf: "paging_wf (vm s)" and two: "2 \<le> card (free_frames (vm s))" and c: "c + 2 \<le> card (free_frames (vm s))"
    using assms(1) by (simp_all add: ready_def)
  obtain m k1 k2 where m: "setup_page (vm s) va = Inr m" "paging_wf m" "translate m va = Some k2"
    "k1 \<in> free_frames (vm s)" "k2 \<in> free_frames (vm s)" "k1 \<noteq> k2"
    "free_frames m = free_frames (vm s) - {k1, k2}" "data_frame m k2" "printed m = printed (vm s)"
    "\<And>w. pd_index w < 1023 \<Longrightarrow> unat w div 4096 \<noteq> unat va div 4096 \<Longrightarrow> translate m w = translate (vm s) w"
    by (rule setup_page_maps [OF wf assms(2) two]) blast
  have "finite (free_frames (vm s))" by (simp add: free_frames_def)
  then have card: "card (free_frames m) = card (free_frames (vm s)) - 2"
    using m(4-7) by (simp add: card_Diff_subset)
  have "raise_page_fault regs va s = Inr (s\<lparr>vm := m\<rparr>)"
    using assms(1) m(1) by (simp add: raise_page_fault_def isr_handler_def ready_def page_fault_isr_def
        page_fault_interrupt_handler_def)
  then have "until_mapped regs va s = until_mapped regs va (s\<lparr>vm := m\<rparr>)"
    using assms(3) by (subst until_mapped.simps) simp
  also have "\<dots> = Some (Inr (s\<lparr>vm := m\<rparr>))" using m(3) by (intro until_mapped_present) simp
  finally have eq: "until_mapped regs va s = Some (Inr (s\<lparr>vm := m\<rparr>))" .
  have ready: "ready c (s\<lparr>vm := m\<rparr>)" using assms(1) m(2) card c by (simp add: ready_def)
  have bound: "k2 < 2 ^ 20" using m(5) frames_below [OF wf] by (simp add: free_frames_def)
  have taken: "free_frames m \<subseteq> free_frames (vm s) - {k2}" using m(7) by blast
  show thesis using that [OF eq ready m(3,8) bound m(9,5) taken] m(10) by (simp add: page_def)
qed

text \<open>A word of a data frame is written: no translation changes.\<close>

lemma data_write:
  assumes "paging_wf m" "translate m va = Some k" "data_frame m k" "k < 2 ^ 20"
  obtains m' where "vwrite m va v = Inr m'" "vread m' va = Inr v" "translate m' = translate m"
    "paging_wf m'" "frames_bitmap m' = frames_bitmap m" "printed m' = printed m"
proof -
  let ?a = "of_nat (4096 * k + unat va mod 4096) :: u32"
  let ?m = "m\<lparr>phys := (phys m)(?a := v)\<rparr>"
  have "unat va mod 4096 < 4096" "k < 1048576" using assms(4) by simp_all
  then have "4096 * k + unat va mod 4096 < 4294967296" by linarith
  then have small: "4096 * k + unat va mod 4096 < 2 ^ 32" by simp
  have a: "frame_of ?a = k"
    unfolding frame_of_def unat_of_nat using small by (simp add: take_bit_nat_eq_self)
  have other: "word_at ?m k' i = word_at m k' i" if "k' \<noteq> k" "k' < 2 ^ 20" "i < 1024" for k' i
    using frame_of_word_addr [OF that(2,3)] a that(1) by (auto simp: word_at_def)
  have pde: "pde ?m d = pde m d" if "d < 1024" for d
    using other [OF _ frame_of_bound that] assms(3) by (simp add: pde_def data_frame_def)
  have "translate ?m w = translate m w" for w
  proof -
    have "frame_of (pde m (pd_index w)) \<noteq> k" if "present (pde m (pd_index w))"
      using assms(1,3) pd_index_bound [of w] that
      by (cases "pd_index w = 1023") (auto simp: data_frame_def paging_wf_def recursive_def)
    then show ?thesis
      using pde [OF pd_index_bound [of w]] other [OF _ frame_of_bound pt_index_bound]
      by (simp add: translate_eq)
  qed
  then have same: "translate ?m = translate m" by (rule ext)
  have "paging_wf ?m" using assms(1) pde by (simp add: paging_wf_def recursive_def used_def)
  moreover have "vread ?m va = Inr v" using same assms(2) by (simp add: vread_def)
  ultimately show thesis using that [of ?m] same assms(2) by (simp add: vwrite_def)
qed

lemma store_then_load:
  assumes "ready (c + 2) s" "pd_index va < 1023" "translate (vm s) va = None"
  obtains s' k where "store_word regs va v s = Some (Inr s')" "load_word regs va s' = Some (Inr (v, s'))"
    "ready c s'" "printed (vm s') = printed (vm s)" "translate (vm s') va = Some k"
    "k \<in> free_frames (vm s)" "free_frames (vm s') \<subseteq> free_frames (vm s) - {k}"
    "\<And>w. pd_index w < 1023 \<Longrightarrow> page w \<noteq> page va \<Longrightarrow> translate (vm s') w = translate (vm s) w"
proof -
  obtain m k where m: "until_mapped regs va s = Some (Inr (s\<lparr>vm := m\<rparr>))" "ready c (s\<lparr>vm := m\<rparr>)"
    "translate m va = Some k" "data_frame m k" "k < 2 ^ 20" "printed m = printed (vm s)"
    "k \<in> free_frames (vm s)" "free_frames m \<subseteq> free_frames (vm s) - {k}"
    "\<And>w. pd_index w < 1023 \<Longrightarrow> page w \<noteq> page va \<Longrightarrow> translate m w = translate (vm s) w"
    by (rule until_mapped_faults [OF assms]) blast
  have wf: "paging_wf m" using m(2) by (simp add: ready_def)
  obtain m' where m': "vwrite m va v = Inr m'" "vread m' va = Inr v" "translate m' = translate m"
    "paging_wf m'" "frames_bitmap m' = frames_bitmap m" "printed m' = printed m"
    by (rule data_write [OF wf m(3-5)])
  let ?s = "s\<lparr>vm := m'\<rparr>"
  have store: "store_word regs va v s = Some (Inr ?s)" using m(1) m'(1) by (simp add: store_word_def)
  have "until_mapped regs va ?s = Some (Inr ?s)" using m'(3) m(3) by (intro until_mapped_present) simp
  then have load: "load_word regs va ?s = Some (Inr (v, ?s))" using m'(2) by (simp add: load_word_def)
  have ready: "ready c ?s" using m(2) m'(4,5) by (simp add: ready_def free_frames_def used_def)
  have taken: "free_frames (vm ?s) \<subseteq> free_frames (vm s) - {k}"
    using m(8) m'(5) by (simp add: free_frames_def used_def)
  have "translate (vm ?s) va = Some k" using m'(3) m(3) by simp
  from that [OF store load ready _ this m(7) taken] show thesis using m'(3,6) m(6,9) by simp
qed

lemma translate_printed: "translate (m\<lparr>printed := l\<rparr>) = translate m"
  by (simp add: translate_def Let_def fun_eq_iff)

lemma tell_simps [simp]:
  "printed (vm (tell fmt args s)) = printed (vm s) @ [(fmt @ [CHR 0x0A], args)]"
  "translate (vm (tell fmt args s)) = translate (vm s)" "ready c (tell fmt args s) = ready c s"
  "free_frames (vm (tell fmt args s)) = free_frames (vm s)"
  by (simp_all add: tell_def translate_printed ready_def paging_wf_def recursive_def pde_def word_at_def used_def
      free_frames_def)

lemma paging_tests_result:
  assumes "ready 4 s" "translate (vm s) 0 \<noteq> None" "translate (vm s) 0xA0000000 = None" "translate (vm s) 0xA0001000 = None"
  obtains s' k1 k2 where "paging_tests regs s = Some (Inr s')" "ready 0 s'" "printed (vm s') = printed (vm s) @
    [(''PageFault?'' @ [CHR 0x0A], []), (''StoredValue: %d'' @ [CHR 0x0A], [100]), (''StoredValue: %d'' @ [CHR 0x0A], [101])]"
    "translate (vm s') 0xA0000000 = Some k1" "translate (vm s') 0xA0001000 = Some k2" "k1 \<noteq> k2"
    "{k1, k2} \<subseteq> free_frames (vm s)"
proof -
  have idx: "pd_index 0xA0000000 < 1023" "pd_index 0xA0001000 < 1023" "page 0xA0001000 \<noteq> page 0xA0000000"
    by (simp_all add: pd_index_def page_def)
  obtain v where first: "load_word regs 0 s = Some (Inr (v, s))"
    using assms(2) until_mapped_present [OF assms(2)] by (auto simp: load_word_def vread_def)
  let ?s1 = "tell ''PageFault?'' [] s"
  have "ready (2 + 2) ?s1" "translate (vm ?s1) 0xA0000000 = None" using assms(1,3) by simp_all
  then obtain s2 k1 where s2: "store_word regs 0xA0000000 100 ?s1 = Some (Inr s2)"
    "load_word regs 0xA0000000 s2 = Some (Inr (100, s2))" "ready 2 s2" "printed (vm s2) = printed (vm ?s1)"
    "translate (vm s2) 0xA0000000 = Some k1" "k1 \<in> free_frames (vm ?s1)" "free_frames (vm s2) \<subseteq> free_frames (vm ?s1) - {k1}"
    "\<And>w. pd_index w < 1023 \<Longrightarrow> page w \<noteq> page 0xA0000000 \<Longrightarrow> translate (vm s2) w = translate (vm ?s1) w"
    by (rule store_then_load [OF _ idx(1)]) blast
  let ?s3 = "tell ''StoredValue: %d'' [100] s2"
  have "ready (0 + 2) ?s3" using s2(3) by (simp only: tell_simps add_0)
  moreover have "translate (vm ?s3) 0xA0001000 = None" using s2(8) [OF idx(2,3)] assms(4) by simp
  ultimately obtain s4 k2 where s4: "store_word regs 0xA0001000 101 ?s3 = Some (Inr s4)"
    "load_word regs 0xA0001000 s4 = Some (Inr (101, s4))" "ready 0 s4" "printed (vm s4) = printed (vm ?s3)"
    "translate (vm s4) 0xA0001000 = Some k2" "k2 \<in> free_frames (vm ?s3)"
    "\<And>w. pd_index w < 1023 \<Longrightarrow> page w \<noteq> page 0xA0001000 \<Longrightarrow> translate (vm s4) w = translate (vm ?s3) w"
    by (rule store_then_load [OF _ idx(2)]) blast
  let ?s5 = "tell ''StoredValue: %d'' [101] s4"
  have run: "paging_tests regs s = Some (Inr ?s5)"
    using first s2(1,2) s4(1,2) by (simp add: paging_tests_def Let_def)
  have "translate (vm ?s5) 0xA0000000 = Some k1" using s4(7) [OF idx(1) idx(3) [symmetric]] s2(5) by simp
  from that [OF run _ _ this, of k2] show thesis using s4(3-6) s2(4,6,7) by auto
qed

text \<open>Setting up paging and its self-test: the frames of the two pages were free before.\<close>

lemma set_up_then_test:
  assumes "4096 \<le> unat (placement_address s)" "f = unat (placement_address s) div 4096 + 1"
    and "0 < unat n" "unat n \<le> 640" "f + 1 + unat n \<le> 2 ^ 20" "length (handlers s) = 256"
    and "bitmap_wf BITMAP_ELEMENT_COUNT (frames_bitmap (vm s))" "{f..f + unat n} \<subseteq> used (vm s)"
    and "4 \<le> card (free_frames (vm s))"
  obtains s' s'' msgs k1 k2 where "paging_setup n s = Inr s'" "paging_tests regs s' = Some (Inr s'')" "paging_wf (vm s'')"
    "printed (vm s'') = msgs @ [(''PageFault?'' @ [CHR 0x0A], []), (''StoredValue: %d'' @ [CHR 0x0A], [100]),
      (''StoredValue: %d'' @ [CHR 0x0A], [101])]"
    "translate (vm s'') 0xA0000000 = Some k1" "translate (vm s'') 0xA0001000 = Some k2" "k1 \<noteq> k2"
    "{k1, k2} \<subseteq> free_frames (vm s)"
proof -
  have n: "unat n < 1023" using assms(4) by simp
  obtain s' msgs where s': "paging_setup n s = Inr s'"
    "vm s' = (vm s)\<lparr>phys := tables_written f (unat n) (phys (vm s)), cr3 := word_addr f 0, printed := printed (vm s) @ msgs\<rparr>"
    "length (handlers s') = 256" "handlers s' ! 14 = Some page_fault_isr"
    by (rule paging_setup_result [OF assms(1,2,5) n assms(6)])
  have m: "phys (vm s') = tables_written f (unat n) (phys (vm s))" "cr3 (vm s') = word_addr f 0"
    "frames_bitmap (vm s') = frames_bitmap (vm s)" by (simp_all add: s'(2))
  then have free: "used (vm s') = used (vm s)" "free_frames (vm s') = free_frames (vm s)"
    by (simp_all add: used_def free_frames_def)
  moreover from this have "paging_wf (vm s')"
    using tables_wf [OF assms(5) n m(1,2)] assms(7,8) m(3) by simp
  ultimately have ready: "ready 4 s'" using s'(3,4) assms(9) by (simp add: ready_def)
  have "translate (vm s') va = identity_map f (unat n) va" for va by (rule tables_translate [OF assms(5) n m(1,2)])
  then have "translate (vm s') 0 \<noteq> None" "translate (vm s') 0xA0000000 = None" "translate (vm s') 0xA0001000 = None"
    using assms(3,4) by (simp_all add: identity_map_def pd_index_def pt_index_def)
  from paging_tests_result [OF ready this, of regs]
  obtain s'' k1 k2 where t: "paging_tests regs s' = Some (Inr s'')" "ready 0 s''"
    "printed (vm s'') = printed (vm s') @ [(''PageFault?'' @ [CHR 0x0A], []),
      (''StoredValue: %d'' @ [CHR 0x0A], [100]), (''StoredValue: %d'' @ [CHR 0x0A], [101])]"
    "translate (vm s'') 0xA0000000 = Some k1" "translate (vm s'') 0xA0001000 = Some k2" "k1 \<noteq> k2"
    "{k1, k2} \<subseteq> free_frames (vm s')" .
  have "paging_wf (vm s'')" using t(2) by (simp add: ready_def)
  from that [OF s'(1) t(1) this t(3-6)] show thesis using t(7) free by simp
qed

section \<open>Properties\<close>

text \<open>
  C23. \<^verbatim>\<open>paging_setup\<close> with 1 to 1022 page tables and a placement address from 4 KiB on: the page
  directory is put into the first frame behind the one of the placement address (also where that
  address is the start of a frame), paging is turned on with the handler of page faults registered, and
  the placement address moves behind the tables. Below 4 MiB per table every address is then mapped to
  itself, except for the last 4 KiB of each 4 MiB, which are mapped to the page table itself; the last
  4 MiB of the address space are the tables and the directory, and nothing else is mapped.
\<close>

theorem paging_setup_maps_identically:
  assumes "4096 \<le> unat (placement_address s)" "f = unat (placement_address s) div 4096 + 1"
    and "0 < unat n" "unat n < 1023" "f + 1 + unat n \<le> 2 ^ 20" "length (handlers s) = 256"
  shows "\<exists>s'. paging_setup n s = Inr s' \<and> frame_of (cr3 (vm s')) = f \<and> bit (cr0 s') 31 \<and>
    handlers s' ! 14 = Some page_fault_isr \<and> unat (placement_address s') = 4096 * (f + 1 + unat n) \<and>
    (\<forall>va. translate (vm s') va =
      (if pd_index va < unat n then Some (if pt_index va = 1023 then f + 1 + pd_index va else unat va div 4096)
       else if pd_index va < 1023 then None
       else if pt_index va < unat n then Some (f + 1 + pt_index va)
       else if pt_index va = 1023 then Some f else None))"
proof -
  obtain s' msgs where s': "paging_setup n s = Inr s'"
    "vm s' = (vm s)\<lparr>phys := tables_written f (unat n) (phys (vm s)), cr3 := word_addr f 0, printed := printed (vm s) @ msgs\<rparr>"
    "cr0 s' = cr0 s OR 0x80000000" "handlers s' ! 14 = Some page_fault_isr"
    "unat (placement_address s') = 4096 * (f + 1 + unat n)"
    by (rule paging_setup_result [OF assms(1,2,5,4,6)])
  have m: "phys (vm s') = tables_written f (unat n) (phys (vm s))" "cr3 (vm s') = word_addr f 0"
    by (simp_all add: s'(2))
  have "bit (0x80000000 :: u32) 31" using bit_single [of 31 31, where 'a = 32] by simp
  then have "bit (cr0 s') 31" by (simp add: s'(3) bit_or_iff)
  moreover have "frame_of (cr3 (vm s')) = f" by (rule tables_pde(1) [OF assms(5,4) m])
  ultimately show ?thesis
    using s'(1,4,5) tables_translate [OF assms(5,4) m]
    by (intro exI [of _ s']) (simp add: identity_map_def page_def)
qed

text \<open>A machine with 40 MiB in front of the placement memory, for the witnesses.\<close>

definition example_unit :: paging_unit where
  "example_unit = \<lparr>vm = \<lparr>phys = (\<lambda>_. 0), cr3 = 0, frames_bitmap = replicate 360 0xFFFFFFFF @ replicate 1241 0, printed = []\<rparr>,
     cr0 = 0x11, handlers = replicate 256 None, placement_address = 0x2800000\<rparr>"

theorem paging_setup_maps_identically_witness:
  "\<exists>s'. paging_setup 10 example_unit = Inr s' \<and> translate (vm s') 0xB8000 = Some 0xB8 \<and>
    translate (vm s') 0x3FF000 = Some 0x2802 \<and> translate (vm s') 0x2800000 = None"
  using paging_setup_maps_identically [of example_unit "0x2801" 10]
  by (auto simp: example_unit_def pd_index_def pt_index_def)

text \<open>
  The self-test of paging passes: after \<^verbatim>\<open>paging_setup\<close> with at most 640 tables, on a bitmap of
  frames in which the frames of the directory and of the tables are marked and four frames are free,
  \<^verbatim>\<open>paging_tests\<close> returns. Its two stores raise page faults, the registered handler maps the pages, and
  the values read back and printed are the values stored.
\<close>

theorem paging_tests_pass:
  assumes "4096 \<le> unat (placement_address s)" "f = unat (placement_address s) div 4096 + 1"
    and "0 < unat n" "unat n \<le> 640" "f + 1 + unat n \<le> 2 ^ 20" "length (handlers s) = 256"
    and "bitmap_wf BITMAP_ELEMENT_COUNT (frames_bitmap (vm s))" "{f..f + unat n} \<subseteq> used (vm s)"
    and "4 \<le> card (free_frames (vm s))"
  shows "\<exists>s' s'' msgs. paging_setup n s = Inr s' \<and> paging_tests regs s' = Some (Inr s'') \<and> paging_wf (vm s'') \<and>
    printed (vm s'') = msgs @ [(''PageFault?'' @ [CHR 0x0A], []), (''StoredValue: %d'' @ [CHR 0x0A], [100]),
      (''StoredValue: %d'' @ [CHR 0x0A], [101])]"
  using set_up_then_test [OF assms, of regs] by metis

lemma example_unit_used: "used (vm example_unit) = {..<11520}"
proof -
  have "bit (0xFFFFFFFF :: u32) i \<longleftrightarrow> i < 32" for i
    using bit_mask_iff [of 32 i, where 'a = "32 word"] by (simp add: mask_eq_exp_minus_1)
  moreover have "k div 32 < 360 \<longleftrightarrow> k < 11520" for k :: nat by (simp add: div_less_iff_less_mult)
  moreover have "k div 32 - 360 < 1241" if "k < 51232" for k :: nat
    using that by (simp add: less_diff_conv2 div_less_iff_less_mult)
  ultimately show ?thesis
    by (auto simp: used_def used_frames_def frame_used_def example_unit_def nth_append)
qed

theorem paging_tests_pass_witness:
  "\<forall>regs. \<exists>s' s'' msgs. paging_setup 10 example_unit = Inr s' \<and> paging_tests regs s' = Some (Inr s'') \<and>
    printed (vm s'') = msgs @ [(''PageFault?'' @ [CHR 0x0A], []), (''StoredValue: %d'' @ [CHR 0x0A], [100]),
      (''StoredValue: %d'' @ [CHR 0x0A], [101])]"
proof
  fix regs
  have free: "free_frames (vm example_unit) = {11520..<51232}"
    unfolding free_frames_def example_unit_used by (auto simp: example_unit_def)
  have a: "4096 \<le> unat (placement_address example_unit)" "0x2801 = unat (placement_address example_unit) div 4096 + 1"
    "length (handlers example_unit) = 256" "bitmap_wf BITMAP_ELEMENT_COUNT (frames_bitmap (vm example_unit))"
    by (simp_all add: example_unit_def bitmap_wf_def BITMAP_ELEMENT_COUNT_eq)
  have n: "0 < unat (10 :: u32)" "unat (10 :: u32) \<le> 640" "0x2801 + 1 + unat (10 :: u32) \<le> 2 ^ 20" by simp_all
  have u: "{0x2801..0x2801 + unat (10 :: u32)} \<subseteq> used (vm example_unit)" "4 \<le> card (free_frames (vm example_unit))"
    unfolding example_unit_used free by auto
  from paging_tests_pass [OF a(1,2) n a(3,4) u, of regs]
  show "\<exists>s' s'' msgs. paging_setup 10 example_unit = Inr s' \<and> paging_tests regs s' = Some (Inr s'') \<and>
    printed (vm s'') = msgs @ [(''PageFault?'' @ [CHR 0x0A], []), (''StoredValue: %d'' @ [CHR 0x0A], [100]),
      (''StoredValue: %d'' @ [CHR 0x0A], [101])]" by blast
qed

end
