(* ===== verification/Kernel_Paging.thy ===== *)
theory Kernel_Paging
  imports Kernel_Bounds Paging_Setup
begin

section \<open>From the boot loader to page faults\<close>

text \<open>
  The machine on which paging is turned on after \<^verbatim>\<open>main\<close>: the bitmap of frames and the placement address are
  the ones that \<^verbatim>\<open>main\<close> leaves; memory, registers, handlers and messages are arbitrary.
\<close>

definition continues :: "'d kernel \<Rightarrow> paging_unit \<Rightarrow> bool" where
  "continues k u \<longleftrightarrow> frames_bitmap (vm u) = frames k \<and> placement_address u = placement_memory_address k \<and>
     length (handlers u) = 256"

lemma continues_ready:
  assumes "continues k u" "used_frames (frames k) = {..<11520}" "length (frames k) = 1601"
    and "unat (placement_memory_address k) = 40 * 2 ^ 20" "unat n \<le> 640"
  shows "bitmap_wf BITMAP_ELEMENT_COUNT (frames_bitmap (vm u))" "{10241..10241 + unat n} \<subseteq> used (vm u)"
    "free_frames (vm u) = {11520..<51232}" "unat (placement_address u) = 40 * 2 ^ 20" "length (handlers u) = 256"
proof -
  have used: "used (vm u) = {..<11520}" using assms(1,2) by (simp add: continues_def used_def)
  have "k < 11520" if "k \<le> 10241 + unat n" for k using that assms(5) by linarith
  then show "{10241..10241 + unat n} \<subseteq> used (vm u)" unfolding used by (simp add: subset_eq)
  show "bitmap_wf BITMAP_ELEMENT_COUNT (frames_bitmap (vm u))"
    using assms(1,3) by (simp add: continues_def bitmap_wf_def BITMAP_ELEMENT_COUNT_eq)
  show "free_frames (vm u) = {11520..<51232}"
    using assms(1,3) unfolding free_frames_def used by (auto simp: continues_def)
qed (use assms(1,4) in \<open>simp_all add: continues_def\<close>)

text \<open>
  C8. The machine that \<^verbatim>\<open>main\<close> leaves can turn paging on. For a memory map like that of
  \<open>main_reserves_memory\<close>, where the placement memory is found at 40 MiB: \<^verbatim>\<open>paging_setup\<close> with up to 640 tables puts the directory and the tables into frames that \<^verbatim>\<open>main\<close> has marked, \<^verbatim>\<open>paging_tests\<close> passes, and the two
  page faults it raises are answered with two different frames, neither of them in the first 45 MiB.
\<close>

theorem main_then_paging:
  fixes k :: "'d kernel"
  assumes "magic = MULTIBOOT_BOOTLOADER_MAGIC" "info = load_multiboot_info (boot_memory env) addr"
    and "CHECK_FLAG (mbi_flags info) 6"
    and "entries_at (boot_memory env) (mmap_addr info + mmap_length info) (mmap_addr info) es"
    and "as = map entry_area (filter available es)" "areas_ok as" "length as \<le> 9"
    and "45 * 2 ^ 20 \<le> card (ranges as \<inter> {40 * 2 ^ 20..})" "kernel_shape k"
    and "init_pcilist (port_bus env) (rx_address env) (tx_address env) (cleared (hardware k)) = Some (Inr (r, pc))"
    and "0 < unat n" "unat n \<le> 640"
  shows "\<exists>k'. main env magic addr k = Some (Inr k') \<and>
    (unat (placement_memory_address k') = 40 * 2 ^ 20 \<longrightarrow>
      (\<forall>u. continues k' u \<longrightarrow> (\<exists>u1 u2 msgs k1 k2. paging_setup n u = Inr u1 \<and> paging_tests regs u1 = Some (Inr u2) \<and>
        printed (vm u2) = msgs @ [(''PageFault?'' @ [CHR 0x0A], []), (''StoredValue: %d'' @ [CHR 0x0A], [100]),
          (''StoredValue: %d'' @ [CHR 0x0A], [101])] \<and>
        translate (vm u2) 0xA0000000 = Some k1 \<and> translate (vm u2) 0xA0001000 = Some k2 \<and> k1 \<noteq> k2 \<and>
        45 * 2 ^ 20 \<le> 4096 * k1 \<and> 45 * 2 ^ 20 \<le> 4096 * k2)))"
proof -
  obtain k' where k': "main env magic addr k = Some (Inr k')" "used_frames (frames k') = {..<11520}"
    using main_result [OF assms(1-10)] by blast
  have "length (filter available es) \<le> 9" using assms(5,7) by simp
  from main_in_bounds [OF assms(9,2,4) this, of magic] k'(1)
  have "kernel_shape k'" by auto
  then have len: "length (frames k') = 1601" by (simp add: kernel_shape_def)
  {
    fix u
    assume start: "unat (placement_memory_address k') = 40 * 2 ^ 20" and u: "continues k' u"
    note ready = continues_ready [OF u k'(2) len start assms(12)]
    have a: "4096 \<le> unat (placement_address u)" "10241 = unat (placement_address u) div 4096 + 1"
      "10241 + 1 + unat n \<le> 2 ^ 20" "4 \<le> card (free_frames (vm u))"
      using ready(3,4) assms(12) by simp_all
    obtain u1 u2 msgs k1 k2 where "paging_setup n u = Inr u1" "paging_tests regs u1 = Some (Inr u2)"
      "printed (vm u2) = msgs @ [(''PageFault?'' @ [CHR 0x0A], []), (''StoredValue: %d'' @ [CHR 0x0A], [100]),
        (''StoredValue: %d'' @ [CHR 0x0A], [101])]"
      "translate (vm u2) 0xA0000000 = Some k1" "translate (vm u2) 0xA0001000 = Some k2" "k1 \<noteq> k2"
      "{k1, k2} \<subseteq> free_frames (vm u)"
      by (rule set_up_then_test [OF a(1,2) assms(11,12) a(3) ready(5,1,2) a(4), of regs])
    moreover from this have "11520 \<le> k1" "11520 \<le> k2" unfolding ready(3) by simp_all
    then have "45 * 2 ^ 20 \<le> 4096 * k1" "45 * 2 ^ 20 \<le> 4096 * k2" by simp_all
    ultimately have "\<exists>u1 u2 msgs k1 k2. paging_setup n u = Inr u1 \<and> paging_tests regs u1 = Some (Inr u2) \<and>
        printed (vm u2) = msgs @ [(''PageFault?'' @ [CHR 0x0A], []), (''StoredValue: %d'' @ [CHR 0x0A], [100]),
          (''StoredValue: %d'' @ [CHR 0x0A], [101])] \<and>
        translate (vm u2) 0xA0000000 = Some k1 \<and> translate (vm u2) 0xA0001000 = Some k2 \<and> k1 \<noteq> k2 \<and>
        45 * 2 ^ 20 \<le> 4096 * k1 \<and> 45 * 2 ^ 20 \<le> 4096 * k2" by blast
  }
  with k'(1) show ?thesis by blast
qed

text \<open>On the machine of the witnesses the placement memory is at 40 MiB.\<close>

lemma example_areas:
  "map entry_area (filter available [load_entry (boot_memory example_environment) 0x9000]) =
     [\<lparr>area_start = 0x100000, area_size = 0x7F00000\<rparr>]"
  by (simp add: load_entry_def example_environment_def available_def entry_area_def available_start_def available_size_def)

lemma example_main:
  "\<exists>k'. main example_environment MULTIBOOT_BOOTLOADER_MAGIC 0 example_kernel = Some (Inr k') \<and>
    placement_memory_address k' = 0x2800000"
proof -
  let ?m = "boot_memory example_environment"
  let ?info = "load_multiboot_info ?m 0"
  let ?hw = "cleared (hardware example_kernel)"
  obtain t where st: "start_machine example_environment example_kernel =
      Inr (example_kernel\<lparr>tables := t, areas := table [], hardware := ?hw\<rparr>)"
    using start_machine_eq [OF example_kernel_shape, of example_environment] by metis
  have "entries_at ?m (mmap_addr ?info + mmap_length ?info) (mmap_addr ?info) [load_entry ?m 0x9000]"
    by (simp add: load_multiboot_info_def load_entry_def example_environment_def)
  from memory_map_loop_eq [OF this, of "table []"]
  have walk: "process_multiboot_memory_map ?m (table []) ?info =
      Some (insert_areas (table []) [\<lparr>area_start = 0x100000, area_size = 0x7F00000\<rparr>])"
    unfolding example_areas
    by (simp add: process_multiboot_memory_map_def load_multiboot_info_def example_environment_def CHECK_FLAG_def)
  have insert: "insert_areas (table []) [\<lparr>area_start = 0x100000, area_size = 0x7F00000\<rparr>] =
      Inr (0, table [\<lparr>area_start = 0x100000, area_size = 0x7F00000\<rparr>])" by code_simp
  have cover: "allocate_area_cover (table [\<lparr>area_start = 0x100000, area_size = 0x7F00000\<rparr>]) 0 RESERVED_MEMORY_IN_BYTES =
      Inr (0, table [\<lparr>area_start = 0x2800000, area_size = 0x5800000\<rparr>])" by code_simp
  have alloc: "allocate (table [\<lparr>area_start = 0x2800000, area_size = 0x5800000\<rparr>]) PLACEMENT_MEMORY_SIZE_IN_BYTES =
      Inr (0x2800000, table [\<lparr>area_start = 0x2D00000, area_size = 0x5300000\<rparr>])" by code_simp
  let ?k = "example_kernel\<lparr>tables := t, hardware := ?hw, areas := table [\<lparr>area_start = 0x2D00000, area_size = 0x5300000\<rparr>],
    placement_memory_address := 0x2800000\<rparr>"
  obtain pc where pc: "init_pcilist (port_bus example_environment) (rx_address example_environment)
      (tx_address example_environment) (cleared (hardware example_kernel)) = Some (Inr (0, pc))"
    using example_no_card by blast
  obtain b where "set_up_frames example_environment ?k = Some (Inr (?k\<lparr>frames := b, hardware := pc\<rparr>))"
    by (rule set_up_frames_result [of ?k example_environment]) (use pc in \<open>simp_all add: example_kernel_def\<close>)
  then have "main example_environment MULTIBOOT_BOOTLOADER_MAGIC 0 example_kernel =
      Some (Inr (?k\<lparr>frames := b, hardware := pc\<rparr>))"
    using st walk insert cover alloc by (simp add: main_def set_up_memory_def)
  then show ?thesis by simp
qed

theorem main_then_paging_witness:
  "\<forall>regs. \<exists>k' u u1 u2 k1. main example_environment MULTIBOOT_BOOTLOADER_MAGIC 0 example_kernel = Some (Inr k') \<and>
    continues k' u \<and> paging_setup 10 u = Inr u1 \<and> paging_tests regs u1 = Some (Inr u2) \<and>
    translate (vm u2) 0xA0000000 = Some k1 \<and> 45 * 2 ^ 20 \<le> 4096 * k1"
proof
  fix regs
  obtain k' where k': "main example_environment MULTIBOOT_BOOTLOADER_MAGIC 0 example_kernel = Some (Inr k')"
    "placement_memory_address k' = 0x2800000"
    using example_main by blast
  define u where "u = example_unit\<lparr>vm := (vm example_unit)\<lparr>frames_bitmap := frames k'\<rparr>,
    placement_address := placement_memory_address k'\<rparr>"
  have u: "continues k' u" by (simp add: u_def continues_def example_unit_def)
  let ?m = "boot_memory example_environment"
  define info where "info = load_multiboot_info ?m 0"
  obtain pc where pc: "init_pcilist (port_bus example_environment) (rx_address example_environment)
     (tx_address example_environment) (cleared (hardware example_kernel)) = Some (Inr (0, pc))"
    using example_no_card by blast
  have info: "CHECK_FLAG (mbi_flags info) 6"
    "entries_at ?m (mmap_addr info + mmap_length info) (mmap_addr info) [load_entry ?m 0x9000]"
    by (simp_all add: info_def load_multiboot_info_def load_entry_def example_environment_def CHECK_FLAG_def)
  let ?as = "[\<lparr>area_start = 0x100000, area_size = 0x7F00000\<rparr>] :: memory_area list"
  have range: "ranges ?as = {0x100000..<0x8000000}" by (simp add: area_range_def area_end_def)
  moreover have "{0x100000..<0x8000000} \<inter> {40 * 2 ^ 20..} = {40 * 2 ^ 20..<0x8000000 :: nat}" by auto
  ultimately have card: "45 * 2 ^ 20 \<le> card (ranges ?as \<inter> {40 * 2 ^ 20..})" by simp
  have ok: "areas_ok ?as" "length ?as \<le> 9" "0 < unat (10 :: u32)" "unat (10 :: u32) \<le> 640"
    by (simp_all add: area_ok_def area_end_def)
  have "unat (placement_memory_address k') = 40 * 2 ^ 20" using k'(2) by simp
  with main_then_paging [OF refl info_def info example_areas [symmetric] ok(1,2) card example_kernel_shape pc ok(3,4), of regs] k'(1) u
  have "\<exists>u1 u2 k1. paging_setup 10 u = Inr u1 \<and> paging_tests regs u1 = Some (Inr u2) \<and>
      translate (vm u2) 0xA0000000 = Some k1 \<and> 45 * 2 ^ 20 \<le> 4096 * k1"
    by (metis option.inject sum.inject(2))
  with k'(1) u show "\<exists>k' u u1 u2 k1. main example_environment MULTIBOOT_BOOTLOADER_MAGIC 0 example_kernel = Some (Inr k') \<and>
    continues k' u \<and> paging_setup 10 u = Inr u1 \<and> paging_tests regs u1 = Some (Inr u2) \<and>
    translate (vm u2) 0xA0000000 = Some k1 \<and> 45 * 2 ^ 20 \<le> 4096 * k1"
    by blast
qed

end
