(* ===== verification/Placement_Tests.thy ===== *)
theory Placement_Tests
  imports Placement
begin

text \<open>
  The unit tests of \<^verbatim>\<open>placement_memory_test.c\<close>, run on the model. A test is the list of its calls and
  assertions; \<open>passes\<close> runs it from a state of the table. The numbers an assertion compares with are
  its first arguments, and a range for the answer of \<^verbatim>\<open>allocate\<close>.
\<close>

section \<open>Steps of a test\<close>

datatype step =
    Clear
  | Insert int u64 u64
  | Insert_any u64 u64
  | Allocate u64 u64 u64
  | Take int u64 u64
  | Cover int u64 u64
  | Index nat
  | Size nat
  | Start nat u64
  | Length nat u64

text \<open>Whether the assertion of a step holds, and the state after its call.\<close>

definition expect :: "('r \<Rightarrow> bool) \<Rightarrow> ('r \<times> placement) result \<Rightarrow> (bool \<times> placement) result" where
  "expect p answer = and_then answer (\<lambda>(r, s). Inr (p r, s))"

fun run_step :: "step \<Rightarrow> placement \<Rightarrow> (bool \<times> placement) result" where
  "run_step Clear s = and_then (clear_placement_memory_array s) (\<lambda>s'. Inr (True, s'))"
| "run_step (Insert r start n) s = expect (\<lambda>x. x = r) (insert_area s start n)"
| "run_step (Insert_any start n) s = expect (\<lambda>_. True) (insert_area s start n)"
| "run_step (Allocate n low high) s = expect (\<lambda>x. low \<le> x \<and> x \<le> high) (allocate s n)"
| "run_step (Take r start n) s = expect (\<lambda>x. x = r) (allocate_area s start n)"
| "run_step (Cover r start n) s = expect (\<lambda>x. x = r) (allocate_area_cover s start n)"
| "run_step (Index i) s = Inr (free_memory_area_index s = i, s)"
| "run_step (Size k) s = and_then (memory_areas_size s) (\<lambda>n. Inr (n = k, s))"
| "run_step (Start i v) s = and_then (rd (free_memory_areas s) i) (\<lambda>a. Inr (area_start a = v, s))"
| "run_step (Length i v) s = and_then (rd (free_memory_areas s) i) (\<lambda>a. Inr (area_size a = v, s))"

fun passes :: "placement \<Rightarrow> step list \<Rightarrow> bool" where
  "passes s [] = True"
| "passes s (x # xs) = (case run_step x s of Inl e \<Rightarrow> False | Inr (ok, s') \<Rightarrow> ok \<and> passes s' xs)"

section \<open>The tests\<close>

definition test_clear_placement_memory_array :: "step list" where
  "test_clear_placement_memory_array =
    [Clear, Size 0, Size 0]"

definition test_kalloc_none_free :: "step list" where
  "test_kalloc_none_free =
    [Clear, Allocate 100 0 0]"

definition test_kalloc_zero :: "step list" where
  "test_kalloc_zero =
    [Clear, Insert 0 0 1000, Allocate 0 0 0]"

definition test_kalloc_all_free :: "step list" where
  "test_kalloc_all_free =
    [Clear, Index 0, Size 0, Insert 0 0 1000, Index 1, Size 1, Allocate 100 0 999, Start 0 100, Length 0 900,
     Index 1, Size 1]"

definition test_kalloc_consume_all :: "step list" where
  "test_kalloc_consume_all =
    [Clear, Index 0, Size 0, Insert 0 0 1000, Index 1, Size 1, Allocate 1000 0 999, Index 0, Size 0]"

definition test_two_allocations :: "step list" where
  "test_two_allocations =
    [Clear, Index 0, Size 0, Insert 0 0 1000, Index 1, Size 1, Allocate 100 0 999, Start 0 100, Length 0 900,
     Index 1, Size 1, Allocate 100 100 999, Start 0 200, Length 0 800, Index 1, Size 1]"

definition test_kalloc_not_enough_memory :: "step list" where
  "test_kalloc_not_enough_memory =
    [Clear, Index 0, Size 0, Insert 0 0 1000, Index 1, Size 1, Start 0 0, Length 0 1000, Allocate 2000 0 0,
     Index 1, Size 1, Start 0 0, Length 0 1000]"

definition test_kalloc_too_small :: "step list" where
  "test_kalloc_too_small =
    [Clear, Index 0, Size 0, Insert_any 10 200, Index 1, Size 1, Start 0 10, Length 0 200, Allocate 100 10 199,
     Index 1, Size 1, Start 0 110, Length 0 100]"

definition test_kalloc_second_area_serves :: "step list" where
  "test_kalloc_second_area_serves =
    [Clear, Index 0, Size 0, Insert_any 10 50, Index 1, Size 1, Start 0 10, Length 0 50, Insert_any 100 100,
     Index 2, Size 2, Start 0 10, Length 0 50, Start 1 100, Length 1 100, Allocate 70 100 199, Index 2, Size 2,
     Start 0 10, Length 0 50, Start 1 170, Length 1 30]"

definition test_insert_into_empty :: "step list" where
  "test_insert_into_empty =
    [Clear, Index 0, Size 0, Insert 0 0 1000, Index 1, Size 1, Start 0 0, Length 0 1000]"

definition test_insert_area_already_used :: "step list" where
  "test_insert_area_already_used =
    [Clear, Index 0, Size 0, Insert_any 0 1000, Index 1, Size 1, Insert (- 3) 100 100, Index 1, Size 1]"

definition test_insert_area_already_used_successor_collision :: "step list" where
  "test_insert_area_already_used_successor_collision =
    [Clear, Index 0, Size 0, Insert_any 100 100, Index 1, Size 1, Insert (- 4) 50 100, Index 1, Size 1]"

definition test_insert_area_already_used_last_collision :: "step list" where
  "test_insert_area_already_used_last_collision =
    [Clear, Index 0, Size 0, Insert_any 0 100, Index 1, Size 1, Insert (- 3) 50 100, Index 1, Size 1]"

definition test_insert_area_already_used_predecessor_collision :: "step list" where
  "test_insert_area_already_used_predecessor_collision =
    [Clear, Index 0, Size 0, Insert 0 0 100, Index 1, Size 1, Insert 0 200 100, Index 2, Size 2,
     Insert (- 4) 150 100, Index 2, Size 2]"

definition test_insert_merge_successor :: "step list" where
  "test_insert_merge_successor =
    [Clear, Index 0, Size 0, Insert 0 0 100, Index 1, Size 1, Insert 0 100 100, Index 1, Size 1]"

definition test_insert_merge_predecessor :: "step list" where
  "test_insert_merge_predecessor =
    [Clear, Index 0, Size 0, Insert 0 100 100, Index 1, Size 1, Insert 0 0 100, Index 1, Size 1]"

definition test_insert_merge_both_sides :: "step list" where
  "test_insert_merge_both_sides =
    [Clear, Index 0, Size 0, Insert 0 0 100, Index 1, Size 1, Insert 0 200 100, Index 2, Size 2,
     Insert 0 100 100, Index 1, Size 1]"

definition test_allocate_area_no_free_areas :: "step list" where
  "test_allocate_area_no_free_areas =
    [Clear, Index 0, Size 0, Take (- 1) 100 100]"

definition test_allocate_area_size_zero :: "step list" where
  "test_allocate_area_size_zero =
    [Clear, Index 0, Size 0, Insert 0 0 100, Index 1, Size 1, Take (- 2) 100 0]"

definition test_allocate_area_no_overlap_with_free_area :: "step list" where
  "test_allocate_area_no_overlap_with_free_area =
    [Clear, Index 0, Size 0, Insert 0 0 100, Insert 0 200 100, Index 2, Size 2, Take (- 3) 500 100]"

definition test_allocate_area_overlaps_with_start_free_area :: "step list" where
  "test_allocate_area_overlaps_with_start_free_area =
    [Clear, Index 0, Size 0, Insert 0 0 100, Insert 0 200 100, Index 2, Size 2, Take 0 200 20, Index 2, Size 2,
     Start 0 0, Length 0 100, Start 1 220, Length 1 80]"

definition test_allocate_area_overlaps_with_end_free_area :: "step list" where
  "test_allocate_area_overlaps_with_end_free_area =
    [Clear, Index 0, Size 0, Insert 0 0 100, Insert 0 200 100, Index 2, Size 2, Take 0 280 20, Index 2, Size 2,
     Start 0 0, Length 0 100, Start 1 200, Length 1 80]"

definition test_allocate_area_completely_overlaps_free_area :: "step list" where
  "test_allocate_area_completely_overlaps_free_area =
    [Clear, Index 0, Size 0, Insert 0 0 100, Insert 0 200 100, Index 2, Size 2, Take 0 0 100, Index 1, Size 1,
     Start 0 200, Length 0 100]"

definition test_allocate_area_split_free_area_no_space_left :: "step list" where
  "test_allocate_area_split_free_area_no_space_left =
    [Clear, Index 0, Size 0, Insert 0 0 100, Index 1, Insert 0 1000 10, Index 2, Insert 0 2000 10, Index 3,
     Insert 0 3000 10, Index 4, Insert 0 4000 10, Index 5, Insert 0 5000 10, Index 6, Insert 0 6000 10,
     Index 7, Insert 0 7000 10, Index 8, Insert 0 8000 10, Index 9, Insert 0 9000 10, Index 10,
     Insert (- 1) 10000 10, Index 10, Size 10, Take (- 4) 50 10]"

definition test_allocate_area_split_free_area_space_left :: "step list" where
  "test_allocate_area_split_free_area_space_left =
    [Clear, Index 0, Size 0, Insert 0 0 100, Index 1, Insert 0 1000 10, Index 2, Insert 0 2000 10, Index 3,
     Insert 0 3000 10, Index 4, Insert 0 4000 10, Index 5, Insert 0 5000 10, Index 6, Insert 0 6000 10,
     Index 7, Insert 0 7000 10, Index 8, Insert 0 8000 10, Index 9, Take 0 50 10, Index 10, Size 10, Start 0 0,
     Length 0 50, Start 1 60, Length 1 40, Start 2 1000, Length 2 10]"

definition test_allocate_area_split_free_area :: "step list" where
  "test_allocate_area_split_free_area =
    [Clear, Index 0, Size 0, Insert 0 0 100, Insert 0 200 100, Index 2, Size 2, Take (- 3) 500 100]"

definition test_random_data :: "step list" where
  "test_random_data =
    [Clear, Index 0, Size 0, Insert 0 1048576 134086655, Take 0 1073152 38]"

definition test_allocate_area_cover_no_free_area :: "step list" where
  "test_allocate_area_cover_no_free_area =
    [Clear, Index 0, Size 0, Cover 0 0 1000, Index 0, Size 0]"

definition test_allocate_area_cover_no_intersection_withs_free_area :: "step list" where
  "test_allocate_area_cover_no_intersection_withs_free_area =
    [Clear, Index 0, Size 0, Insert 0 200 100, Index 1, Size 1, Cover 0 0 100, Index 1, Size 1, Start 0 200,
     Length 0 100]"

definition test_allocate_area_cover_aligns_at_start :: "step list" where
  "test_allocate_area_cover_aligns_at_start =
    [Clear, Index 0, Size 0, Insert 0 100 100, Cover 0 100 50, Index 1, Size 1, Start 0 150, Length 0 50]"

definition test_allocate_area_cover_before_start :: "step list" where
  "test_allocate_area_cover_before_start =
    [Clear, Index 0, Size 0, Insert 0 100 100, Cover 0 50 100, Index 1, Size 1, Start 0 150, Length 0 50]"

definition test_allocate_area_cover_aligns_at_end :: "step list" where
  "test_allocate_area_cover_aligns_at_end =
    [Clear, Index 0, Size 0, Insert 0 100 100, Index 1, Size 1, Cover 0 150 50, Index 1, Size 1, Start 0 100,
     Length 0 50]"

definition test_allocate_area_cover_aligns_after_end :: "step list" where
  "test_allocate_area_cover_aligns_after_end =
    [Clear, Index 0, Size 0, Insert 0 100 100, Cover 0 150 100, Index 1, Size 1, Start 0 100, Length 0 50]"

definition test_allocate_area_cover_start_and_end :: "step list" where
  "test_allocate_area_cover_start_and_end =
    [Clear, Index 0, Size 0, Insert 0 100 100, Insert 0 400 100, Index 2, Size 2, Cover 0 150 300, Index 2,
     Size 2, Start 0 100, Length 0 50, Start 1 450, Length 1 50]"

definition test_allocate_area_cover_complete_coverage :: "step list" where
  "test_allocate_area_cover_complete_coverage =
    [Clear, Index 0, Size 0, Insert 0 100 100, Insert 0 300 100, Insert 0 500 100, Insert 0 700 100, Index 4,
     Size 4, Cover 0 0 650, Index 1, Size 1, Start 0 700, Length 0 100]"

definition test_allocate_area_cover_over_end :: "step list" where
  "test_allocate_area_cover_over_end =
    [Clear, Index 0, Size 0, Insert 0 100 100, Insert 0 400 100, Index 2, Size 2, Cover 0 150 1000, Index 1,
     Size 1, Start 0 100, Length 0 50]"

definition test_allocate_area_cover_over_start :: "step list" where
  "test_allocate_area_cover_over_start =
    [Clear, Index 0, Size 0, Insert 0 100 100, Insert 0 400 100, Index 2, Size 2, Cover 0 0 450, Index 1,
     Size 1, Start 0 450, Length 0 50]"

definition test_allocate_area_cover_split :: "step list" where
  "test_allocate_area_cover_split =
    [Clear, Index 0, Size 0, Insert 0 0 100, Index 1, Size 1, Cover 0 50 10, Index 2, Size 2, Start 0 0,
     Length 0 50, Start 1 60, Length 1 40]"

definition placement_tests :: "step list list" where
  "placement_tests =
    [test_clear_placement_memory_array, test_kalloc_none_free, test_kalloc_zero, test_kalloc_all_free,
      test_kalloc_consume_all, test_two_allocations, test_kalloc_not_enough_memory, test_kalloc_too_small,
      test_kalloc_second_area_serves, test_insert_into_empty, test_insert_area_already_used,
      test_insert_area_already_used_successor_collision, test_insert_area_already_used_predecessor_collision,
      test_insert_area_already_used_last_collision, test_insert_merge_successor, test_insert_merge_predecessor,
      test_insert_merge_both_sides, test_allocate_area_no_free_areas, test_allocate_area_size_zero,
      test_allocate_area_no_overlap_with_free_area, test_allocate_area_overlaps_with_start_free_area,
      test_allocate_area_overlaps_with_end_free_area, test_allocate_area_completely_overlaps_free_area,
      test_allocate_area_split_free_area_no_space_left, test_allocate_area_split_free_area_space_left,
      test_random_data, test_allocate_area_cover_no_free_area,
      test_allocate_area_cover_no_intersection_withs_free_area, test_allocate_area_cover_aligns_at_start,
      test_allocate_area_cover_before_start, test_allocate_area_cover_aligns_at_end,
      test_allocate_area_cover_aligns_after_end, test_allocate_area_cover_start_and_end,
      test_allocate_area_cover_complete_coverage, test_allocate_area_cover_over_end,
      test_allocate_area_cover_over_start, test_allocate_area_cover_split, test_allocate_area_split_free_area]"

section \<open>They pass\<close>

text \<open>Every test begins by clearing the table, so the state before it does not matter.\<close>

lemma passes_from_any:
  assumes "length (free_memory_areas s) = 10" "passes (table []) t" "t \<noteq> []" "hd t = Clear"
  shows "passes s t"
proof -
  obtain xs where t: "t = Clear # xs" using assms(3,4) by (cases t) auto
  have "length (free_memory_areas (table [])) = 10" by simp
  then show ?thesis using assms(2) clear_table [OF assms(1)] clear_table [of "table []"] unfolding t by simp
qed

lemma pass_clear_placement_memory_array: "passes (table []) test_clear_placement_memory_array"
  by code_simp

lemma pass_kalloc_none_free: "passes (table []) test_kalloc_none_free"
  by code_simp

lemma pass_kalloc_zero: "passes (table []) test_kalloc_zero"
  by code_simp

lemma pass_kalloc_all_free: "passes (table []) test_kalloc_all_free"
  by code_simp

lemma pass_kalloc_consume_all: "passes (table []) test_kalloc_consume_all"
  by code_simp

lemma pass_two_allocations: "passes (table []) test_two_allocations"
  by code_simp

lemma pass_kalloc_not_enough_memory: "passes (table []) test_kalloc_not_enough_memory"
  by code_simp

lemma pass_kalloc_too_small: "passes (table []) test_kalloc_too_small"
  by code_simp

lemma pass_kalloc_second_area_serves: "passes (table []) test_kalloc_second_area_serves"
  by code_simp

lemma pass_insert_into_empty: "passes (table []) test_insert_into_empty"
  by code_simp

lemma pass_insert_area_already_used: "passes (table []) test_insert_area_already_used"
  by code_simp

lemma pass_insert_area_already_used_successor_collision: "passes (table []) test_insert_area_already_used_successor_collision"
  by code_simp

lemma pass_insert_area_already_used_predecessor_collision: "passes (table []) test_insert_area_already_used_predecessor_collision"
  by code_simp

lemma pass_insert_area_already_used_last_collision: "passes (table []) test_insert_area_already_used_last_collision"
  by code_simp

lemma pass_insert_merge_successor: "passes (table []) test_insert_merge_successor"
  by code_simp

lemma pass_insert_merge_predecessor: "passes (table []) test_insert_merge_predecessor"
  by code_simp

lemma pass_insert_merge_both_sides: "passes (table []) test_insert_merge_both_sides"
  by code_simp

lemma pass_allocate_area_no_free_areas: "passes (table []) test_allocate_area_no_free_areas"
  by code_simp

lemma pass_allocate_area_size_zero: "passes (table []) test_allocate_area_size_zero"
  by code_simp

lemma pass_allocate_area_no_overlap_with_free_area: "passes (table []) test_allocate_area_no_overlap_with_free_area"
  by code_simp

lemma pass_allocate_area_overlaps_with_start_free_area: "passes (table []) test_allocate_area_overlaps_with_start_free_area"
  by code_simp

lemma pass_allocate_area_overlaps_with_end_free_area: "passes (table []) test_allocate_area_overlaps_with_end_free_area"
  by code_simp

lemma pass_allocate_area_completely_overlaps_free_area: "passes (table []) test_allocate_area_completely_overlaps_free_area"
  by code_simp

lemma pass_allocate_area_split_free_area_no_space_left: "passes (table []) test_allocate_area_split_free_area_no_space_left"
  by code_simp

lemma pass_allocate_area_split_free_area_space_left: "passes (table []) test_allocate_area_split_free_area_space_left"
  by code_simp

lemma pass_random_data: "passes (table []) test_random_data"
  by code_simp

lemma pass_allocate_area_cover_no_free_area: "passes (table []) test_allocate_area_cover_no_free_area"
  by code_simp

lemma pass_allocate_area_cover_no_intersection_withs_free_area: "passes (table []) test_allocate_area_cover_no_intersection_withs_free_area"
  by code_simp

lemma pass_allocate_area_cover_aligns_at_start: "passes (table []) test_allocate_area_cover_aligns_at_start"
  by code_simp

lemma pass_allocate_area_cover_before_start: "passes (table []) test_allocate_area_cover_before_start"
  by code_simp

lemma pass_allocate_area_cover_aligns_at_end: "passes (table []) test_allocate_area_cover_aligns_at_end"
  by code_simp

lemma pass_allocate_area_cover_aligns_after_end: "passes (table []) test_allocate_area_cover_aligns_after_end"
  by code_simp

lemma pass_allocate_area_cover_start_and_end: "passes (table []) test_allocate_area_cover_start_and_end"
  by code_simp

lemma pass_allocate_area_cover_complete_coverage: "passes (table []) test_allocate_area_cover_complete_coverage"
  by code_simp

lemma pass_allocate_area_cover_over_end: "passes (table []) test_allocate_area_cover_over_end"
  by code_simp

lemma pass_allocate_area_cover_over_start: "passes (table []) test_allocate_area_cover_over_start"
  by code_simp

lemma pass_allocate_area_cover_split: "passes (table []) test_allocate_area_cover_split"
  by code_simp

lemma pass_allocate_area_split_free_area: "passes (table []) test_allocate_area_split_free_area"
  by code_simp

lemmas tests_pass =
  pass_clear_placement_memory_array pass_kalloc_none_free pass_kalloc_zero pass_kalloc_all_free
  pass_kalloc_consume_all pass_two_allocations pass_kalloc_not_enough_memory pass_kalloc_too_small
  pass_kalloc_second_area_serves pass_insert_into_empty pass_insert_area_already_used
  pass_insert_area_already_used_successor_collision pass_insert_area_already_used_predecessor_collision
  pass_insert_area_already_used_last_collision pass_insert_merge_successor pass_insert_merge_predecessor
  pass_insert_merge_both_sides pass_allocate_area_no_free_areas pass_allocate_area_size_zero
  pass_allocate_area_no_overlap_with_free_area pass_allocate_area_overlaps_with_start_free_area
  pass_allocate_area_overlaps_with_end_free_area pass_allocate_area_completely_overlaps_free_area
  pass_allocate_area_split_free_area_no_space_left pass_allocate_area_split_free_area_space_left
  pass_random_data pass_allocate_area_cover_no_free_area
  pass_allocate_area_cover_no_intersection_withs_free_area pass_allocate_area_cover_aligns_at_start
  pass_allocate_area_cover_before_start pass_allocate_area_cover_aligns_at_end
  pass_allocate_area_cover_aligns_after_end pass_allocate_area_cover_start_and_end
  pass_allocate_area_cover_complete_coverage pass_allocate_area_cover_over_end
  pass_allocate_area_cover_over_start pass_allocate_area_cover_split pass_allocate_area_split_free_area

lemmas test_defs =
  test_clear_placement_memory_array_def test_kalloc_none_free_def test_kalloc_zero_def
  test_kalloc_all_free_def test_kalloc_consume_all_def test_two_allocations_def
  test_kalloc_not_enough_memory_def test_kalloc_too_small_def test_kalloc_second_area_serves_def
  test_insert_into_empty_def test_insert_area_already_used_def
  test_insert_area_already_used_successor_collision_def
  test_insert_area_already_used_predecessor_collision_def test_insert_area_already_used_last_collision_def
  test_insert_merge_successor_def test_insert_merge_predecessor_def test_insert_merge_both_sides_def
  test_allocate_area_no_free_areas_def test_allocate_area_size_zero_def
  test_allocate_area_no_overlap_with_free_area_def test_allocate_area_overlaps_with_start_free_area_def
  test_allocate_area_overlaps_with_end_free_area_def test_allocate_area_completely_overlaps_free_area_def
  test_allocate_area_split_free_area_no_space_left_def test_allocate_area_split_free_area_space_left_def
  test_random_data_def test_allocate_area_cover_no_free_area_def
  test_allocate_area_cover_no_intersection_withs_free_area_def test_allocate_area_cover_aligns_at_start_def
  test_allocate_area_cover_before_start_def test_allocate_area_cover_aligns_at_end_def
  test_allocate_area_cover_aligns_after_end_def test_allocate_area_cover_start_and_end_def
  test_allocate_area_cover_complete_coverage_def test_allocate_area_cover_over_end_def
  test_allocate_area_cover_over_start_def test_allocate_area_cover_split_def
  test_allocate_area_split_free_area_def

definition test_contains_A :: bool where
  "test_contains_A \<longleftrightarrow>
    completely_contains \<lparr>area_start = 0, area_size = 100\<rparr> \<lparr>area_start = 10, area_size = 2\<rparr>"

definition test_contains_B :: bool where
  "test_contains_B \<longleftrightarrow>
    \<not> completely_contains \<lparr>area_start = 100, area_size = 100\<rparr> \<lparr>area_start = 50, area_size = 100\<rparr>"

definition test_contains_itself :: bool where
  "test_contains_itself \<longleftrightarrow>
    completely_contains \<lparr>area_start = 0, area_size = 100\<rparr> \<lparr>area_start = 0, area_size = 100\<rparr>"

definition test_overlapp :: bool where
  "test_overlapp \<longleftrightarrow> overlapp \<lparr>area_start = 100, area_size = 100\<rparr> \<lparr>area_start = 100, area_size = 100\<rparr>"

section \<open>Properties\<close>

text \<open>
  All unit tests of the table of free memory areas pass on the model, one after the other in any
  order: from every state of the ten slots each of them runs without a fault and all its assertions
  hold. The tests are those that the test program runs and the one that it leaves out of its list.
\<close>

theorem placement_unit_tests_pass:
  assumes "length (free_memory_areas s) = 10"
  shows "list_all (passes s) placement_tests \<and>
    test_contains_A \<and> test_contains_B \<and> test_contains_itself \<and> test_overlapp"
proof
  have "list_all (passes (table [])) placement_tests"
    unfolding placement_tests_def by (simp only: list.pred_inject tests_pass simp_thms)
  moreover have "list_all (\<lambda>t. t \<noteq> [] \<and> hd t = Clear) placement_tests"
    unfolding placement_tests_def by (simp only: list.pred_inject test_defs list.sel list.simps simp_thms)
  ultimately show "list_all (passes s) placement_tests"
    unfolding list_all_iff using passes_from_any [OF assms] by blast
  show "test_contains_A \<and> test_contains_B \<and> test_contains_itself \<and> test_overlapp"
    by (simp add: test_contains_A_def test_contains_B_def test_contains_itself_def test_overlapp_def
        completely_contains_def overlapp_def)
qed

theorem placement_unit_tests_pass_witness:
  "list_all (passes (table [\<lparr>area_start = 8, area_size = 8\<rparr>])) placement_tests"
  using placement_unit_tests_pass [of "table [\<lparr>area_start = 8, area_size = 8\<rparr>]"] by simp

end
