(* ===== verification/Assertions.thy ===== *)
theory Assertions
  imports Prelude
begin

text \<open>
  The assertions of the unit tests. A test ends with \<open>Inr True\<close> when all its assertions hold and with
  \<open>Inr False\<close> at the first one that fails; \<open>Inl\<close> is a fault of the code under test.
\<close>

definition and_also :: "bool result \<Rightarrow> bool result \<Rightarrow> bool result" where
  "and_also a b = and_then a (\<lambda>ok. if ok then b else Inr False)"

lemma and_also_simps [simp]:
  "and_also (Inl e) b = Inl e" "and_also (Inr False) b = Inr False" "and_also (Inr True) b = b"
  by (simp_all add: and_also_def)

text \<open>\<^verbatim>\<open>assert_int_equal(expected, xs[i])\<close>.\<close>

definition assert_element :: "'a \<Rightarrow> 'a list \<Rightarrow> nat \<Rightarrow> bool result" where
  "assert_element expected xs i = and_then (rd xs i) (\<lambda>x. Inr (x = expected))"

lemma assert_element_eq [simp]: "i < length xs \<Longrightarrow> assert_element expected xs i = Inr (xs ! i = expected)"
  by (simp add: assert_element_def)

text \<open>An assertion in a loop \<^verbatim>\<open>for (int i = first; i < n; i++)\<close>.\<close>

function assert_loop :: "(nat \<Rightarrow> bool result) \<Rightarrow> nat \<Rightarrow> nat \<Rightarrow> bool result" where
  "assert_loop assertion i n =
     (if i < n then and_also (assertion i) (assert_loop assertion (Suc i) n) else Inr True)"
  by pat_completeness auto
termination by (relation "measure (\<lambda>(assertion, i, n). n - i)") auto

declare assert_loop.simps [simp del]

lemma assert_loop_decides:
  assumes "\<And>k. i \<le> k \<Longrightarrow> k < n \<Longrightarrow> assertion k = Inr (holds k)"
  shows "assert_loop assertion i n = Inr (\<forall>k. i \<le> k \<and> k < n \<longrightarrow> holds k)"
  using assms
proof (induction assertion i n rule: assert_loop.induct)
  case (1 assertion i n)
  show ?case
  proof (cases "i < n")
    case True
    have "assert_loop assertion (Suc i) n = Inr (\<forall>k. Suc i \<le> k \<and> k < n \<longrightarrow> holds k)"
      using True by (intro 1) simp_all
    moreover have "(\<forall>k. i \<le> k \<and> k < n \<longrightarrow> holds k) \<longleftrightarrow> holds i \<and> (\<forall>k. Suc i \<le> k \<and> k < n \<longrightarrow> holds k)"
      using True by (metis Suc_leD Suc_leI le_neq_implies_less order_refl)
    ultimately show ?thesis
      using True 1(2) [of i] by (cases "holds i") (simp_all add: assert_loop.simps [of assertion i n])
  qed (auto simp: assert_loop.simps)
qed

lemma assert_loop_elements:
  assumes "length xs = n"
  shows "assert_loop (\<lambda>i. assert_element (expected i) xs i) 0 n = Inr (xs = map expected [0..<n])"
proof -
  have "assert_loop (\<lambda>i. assert_element (expected i) xs i) 0 n =
      Inr (\<forall>k. 0 \<le> k \<and> k < n \<longrightarrow> xs ! k = expected k)"
    using assms by (intro assert_loop_decides) simp
  moreover have "(\<forall>k. 0 \<le> k \<and> k < n \<longrightarrow> xs ! k = expected k) \<longleftrightarrow> xs = map expected [0..<n]"
    using assms by (auto simp: list_eq_iff_nth_eq)
  ultimately show ?thesis by simp
qed

end
