(* ===== verification/Bitmap_Tests.thy ===== *)
theory Bitmap_Tests
  imports Bitmap Assertions
begin

text \<open>
  The unit tests of \<^verbatim>\<open>bitmap_test.c\<close>, run on the model. A test is the list of its calls and assertions;
  \<open>run_bitmap_test\<close> runs it from a content of the global array. A call without an assertion ignores the
  result; an index that is out of the range of \<^verbatim>\<open>unsigned int\<close> is converted to it.
\<close>

section \<open>Steps of a test\<close>

datatype bitmap_step =
    Reset_bitmap
  | Empty_bitmap
  | Element_is nat u32
  | Fill_element nat u32
  | Set_frame u32 u32
  | Set_answers int u32 u32
  | Get_answers int u32
  | Gets_answer int nat nat
  | Use_frames u32
  | Use_answers int u32
  | Next_free_is int

definition expecting :: "int \<Rightarrow> (int \<times> u32 list) result \<Rightarrow> (bool \<times> u32 list) result" where
  "expecting r answer = and_then answer (\<lambda>(x, bitmap). Inr (x = r, bitmap))"

fun run_bitmap_step :: "bitmap_step \<Rightarrow> u32 list \<Rightarrow> (bool \<times> u32 list) result" where
  "run_bitmap_step Reset_bitmap b = and_then (reset_bitmap b BITMAP_ELEMENT_COUNT) (\<lambda>b'. Inr (True, b'))"
| "run_bitmap_step Empty_bitmap b =
     and_then (assert_loop (\<lambda>i. assert_element 0 b i) 0 (unat BITMAP_ELEMENT_COUNT)) (\<lambda>ok. Inr (ok, b))"
| "run_bitmap_step (Element_is i w) b = and_then (assert_element w b i) (\<lambda>ok. Inr (ok, b))"
| "run_bitmap_step (Fill_element i w) b = and_then (wr b i w) (\<lambda>b'. Inr (True, b'))"
| "run_bitmap_step (Set_frame k v) b = and_then (bitmap_set b BITMAP_ELEMENT_COUNT k v) (\<lambda>(_, b'). Inr (True, b'))"
| "run_bitmap_step (Set_answers r k v) b = expecting r (bitmap_set b BITMAP_ELEMENT_COUNT k v)"
| "run_bitmap_step (Get_answers r k) b = and_then (bitmap_get b BITMAP_ELEMENT_COUNT k) (\<lambda>x. Inr (x = r, b))"
| "run_bitmap_step (Gets_answer r i n) b =
     and_then (assert_loop (\<lambda>i. and_then (bitmap_get b BITMAP_ELEMENT_COUNT (of_nat i)) (\<lambda>x. Inr (x = r))) i n)
       (\<lambda>ok. Inr (ok, b))"
| "run_bitmap_step (Use_frames n) b =
     and_then (use_frames_in_bytes b BITMAP_ELEMENT_COUNT n) (\<lambda>(_, b'). Inr (True, b'))"
| "run_bitmap_step (Use_answers r n) b = expecting r (use_frames_in_bytes b BITMAP_ELEMENT_COUNT n)"
| "run_bitmap_step (Next_free_is r) b =
     and_then (next_free_frame_index b BITMAP_ELEMENT_COUNT) (\<lambda>x. Inr (x = r, b))"

fun run_bitmap_test :: "u32 list \<Rightarrow> bitmap_step list \<Rightarrow> bool result" where
  "run_bitmap_test b [] = Inr True"
| "run_bitmap_test b (x # xs) =
     and_then (run_bitmap_step x b) (\<lambda>(ok, b'). if ok then run_bitmap_test b' xs else Inr False)"

section \<open>The tests\<close>

definition test_array_size :: bool where
  "test_array_size \<longleftrightarrow> BITMAP_ELEMENT_COUNT = 1601"

text \<open>
  \<^verbatim>\<open>BITMAP_ELEMENT_COUNT * 32\<close>: the macro has no parentheses, so only its last summand is multiplied.
\<close>

definition total_frames :: nat where
  "total_frames = unat (FRAME_AMOUNT div 32 + 1 * 32)"

definition test_reset_bitmap :: "bitmap_step list" where
  "test_reset_bitmap = [Reset_bitmap, Empty_bitmap]"

definition test_set_bitmap :: "bitmap_step list" where
  "test_set_bitmap =
    [Reset_bitmap, Empty_bitmap, Set_answers 0 0 1, Element_is 0 2147483648, Set_answers 0 1 1,
     Element_is 0 3221225472, Set_answers 0 16 1, Element_is 0 3221258240, Set_answers 0 0 0,
     Element_is 0 1073774592, Set_answers 0 32 1, Element_is 1 2147483648, Set_answers (- 1) 7766554433 1]"

definition test_get_bitmap :: "bitmap_step list" where
  "test_get_bitmap =
    [Reset_bitmap, Empty_bitmap, Get_answers 0 0, Set_answers 0 0 1, Element_is 0 2147483648, Get_answers 1 0]"

definition test_use_frames_in_bytes :: "bitmap_step list" where
  "test_use_frames_in_bytes =
    (let megabytes = 15; frames = unat (megabytes * 1024 * 1024 div (1024 * 4)) in
     [Reset_bitmap, Empty_bitmap, Gets_answer 0 0 total_frames, Use_answers 0 (megabytes * 1024 * 1024),
      Gets_answer 1 0 frames, Gets_answer 0 frames total_frames])"

definition test_next_free_frame :: "bitmap_step list" where
  "test_next_free_frame =
    [Reset_bitmap, Empty_bitmap, Gets_answer 0 0 total_frames, Next_free_is 0, Set_frame 0 1, Get_answers 1 0,
     Next_free_is 1, Set_frame 1 1, Set_frame 2 1, Set_frame 3 1, Set_frame 4 1, Set_frame 5 1, Next_free_is 6,
     Fill_element 0 0xFFFFFFFF, Next_free_is 32, Fill_element 1 0xFFFFFFFF, Next_free_is 64,
     Fill_element 2 0xFFFFFFFF, Next_free_is 96]"

definition test_use_frames_in_bytes_2 :: "bitmap_step list" where
  "test_use_frames_in_bytes_2 =
    [Reset_bitmap, Empty_bitmap, Gets_answer 0 0 total_frames, Use_frames 0x1000, Get_answers 1 0, Get_answers 0 1,
     Next_free_is 1, Use_frames 0x2000, Get_answers 1 0, Get_answers 1 1, Get_answers 0 2, Next_free_is 2,
     Use_frames (0x1000 * 12), Get_answers 1 0, Get_answers 1 1, Get_answers 1 2, Get_answers 1 3, Get_answers 1 4,
     Get_answers 1 5, Get_answers 1 6, Get_answers 1 7, Get_answers 1 8, Get_answers 1 9, Get_answers 1 10,
     Get_answers 1 11, Next_free_is 12]"

definition bitmap_tests :: "bitmap_step list list" where
  "bitmap_tests =
    [test_reset_bitmap, test_set_bitmap, test_get_bitmap, test_use_frames_in_bytes, test_next_free_frame,
     test_use_frames_in_bytes_2]"

section \<open>The steps on the set of used frames\<close>

text \<open>The test passes from every content of the array with these frames in use.\<close>

definition passes_with :: "nat set \<Rightarrow> bitmap_step list \<Rightarrow> bool" where
  "passes_with u xs \<longleftrightarrow> (\<forall>b. length b = 1601 \<and> used_frames b = u \<longrightarrow> run_bitmap_test b xs = Inr True)"

lemma passes_withI:
  "(\<And>b. length b = 1601 \<Longrightarrow> used_frames b = u \<Longrightarrow> run_bitmap_test b xs = Inr True) \<Longrightarrow> passes_with u xs"
  by (simp add: passes_with_def)

lemma passes_withD: "passes_with u xs \<Longrightarrow> length b = 1601 \<Longrightarrow> used_frames b = u \<Longrightarrow> run_bitmap_test b xs = Inr True"
  by (simp add: passes_with_def)

lemma unat_element_count: "unat BITMAP_ELEMENT_COUNT = 1601"
  by (simp add: BITMAP_ELEMENT_COUNT_eq)

lemma total_frames_eq: "total_frames = 1632"
  by (simp add: total_frames_def FRAME_AMOUNT_def BITMAP_SIZE_FOR_MB_def)

text \<open>
  The range of frames that \<^verbatim>\<open>test_use_frames_in_bytes\<close> checks for 0 after the reserved ones is empty.
\<close>

lemma rest_of_frames_unchecked: "total_frames \<le> unat (15 * 1024 * 1024 div (1024 * 4) :: u32)"
  by (simp add: total_frames_eq)

lemma in_used_frames: "length b = 1601 \<Longrightarrow> k < 51232 \<Longrightarrow> k \<in> used_frames b \<longleftrightarrow> frame_used b k"
  by (simp add: used_frames_def)

lemma element_from_frames:
  assumes "length b = 1601" "i < 1601" "\<And>j. j < 32 \<Longrightarrow> bit w (31 - j) \<longleftrightarrow> 32 * i + j \<in> used_frames b"
  shows "b ! i = w"
proof (rule bit_word_eqI)
  fix n :: nat
  assume "n < LENGTH(32)"
  then have n: "31 - n < 32" "31 - (31 - n) = n" by simp_all
  have "32 * i + (31 - n) < 51232" using n assms(2) by linarith
  from in_used_frames [OF assms(1) this] assms(3) [OF n(1)] show "bit (b ! i) n \<longleftrightarrow> bit w n"
    unfolding n(2) frame_used_in_element [OF n(1)] by simp
qed

lemma pass_end: "passes_with u []"
  by (simp add: passes_with_def)

lemma pass_reset: "length b = 1601 \<Longrightarrow> passes_with {} xs \<Longrightarrow> run_bitmap_test b (Reset_bitmap # xs) = Inr True"
  by (simp add: reset_bitmap_def unat_element_count reset_loop_eq passes_with_def used_frames_def frame_used_replicate_0)

lemma pass_empty:
  assumes "passes_with {} xs"
  shows "passes_with {} (Empty_bitmap # xs)"
proof (rule passes_withI)
  fix b
  assume b: "length b = 1601" "used_frames b = {}"
  then have "b ! k = 0" if "k < 1601" for k using that by (intro element_from_frames) simp_all
  then have "assert_loop (\<lambda>i. assert_element 0 b i) 0 1601 = Inr True"
    using b(1) by (subst assert_loop_decides) auto
  then show "run_bitmap_test b (Empty_bitmap # xs) = Inr True"
    using assms b by (simp add: unat_element_count passes_with_def)
qed

lemma pass_element:
  assumes "i < 1601" "\<And>j. j < 32 \<Longrightarrow> bit w (31 - j) \<longleftrightarrow> 32 * i + j \<in> u" "passes_with u xs"
  shows "passes_with u (Element_is i w # xs)"
proof (rule passes_withI)
  fix b
  assume b: "length b = 1601" "used_frames b = u"
  then have "b ! i = w" using assms(1,2) by (intro element_from_frames) simp_all
  then show "run_bitmap_test b (Element_is i w # xs) = Inr True" using assms(1,3) b by (simp add: passes_with_def)
qed

lemma pass_fill:
  assumes "i < 1601" "passes_with (u \<union> {32 * i..<32 * i + 32}) xs"
  shows "passes_with u (Fill_element i 0xFFFFFFFF # xs)"
proof (rule passes_withI)
  fix b
  assume b: "length b = 1601" "used_frames b = u"
  have "frame_used (b[i := 0xFFFFFFFF]) k \<longleftrightarrow> k div 32 = i \<or> frame_used b k" for k
  proof (cases "k div 32 = i")
    case True
    have "(0xFFFFFFFF :: u32) = - 1" by simp
    then have "bit (0xFFFFFFFF :: u32) (31 - k mod 32)" by (simp only: bit_minus_1_iff possible_bit_word) simp
    with True show ?thesis using b(1) assms(1) by (simp add: frame_used_def)
  qed (use b(1) in \<open>simp add: frame_used_def\<close>)
  moreover have "k div 32 = i \<longleftrightarrow> 32 * i \<le> k \<and> k < 32 * i + 32" for k by linarith
  ultimately have "frame_used (b[i := 0xFFFFFFFF]) k \<longleftrightarrow> 32 * i \<le> k \<and> k < 32 * i + 32 \<or> frame_used b k" for k
    by (simp only:)
  note frames = this
  have "used_frames (b[i := 0xFFFFFFFF]) = u \<union> {32 * i..<32 * i + 32}"
  proof (rule set_eqI)
    fix k
    have "k < 32 * i + 32 \<Longrightarrow> k < 32 * 1601" using assms(1) by linarith
    then show "k \<in> used_frames (b[i := 0xFFFFFFFF]) \<longleftrightarrow> k \<in> u \<union> {32 * i..<32 * i + 32}"
      unfolding b(2) [symmetric] used_frames_def mem_Collect_eq Un_iff atLeastLessThan_iff length_list_update b(1) frames
      by blast
  qed
  then show "run_bitmap_test b (Fill_element i 0xFFFFFFFF # xs) = Inr True"
    using assms b by (simp add: passes_with_def)
qed

lemma pass_set:
  assumes "unat k < 51232" "passes_with (if v \<noteq> 0 then insert (unat k) u else u - {unat k}) xs"
  shows "passes_with u (Set_answers 0 k v # xs)" "passes_with u (Set_frame k v # xs)"
proof -
  have "run_bitmap_test b (Set_answers 0 k v # xs) = Inr True \<and> run_bitmap_test b (Set_frame k v # xs) = Inr True"
    if b: "length b = 1601" "used_frames b = u" for b
  proof -
    have n: "length b = unat BITMAP_ELEMENT_COUNT" "unat k < 32 * unat BITMAP_ELEMENT_COUNT"
      using b assms(1) by (simp_all add: unat_element_count)
    obtain b' where b': "bitmap_set b BITMAP_ELEMENT_COUNT k v = Inr (0, b')" "length b' = length b"
      using bitmap_set_exists [OF n] by blast
    show ?thesis
      using passes_withD [OF assms(2), of b'] used_frames_set [OF n b'(1)] b' b by (simp add: expecting_def)
  qed
  then show "passes_with u (Set_answers 0 k v # xs)" "passes_with u (Set_frame k v # xs)"
    by (simp_all add: passes_with_def)
qed

lemma pass_set_outside:
  "1601 < k div 32 \<Longrightarrow> passes_with u xs \<Longrightarrow> passes_with u (Set_answers (- 1) k v # xs)"
  by (simp add: passes_with_def expecting_def bitmap_set_def BITMAP_ELEMENT_COUNT_eq)

lemma get_from_frames:
  assumes "length b = 1601" "unat k < 51232"
  shows "bitmap_get b BITMAP_ELEMENT_COUNT k = Inr (if unat k \<in> used_frames b then 1 else 0)"
  using bitmap_get_eq [of b BITMAP_ELEMENT_COUNT k] assms in_used_frames [OF assms] by (simp add: unat_element_count)

lemma pass_get:
  "unat k < 51232 \<Longrightarrow> r = (if unat k \<in> u then 1 else 0) \<Longrightarrow> passes_with u xs \<Longrightarrow> passes_with u (Get_answers r k # xs)"
  by (simp add: passes_with_def get_from_frames)

lemma pass_gets:
  assumes "n \<le> 51232" "\<And>k. i \<le> k \<Longrightarrow> k < n \<Longrightarrow> r = (if k \<in> u then 1 else 0)" "passes_with u xs"
  shows "passes_with u (Gets_answer r i n # xs)"
proof (rule passes_withI)
  fix b
  assume b: "length b = 1601" "used_frames b = u"
  have "bitmap_get b BITMAP_ELEMENT_COUNT (of_nat k) = Inr r" if "i \<le> k" "k < n" for k
    using get_from_frames [OF b(1), of "of_nat k"] assms(1,2) that b(2) by (simp add: unat_of_nat take_bit_nat_eq_self)
  then have "assert_loop (\<lambda>i. and_then (bitmap_get b BITMAP_ELEMENT_COUNT (of_nat i)) (\<lambda>x. Inr (x = r))) i n = Inr True"
    by (subst assert_loop_decides [where holds = "\<lambda>_. True"]) simp_all
  then show "run_bitmap_test b (Gets_answer r i n # xs) = Inr True" using assms(3) b by (simp add: passes_with_def)
qed

lemma pass_use:
  assumes "unat n div 4096 \<le> 51232" "passes_with (u \<union> {..<unat n div 4096}) xs"
  shows "passes_with u (Use_answers 0 n # xs)" "passes_with u (Use_frames n # xs)"
proof -
  have "run_bitmap_test b (Use_answers 0 n # xs) = Inr True \<and> run_bitmap_test b (Use_frames n # xs) = Inr True"
    if b: "length b = 1601" "used_frames b = u" for b
  proof -
    have "bitmap_wf BITMAP_ELEMENT_COUNT b" using b(1) by (simp add: bitmap_wf_def unat_element_count)
    from use_frames_in_bytes_result [OF this, of n] assms(1) obtain b' where
      "use_frames_in_bytes b BITMAP_ELEMENT_COUNT n = Inr (0, b')" "bitmap_wf BITMAP_ELEMENT_COUNT b'"
      "used_frames b' = used_frames b \<union> {..<unat n div 4096}" by (auto simp: unat_element_count)
    then show ?thesis
      using passes_withD [OF assms(2), of b'] b by (simp add: expecting_def bitmap_wf_def unat_element_count)
  qed
  then show "passes_with u (Use_answers 0 n # xs)" "passes_with u (Use_frames n # xs)"
    by (simp_all add: passes_with_def)
qed

lemma pass_next_free:
  assumes "0 \<le> r" "nat r < 51232" "nat r \<notin> u" "\<And>l. l < nat r \<Longrightarrow> l \<in> u" "passes_with u xs"
  shows "passes_with u (Next_free_is r # xs)"
proof (rule passes_withI)
  fix b
  assume b: "length b = 1601" "used_frames b = u"
  have "bitmap_wf BITMAP_ELEMENT_COUNT b" using b(1) by (simp add: bitmap_wf_def unat_element_count)
  then have "next_free_frame_index b BITMAP_ELEMENT_COUNT = Inr r"
  proof (cases rule: next_free_cases)
    case (free k)
    have "k < 51232" using free(2) by (simp add: unat_element_count)
    from in_used_frames [OF b(1) this] have "k \<notin> u" using free(3) b(2) by blast
    then have "nat r \<le> k" using assms(4) [of k] by (simp add: not_less [symmetric]) blast
    moreover have "\<not> nat r < k"
      using free(4) [of "nat r"] assms(2,3) b in_used_frames [OF b(1) assms(2)] by blast
    ultimately have "int k = r" using assms(1) by simp
    with free(1) show ?thesis by simp
  next
    case none
    have "nat r \<in> u" using none(2) [of "nat r"] assms(2) b in_used_frames [OF b(1) assms(2)] by (simp add: unat_element_count)
    with assms(3) show ?thesis by blast
  qed
  then show "run_bitmap_test b (Next_free_is r # xs) = Inr True" using assms(5) b by (simp add: passes_with_def)
qed

lemmas pass_rules = pass_end pass_empty pass_element pass_fill pass_set pass_set_outside pass_get pass_gets pass_use
  pass_next_free

text \<open>The words that the elements are compared with, as sets of frames.\<close>

lemma less_32: "j < 32 \<longleftrightarrow> j \<in> set [0..<32]"
  by simp

lemma element_words:
  assumes "j < 32"
  shows "bit (2147483648 :: u32) (31 - j) \<longleftrightarrow> j = 0" "bit (3221225472 :: u32) (31 - j) \<longleftrightarrow> j = 0 \<or> j = 1"
    "bit (3221258240 :: u32) (31 - j) \<longleftrightarrow> j = 0 \<or> j = 1 \<or> j = 16"
    "bit (1073774592 :: u32) (31 - j) \<longleftrightarrow> j = 1 \<or> j = 16"
proof -
  have "list_all (\<lambda>j. (bit (2147483648 :: u32) (31 - j) \<longleftrightarrow> j = 0) \<and> (bit (3221225472 :: u32) (31 - j) \<longleftrightarrow> j = 0 \<or> j = 1) \<and>
      (bit (3221258240 :: u32) (31 - j) \<longleftrightarrow> j = 0 \<or> j = 1 \<or> j = 16) \<and>
      (bit (1073774592 :: u32) (31 - j) \<longleftrightarrow> j = 1 \<or> j = 16)) [0..<32]" by code_simp
  with assms show "bit (2147483648 :: u32) (31 - j) \<longleftrightarrow> j = 0" "bit (3221225472 :: u32) (31 - j) \<longleftrightarrow> j = 0 \<or> j = 1"
    "bit (3221258240 :: u32) (31 - j) \<longleftrightarrow> j = 0 \<or> j = 1 \<or> j = 16"
    "bit (1073774592 :: u32) (31 - j) \<longleftrightarrow> j = 1 \<or> j = 16"
    unfolding list_all_iff less_32 by blast+
qed

lemma test_reset_bitmap_passes: "length b = 1601 \<Longrightarrow> run_bitmap_test b test_reset_bitmap = Inr True"
  unfolding test_reset_bitmap_def by (intro pass_reset pass_rules)

lemma test_set_bitmap_passes: "length b = 1601 \<Longrightarrow> run_bitmap_test b test_set_bitmap = Inr True"
  unfolding test_set_bitmap_def by (intro pass_reset pass_rules) (auto simp: element_words simp del: bit_numeral_word_iff)

lemma test_get_bitmap_passes: "length b = 1601 \<Longrightarrow> run_bitmap_test b test_get_bitmap = Inr True"
  unfolding test_get_bitmap_def by (intro pass_reset pass_rules) (auto simp: element_words simp del: bit_numeral_word_iff)

lemma test_use_frames_passes: "length b = 1601 \<Longrightarrow> run_bitmap_test b test_use_frames_in_bytes = Inr True"
  unfolding test_use_frames_in_bytes_def Let_def total_frames_eq by (intro pass_reset pass_rules) auto

lemma test_next_free_passes: "length b = 1601 \<Longrightarrow> run_bitmap_test b test_next_free_frame = Inr True"
  unfolding test_next_free_frame_def total_frames_eq by (intro pass_reset pass_rules) auto

lemma test_use_frames_2_passes: "length b = 1601 \<Longrightarrow> run_bitmap_test b test_use_frames_in_bytes_2 = Inr True"
  unfolding test_use_frames_in_bytes_2_def total_frames_eq by (intro pass_reset pass_rules) auto

section \<open>Properties\<close>

text \<open>
  All unit tests of the bitmap pass on the model: from every content of the array of 1601 elements each of
  them runs without a fault and all its assertions hold.
\<close>

theorem bitmap_unit_tests_pass:
  assumes "length b = unat BITMAP_ELEMENT_COUNT"
  shows "test_array_size \<and> list_all (\<lambda>test. run_bitmap_test b test = Inr True) bitmap_tests"
proof
  show "test_array_size" by (simp add: test_array_size_def BITMAP_ELEMENT_COUNT_eq)
  have "length b = 1601" using assms unfolding unat_element_count .
  then show "list_all (\<lambda>test. run_bitmap_test b test = Inr True) bitmap_tests"
    unfolding bitmap_tests_def
    by (simp only: list.pred_inject test_reset_bitmap_passes test_set_bitmap_passes test_get_bitmap_passes test_use_frames_passes
        test_next_free_passes test_use_frames_2_passes simp_thms)
qed

theorem bitmap_unit_tests_pass_witness:
  "list_all (\<lambda>test. run_bitmap_test (replicate 1601 7) test = Inr True) bitmap_tests"
  using bitmap_unit_tests_pass [of "replicate 1601 7"] by (simp add: unat_element_count)

end
