(* ===== verification/Sort_Tests.thy ===== *)
theory Sort_Tests
  imports Shuffle Assertions
begin

text \<open>
  The unit tests of \<^verbatim>\<open>sort_test.c\<close> and \<^verbatim>\<open>random_test.c\<close>, run on the model. \<open>data\<close> is the content of an
  uninitialised array. A test of \<^verbatim>\<open>shuffle\<close> also takes the processor and gives the one it leaves.
\<close>

section \<open>The tests of the sort routines\<close>

text \<open>\<^verbatim>\<open>for (int i = first; i < n; i++) data[i] = f(i);\<close>\<close>

function fill_loop :: "(nat \<Rightarrow> 'a) \<Rightarrow> nat \<Rightarrow> nat \<Rightarrow> 'a list \<Rightarrow> 'a list result" where
  "fill_loop f i n data =
     (if i < n then and_then (wr data i (f i)) (\<lambda>data'. fill_loop f (Suc i) n data')
      else Inr data)"
  by pat_completeness auto
termination by (relation "measure (\<lambda>(f, i, n, data). n - i)") auto

declare fill_loop.simps [simp del]

definition test_int_swap :: "u32 list \<Rightarrow> bool result" where
  "test_int_swap data =
     and_then (fill_loop (\<lambda>i. 5 - of_nat i) 0 5 data) (\<lambda>data.
     and_then (int_swap data 0 1) (\<lambda>data.
     and_also (assert_element 4 data 0) (assert_element 5 data 1)))"

definition test_bubble_sort_simple :: "u32 list \<Rightarrow> bool result" where
  "test_bubble_sort_simple data =
     and_then (wr data 0 67) (\<lambda>data.
     and_then (wr data 1 89) (\<lambda>data.
     and_then (wr data 2 45) (\<lambda>data.
     and_then (wr data 3 17) (\<lambda>data.
     and_then (wr data 4 39) (\<lambda>data.
     and_then (bubblesort int_comparator int_swap data 5 4) (\<lambda>data.
     and_also (assert_element 17 data 0)
     (and_also (assert_element 39 data 1)
     (and_also (assert_element 45 data 2)
     (and_also (assert_element 67 data 3)
       (assert_element 89 data 4))))))))))"

text \<open>The last loop of the two tests that shuffle an array of 30 elements and sort it again.\<close>

definition assert_counting :: "u32 list \<Rightarrow> bool result" where
  "assert_counting data = assert_loop (\<lambda>i. assert_element (of_nat i + 1) data i) 0 30"

definition test_bubble_sort :: "'w::len itself \<Rightarrow> u32 list \<Rightarrow> processor \<Rightarrow> (bool \<times> processor) result" where
  "test_bubble_sort w data p =
     and_then (fill_loop (\<lambda>i. of_nat i + 1) 0 30 data) (\<lambda>data.
     and_then (shuffle w 50 data 30 int_swap p) (\<lambda>(_, data, p).
     and_then (bubblesort int_comparator int_swap data 30 4) (\<lambda>data.
     and_then (assert_counting data) (\<lambda>ok. Inr (ok, p)))))"

definition test_quick_sort :: "'w::len itself \<Rightarrow> u32 list \<Rightarrow> processor \<Rightarrow> (bool \<times> processor) result option" where
  "test_quick_sort w data p =
     and_run (Some (fill_loop (\<lambda>i. of_nat i + 1) 0 30 data)) (\<lambda>data.
     and_run (Some (shuffle w 50 data 30 int_swap p)) (\<lambda>(_, data, p).
     and_run (quicksort int_comparator int_swap data 30 4) (\<lambda>data.
     Some (and_then (assert_counting data) (\<lambda>ok. Inr (ok, p))))))"

definition test_shuffle :: "'w::len itself \<Rightarrow> u32 list \<Rightarrow> processor \<Rightarrow> (bool \<times> processor) result" where
  "test_shuffle w data p =
     and_then (fill_loop (\<lambda>i. of_nat i + 1) 0 5 data) (\<lambda>data.
     and_then (shuffle w 20 data 5 int_swap p) (\<lambda>(shuffled, _, p).
     Inr (shuffled \<noteq> 0, p)))"

section \<open>The tests of the random numbers\<close>

definition test_is_rdrand_available :: "processor \<Rightarrow> bool" where
  "test_is_rdrand_available p \<longleftrightarrow> is_rdrand_available p = 1"

text \<open>The \<open>n\<close> numbers that are drawn and printed.\<close>

fun print_draws :: "nat \<Rightarrow> processor \<Rightarrow> message list \<times> processor" where
  "print_draws 0 p = ([], p)"
| "print_draws (Suc n) p =
     (let (x, p') = retrieve_rdrand p; (msgs, p'') = print_draws n p' in
      ((''random value: %d'' @ [CHR 0x0A], [x]) # msgs, p''))"

definition test_retrieve_rdrand :: "processor \<Rightarrow> bool \<times> message list \<times> processor" where
  "test_retrieve_rdrand p =
     (let (msgs, p) = print_draws 100 p;
          (first_random_integer, p) = retrieve_rdrand p;
          (second_random_integer, p) = retrieve_rdrand p
      in (first_random_integer \<noteq> second_random_integer, msgs, p))"

section \<open>Helper lemmas\<close>

lemma fill_loop_eq:
  "n \<le> length data \<Longrightarrow> i \<le> n \<Longrightarrow> fill_loop f i n data = Inr (take i data @ map f [i..<n] @ drop n data)"
proof (induction f i n data rule: fill_loop.induct)
  case (1 f i n data)
  show ?case
  proof (cases "i < n")
    case True
    then have "fill_loop f (Suc i) n (data[i := f i]) =
        Inr (take (Suc i) (data[i := f i]) @ map f [Suc i..<n] @ drop n (data[i := f i]))"
      using 1(1) [of "data[i := f i]"] 1(2) by simp
    moreover have "take (Suc i) (data[i := f i]) = take i data @ [f i]"
      using True 1(2) by (simp add: take_Suc_conv_app_nth)
    moreover have "[i..<n] = i # [Suc i..<n]" using True by (rule upt_conv_Cons)
    ultimately show ?thesis using True 1(2) by (simp add: fill_loop.simps [of f i n data])
  qed (use 1(3) in \<open>simp add: fill_loop.simps\<close>)
qed

lemma fill_all: "length data = n \<Longrightarrow> fill_loop f 0 n data = Inr (map f [0..<n])"
  by (simp add: fill_loop_eq)

definition counting :: "u32 list" where
  "counting = map (\<lambda>i. of_nat i + 1) [0..<30]"

lemma counting_simps [simp]: "length counting = 30" "sorted (map sint counting)"
  by (simp_all add: counting_def upt_rec)

lemma assert_counting_eq: "length data = 30 \<Longrightarrow> assert_counting data = Inr (data = counting)"
  unfolding assert_counting_def counting_def by (rule assert_loop_elements)

text \<open>Both sort routines bring every rearrangement of the numbers back into their order.\<close>

lemma sorts_counting:
  assumes "mset data = mset counting"
  shows "bubblesort int_comparator int_swap data 30 4 = Inr counting"
    "quicksort int_comparator int_swap data 30 4 = Some (Inr counting)"
proof -
  have len: "length data = 30" using mset_eq_length [OF assms] by simp
  then have n: "length data < 2 ^ 31" "ints.fits (length data)" by (simp_all add: int_fits)
  have unique: "ys = counting" if "sorted_by int_comparator ys" "mset ys = mset data" for ys
    using that assms by (intro sorted_ints_unique) (simp_all add: sorted_by_int)
  show "bubblesort int_comparator int_swap data 30 4 = Inr counting"
    using ints.bubblesort_sorts [OF n] unique by (auto simp: len)
  show "quicksort int_comparator int_swap data 30 4 = Some (Inr counting)"
    using ints.quicksort_sorts [OF n] unique by (auto simp: len)
qed

text \<open>\<open>shuffle\<close> as the tests use it: the cases of the processor and of the seed.\<close>

definition seed_of :: "processor \<Rightarrow> u32" where
  "seed_of p = 1103515245 * random_values p (draws p) + 12345"

definition indices_inside :: "processor \<Rightarrow> nat \<Rightarrow> bool" where
  "indices_inside p rounds \<longleftrightarrow> (\<forall>r \<in> set (used_randoms (seed_of p) rounds). unat r < 2 ^ 32 - 128)"

lemma shuffle_unavailable: "is_rdrand_available p = 0 \<Longrightarrow> shuffle w rounds data n swap p = Inr (0, data, p)"
  by (simp add: shuffle_def)

lemma shuffle_cases:
  assumes "is_rdrand_available p \<noteq> 0" "length data = unat n" "n \<noteq> 0" "unat n \<le> 2 ^ 24"
  obtains (inside) data' where "indices_inside p (nat (sint rounds))" "mset data' = mset data"
      "shuffle TYPE(64) rounds data n int_swap p = Inr (1, data', p\<lparr>draws := draws p + 1\<rparr>)"
    | (outside) "\<not> indices_inside p (nat (sint rounds))"
      "shuffle TYPE(64) rounds data n int_swap p = Inl Out_of_bounds"
proof -
  have run: "shuffle TYPE(64) rounds data n int_swap p =
      and_then (shuffle_loop TYPE(64) int_swap (sint rounds) n 0 (seed_of p) data)
        (\<lambda>data'. Inr (1, data', p\<lparr>draws := draws p + 1\<rparr>))"
    using assms(1) by (simp add: shuffle_def retrieve_rdrand_def next_random_64 seed_of_def)
  from shuffle_loop_result [OF assms(2-4) order_refl, of "seed_of p" "sint rounds"] show thesis
    using that unfolding run indices_inside_def by (auto split: if_splits)
qed

lemma counting_prefix:
  assumes "length data = n"
  shows "fill_loop (\<lambda>i. of_nat i + 1) 0 n data = Inr (map (\<lambda>i. of_nat i + 1 :: u32) [0..<n])"
  using assms by (rule fill_all)

lemma test_shuffle_result:
  assumes "length data = 5" "is_rdrand_available p \<noteq> 0"
  shows "test_shuffle TYPE(64) data p =
    (if indices_inside p 20 then Inr (True, p\<lparr>draws := draws p + 1\<rparr>) else Inl Out_of_bounds)"
proof -
  let ?d = "map (\<lambda>i. of_nat i + 1) [0..<5] :: u32 list"
  have "length ?d = unat (5 :: u32)" "(5 :: u32) \<noteq> 0" "unat (5 :: u32) \<le> 2 ^ 24" by simp_all
  from assms(2) this show ?thesis
    by (cases rule: shuffle_cases [where rounds = 20])
      (simp_all add: test_shuffle_def counting_prefix [OF assms(1)] del: upt_rec_numeral)
qed

lemma sort_shuffled_result:
  assumes "length data = 30" "is_rdrand_available p \<noteq> 0"
  shows "test_bubble_sort TYPE(64) data p =
      (if indices_inside p 50 then Inr (True, p\<lparr>draws := draws p + 1\<rparr>) else Inl Out_of_bounds)"
    "test_quick_sort TYPE(64) data p =
      Some (if indices_inside p 50 then Inr (True, p\<lparr>draws := draws p + 1\<rparr>) else Inl Out_of_bounds)"
proof -
  note fill = counting_prefix [OF assms(1), folded counting_def]
  have "length counting = unat (30 :: u32)" "(30 :: u32) \<noteq> 0" "unat (30 :: u32) \<le> 2 ^ 24" by simp_all
  from assms(2) this have "test_bubble_sort TYPE(64) data p =
      (if indices_inside p 50 then Inr (True, p\<lparr>draws := draws p + 1\<rparr>) else Inl Out_of_bounds) \<and>
    test_quick_sort TYPE(64) data p =
      Some (if indices_inside p 50 then Inr (True, p\<lparr>draws := draws p + 1\<rparr>) else Inl Out_of_bounds)"
    by (cases rule: shuffle_cases [where rounds = 50])
      (simp_all add: test_bubble_sort_def test_quick_sort_def fill sorts_counting assert_counting_eq)
  then show "test_bubble_sort TYPE(64) data p =
      (if indices_inside p 50 then Inr (True, p\<lparr>draws := draws p + 1\<rparr>) else Inl Out_of_bounds)"
    "test_quick_sort TYPE(64) data p =
      Some (if indices_inside p 50 then Inr (True, p\<lparr>draws := draws p + 1\<rparr>) else Inl Out_of_bounds)" by blast+
qed

lemma tests_unavailable:
  assumes "length data5 = 5" "length data30 = 30" "is_rdrand_available p = 0"
  shows "test_bubble_sort w data30 p = Inr (True, p)" "test_quick_sort w data30 p = Some (Inr (True, p))"
    "test_shuffle w data5 p = Inr (False, p)"
  by (simp_all add: test_bubble_sort_def test_quick_sort_def test_shuffle_def fill_all [OF assms(1)]
      counting_prefix [OF assms(2), folded counting_def] shuffle_unavailable [OF assms(3)] sorts_counting assert_counting_eq)

lemma print_draws_eq:
  "print_draws n p = (map (\<lambda>i. (''random value: %d'' @ [CHR 0x0A], [random_values p (draws p + i)])) [0..<n],
    p\<lparr>draws := draws p + n\<rparr>)"
proof (induction n arbitrary: p)
  case 0
  show ?case by (cases p) simp
next
  case (Suc n)
  have "print_draws n (p\<lparr>draws := draws p + 1\<rparr>) =
      (map (\<lambda>i. (''random value: %d'' @ [CHR 0x0A], [random_values p (draws p + Suc i)])) [0..<n],
       p\<lparr>draws := draws p + Suc n\<rparr>)"
    unfolding Suc by simp
  then show ?case by (simp add: retrieve_rdrand_def map_upt_Suc del: upt_Suc)
qed

section \<open>Properties\<close>

text \<open>
  C34. The unit tests of the sort routines, with 64-bit words. The tests without \<^verbatim>\<open>shuffle\<close> pass. If the processor
  has no random generator, the two tests that sort a shuffled array pass and the test of \<^verbatim>\<open>shuffle\<close> fails.
  Otherwise each of the three passes if its random numbers give indices inside of the array, and
  accesses the element behind the array if one does not.
\<close>

theorem sort_unit_tests_pass:
  assumes "length data5 = 5" "length data30 = 30" "p' = p\<lparr>draws := draws p + 1\<rparr>"
  shows "test_int_swap data5 = Inr True \<and> test_bubble_sort_simple data5 = Inr True \<and>
    (if is_rdrand_available p = 0
     then test_bubble_sort TYPE(64) data30 p = Inr (True, p) \<and> test_quick_sort TYPE(64) data30 p = Some (Inr (True, p)) \<and>
       test_shuffle TYPE(64) data5 p = Inr (False, p)
     else test_bubble_sort TYPE(64) data30 p = (if indices_inside p 50 then Inr (True, p') else Inl Out_of_bounds) \<and>
       test_quick_sort TYPE(64) data30 p = Some (if indices_inside p 50 then Inr (True, p') else Inl Out_of_bounds) \<and>
       test_shuffle TYPE(64) data5 p = (if indices_inside p 20 then Inr (True, p') else Inl Out_of_bounds))"
proof (intro conjI)
  obtain a b c d e where data5: "data5 = [a, b, c, d, e]"
    using assms(1) by (auto simp: length_Suc_conv numeral_eq_Suc)
  show "test_int_swap data5 = Inr True"
    unfolding test_int_swap_def fill_all [OF assms(1)] by (simp add: upt_rec int_swap_def)
  have "bubblesort int_comparator int_swap [67, 89, 45, 17, 39] 5 4 = Inr [17, 39, 45, 67, 89]" by code_simp
  then show "test_bubble_sort_simple data5 = Inr True" by (simp add: test_bubble_sort_simple_def data5)
qed (simp add: test_shuffle_result [OF assms(1)] sort_shuffled_result [OF assms(2)]
    tests_unavailable [OF assms(1,2)] assms(3))

lemma indices_inside_code:
  "indices_inside p rounds \<longleftrightarrow> list_all (\<lambda>r. r < 0xFFFFFF80) (used_randoms (seed_of p) rounds)"
  by (simp add: indices_inside_def list_all_iff word_less_nat_alt)

lemma example_indices_inside:
  "indices_inside \<lparr>cpuid_ecx = \<lambda>_ _. 0xFFFFFFFF, random_values = \<lambda>_. 7, draws = 3\<rparr> 50"
  unfolding indices_inside_code by code_simp

theorem sort_unit_tests_pass_witness:
  "test_quick_sort TYPE(64) (replicate 30 0) \<lparr>cpuid_ecx = \<lambda>_ _. 0xFFFFFFFF, random_values = \<lambda>_. 7, draws = 3\<rparr> =
    Some (Inr (True, \<lparr>cpuid_ecx = \<lambda>_ _. 0xFFFFFFFF, random_values = \<lambda>_. 7, draws = 4\<rparr>))"
  using sort_unit_tests_pass [of "replicate 5 7" "replicate 30 0", OF _ _ refl,
      of "\<lparr>cpuid_ecx = \<lambda>_ _. 0xFFFFFFFF, random_values = \<lambda>_. 7, draws = 3\<rparr>"] example_indices_inside
  by (simp add: is_rdrand_available_def)

text \<open>
  The test of \<^verbatim>\<open>rdrand\<close> prints the first hundred numbers of the processor and passes exactly if the next
  two differ.
\<close>

theorem rdrand_test_passes_iff:
  "test_retrieve_rdrand p =
    (random_values p (draws p + 100) \<noteq> random_values p (draws p + 101),
     map (\<lambda>i. (''random value: %d'' @ [CHR 0x0A], [random_values p (draws p + i)])) [0..<100],
     p\<lparr>draws := draws p + 102\<rparr>)"
  by (simp add: test_retrieve_rdrand_def print_draws_eq retrieve_rdrand_def add.commute del: upt_rec_numeral)

end
