(* ===== verification/Float_Output.thy ===== *)
theory Float_Output
  imports Single Console_Correct
begin

text \<open>
  \<^verbatim>\<open>k_print_float\<close> of \<^verbatim>\<open>common.c\<close>: the integral part, a point and the first digits of the fraction.
  The two conversion buffers and the buffer of the whole text are set to zeros by loops before they
  are used and are lists of zeros here.
\<close>

section \<open>The routine\<close>

text \<open>\<^verbatim>\<open>while ((temp - (int)temp) > 0.0f && max_fractions > 0)\<close>.\<close>

function fraction_loop :: "single \<Rightarrow> nat \<Rightarrow> single result" where
  "fraction_loop temp max_fractions =
     and_then (float_to_int temp) (\<lambda>i.
     if 0 < fsub temp (float_of (sint i)) \<and> 0 < max_fractions
     then fraction_loop (fmul temp 10) (max_fractions - 1)
     else Inr temp)"
  by pat_completeness auto
termination by (relation "measure snd") auto

text \<open>The loops that append the characters of a buffer, without its zeros, to the text.\<close>

function append_chars :: "u8 list \<Rightarrow> nat \<Rightarrow> u8 list \<Rightarrow> nat \<Rightarrow> (u8 list \<times> nat) result" where
  "append_chars part_buf i total_buf total_buf_index =
     (if i < 20 then
        and_then (rd part_buf i) (\<lambda>c.
        if c = 0 then append_chars part_buf (Suc i) total_buf total_buf_index
        else
          and_then (wr total_buf total_buf_index c) (\<lambda>total_buf'.
          append_chars part_buf (Suc i) total_buf' (Suc total_buf_index)))
      else Inr (total_buf, total_buf_index))"
  by pat_completeness auto
termination by (relation "measure (\<lambda>(part_buf, i, total_buf, total_buf_index). 20 - i)") auto

text \<open>\<^verbatim>\<open>for (i = 0; i <= total_buf_index; i++) k_putchar(total_buf[i])\<close>.\<close>

function put_buffer :: "u8 list \<Rightarrow> nat \<Rightarrow> nat \<Rightarrow> console \<Rightarrow> console result" where
  "put_buffer total_buf i total_buf_index s =
     (if i \<le> total_buf_index then
        and_then (rd total_buf i) (\<lambda>c.
        and_then (k_putchar s (char_code c)) (\<lambda>s'.
        put_buffer total_buf (Suc i) total_buf_index s'))
      else Inr s)"
  by pat_completeness auto
termination by (relation "measure (\<lambda>(total_buf, i, total_buf_index, s). Suc total_buf_index - i)") auto

declare fraction_loop.simps [simp del] append_chars.simps [simp del] put_buffer.simps [simp del]

definition k_print_float :: "console \<Rightarrow> single \<Rightarrow> console result" where
  "k_print_float s data =
     and_then (float_to_int data) (\<lambda>int_part.
     and_then (fraction_loop (fsub data (float_of (sint int_part))) 3) (\<lambda>temp.
     and_then (float_to_int temp) (\<lambda>float_part.
     and_then (k_itoa (replicate 20 0) 10 int_part) (\<lambda>int_part_buf.
     and_then (k_itoa (replicate 20 0) 10 float_part) (\<lambda>fraction_part_buf.
     and_then (append_chars int_part_buf 0 (replicate 41 0) 0) (\<lambda>(total1, index1).
     and_then (wr total1 index1 46) (\<lambda>total2.
     and_then (append_chars fraction_part_buf 0 total2 (Suc index1)) (\<lambda>(total3, index2).
     put_buffer total3 0 index2 s))))))))"

section \<open>The digits of the fraction\<close>

lemma float_to_int_eq:
  assumes "0 \<le> x" "x < 2 ^ 31"
  shows "float_to_int x = Inr (of_int \<lfloor>x\<rfloor>)" "sint (of_int \<lfloor>x\<rfloor> :: u32) = \<lfloor>x\<rfloor>" "unat (of_int \<lfloor>x\<rfloor> :: u32) = nat \<lfloor>x\<rfloor>"
proof -
  have x: "0 \<le> \<lfloor>x\<rfloor>" "\<lfloor>x\<rfloor> < 2 ^ 31" using assms by (simp_all add: floor_less_iff)
  then show "float_to_int x = Inr (of_int \<lfloor>x\<rfloor>)"
    using assms(1) by (simp add: float_to_int_def integral_part_def)
  show "sint (of_int \<lfloor>x\<rfloor> :: u32) = \<lfloor>x\<rfloor>"
    using x by (simp add: sint_sbintrunc' signed_take_bit_int_eq_self)
  show "unat (of_int \<lfloor>x\<rfloor> :: u32) = nat \<lfloor>x\<rfloor>"
    using x unfolding unat_eq_nat_uint uint_word_of_int_eq by (simp add: take_bit_int_eq_self)
qed

lemma difference_of_floor:
  assumes "is_single x" "0 \<le> x" "x < 2 ^ 31"
  shows "fsub x (float_of (sint (of_int \<lfloor>x\<rfloor> :: u32))) = x - of_int \<lfloor>x\<rfloor>"
  unfolding fsub_def float_of_def float_to_int_eq(2) [OF assms(2,3)]
  by (simp only: round_exact is_single_parts [OF assms(1,2)])

lemma fraction_loop_step:
  assumes "is_single x" "0 \<le> x" "x < 2 ^ 31"
  shows "fraction_loop x n =
    (if of_int \<lfloor>x\<rfloor> = x \<or> n = 0 then Inr x else fraction_loop (round_single (x * 10)) (n - 1))"
proof -
  have "0 < x - of_int \<lfloor>x\<rfloor> \<longleftrightarrow> of_int \<lfloor>x\<rfloor> \<noteq> x" by linarith
  then show ?thesis
    by (subst fraction_loop.simps)
      (simp add: float_to_int_eq(1) [OF assms(2,3)] difference_of_floor [OF assms] fmul_def)
qed

text \<open>One multiplication by ten stays below the next power of ten, with an error of half of a unit.\<close>

lemma times_ten:
  fixes t :: single
  assumes "is_single t" "0 \<le> t" "t \<le> of_int b - 1 / 2 ^ d"
    and "10 * of_int b \<le> (2 powi (24 - int d') :: rat)" "1 / 2 ^ Suc d' < (10 / 2 ^ d :: rat)" "d' \<le> 100"
    and "2 ^ 24 / 2 ^ Suc d' \<le> (of_int b' - 1 / 2 ^ d' :: rat)" "b' = 10 * b"
  shows "is_single (round_single (t * 10))" "0 \<le> round_single (t * 10)"
    "round_single (t * 10) \<le> of_int b' - 1 / 2 ^ d'" "\<bar>round_single (t * 10) - t * 10\<bar> \<le> 1 / 2 ^ Suc d'"
proof -
  let ?x = "t * 10"
  show single: "is_single (round_single ?x)" by (rule is_single_round)
  show "0 \<le> round_single ?x" using assms(2) by (intro round_single_nonneg) simp
  have x: "?x \<le> 10 * of_int b - 10 / 2 ^ d" using assms(3) by simp
  have near: "\<bar>round_single ?x - ?x\<bar> \<le> 1 / 2 ^ Suc d'"
  proof (cases "?x = 0")
    case False
    have "(0 :: rat) < 10 / 2 ^ d" by simp
    then have "\<bar>?x\<bar> < 10 * of_int b" using x assms(2) by linarith
    then have "\<bar>?x\<bar> < 2 powi (24 - int d')" using assms(4) by linarith
    from ulp_le [OF False this] assms(6) have "ulp ?x \<le> 2 powi - int d'" by simp
    also have "\<dots> = 1 / 2 ^ d'" by (simp add: power_int_minus divide_inverse)
    finally have "ulp ?x / 2 \<le> 1 / 2 ^ Suc d'" by simp
    with round_near [of ?x] show ?thesis by linarith
  qed simp
  then show "\<bar>round_single ?x - ?x\<bar> \<le> 1 / 2 ^ Suc d'" .
  from near x assms(5) have "round_single ?x < of_int b'" unfolding assms(8) by simp
  from single_below [OF single this assms(7)] show "round_single ?x \<le> of_int b' - 1 / 2 ^ d'" .
qed

lemma digit_steps:
  "10 * of_int 1 \<le> (2 powi (24 - int 20) :: rat)" "1 / 2 ^ Suc 20 < (10 / 2 ^ 24 :: rat)" "(20 :: nat) \<le> 100"
  "2 ^ 24 / 2 ^ Suc 20 \<le> (of_int 10 - 1 / 2 ^ 20 :: rat)" "(10 :: int) = 10 * 1"
  "10 * of_int 10 \<le> (2 powi (24 - int 17) :: rat)" "1 / 2 ^ Suc 17 < (10 / 2 ^ 20 :: rat)" "(17 :: nat) \<le> 100"
  "2 ^ 24 / 2 ^ Suc 17 \<le> (of_int 100 - 1 / 2 ^ 17 :: rat)" "(100 :: int) = 10 * 10"
  "10 * of_int 100 \<le> (2 powi (24 - int 14) :: rat)" "1 / 2 ^ Suc 14 < (10 / 2 ^ 17 :: rat)" "(14 :: nat) \<le> 100"
  "2 ^ 24 / 2 ^ Suc 14 \<le> (of_int 1000 - 1 / 2 ^ 14 :: rat)" "(1000 :: int) = 10 * 100"
  by simp_all

text \<open>
  Where a power of ten up to 100 makes the fraction a whole number, the fraction is a number of quarters, and
  the multiplications are exact.
\<close>

lemma whole_quarters:
  fixes t :: single
  assumes "is_single t" "10 ^ m * t = of_int z" "m \<le> 2"
  obtains i where "t = of_int i / 4"
  using assms(1)
proof (cases rule: is_single_cases)
  case (integer k n)
  then show thesis by (intro that [of "4 * (k * 2 ^ n)"]) simp
next
  case (fraction k n)
  then have k: "of_int k = t * 2 ^ n" by simp
  have "of_int (10 ^ m * k) = 10 ^ m * t * 2 ^ n" unfolding of_int_mult k by simp
  also have "\<dots> = (of_int (z * 2 ^ n) :: rat)" unfolding assms(2) by simp
  finally have "10 ^ m * k = z * 2 ^ n" by (simp only: of_int_eq_iff)
  moreover have "5 ^ m * (2 ^ m * k) = 10 ^ m * k" by (simp flip: mult.assoc power_mult_distrib)
  ultimately have "2 ^ n dvd 5 ^ m * (2 ^ m * k)" by simp
  moreover have "coprime (2 ^ n) (5 ^ m :: int)" by simp
  ultimately have "2 ^ n dvd 2 ^ m * k" by (simp add: coprime_dvd_mult_right_iff)
  then have "2 ^ n dvd 2 ^ (2 - m) * (2 ^ m * k)" by (rule dvd_mult)
  also have "2 ^ (2 - m) * (2 ^ m * k) = 4 * k" using assms(3) by (simp flip: mult.assoc power_add)
  finally obtain i where "4 * k = 2 ^ n * i" by (rule dvdE)
  then have "4 * of_int k = (2 ^ n * of_int i :: rat)" by (metis of_int_mult of_int_numeral of_int_power)
  then have "4 * t * 2 ^ n = of_int i * 2 ^ n" unfolding k by (simp add: mult_ac)
  then have "4 * t = of_int i" by simp
  then show thesis by (intro that [of i]) simp
qed

lemma exact_steps:
  fixes t :: single
  assumes "is_single t" "0 \<le> t" "t < 1" "10 ^ m * t = of_int z" "m \<le> 2"
  shows "round_single (t * 10) = 10 * t" "round_single (10 * t * 10) = 100 * t"
proof -
  obtain i where i: "t = of_int i / 4" using whole_quarters [OF assms(1,4,5)] .
  then have "0 \<le> i" "i < 4" using assms(2,3) by simp_all
  then have "is_single (of_int (10 * i) / 2 ^ 2)" "is_single (of_int (100 * i) / 2 ^ 2)"
    by (intro is_single_fraction; simp)+
  then have "is_single (t * 10)" "is_single (10 * t * 10)" by (simp_all add: i algebra_simps)
  then show "round_single (t * 10) = 10 * t" "round_single (10 * t * 10) = 100 * t"
    by (simp_all add: round_exact)
qed

lemma fraction_loop_result:
  fixes t :: single
  assumes "is_single t" "0 \<le> t" "t < 1"
  obtains n temp where "n \<le> 3" "fraction_loop t 3 = Inr temp" "0 \<le> temp" "temp < 10 ^ n"
    "\<bar>temp - 10 ^ n * t\<bar> < 1 / 1000" "n = 3 \<or> of_int \<lfloor>temp\<rfloor> = temp \<and> \<bar>temp - 10 ^ n * t\<bar> < 1 / 100000"
    "\<forall>m < n. 10 ^ m * t \<notin> \<int>"
proof -
  define t1 where "t1 = round_single (t * 10)"
  define t2 where "t2 = round_single (t1 * 10)"
  define t3 where "t3 = round_single (t2 * 10)"
  have t0: "t \<le> of_int 1 - 1 / 2 ^ 24" by (rule single_below [OF assms(1)]) (use assms(3) in simp_all)
  note t1 = times_ten [OF assms(1,2) t0 digit_steps(1-5), folded t1_def]
  note t2 = times_ten [OF t1(1-3) digit_steps(6-10), folded t2_def]
  note t3 = times_ten [OF t2(1-3) digit_steps(11-15), folded t3_def]
  have below: "t1 < 10" "t2 < 100" "t3 < 1000" using t1(3) t2(3) t3(3) by simp_all
  have errors: "\<bar>t1 - 10 * t\<bar> < 1 / 1000" "\<bar>t2 - 100 * t\<bar> < 1 / 1000" "\<bar>t3 - 1000 * t\<bar> < 1 / 1000"
    "\<bar>t1 - 10 * t\<bar> < 1 / 100000" "\<bar>t2 - 100 * t\<bar> < 1 / 100000"
    using t1(4) t2(4) t3(4) unfolding abs_le_iff abs_less_iff by simp_all
  have whole: "of_int \<lfloor>t\<rfloor> = t" if "t \<in> \<int>" using that by (auto elim!: Ints_cases)
  have whole1: "of_int \<lfloor>t1\<rfloor> = t1" if "10 * t \<in> \<int>"
  proof -
    from that obtain z where "10 * t = of_int z" by (auto elim: Ints_cases)
    then have "t1 = of_int z" using exact_steps(1) [OF assms, of 1 z] by (simp add: t1_def)
    then show ?thesis by simp
  qed
  have whole2: "of_int \<lfloor>t2\<rfloor> = t2" if "100 * t \<in> \<int>"
  proof -
    from that obtain z where "100 * t = of_int z" by (auto elim: Ints_cases)
    then have "t2 = of_int z" using exact_steps [OF assms, of 2 z] by (simp add: t1_def t2_def)
    then show ?thesis by simp
  qed
  have first: "\<forall>m < n. 10 ^ m * t \<notin> \<int>"
    if n: "n \<le> 3" and z: "0 < n \<Longrightarrow> t \<notin> \<int>" "1 < n \<Longrightarrow> 10 * t \<notin> \<int>" "2 < n \<Longrightarrow> 100 * t \<notin> \<int>" for n
  proof (intro allI impI)
    fix m assume "m < n"
    then consider "m = 0" | "m = 1" "1 < n" | "m = 2" "2 < n" using n by linarith
    then show "10 ^ m * t \<notin> \<int>" using z \<open>m < n\<close> by cases simp_all
  qed
  note step = fraction_loop_step [OF assms(1,2)] fraction_loop_step [OF t1(1,2)] fraction_loop_step [OF t2(1,2)]
    fraction_loop_step [OF t3(1,2)]
  have runs: "fraction_loop t 3 =
      (if of_int \<lfloor>t\<rfloor> = t then Inr t else if of_int \<lfloor>t1\<rfloor> = t1 then Inr t1
       else if of_int \<lfloor>t2\<rfloor> = t2 then Inr t2 else Inr t3)"
    using below assms(3) step by (simp flip: t1_def t2_def t3_def)
  consider "of_int \<lfloor>t\<rfloor> = t" | "of_int \<lfloor>t\<rfloor> \<noteq> t" "of_int \<lfloor>t1\<rfloor> = t1"
    | "of_int \<lfloor>t\<rfloor> \<noteq> t" "of_int \<lfloor>t1\<rfloor> \<noteq> t1" "of_int \<lfloor>t2\<rfloor> = t2"
    | "of_int \<lfloor>t\<rfloor> \<noteq> t" "of_int \<lfloor>t1\<rfloor> \<noteq> t1" "of_int \<lfloor>t2\<rfloor> \<noteq> t2" by blast
  then show thesis
  proof cases
    case 1
    then show thesis using runs assms first [of 0] by (intro that [of 0 t]) simp_all
  next
    case 2
    then have "t \<notin> \<int>" using whole by blast
    then have "\<forall>m < 1. 10 ^ m * t \<notin> \<int>" by (intro first) simp_all
    with 2 show thesis using runs t1(2) below(1) errors(1,4) by (intro that [of 1 t1]) simp_all
  next
    case 3
    then have "t \<notin> \<int>" "10 * t \<notin> \<int>" using whole whole1 by blast+
    then have "\<forall>m < 2. 10 ^ m * t \<notin> \<int>" by (intro first) simp_all
    with 3 show thesis using runs t2(2) below(2) errors(2,5) by (intro that [of 2 t2]) simp_all
  next
    case 4
    then have "t \<notin> \<int>" "10 * t \<notin> \<int>" "100 * t \<notin> \<int>" using whole whole1 whole2 by blast+
    then have "\<forall>m < 3. 10 ^ m * t \<notin> \<int>" by (intro first) simp_all
    with 4 show thesis using runs t3(2) below(3) errors(3) by (intro that [of 3 t3]) simp_all
  qed
qed

section \<open>The text\<close>

definition decimal :: "nat \<Rightarrow> u8 list" where
  "decimal n = map digit_text (digits_of 10 n)"

text \<open>The number behind the point for a fraction \<open>t\<close>.\<close>

definition fraction_number :: "single \<Rightarrow> nat" where
  "fraction_number t = (case fraction_loop t 3 of Inl _ \<Rightarrow> 0 | Inr temp \<Rightarrow> nat \<lfloor>temp\<rfloor>)"

definition float_text :: "single \<Rightarrow> u8 list" where
  "float_text x = decimal (nat \<lfloor>x\<rfloor>) @ 46 # decimal (fraction_number (x - of_int \<lfloor>x\<rfloor>)) @ [0]"

lemma decimal_text: "itoa_text 10 d = decimal (unat d)"
  by (simp add: itoa_text_def decimal_def divisor_of_def CHR_d_def CHR_x_def)

lemma append_chars_eq:
  assumes "length part_buf = 20" "k + length (filter (\<lambda>c. c \<noteq> 0) (drop i part_buf)) \<le> length total_buf"
  defines "cs \<equiv> filter (\<lambda>c. c \<noteq> 0) (drop i part_buf)"
  shows "append_chars part_buf i total_buf k =
    Inr (take k total_buf @ cs @ drop (k + length cs) total_buf, k + length cs)"
  using assms(1,2) unfolding cs_def
proof (induction part_buf i total_buf k rule: append_chars.induct)
  case (1 part_buf i total_buf k)
  show ?case
  proof (cases "i < 20")
    case True
    let ?c = "part_buf ! i"
    have split: "drop i part_buf = ?c # drop (Suc i) part_buf"
      using True "1.prems"(1) by (simp add: Cons_nth_drop_Suc)
    show ?thesis
    proof (cases "?c = 0")
      case c: True
      have "append_chars part_buf i total_buf k = append_chars part_buf (Suc i) total_buf k"
        using True c "1.prems"(1) by (subst append_chars.simps) simp
      then show ?thesis using "1.IH"(1) [OF True, of ?c] True c "1.prems" split by simp
    next
      case c: False
      have k: "k < length total_buf" using "1.prems"(2) split c by simp
      have "append_chars part_buf i total_buf k = append_chars part_buf (Suc i) (total_buf[k := ?c]) (Suc k)"
        using True c k "1.prems"(1) by (subst append_chars.simps) simp
      moreover have "take (Suc k) (total_buf[k := ?c]) = take k total_buf @ [?c]"
        using k by (simp add: take_Suc_conv_app_nth)
      ultimately show ?thesis
        using "1.IH"(2) [OF True, of ?c "total_buf[k := ?c]"] True c k "1.prems" split by simp
    qed
  next
    case False
    then show ?thesis using "1.prems"(1) by (subst append_chars.simps) simp
  qed
qed

lemma put_buffer_eq:
  "n < length total_buf \<Longrightarrow>
    put_buffer total_buf i n s = put_codes s (map char_code (take (Suc n - i) (drop i total_buf)))"
proof (induction total_buf i n s rule: put_buffer.induct)
  case (1 total_buf i n s)
  show ?case
  proof (cases "i \<le> n")
    case True
    then have "take (Suc n - i) (drop i total_buf) = total_buf ! i # take (Suc n - Suc i) (drop (Suc i) total_buf)"
      using "1.prems" by (simp add: Cons_nth_drop_Suc [symmetric] Suc_diff_le)
    then show ?thesis
      using True "1.IH" [OF True] "1.prems"
      by (subst put_buffer.simps) (cases "k_putchar s (char_code (total_buf ! i))"; simp)
  next
    case False
    then show ?thesis by (subst put_buffer.simps) simp
  qed
qed

lemma decimal_length: "n < 2 ^ 32 \<Longrightarrow> length (decimal n) \<le> 10"
  by (simp add: decimal_def digits_of_length)

lemma decimal_u32: "length (decimal (unat (d :: u32))) \<le> 10"
  by (rule decimal_length) (use unat_bound [of d] in simp)

lemma decimal_nonzero: "0 \<notin> set (decimal n)"
  using digits_of_bound [of 10 n] digit_text_nonzero by (force simp: decimal_def)

lemma itoa_buffer:
  fixes d :: u32
  obtains buf where "k_itoa (replicate 20 0) 10 d = Inr buf" "length buf = 20" "filter (\<lambda>c. c \<noteq> 0) buf = decimal (unat d)"
proof -
  let ?ds = "decimal (unat d)"
  have len: "length ?ds \<le> 10" by (rule decimal_u32)
  let ?buf = "?ds @ 0 # replicate (20 - Suc (length ?ds)) 0"
  have "k_itoa (replicate 20 0) 10 d = Inr ?buf"
    using k_itoa_eq [of "replicate 20 0" 10 d] unfolding decimal_text drop_replicate length_replicate by simp
  moreover have "filter (\<lambda>c. c \<noteq> 0) ?ds = ?ds" by (rule filter_True) (use decimal_nonzero [of "unat d"] in metis)
  then have "filter (\<lambda>c. c \<noteq> 0) ?buf = ?ds" by (simp only: filter_append filter.simps filter_replicate) simp
  moreover have "length ?buf = 20" using len by simp
  ultimately show thesis using that by blast
qed

lemma k_print_float_eq:
  assumes "is_single x" "0 \<le> x" "x < 2 ^ 31"
  shows "k_print_float s x = put_codes s (map char_code (float_text x))"
proof -
  let ?t = "x - of_int \<lfloor>x\<rfloor>"
  have "0 \<le> ?t" "?t < 1" by linarith+
  from fraction_loop_result [OF is_single_parts(2) [OF assms(1,2)] this]
  obtain n temp where temp: "n \<le> 3" "fraction_loop ?t 3 = Inr temp" "0 \<le> temp" "temp < 10 ^ n" .
  have "(10 :: rat) ^ n \<le> 10 ^ 3" using temp(1) by (intro power_increasing) simp_all
  then have small: "temp < 2 ^ 31" using temp(4) by simp
  let ?i = "of_int \<lfloor>x\<rfloor> :: u32" and ?f = "of_int \<lfloor>temp\<rfloor> :: u32"
  obtain b1 where b1: "k_itoa (replicate 20 0) 10 ?i = Inr b1" "length b1 = 20"
    "filter (\<lambda>c. c \<noteq> 0) b1 = decimal (unat ?i)" by (rule itoa_buffer)
  obtain b2 where b2: "k_itoa (replicate 20 0) 10 ?f = Inr b2" "length b2 = 20"
    "filter (\<lambda>c. c \<noteq> 0) b2 = decimal (unat ?f)" by (rule itoa_buffer)
  let ?c1 = "decimal (unat ?i)" and ?c2 = "decimal (unat ?f)"
  have len: "length ?c1 \<le> 10" "length ?c2 \<le> 10" by (rule decimal_u32)+
  let ?n1 = "length ?c1" and ?n2 = "length ?c2"
  have a1: "append_chars b1 0 (replicate 41 0) 0 = Inr (?c1 @ replicate (41 - ?n1) 0, ?n1)"
    using append_chars_eq [of b1 0 0 "replicate 41 0"] b1(2,3) len by simp
  have dot: "(?c1 @ replicate (41 - ?n1) 0)[?n1 := 46] = (?c1 @ [46]) @ replicate (40 - ?n1) 0"
  proof -
    have "41 - ?n1 = Suc (40 - ?n1)" using len by simp
    then show ?thesis by (simp add: list_update_append)
  qed
  have a2: "append_chars b2 0 ((?c1 @ [46]) @ replicate (40 - ?n1) 0) (Suc ?n1) =
      Inr ((?c1 @ [46]) @ ?c2 @ replicate (40 - ?n1 - ?n2) 0, Suc ?n1 + ?n2)"
    using append_chars_eq [of b2 "Suc ?n1" 0 "(?c1 @ [46]) @ replicate (40 - ?n1) 0"] b2(2,3) len by simp
  have rest: "40 - ?n1 - ?n2 = Suc (39 - ?n1 - ?n2)" using len by simp
  have shown: "take (Suc (Suc ?n1 + ?n2)) ((?c1 @ [46]) @ ?c2 @ replicate (40 - ?n1 - ?n2) 0) = ?c1 @ 46 # ?c2 @ [0]"
    unfolding rest by simp
  have "k_print_float s x = put_buffer ((?c1 @ [46]) @ ?c2 @ replicate (40 - ?n1 - ?n2) 0) 0 (Suc ?n1 + ?n2) s"
    using len a2 by (simp add: k_print_float_def float_to_int_eq(1) [OF assms(2,3)] temp(2)
        float_to_int_eq(1) [OF temp(3) small] difference_of_floor [OF assms] b1(1) b2(1) a1 dot del: append_assoc)
  also have "\<dots> = put_codes s (map char_code (?c1 @ 46 # ?c2 @ [0]))"
  proof -
    have n: "Suc ?n1 + ?n2 < length ((?c1 @ [46]) @ ?c2 @ replicate (40 - ?n1 - ?n2) 0)" using len by simp
    show ?thesis unfolding put_buffer_eq [OF n] drop_0 minus_nat.diff_0 shown ..
  qed
  finally show ?thesis
    by (simp add: float_text_def fraction_number_def temp(2) float_to_int_eq(3) [OF assms(2,3)] float_to_int_eq(3) [OF temp(3) small])
qed

section \<open>Properties\<close>

text \<open>
  C36. \<^verbatim>\<open>k_print_float\<close> for a float from 0 up to 2 to the 31: every access is inside of the three buffers and
  it prints the integral part in decimal, a point, a number \<open>f\<close> in decimal and the terminating zero of its
  buffer as one more character. The number \<open>f\<close> is the fraction times \<open>10 ^ n\<close>, where \<open>n\<close> is at most three and
  no smaller power of ten makes the fraction a whole number: with fewer than three digits \<open>f\<close> is that product up to an
  error below 1/100000, with three digits it is cut off, which with the rounding makes an error below 1.001 in the last
  digit. It is printed without leading zeros.
\<close>

theorem k_print_float_prints_decimals:
  assumes "is_single data" "0 \<le> data" "data < 2 ^ 31" "cursor_ok s"
  shows "\<exists>n f s'. n \<le> 3 \<and> f < 10 ^ n \<and> (\<forall>m < n. 10 ^ m * (data - of_int \<lfloor>data\<rfloor>) \<notin> \<int>) \<and>
    (if n < 3 then \<bar>of_nat f - 10 ^ n * (data - of_int \<lfloor>data\<rfloor>)\<bar> < 1 / 100000
     else - 1001 / 1000 < of_nat f - 10 ^ n * (data - of_int \<lfloor>data\<rfloor>) \<and>
       of_nat f - 10 ^ n * (data - of_int \<lfloor>data\<rfloor>) < 1 / 1000) \<and>
    k_print_float s data = Inr s' \<and> cursor_ok s' \<and>
    put_codes s (map char_code (decimal (nat \<lfloor>data\<rfloor>) @ 46 # decimal f @ [0])) = Inr s'"
proof -
  let ?t = "data - of_int \<lfloor>data\<rfloor>"
  have "0 \<le> ?t" "?t < 1" by linarith+
  from fraction_loop_result [OF is_single_parts(2) [OF assms(1,2)] this]
  obtain n temp where temp: "n \<le> 3" "fraction_loop ?t 3 = Inr temp" "0 \<le> temp" "temp < 10 ^ n"
    "\<bar>temp - 10 ^ n * ?t\<bar> < 1 / 1000" "n = 3 \<or> of_int \<lfloor>temp\<rfloor> = temp \<and> \<bar>temp - 10 ^ n * ?t\<bar> < 1 / 100000"
    "\<forall>m < n. 10 ^ m * ?t \<notin> \<int>" .
  obtain s' where s': "k_print_float s data = Inr s'" "cursor_ok s'"
    "put_codes s (map char_code (float_text data)) = Inr s'"
    using put_codes_ok [OF assms(4)] unfolding k_print_float_eq [OF assms(1-3)] by blast
  have f: "fraction_number ?t = nat \<lfloor>temp\<rfloor>" by (simp add: fraction_number_def temp(2))
  have val: "of_nat (nat \<lfloor>temp\<rfloor>) = (of_int \<lfloor>temp\<rfloor> :: rat)" using temp(3) by simp
  moreover have "of_int \<lfloor>temp\<rfloor> \<le> temp" "temp < of_int \<lfloor>temp\<rfloor> + 1" by linarith+
  ultimately have "- 1001 / 1000 < of_nat (nat \<lfloor>temp\<rfloor>) - 10 ^ n * ?t" "of_nat (nat \<lfloor>temp\<rfloor>) - 10 ^ n * ?t < 1 / 1000"
    using temp(5) unfolding abs_less_iff by linarith+
  moreover have "\<bar>of_nat (nat \<lfloor>temp\<rfloor>) - 10 ^ n * ?t\<bar> < 1 / 100000" if "n < 3"
    using temp(6) that unfolding val by auto
  moreover have "nat \<lfloor>temp\<rfloor> < 10 ^ n"
    using temp(3,4) by (simp add: nat_less_iff floor_less_iff)
  ultimately show ?thesis using temp(1,7) s' unfolding float_text_def f
    by (intro exI [of _ n] exI [of _ "nat \<lfloor>temp\<rfloor>"] exI [of _ s']) auto
qed

text \<open>For 17/16 the bounds leave one number: 62.\<close>

theorem k_print_float_prints_decimals_witness:
  "\<exists>s'. k_print_float \<lparr>video = replicate 4000 0, xpos = 0, ypos = 0, vga_index = 0\<rparr> (17 / 16) = Inr s' \<and>
    put_codes \<lparr>video = replicate 4000 0, xpos = 0, ypos = 0, vga_index = 0\<rparr>
      (map char_code [49, 46, 54, 50, 0]) = Inr s'"
proof -
  let ?s = "\<lparr>video = replicate 4000 0, xpos = 0, ypos = 0, vga_index = 0\<rparr>"
  have x: "is_single (17 / 16)" "0 \<le> (17 / 16 :: rat)" "17 / 16 < (2 ^ 31 :: rat)" "cursor_ok ?s"
    using is_single_fraction [of 17 4] by (simp_all add: cursor_ok_def COLUMNS_def LINES_def)
  have floor: "\<lfloor>17 / 16 :: rat\<rfloor> = 1" by (simp add: floor_eq_iff)
  have t: "17 / 16 - of_int \<lfloor>17 / 16 :: rat\<rfloor> = (1 / 16 :: rat)" unfolding floor by simp
  note result = k_print_float_prints_decimals [OF x, unfolded t]
  then obtain n f s' where r: "n \<le> 3 \<and> f < 10 ^ n \<and> (\<forall>m < n. 10 ^ m * (1 / 16) \<notin> (\<int> :: rat set)) \<and>
    (if n < 3 then \<bar>of_nat f - 10 ^ n * (1 / 16)\<bar> < (1 / 100000 :: rat)
     else - 1001 / 1000 < of_nat f - 10 ^ n * (1 / 16 :: rat) \<and> of_nat f - 10 ^ n * (1 / 16 :: rat) < 1 / 1000) \<and>
    k_print_float ?s (17 / 16) = Inr s' \<and> cursor_ok s' \<and>
    put_codes ?s (map char_code (decimal (nat \<lfloor>17 / 16 :: rat\<rfloor>) @ 46 # decimal f @ [0])) = Inr s'"
    by (elim exE)
  then have n: "n \<le> 3" "f < 10 ^ n" and s': "k_print_float ?s (17 / 16) = Inr s'"
    "put_codes ?s (map char_code (decimal (nat \<lfloor>17 / 16 :: rat\<rfloor>) @ 46 # decimal f @ [0])) = Inr s'"
    by (simp_all only: simp_thms)
  note near = r [THEN conjunct2, THEN conjunct2, THEN conjunct2, THEN conjunct1]
  consider "n = 0" | "n = 1" | "n = 2" | "n = 3" using n(1) by linarith
  then have "f = 62"
  proof cases
    case 4
    then have "of_nat 61 < (of_nat f :: rat)" "of_nat f < (of_nat 63 :: rat)" using near by simp_all
    then have "61 < f" "f < 63" by (simp_all only: of_nat_less_iff)
    then show ?thesis by simp
  next
    case 3
    then have "\<bar>of_nat f - 25 / 4\<bar> < (1 / 100000 :: rat)" using near by simp
    then have "of_nat 6 < (of_nat f :: rat)" "of_nat f < (of_nat 7 :: rat)" unfolding abs_less_iff by simp_all
    then have "6 < f" "f < 7" by (simp_all only: of_nat_less_iff)
    then show ?thesis by simp
  next
    case 2
    then have "\<bar>of_nat f - 5 / 8\<bar> < (1 / 100000 :: rat)" using near by simp
    then have "of_nat 0 < (of_nat f :: rat)" "of_nat f < (of_nat 1 :: rat)" unfolding abs_less_iff by simp_all
    then have "0 < f" "f < 1" by (simp_all only: of_nat_less_iff)
    then show ?thesis by simp
  next
    case 1
    then show ?thesis using near n(2) by simp
  qed
  moreover have "decimal (nat 1) @ 46 # decimal 62 @ [0] = [49, 46, 54, 50, 0]" by code_simp
  ultimately show ?thesis using s' unfolding floor by metis
qed

text \<open>So 17/16 = 1.0625 and 1.625 are printed as 1.62 and 1.625, and the float next to 1.05 as 1.49.\<close>

lemma leading_zeros_are_lost:
  "float_text (17 / 16) = [49, 46, 54, 50, 0]" "float_text (13 / 8) = [49, 46, 54, 50, 53, 0]"
  "float_text (round_single (105 / 100)) = [49, 46, 52, 57, 0]"
  by code_simp+

end
