(* ===== verification/Memory_Dump.thy ===== *)
theory Memory_Dump
  imports Float_Output Placement_Memory
begin

text \<open>
  The routines that print through \<^verbatim>\<open>k_printf\<close>: \<^verbatim>\<open>k_dump_free_memory_map\<close> of \<^verbatim>\<open>placement_memory.c\<close> and
  \<^verbatim>\<open>panic\<close> of \<^verbatim>\<open>common.c\<close>.

  String literals are printed with \<open>print_format\<close>; \<open>strings\<close> gives the string at an
  address and \<open>address_of\<close> the address of a literal that is passed for \<^verbatim>\<open>%s\<close>. A 64-bit argument takes two
  words of the stack, the low one first. \<open>buf\<close> is the uninitialised conversion buffer of \<^verbatim>\<open>k_printf\<close>.
\<close>

section \<open>The free memory areas\<close>

definition double_word :: "u64 \<Rightarrow> u32 list" where
  "double_word x = [ucast x, ucast (drop_bit 32 x)]"

text \<open>\<^verbatim>\<open>if (size >= 1024.0f) { size /= 1024.0f; unit = ...; }\<close>, three times.\<close>

definition next_unit :: "string \<Rightarrow> single \<times> string \<Rightarrow> single \<times> string" where
  "next_unit larger = (\<lambda>(size, unit). if 1024 \<le> size then (fdiv size 1024, larger) else (size, unit))"

definition size_and_unit :: "single \<Rightarrow> single \<times> string" where
  "size_and_unit x = next_unit ''GB'' (next_unit ''MB'' (next_unit ''KB'' (x, ''B'')))"

function dump_areas_loop ::
    "(u32 \<Rightarrow> u8 list) \<Rightarrow> (string \<Rightarrow> u32) \<Rightarrow> u8 list \<Rightarrow> placement \<Rightarrow> nat \<Rightarrow> console \<Rightarrow> console result" where
  "dump_areas_loop strings address_of buf p i s =
     (if i < free_memory_area_index p then
        and_then (rd (free_memory_areas p) i) (\<lambda>area.
        let last_address = (if 0 < area_size area then area_start area + area_size area - 1 else 0);
            (size, unit) = size_and_unit (float_of (uint (area_size area)))
        in
        and_then (print_format strings buf ''[%d, '' (double_word (area_start area)) s) (\<lambda>s1.
        and_then (print_format strings buf ''%d] '' (double_word last_address) s1) (\<lambda>s2.
        and_then (k_print_float s2 size) (\<lambda>s3.
        and_then (print_format strings buf (''%s'' @ [CHR 0x0A]) [address_of unit] s3) (\<lambda>s4.
        dump_areas_loop strings address_of buf p (Suc i) s4)))))
      else Inr s)"
  by pat_completeness auto
termination
  by (relation "measure (\<lambda>(strings, address_of, buf, p, i, s). free_memory_area_index p - i)") auto

declare dump_areas_loop.simps [simp del]

definition k_dump_free_memory_map ::
    "(u32 \<Rightarrow> u8 list) \<Rightarrow> (string \<Rightarrow> u32) \<Rightarrow> u8 list \<Rightarrow> placement \<Rightarrow> console \<Rightarrow> console result" where
  "k_dump_free_memory_map strings address_of buf p s =
     and_then (print_format strings buf (''Free Memory Areas:'' @ [CHR 0x0A]) [] s) (\<lambda>s1.
     dump_areas_loop strings address_of buf p 0 s1)"

section \<open>Stopping the system\<close>

text \<open>\<^verbatim>\<open>for (;;);\<close>\<close>

partial_function (option) endless_loop :: "console \<Rightarrow> console result option" where
  "endless_loop s = endless_loop s"

lemma endless_loop_None: "endless_loop s = None"
proof (rule ccontr)
  assume "endless_loop s \<noteq> None"
  then obtain r where "endless_loop s = Some r" by auto
  then show False by (rule endless_loop.raw_induct [rotated, where P = "\<lambda>_ _. False"])
qed

text \<open>What \<^verbatim>\<open>panic\<close> prints before its loop; \<open>message\<close> and \<open>file\<close> are the addresses of strings.\<close>

definition panic_output ::
    "(u32 \<Rightarrow> u8 list) \<Rightarrow> u8 list \<Rightarrow> u32 \<Rightarrow> u32 \<Rightarrow> u32 \<Rightarrow> console \<Rightarrow> console result" where
  "panic_output strings buf message file line s =
     and_then (print_format strings buf ''PANIC('' [] s) (\<lambda>s1.
     and_then (print_format strings buf ''%s'' [message] s1) (\<lambda>s2.
     and_then (print_format strings buf '') at '' [] s2) (\<lambda>s3.
     and_then (print_format strings buf ''%s'' [file] s3) (\<lambda>s4.
     and_then (print_format strings buf '':'' [] s4) (\<lambda>s5.
     and_then (print_format strings buf ''%d'' [line] s5) (\<lambda>s6.
     print_format strings buf [CHR 0x0A] [] s6))))))"

definition panic ::
    "(u32 \<Rightarrow> u8 list) \<Rightarrow> u8 list \<Rightarrow> u32 \<Rightarrow> u32 \<Rightarrow> u32 \<Rightarrow> console \<Rightarrow> console result option" where
  "panic strings buf message file line s =
     and_run (Some (panic_output strings buf message file line s)) endless_loop"

section \<open>The text of a float\<close>

lemma print_float_shows:
  assumes "cursor_ok s" "is_single x" "0 \<le> x" "x < 2 ^ 31"
  obtains s' where "k_print_float s x = Inr s'" "cursor_ok s'" "shows_text s (map char_code (float_text x)) s'"
proof -
  obtain s' where "put_codes s (map char_code (float_text x)) = Inr s'" "shows_text s (map char_code (float_text x)) s'"
    using shows_textI [OF assms(1), of "vga_index s"] by auto
  then show thesis using that k_print_float_eq [OF assms(2-4), of s] by (simp add: shows_text_def)
qed

section \<open>The line of an area\<close>

definition units :: "string list" where
  "units = [''B'', ''KB'', ''MB'', ''GB'']"

text \<open>The unit of a size, as an exponent of 1024.\<close>

definition unit_index :: "single \<Rightarrow> nat" where
  "unit_index x = (if x < 1024 then 0 else if x < 1024 ^ 2 then 1 else if x < 1024 ^ 3 then 2 else 3)"

lemma fdiv_1024:
  assumes "is_single (of_int j)" "k \<le> 10"
  shows "fdiv (of_int j / 1024 ^ k) 1024 = of_int j / 1024 ^ Suc k"
proof -
  have eq: "(1024 :: rat) ^ Suc k = 2 ^ (10 * Suc k)" by (simp only: power_mult) simp
  have "of_int j / 1024 ^ k / 1024 = of_int j / (1024 ^ Suc k :: rat)" by simp
  moreover have "is_single (of_int j / 1024 ^ Suc k)" unfolding eq by (rule is_single_scale [OF assms(1)]) (use assms(2) in simp)
  ultimately show ?thesis unfolding fdiv_def by (simp only: round_exact)
qed

lemma size_and_unit_eq:
  assumes "is_single x" "x = of_int j" "0 \<le> x"
  shows "size_and_unit x = (x / 1024 ^ unit_index x, units ! unit_index x)"
proof -
  have d: "fdiv x 1024 = x / 1024" "fdiv (x / 1024) 1024 = x / 1048576" "fdiv (x / 1048576) 1024 = x / 1073741824"
    using fdiv_1024 [of j 0] fdiv_1024 [of j 1] fdiv_1024 [of j 2] assms(1,2) by (simp_all add: numeral_eq_Suc)
  have less: "1024 \<le> x / 1024 \<longleftrightarrow> 1048576 \<le> x" "1024 \<le> x / 1048576 \<longleftrightarrow> 1073741824 \<le> x"
    by (simp_all add: le_divide_eq)
  consider "x < 1024" | "1024 \<le> x" "x < 1024 ^ 2" | "1024 ^ 2 \<le> x" "x < 1024 ^ 3" | "1024 ^ 3 \<le> x" by linarith
  then show ?thesis
    by cases (simp_all add: size_and_unit_def next_unit_def unit_index_def units_def d less not_le)
qed

definition last_address :: "memory_area \<Rightarrow> u64" where
  "last_address a = (if 0 < area_size a then area_start a + area_size a - 1 else 0)"

text \<open>
  The line of an area: the low words of its first and last address as signed numbers, and its size,
  rounded to a float and divided by a power of 1024, with the unit.
\<close>

definition area_line :: "memory_area \<Rightarrow> u8 list" where
  "area_line a =
     (let x = float_of (uint (area_size a)) in
      91 # itoa_text CHR_d (ucast (area_start a)) @ [44, 32] @ itoa_text CHR_d (ucast (last_address a)) @ [93, 32] @
      float_text (x / 1024 ^ unit_index x) @ bytes_of (units ! unit_index x) @ [10])"

definition plain :: "string \<Rightarrow> bool" where
  "plain fmt \<longleftrightarrow> 37 \<notin> set (bytes_of fmt) \<and> 0 \<notin> set (bytes_of fmt)"

lemma plain_formats:
  "plain (''Free Memory Areas:'' @ [CHR 0x0A])" "plain ''PANIC(''" "plain '') at ''" "plain '':''" "plain [CHR 0x0A]"
  by (simp_all add: plain_def bytes_of_def char_code_def CHR_percent_def)

lemma print_plain_shows:
  assumes "cursor_ok s" "12 \<le> length buf" "plain fmt"
  obtains s' where "print_format strings buf fmt args s = Inr s'" "cursor_ok s'"
    "shows_text s (map char_code (bytes_of fmt)) s'"
  using print_format_shows [OF assms(1) render_plain _ assms(2)] assms(3) unfolding plain_def by blast

text \<open>The format of a single string or number.\<close>

lemma print_string_shows:
  assumes "cursor_ok s" "12 \<le> length buf" "arg \<noteq> 0"
  obtains s' where "print_format strings buf ''%s'' [arg] s = Inr s'" "cursor_ok s'"
    "shows_text s (map char_code (strings arg)) s'"
proof (rule print_format_shows [OF assms(1) _ _ assms(2)])
  show "render strings (bytes_of ''%s'') [arg] = Some (map char_code (strings arg))"
    using assms(3) by (simp add: bytes_of_def char_code_def CHR_percent_def CHR_d_def CHR_s_def CHR_u_def CHR_x_def)
qed (simp_all add: bytes_of_def that)

lemma print_number_shows:
  assumes "cursor_ok s" "12 \<le> length buf"
  obtains s' where "print_format strings buf ''%d'' [arg] s = Inr s'" "cursor_ok s'"
    "shows_text s (map char_code (itoa_text CHR_d arg)) s'"
proof (rule print_format_shows [OF assms(1) _ _ assms(2)])
  show "render strings (bytes_of ''%d'') [arg] = Some (map char_code (itoa_text CHR_d arg))"
    by (simp add: bytes_of_def char_code_def CHR_percent_def CHR_d_def)
qed (simp_all add: bytes_of_def that)

lemma bytes_of_append: "bytes_of (cs @ ds) = bytes_of cs @ bytes_of ds"
  by (simp add: bytes_of_def)

lemma formats:
  "bytes_of ''[%d, '' = [91, 37, 100, 44, 32]" "bytes_of ''%d] '' = [37, 100, 93, 32]"
  "bytes_of (''%s'' @ [CHR 0x0A]) = [37, 115, 10]"
  by code_simp+

lemma format_codes:
  "char_code 91 = 91" "char_code 37 = CHR_percent" "char_code 100 = CHR_d" "char_code 44 = 44" "char_code 32 = 32"
  "char_code 93 = 93" "char_code 115 = CHR_s" "char_code 10 = 10"
  "91 \<noteq> CHR_percent" "44 \<noteq> CHR_percent" "32 \<noteq> CHR_percent" "93 \<noteq> CHR_percent" "10 \<noteq> CHR_percent"
  "CHR_s \<noteq> CHR_d" "CHR_s \<noteq> CHR_u" "CHR_s \<noteq> CHR_x"
  by (simp_all add: char_code_def CHR_percent_def CHR_d_def CHR_s_def CHR_u_def CHR_x_def)

lemma render_area:
  "render strings (bytes_of ''[%d, '') (double_word x) =
    Some (map char_code (91 # itoa_text CHR_d (ucast x) @ [44, 32]))"
  "render strings (bytes_of ''%d] '') (double_word x) =
    Some (map char_code (itoa_text CHR_d (ucast x) @ [93, 32]))"
  by (simp_all add: formats format_codes double_word_def)

lemma render_unit:
  assumes "address_of u \<noteq> 0" "strings (address_of u) = bytes_of u"
  shows "render strings (bytes_of (''%s'' @ [CHR 0x0A])) [address_of u] = Some (map char_code (bytes_of u @ [10]))"
  unfolding formats using assms by (simp add: format_codes)

lemma area_size_float:
  fixes a :: memory_area
  assumes "area_size a < 2 ^ 60"
  defines "x \<equiv> float_of (uint (area_size a))"
  shows "size_and_unit x = (x / 1024 ^ unit_index x, units ! unit_index x)" "is_single (x / 1024 ^ unit_index x)"
    "0 \<le> x / 1024 ^ unit_index x" "x / 1024 ^ unit_index x < 2 ^ 31"
proof -
  have small: "0 \<le> uint (area_size a)" "uint (area_size a) < 2 ^ 60"
    using assms(1) by (simp_all add: word_less_alt)
  obtain j where j: "x = of_int j" unfolding x_def by (rule float_of_integer [of "uint (area_size a)"]) (use small in simp)
  have x: "is_single x" "0 \<le> x" "x < 2 ^ 61"
    using float_of_bound [OF small] unfolding x_def by (simp_all add: float_of_def is_single_round)
  show "size_and_unit x = (x / 1024 ^ unit_index x, units ! unit_index x)"
    by (rule size_and_unit_eq [OF x(1) j x(2)])
  show "0 \<le> x / 1024 ^ unit_index x" using x(2) by simp
  show "x / 1024 ^ unit_index x < 2 ^ 31" using x(3) by (simp add: unit_index_def)
  have "(1024 :: rat) ^ unit_index x = 2 ^ (10 * unit_index x)" by (simp add: power_mult)
  moreover have "10 * unit_index x \<le> 149" by (simp add: unit_index_def)
  ultimately show "is_single (x / 1024 ^ unit_index x)"
    using is_single_scale [of j "10 * unit_index x"] x(1) j by simp
qed

lemma dump_area_shows:
  assumes "cursor_ok s" "12 \<le> length buf" "area_size a < 2 ^ 60"
    and "\<forall>u \<in> set units. address_of u \<noteq> 0 \<and> strings (address_of u) = bytes_of u"
    and "i < free_memory_area_index p" "i < length (free_memory_areas p)" "a = free_memory_areas p ! i"
  obtains s' where "dump_areas_loop strings address_of buf p i s = dump_areas_loop strings address_of buf p (Suc i) s'"
    "cursor_ok s'" "shows_text s (map char_code (area_line a)) s'"
proof -
  let ?x = "float_of (uint (area_size a))"
  let ?u = "units ! unit_index ?x"
  note size = area_size_float [OF assms(3)]
  have "?u \<in> set units" by (rule nth_mem) (simp add: unit_index_def units_def)
  then have u: "address_of ?u \<noteq> 0" "strings (address_of ?u) = bytes_of ?u" using assms(4) by simp_all
  obtain s1 where s1: "print_format strings buf ''[%d, '' (double_word (area_start a)) s = Inr s1" "cursor_ok s1"
    "shows_text s (map char_code (91 # itoa_text CHR_d (ucast (area_start a)) @ [44, 32])) s1"
    by (rule print_format_shows [OF assms(1) render_area(1) _ assms(2)]) (auto simp: formats)
  obtain s2 where s2: "print_format strings buf ''%d] '' (double_word (last_address a)) s1 = Inr s2" "cursor_ok s2"
    "shows_text s1 (map char_code (itoa_text CHR_d (ucast (last_address a)) @ [93, 32])) s2"
    by (rule print_format_shows [OF s1(2) render_area(2) _ assms(2)]) (auto simp: formats)
  obtain s3 where s3: "k_print_float s2 (?x / 1024 ^ unit_index ?x) = Inr s3" "cursor_ok s3"
    "shows_text s2 (map char_code (float_text (?x / 1024 ^ unit_index ?x))) s3"
    by (rule print_float_shows [OF s2(2) size(2-4)])
  obtain s4 where s4: "print_format strings buf (''%s'' @ [CHR 0x0A]) [address_of ?u] s3 = Inr s4" "cursor_ok s4"
    "shows_text s3 (map char_code (bytes_of ?u @ [10])) s4"
    by (rule print_format_shows [OF s3(2) render_unit [of address_of ?u strings, OF u] _ assms(2)])
      (use formats(3) in auto)
  have "dump_areas_loop strings address_of buf p i s = dump_areas_loop strings address_of buf p (Suc i) s4"
    using assms(5-7) s1(1) s2(1) s3(1) s4(1) size(1)
    by (subst dump_areas_loop.simps) (simp add: last_address_def [symmetric] Let_def)
  moreover have "shows_text s (map char_code (area_line a)) s4"
    using shows_text_trans [OF shows_text_trans [OF shows_text_trans [OF s1(3) s2(3)] s3(3)] s4(3)]
    by (simp add: area_line_def Let_def)
  ultimately show thesis using s4(2) that by blast
qed

lemma dump_loop_shows:
  assumes "cursor_ok s" "12 \<le> length buf" "free_memory_area_index p \<le> length (free_memory_areas p)"
    and "\<forall>a \<in> set (take (free_memory_area_index p) (free_memory_areas p)). area_size a < 2 ^ 60"
    and "\<forall>u \<in> set units. address_of u \<noteq> 0 \<and> strings (address_of u) = bytes_of u"
    and "i \<le> free_memory_area_index p"
  shows "\<exists>s'. dump_areas_loop strings address_of buf p i s = Inr s' \<and> cursor_ok s' \<and>
    shows_text s (map char_code (concat (map area_line (drop i (take (free_memory_area_index p) (free_memory_areas p)))))) s'"
  using assms(1,6)
proof (induction "free_memory_area_index p - i" arbitrary: i s)
  case 0
  then show ?case by (subst dump_areas_loop.simps) (simp add: shows_text_Nil)
next
  case (Suc n)
  let ?as = "take (free_memory_area_index p) (free_memory_areas p)"
  have i: "i < free_memory_area_index p" "i < length (free_memory_areas p)" using Suc.hyps(2) assms(3) by simp_all
  have "?as ! i \<in> set ?as" using i by (intro nth_mem) simp
  then have a: "area_size (free_memory_areas p ! i) < 2 ^ 60" using assms(4) i by auto
  obtain t where t: "dump_areas_loop strings address_of buf p i s = dump_areas_loop strings address_of buf p (Suc i) t"
    "cursor_ok t" "shows_text s (map char_code (area_line (free_memory_areas p ! i))) t"
    by (rule dump_area_shows [OF Suc.prems(1) assms(2) a assms(5) i refl])
  obtain s' where s': "dump_areas_loop strings address_of buf p (Suc i) t = Inr s'" "cursor_ok s'"
    "shows_text t (map char_code (concat (map area_line (drop (Suc i) ?as)))) s'"
    using Suc.hyps(1) [of "Suc i", OF _ t(2)] Suc.hyps(2) i(1) by (metis Suc_leI diff_Suc_Suc Suc_diff_Suc nat.inject)
  have "drop i ?as = free_memory_areas p ! i # drop (Suc i) ?as"
    using i by (simp add: Cons_nth_drop_Suc [symmetric])
  then show ?case using t(1) s'(1,2) shows_text_trans [OF t(3) s'(3)] by simp
qed

text \<open>A screen and addresses of the units, for the witnesses.\<close>

definition example_screen :: console where
  "example_screen = \<lparr>video = replicate 4000 0, xpos = 0, ypos = 0, vga_index = 0\<rparr>"

definition example_address :: "string \<Rightarrow> u32" where
  "example_address u = of_char (hd u)"

definition example_strings :: "u32 \<Rightarrow> u8 list" where
  "example_strings a = (if a = 66 then [66] else [ucast a, 66])"

section \<open>Properties\<close>

text \<open>
  C37. \<^verbatim>\<open>k_dump_free_memory_map\<close> for areas below 2 to the 60 bytes returns without a fault and prints a heading
  and one line per live area. A line has the low words of the first and the last address as signed decimal
  numbers, so addresses from 2 GiB on are shown wrongly, and the size as \<^verbatim>\<open>k_print_float\<close> shows it: the size
  rounded to 24 significant bits, divided (exactly) by the largest power of 1024 that does not exceed it, with
  the unit for that power.
\<close>

theorem dump_shows_areas:
  assumes "cursor_ok s" "12 \<le> length buf" "free_memory_area_index p \<le> length (free_memory_areas p)"
    and "\<forall>a \<in> set (take (free_memory_area_index p) (free_memory_areas p)). area_size a < 2 ^ 60"
    and "\<forall>u \<in> set units. address_of u \<noteq> 0 \<and> strings (address_of u) = bytes_of u"
  shows "\<exists>s'. k_dump_free_memory_map strings address_of buf p s = Inr s' \<and> cursor_ok s' \<and>
    shows_text s (map char_code (bytes_of (''Free Memory Areas:'' @ [CHR 0x0A]) @
      concat (map area_line (take (free_memory_area_index p) (free_memory_areas p))))) s'"
proof -
  let ?h = "''Free Memory Areas:'' @ [CHR 0x0A]"
  obtain s1 where s1: "print_format strings buf ?h [] s = Inr s1" "cursor_ok s1"
    "shows_text s (map char_code (bytes_of ?h)) s1"
    by (rule print_plain_shows [OF assms(1,2) plain_formats(1)])
  obtain s' where s': "dump_areas_loop strings address_of buf p 0 s1 = Inr s'" "cursor_ok s'"
    "shows_text s1 (map char_code (concat (map area_line (drop 0 (take (free_memory_area_index p) (free_memory_areas p)))))) s'"
    using dump_loop_shows [OF s1(2) assms(2-5), of 0] by blast
  have "k_dump_free_memory_map strings address_of buf p s = Inr s'"
    using s1(1) s'(1) unfolding k_dump_free_memory_map_def by (simp only: and_then_Inr)
  then show ?thesis
    using s'(2) shows_text_trans [OF s1(3) s'(3)] unfolding map_append drop_0 by blast
qed

theorem dump_shows_areas_witness:
  "\<exists>s'. k_dump_free_memory_map example_strings example_address (replicate 20 0)
      \<lparr>free_memory_areas = [\<lparr>area_start = 0x100000, area_size = 0x180000\<rparr>], free_memory_area_index = 1\<rparr>
      example_screen = Inr s' \<and>
    shows_text example_screen (map char_code (bytes_of (''Free Memory Areas:'' @ [CHR 0x0A]) @
      bytes_of ''[1048576, 2621439] 1.5'' @ 0 # bytes_of (''MB'' @ [CHR 0x0A]))) s'"
proof -
  let ?a = "\<lparr>area_start = 0x100000, area_size = 0x180000\<rparr> :: memory_area"
  let ?p = "\<lparr>free_memory_areas = [?a], free_memory_area_index = 1\<rparr>"
  have line: "area_line ?a = bytes_of ''[1048576, 2621439] 1.5'' @ 0 # bytes_of (''MB'' @ [CHR 0x0A])"
  proof -
    have "float_of 1572864 = 1572864" using round_int_exact [of 1572864] by (simp add: float_of_def)
    moreover have "float_text (3 / 2) = [49, 46, 53, 0]" by code_simp
    ultimately show ?thesis
      by (simp add: area_line_def last_address_def unit_index_def units_def itoa_text_def CHR_d_def CHR_x_def
          divisor_of_def digits_of.simps digit_text_def digit_char_def bytes_of_def)
  qed
  have live: "take (free_memory_area_index ?p) (free_memory_areas ?p) = [?a]" by simp
  have all: "concat (map area_line [?a]) = area_line ?a" by (simp only: list.map concat.simps append_Nil2)
  have ok: "cursor_ok example_screen" by (simp add: cursor_ok_def example_screen_def COLUMNS_def LINES_def)
  have units: "\<forall>u \<in> set units. example_address u \<noteq> 0 \<and> example_strings (example_address u) = bytes_of u"
    by (simp add: units_def example_address_def example_strings_def bytes_of_def)
  have "12 \<le> length (replicate 20 (0 :: u8))" "free_memory_area_index ?p \<le> length (free_memory_areas ?p)"
    "\<forall>a \<in> set (take (free_memory_area_index ?p) (free_memory_areas ?p)). area_size a < 2 ^ 60" by simp_all
  from dump_shows_areas [OF ok this units] show ?thesis unfolding live all line by blast
qed

text \<open>
  \<^verbatim>\<open>panic\<close> never returns; before its endless loop it has printed the message, the file and the line (as a
  signed number).
\<close>

theorem panic_prints_and_halts:
  assumes "cursor_ok s" "12 \<le> length buf" "message \<noteq> 0" "file \<noteq> 0"
  shows "panic strings buf message file line s = None \<and>
    (\<exists>s'. panic_output strings buf message file line s = Inr s' \<and>
      shows_text s (map char_code (bytes_of ''PANIC('' @ strings message @ bytes_of '') at '' @ strings file @
        bytes_of '':'' @ itoa_text CHR_d line @ [10])) s')"
proof -
  obtain s1 where s1: "print_format strings buf ''PANIC('' [] s = Inr s1" "cursor_ok s1"
    "shows_text s (map char_code (bytes_of ''PANIC('')) s1"
    by (rule print_plain_shows [OF assms(1,2) plain_formats(2)])
  obtain s2 where s2: "print_format strings buf ''%s'' [message] s1 = Inr s2" "cursor_ok s2"
    "shows_text s1 (map char_code (strings message)) s2" by (rule print_string_shows [OF s1(2) assms(2,3)])
  obtain s3 where s3: "print_format strings buf '') at '' [] s2 = Inr s3" "cursor_ok s3"
    "shows_text s2 (map char_code (bytes_of '') at '')) s3"
    by (rule print_plain_shows [OF s2(2) assms(2) plain_formats(3)])
  obtain s4 where s4: "print_format strings buf ''%s'' [file] s3 = Inr s4" "cursor_ok s4"
    "shows_text s3 (map char_code (strings file)) s4" by (rule print_string_shows [OF s3(2) assms(2,4)])
  obtain s5 where s5: "print_format strings buf '':'' [] s4 = Inr s5" "cursor_ok s5"
    "shows_text s4 (map char_code (bytes_of '':'')) s5"
    by (rule print_plain_shows [OF s4(2) assms(2) plain_formats(4)])
  obtain s6 where s6: "print_format strings buf ''%d'' [line] s5 = Inr s6" "cursor_ok s6"
    "shows_text s5 (map char_code (itoa_text CHR_d line)) s6" by (rule print_number_shows [OF s5(2) assms(2)])
  obtain s7 where s7: "print_format strings buf [CHR 0x0A] [] s6 = Inr s7" "cursor_ok s7"
    "shows_text s6 (map char_code (bytes_of [CHR 0x0A])) s7"
    by (rule print_plain_shows [OF s6(2) assms(2) plain_formats(5)])
  have out: "panic_output strings buf message file line s = Inr s7"
    unfolding panic_output_def s1(1) s2(1) s3(1) s4(1) s5(1) s6(1) s7(1) and_then_Inr ..
  moreover have "bytes_of [CHR 0x0A] = [10]" by code_simp
  ultimately have "shows_text s (map char_code (bytes_of ''PANIC('' @ strings message @ bytes_of '') at '' @ strings file @
      bytes_of '':'' @ itoa_text CHR_d line @ [10])) s7"
    using shows_text_trans [OF s1(3) shows_text_trans [OF s2(3) shows_text_trans [OF s3(3) shows_text_trans [OF s4(3)
      shows_text_trans [OF s5(3) shows_text_trans [OF s6(3) s7(3)]]]]]] by (simp only: map_append)
  moreover have "panic strings buf message file line s = None"
    using out by (simp add: panic_def endless_loop_None)
  ultimately show ?thesis using out by blast
qed

theorem panic_prints_and_halts_witness:
  "panic (\<lambda>_. [33]) (replicate 20 0) 1 2 3 example_screen = None \<and>
    (\<exists>s'. panic_output (\<lambda>_. [33]) (replicate 20 0) 1 2 3 example_screen = Inr s')"
  using panic_prints_and_halts [of example_screen "replicate 20 0" 1 2 "\<lambda>_. [33]" 3]
  by (auto simp: cursor_ok_def example_screen_def COLUMNS_def LINES_def)

end
