(* ===== verification/Spec2Isabelle.thy ===== *)
theory Spec2Isabelle
  imports Bitmap Memory_Map Shuffle Descriptor_Tables Bytes Interrupts Paging_Correct Heap_Bounds
    Kernel_Tests Kernel_Paging Placement_Tests Bitmap_Tests Sort_Tests Memory_Dump
begin

text \<open>
  A model and a verification of a small 32-bit x86 kernel that GRUB loads (C sources under \<^verbatim>\<open>src/\<close>).

  \<^bold>\<open>The program.\<close> \<^verbatim>\<open>main\<close> (\<^verbatim>\<open>kernel.c\<close>) sets up the descriptor tables (\<^verbatim>\<open>descriptor_tables.c\<close>) and the
  screen (\<^verbatim>\<open>common.c\<close>), reads the memory map of the boot loader (\<^verbatim>\<open>memory_map.c\<close>) into a table of free memory
  areas (\<^verbatim>\<open>placement_memory.c\<close>), reserves the first 40 MiB, allocates 5 MiB of placement memory out of the
  table, marks the page frames of the first 45 MiB in a bitmap (\<^verbatim>\<open>bitmap.c\<close>) and enumerates the PCI bus to
  start a network card (\<^verbatim>\<open>pci/pci.c\<close>). Further routines, which \<^verbatim>\<open>main\<close> calls in some of its versions, turn
  paging on with tables in the placement memory (\<^verbatim>\<open>paging_setup\<close>), map pages on page faults with frames of
  the bitmap (\<^verbatim>\<open>paging.c\<close>, dispatched by \<^verbatim>\<open>isr.c\<close>), run a buddy allocator above \<^verbatim>\<open>sbrk\<close>
  (\<^verbatim>\<open>heap_buddy_system_evanw.c\<close>) and keep linked lists in its blocks (\<^verbatim>\<open>collections/linked_list.c\<close>).

  \<^bold>\<open>The theories.\<close>

  \<^item> \<open>Prelude\<close>: the machine words, the faults, checked array access, sequencing of steps that fail
    (\<open>and_then\<close>) or may not return (\<open>and_run\<close>), lemmas on words and bits.
  \<^item> \<open>Bitmap\<close>: \<^verbatim>\<open>bitmap.c\<close>; abstraction to the set of used frames, and the locale \<open>frame_pool\<close> of a pool
    of frames, through which the paging theories use it.
  \<^item> \<open>Placement_Memory\<close>: all routines of \<^verbatim>\<open>placement_memory.c\<close> but the printing one. \<open>Placement_Correct\<close>
    and \<open>Placement_Insert\<close>: the invariant (sorted disjoint areas, zero slots behind) and the effect of
    each routine on the set of free addresses. \<open>Placement\<close>: the locale of an allocator of intervals,
    its runs, and the properties. \<open>Placement_Tests\<close>: the unit tests of \<^verbatim>\<open>placement_memory_test.c\<close>, which
    pass on the model. \<open>Placement_Bounds\<close>: the accesses stay inside of the table, whatever it contains.
  \<^item> \<open>Multiboot\<close>, \<open>Memory_Map\<close>: the structures the boot loader leaves in memory and the walks over them.
  \<^item> \<open>Descriptor_Tables\<close>, \<open>Interrupts\<close>: the two tables with decoders for what the processor reads, and the
    dispatch of interrupts to registered handlers.
  \<^item> \<open>Console\<close>, \<open>Console_Correct\<close>: \<^verbatim>\<open>k_putchar\<close>, \<^verbatim>\<open>k_itoa\<close>, \<^verbatim>\<open>k_printf\<close> on the video memory, and the text they show.
    \<open>Single\<close>: single-precision floats, as rational numbers with rounding. \<open>Float_Output\<close>: \<^verbatim>\<open>k_print_float\<close>.
    \<open>Memory_Dump\<close>: \<^verbatim>\<open>k_dump_free_memory_map\<close> and \<^verbatim>\<open>panic\<close>. \<open>Bytes\<close>: the string routines. \<open>Ports\<close>: port instructions over an
    arbitrary bus, and messages printed on the screen.
  \<^item> \<open>Paging\<close>, \<open>Paging_Correct\<close>: \<^verbatim>\<open>paging.c\<close> on physical memory with the translation of the processor; the
    invariant of the tables and the effect of page faults. \<open>Paging_Setup\<close>: \<^verbatim>\<open>paging_setup\<close>, which
    establishes that invariant, and \<^verbatim>\<open>paging_tests\<close> with its faulting accesses.
  \<^item> \<open>Linked_Rings\<close>, \<open>Buddy_Nodes\<close>, \<open>Buddy_Heap\<close>, \<open>Buddy_State\<close>, \<open>Buddy_Tree\<close>, \<open>Buddy_Correct\<close>, \<open>Heap\<close>,
    \<open>Heap_Runs\<close>, \<open>Heap_Bounds\<close>: the buddy allocator. \<open>Buddy_Heap\<close> is the code over a memory of words (free lists are
    rings in that memory) and the bits of the split nodes; the others relate it to the set of live nodes
    of a binary tree and follow runs of \<^verbatim>\<open>malloc\<close>, \<^verbatim>\<open>free\<close> and writes of a client; \<open>Heap_Bounds\<close> shows
    that the calls write the list heads and the memory below the break only.
  \<^item> \<open>Allocator\<close>: the locale of what a data structure needs from an allocator, interpreted on the heap.
    \<open>Linked_List\<close>: \<^verbatim>\<open>linked_list.c\<close>, verified on that interface.
  \<^item> \<open>PCI\<close>, \<open>PCI_Correct\<close>: \<^verbatim>\<open>pci.c\<close> over the port bus; what it does on hardware that follows the
    documented configuration mechanism, and for any hardware its accesses, and that it has no fault.
  \<^item> \<open>Sort\<close>, \<open>Random_Numbers\<close>, \<open>Shuffle\<close>: the sort routines, which compute the address of an element by a 32-bit
    product, with the locale of their callbacks, the generator and
    the instructions it starts from, and \<^verbatim>\<open>shuffle\<close> with its floating point indices.
  \<^item> \<open>Assertions\<close>, \<open>Bitmap_Tests\<close>, \<open>Sort_Tests\<close>: the unit tests of \<^verbatim>\<open>bitmap_test.c\<close>, which pass, and those of
    \<^verbatim>\<open>sort_test.c\<close> and \<^verbatim>\<open>random_test.c\<close>, with the processors on which they pass.
  \<^item> \<open>Kernel\<close>: \<^verbatim>\<open>main\<close>. \<open>Kernel_Bounds\<close>: no access of \<^verbatim>\<open>main\<close> is out of bounds. \<open>Kernel_Paging\<close>: paging on the machine
    that \<^verbatim>\<open>main\<close> leaves. \<open>Kernel_Tests\<close>: \<^verbatim>\<open>linked_list_test\<close> and \<^verbatim>\<open>factorial\<close>.

  \<^bold>\<open>Conventions.\<close> Unsigned C integers are words of their width; \<^verbatim>\<open>int\<close> answers are \<open>int\<close>. A struct is a
  record, the global variables of a file are the record of its state, passed and returned. An access
  outside of an array, a division by zero, an access to an unmapped address, the conversion of a float to an
  integer type that cannot hold it, the address of no whole element, an expression without a defined order are values \<open>Inl\<close>; a call that
  does not return is \<open>None\<close>. So \<open>Some (Inr x)\<close> in a theorem says that the call returns, with no fault.
  Loops are recursive functions; those that may run forever (the walk over the memory map, the search
  for a bucket, quicksort, the lists, waiting for the card, a page fault that is not repaired) are
  partial functions, with theorems that say when they return. No fuel is used.

  \<^bold>\<open>The properties\<close> are of these groups: the blocks that the two allocators hand out are free, large enough
  and never overlap, in any run (\<open>Heap_Runs\<close>, \<open>Placement\<close>); every call of the heap returns
  and changes no word outside of the heap (\<open>Heap_Bounds\<close>); each routine of
  the table of areas and of the bitmap is an operation on a set; the memory map is read right within stated
  bounds; page faults map distinct pages to distinct fresh frames; the set-up of paging yields the stated
  translation and makes the self-test pass; the lists hold their payloads in order; the text shown is the
  text of the format; sorting sorts and returns, shuffling rearranges; \<^verbatim>\<open>main\<close> composes the parts, stays inside of its arrays, and
  leaves a machine on which paging works. Some properties state behaviour
  that differs from the intention (a block inserted into a gap is lost, a frame leaks, the last page of
  4 MiB is not identity-mapped, the last PCI function decides); they are marked in their texts.

  \<^bold>\<open>Not modelled.\<close> The assembler files and the instructions that load the tables; \<^verbatim>\<open>initialize_page_directory\<close> (an empty body);
  infinities and the sign of zero of floats, which the code does not produce; what
  the test library does with the unit tests; the translation buffer of the processor; timing, so the empty
  waiting loops of \<^verbatim>\<open>pci.c\<close> are left out. The other lines without a definition are comments, code that is
  commented out, includes, prototypes and unused types. The addresses that the
  linker chooses, the memory the boot loader leaves, the results of \<^verbatim>\<open>cpuid\<close> and \<^verbatim>\<open>rdrand\<close> and the hardware
  behind the ports are arguments.
\<close>

end
